(* ===== verification/Prelude.thy ===== *)
theory Prelude
  imports Main "HOL-Library.Word" "HOL-Library.Multiset"
begin

text \<open>
  What every component shares: the machine integer types, the bitwise syntax, the collections of
  facts that the component theories extend, and generic lemmas on words, options and lists.

  Conventions of the whole development.  An operation of the source whose execution may have no
  defined result (an array index out of range, \<open>front()\<close> of an empty queue, a null or dangling
  pointer, a loop that does not end) returns an \<open>option\<close>; \<open>None\<close> stands for exactly those
  executions.  An operation that reports an \<open>Error\<close> returns a sum: \<open>Inl\<close> of the error code or
  \<open>Inr\<close> of the value.
\<close>

unbundle bit_operations_syntax

type_synonym u8 = "8 word"
type_synonym u16 = "16 word"
type_synonym u32 = "32 word"
type_synonym u64 = "64 word"

named_theorems fallible \<open>equations and splits for operations that may have no defined result\<close>
named_theorems layout \<open>sizes and constants of the memory layout\<close>
named_theorems frame \<open>what an operation leaves unchanged\<close>

section \<open>Options as results of fallible operations\<close>

lemma bind_Some_iff [fallible]:
  "(Option.bind x f = Some y) \<longleftrightarrow> (\<exists>z. x = Some z \<and> f z = Some y)"
  by (cases x) auto

lemma map_option_Some_iff [fallible]:
  "(map_option f x = Some y) \<longleftrightarrow> (\<exists>z. x = Some z \<and> f z = y)"
  by (cases x) auto

section \<open>Single bits of machine words\<close>

text \<open>The source tests a bit by masking: \<open>(w & (1 << n)) != 0\<close>.\<close>

lemma and_single_bit_nonzero:
  fixes w :: "'a::len word"
  shows "(w AND 2 ^ n \<noteq> 0) \<longleftrightarrow> bit w n"
proof
  assume "w AND 2 ^ n \<noteq> 0"
  then obtain k where "bit (w AND 2 ^ n) k"
    by (metis bit_0_eq bot_apply bot_bool_def bit_eqI)
  then show "bit w n"
    by (auto simp: bit_and_iff bit_exp_iff)
next
  assume "bit w n"
  moreover from this have "n < LENGTH('a)"
    by (rule bit_imp_le_length)
  ultimately have "bit (w AND 2 ^ n) n"
    by (simp add: bit_and_iff bit_exp_iff)
  then show "w AND 2 ^ n \<noteq> 0"
    by (metis bit_0_eq bot_apply bot_bool_def)
qed

lemma bit_or_single:
  fixes w :: "'a::len word"
  shows "n < LENGTH('a) \<Longrightarrow> bit (w OR 2 ^ n) k \<longleftrightarrow> k = n \<or> bit w k"
  by (auto simp: bit_or_iff bit_exp_iff)

lemma bit_and_not_single:
  fixes w :: "'a::len word"
  shows "bit (w AND NOT (2 ^ n)) k \<longleftrightarrow> k \<noteq> n \<and> bit w k"
  by (auto simp: bit_and_iff bit_not_iff bit_exp_iff dest: bit_imp_le_length)

lemma unat_of_nat_u64: "n < 2 ^ 64 \<Longrightarrow> unat (of_nat n :: u64) = n"
  by (simp add: unat_of_nat)

section \<open>Unsigned 64-bit subtraction on naturals\<close>

text \<open>\<open>size_t\<close> differences wrap around: \<open>sub64 a b\<close> is \<open>a - b\<close> modulo \<open>2^64\<close>.\<close>

definition sub64 :: "nat \<Rightarrow> nat \<Rightarrow> nat" where
  "sub64 a b = (if b \<le> a then a - b else a + 2 ^ 64 - b)"

lemma sub64_le [simp]: "b \<le> a \<Longrightarrow> sub64 a b = a - b"
  by (simp add: sub64_def)

section \<open>Lists\<close>

lemma map_fun_upd_other: "a \<notin> set xs \<Longrightarrow> map (f(a := b)) xs = map f xs"
  by (induction xs) auto

end
