(* ===== verification/ErrorCodes.thy ===== *)
theory ErrorCodes
  imports Prelude
begin

text \<open>
  \<^verbatim>\<open>kernel/error.hpp\<close>: the error codes of the kernel, their printable names and the test
  \<open>operator bool\<close>.  A \<open>WithError<T>\<close> is the sum \<open>Code + T\<close> in the other theories: no caller
  reads the value that accompanies an error.
\<close>

datatype Code =
    kSuccess
  | kNoEnoughMemory
  | kNoSuchTask
  | kInvalidFormat
  | kFull
  | kIsDirectory
  | kNoSuchDirectory
  | kLastOfCode

text \<open>The value of an enumerator, as \<open>static_cast<int>(code_)\<close> reads it.\<close>

fun code_index :: "Code \<Rightarrow> nat" where
  "code_index kSuccess = 0"
| "code_index kNoEnoughMemory = 1"
| "code_index kNoSuchTask = 2"
| "code_index kInvalidFormat = 3"
| "code_index kFull = 4"
| "code_index kIsDirectory = 5"
| "code_index kNoSuchDirectory = 6"
| "code_index kLastOfCode = 7"

definition code_names :: "string list" where
  "code_names =
     [''kSuccess'', ''kNoEnoughEmpty'', ''kNoSuchTask'', ''kInvalidFormat'',
      ''kIsDirectory'', ''kNoSuchDirectory'', ''kFull'']"

text \<open>\<open>Error::Name\<close> indexes the array of names; \<open>kLastOfCode\<close> is past its end.\<close>

definition error_name :: "Code \<Rightarrow> string option" where
  "error_name c = (if code_index c < length code_names then Some (code_names ! code_index c) else None)"

text \<open>\<open>Error::operator bool\<close>.\<close>

definition is_error :: "Code \<Rightarrow> bool" where
  "is_error c \<longleftrightarrow> c \<noteq> kSuccess"

lemma code_index_inject: "code_index c = code_index d \<longleftrightarrow> c = d"
  by (cases c; cases d) simp_all

lemma error_name_defined: "error_name c \<noteq> None \<longleftrightarrow> c \<noteq> kLastOfCode"
  by (cases c) (simp_all add: error_name_def code_names_def)

text \<open>
  The names of the error codes are pairwise different, and every code an operation can return has
  one; but the table is not in the order of the enumeration, so the last three codes print the name
  of another code.
\<close>

theorem error_names_permuted:
  "inj_on error_name {c. c \<noteq> kLastOfCode}
   \<and> (\<forall>c. error_name c = None \<longleftrightarrow> c = kLastOfCode)
   \<and> error_name kFull = Some ''kIsDirectory''
   \<and> error_name kIsDirectory = Some ''kNoSuchDirectory''
   \<and> error_name kNoSuchDirectory = Some ''kFull''"
proof (intro conjI)
  show "inj_on error_name {c. c \<noteq> kLastOfCode}"
  proof (rule inj_onI)
    fix c d
    assume "c \<in> {c. c \<noteq> kLastOfCode}" "d \<in> {c. c \<noteq> kLastOfCode}" "error_name c = error_name d"
    then show "c = d"
      by (cases c; cases d) (simp_all add: error_name_def code_names_def)
  qed
  show "\<forall>c. error_name c = None \<longleftrightarrow> c = kLastOfCode"
    using error_name_defined by blast
qed (simp_all add: error_name_def code_names_def)

end
