(* ===== verification/FrameAllocator.thy ===== *)
theory FrameAllocator
  imports ErrorCodes
begin

text \<open>
  \<^verbatim>\<open>kernel/memory_manager.hpp\<close>, \<^verbatim>\<open>kernel/memory_manager.cpp\<close> and \<^verbatim>\<open>kernel/memory_map.hpp\<close>: the bitmap of
  physical frames, its first-fit search, and its initialisation from the UEFI memory map.

  The bitmap is \<open>std::array<unsigned long, kFrameCount / kBitsPerMapLine>\<close>: a function from line
  indices, where an access at or past \<open>kMapLines\<close> is out of range and has no defined result.  Frame
  numbers are \<open>size_t\<close> values in the source; a run that reaches a frame at or past \<open>kFrameCount\<close>
  either stops there with an error or leaves the array, so no sum of the source wraps around before
  and naturals are exact.
\<close>

section \<open>The bitmap\<close>

definition kBytesPerFrame :: nat where [layout]: "kBytesPerFrame = 4 * 1024"

definition kMaxPhysicalMemoryBytes :: nat where
  [layout]: "kMaxPhysicalMemoryBytes = 128 * (1024 * (1024 * 1024))"

definition kFrameCount :: nat where [layout]: "kFrameCount = kMaxPhysicalMemoryBytes div kBytesPerFrame"

definition kBitsPerMapLine :: nat where [layout]: "kBitsPerMapLine = 8 * 8"

definition kMapLines :: nat where [layout]: "kMapLines = kFrameCount div kBitsPerMapLine"

record BitmapMemoryManager =
  alloc_map :: "nat \<Rightarrow> u64"
  range_begin :: nat
  range_end :: nat

definition new_BitmapMemoryManager :: BitmapMemoryManager where
  "new_BitmapMemoryManager = \<lparr>alloc_map = (\<lambda>_. 0), range_begin = 0, range_end = kFrameCount\<rparr>"

definition GetBit :: "BitmapMemoryManager \<Rightarrow> nat \<Rightarrow> bool option" where
  "GetBit m frame =
     (let line_index = frame div kBitsPerMapLine; bit_index = frame mod kBitsPerMapLine
      in if line_index < kMapLines
         then Some (alloc_map m line_index AND push_bit bit_index 1 \<noteq> 0)
         else None)"

definition SetBit :: "BitmapMemoryManager \<Rightarrow> nat \<Rightarrow> bool \<Rightarrow> BitmapMemoryManager option" where
  "SetBit m frame allocated =
     (let line_index = frame div kBitsPerMapLine; bit_index = frame mod kBitsPerMapLine
      in if line_index < kMapLines
         then Some (m\<lparr>alloc_map := (alloc_map m)(line_index :=
                (if allocated then alloc_map m line_index OR push_bit bit_index 1
                 else alloc_map m line_index AND NOT (push_bit bit_index 1)))\<rparr>)
         else None)"

text \<open>The loop that \<open>Free\<close> and \<open>MarkAllocated\<close> share: \<open>SetBit(start + i, b)\<close> for \<open>i < n\<close>.\<close>

fun SetBits :: "BitmapMemoryManager \<Rightarrow> nat \<Rightarrow> nat \<Rightarrow> bool \<Rightarrow> BitmapMemoryManager option" where
  "SetBits m start 0 b = Some m"
| "SetBits m start (Suc n) b =
     (case SetBit m start b of None \<Rightarrow> None | Some m' \<Rightarrow> SetBits m' (Suc start) n b)"

definition MarkAllocated :: "BitmapMemoryManager \<Rightarrow> nat \<Rightarrow> nat \<Rightarrow> BitmapMemoryManager option" where
  "MarkAllocated m start_frame num_frames = SetBits m start_frame num_frames True"

definition Free :: "BitmapMemoryManager \<Rightarrow> nat \<Rightarrow> nat \<Rightarrow> (BitmapMemoryManager \<times> Code) option" where
  "Free m start_frame num_frames =
     map_option (\<lambda>m'. (m', kSuccess)) (SetBits m start_frame num_frames False)"

definition SetMemoryRange :: "BitmapMemoryManager \<Rightarrow> nat \<Rightarrow> nat \<Rightarrow> BitmapMemoryManager" where
  "SetMemoryRange m b e = m\<lparr>range_begin := b, range_end := e\<rparr>"

text \<open>
  The inner loop of \<open>Allocate\<close>, from index \<open>i\<close> with \<open>k = num_frames - i\<close> frames left: it ends
  because the range ends, because frame \<open>start + i\<close> is taken, or because all frames are free.
\<close>

datatype scan = ScanRangeEnd | ScanTaken nat | ScanFits

fun scan_run :: "BitmapMemoryManager \<Rightarrow> nat \<Rightarrow> nat \<Rightarrow> nat \<Rightarrow> scan option" where
  "scan_run m start i 0 = Some ScanFits"
| "scan_run m start i (Suc k) =
     (if start + i \<ge> range_end m then Some ScanRangeEnd
      else case GetBit m (start + i) of
             None \<Rightarrow> None
           | Some True \<Rightarrow> Some (ScanTaken i)
           | Some False \<Rightarrow> scan_run m start (Suc i) k)"

lemma scan_run_taken: "scan_run m start i k = Some (ScanTaken j) \<Longrightarrow> i \<le> j \<and> start + j < range_end m"
proof (induction k arbitrary: i)
  case (Suc k)
  then show ?case by (fastforce split: if_splits option.splits bool.splits)
qed simp

function Allocate_from :: "BitmapMemoryManager \<Rightarrow> nat \<Rightarrow> nat \<Rightarrow> (Code + BitmapMemoryManager \<times> nat) option" where
  "Allocate_from m num_frames start =
     (case scan_run m start 0 num_frames of
        None \<Rightarrow> None
      | Some ScanRangeEnd \<Rightarrow> Some (Inl kNoEnoughMemory)
      | Some ScanFits \<Rightarrow> map_option (\<lambda>m'. Inr (m', start)) (MarkAllocated m start num_frames)
      | Some (ScanTaken i) \<Rightarrow> Allocate_from m num_frames (start + (i + 1)))"
  by pat_completeness auto
termination
  by (relation "measure (\<lambda>(m, n, start). range_end m - start)") (auto dest: scan_run_taken)

declare Allocate_from.simps [simp del]

definition Allocate :: "BitmapMemoryManager \<Rightarrow> nat \<Rightarrow> (Code + BitmapMemoryManager \<times> nat) option" where
  "Allocate m num_frames = Allocate_from m num_frames (range_begin m)"

section \<open>The set of allocated frames\<close>

definition used :: "BitmapMemoryManager \<Rightarrow> nat \<Rightarrow> bool" where
  "used m frame \<longleftrightarrow> bit (alloc_map m (frame div kBitsPerMapLine)) (frame mod kBitsPerMapLine)"

lemma frame_in_map: "frame div kBitsPerMapLine < kMapLines \<longleftrightarrow> frame < kFrameCount"
  by (simp add: layout div_less_iff_less_mult)

lemma GetBit_eq: "GetBit m frame = (if frame < kFrameCount then Some (used m frame) else None)"
  by (simp add: GetBit_def used_def and_single_bit_nonzero frame_in_map Let_def)

lemma frame_split:
  "(f div kBitsPerMapLine = g div kBitsPerMapLine \<and> f mod kBitsPerMapLine = g mod kBitsPerMapLine) \<longleftrightarrow> f = g"
  by (metis div_mult_mod_eq)

lemma SetBit_Some:
  "SetBit m frame b = Some m' \<Longrightarrow>
     frame < kFrameCount \<and> range_begin m' = range_begin m \<and> range_end m' = range_end m
     \<and> (\<forall>g. used m' g \<longleftrightarrow> (if g = frame then b else used m g))"
proof -
  assume S: "SetBit m frame b = Some m'"
  then have bound: "frame < kFrameCount"
    by (simp add: SetBit_def Let_def frame_in_map split: if_splits)
  let ?l = "frame div kBitsPerMapLine" and ?k = "frame mod kBitsPerMapLine"
  have k: "?k < LENGTH(64)" by (simp add: layout)
  from S bound have m': "m' = m\<lparr>alloc_map := (alloc_map m)(?l :=
      (if b then alloc_map m ?l OR push_bit ?k 1 else alloc_map m ?l AND NOT (push_bit ?k 1)))\<rparr>"
    by (simp add: SetBit_def Let_def frame_in_map split: if_splits)
  have "used m' g \<longleftrightarrow> (if g = frame then b else used m g)" for g
  proof (cases "g div kBitsPerMapLine = ?l")
    case True
    then have "g = frame \<longleftrightarrow> g mod kBitsPerMapLine = ?k" using frame_split [of g frame] by auto
    with True k show ?thesis
      by (cases b) (simp_all add: used_def m' bit_or_single bit_and_not_single)
  next
    case False
    then show ?thesis by (auto simp: used_def m')
  qed
  with bound m' show ?thesis by simp
qed

lemma SetBit_total: "frame < kFrameCount \<Longrightarrow> SetBit m frame b \<noteq> None"
  by (simp add: SetBit_def Let_def frame_in_map)

lemma SetBits_Some:
  "SetBits m start n b = Some m' \<Longrightarrow>
     range_begin m' = range_begin m \<and> range_end m' = range_end m
     \<and> (\<forall>g. used m' g \<longleftrightarrow> (if start \<le> g \<and> g < start + n then b else used m g))
     \<and> (0 < n \<longrightarrow> start + n \<le> kFrameCount)"
proof (induction n arbitrary: m start)
  case (Suc n)
  then obtain m1 where m1: "SetBit m start b = Some m1" and r: "SetBits m1 (Suc start) n b = Some m'"
    by (auto split: option.splits)
  from SetBit_Some [OF m1] Suc.IH [OF r] show ?case
    by (cases n) (auto simp: le_Suc_eq less_Suc_eq)
qed auto

lemma SetBits_total: "start + n \<le> kFrameCount \<Longrightarrow> SetBits m start n b \<noteq> None"
proof (induction n arbitrary: m start)
  case (Suc n)
  then have "SetBit m start b \<noteq> None" by (simp add: SetBit_total)
  with Suc show ?case by (auto split: option.splits)
qed simp

section \<open>First fit\<close>

definition fits :: "BitmapMemoryManager \<Rightarrow> nat \<Rightarrow> nat \<Rightarrow> bool" where
  "fits m start n \<longleftrightarrow> start + n \<le> range_end m \<and> (\<forall>f. start \<le> f \<and> f < start + n \<longrightarrow> \<not> used m f)"

lemma scan_run_result:
  "scan_run m start i k = Some r \<Longrightarrow>
     (case r of
        ScanFits \<Rightarrow> (\<forall>j. i \<le> j \<and> j < i + k \<longrightarrow> start + j < range_end m \<and> \<not> used m (start + j))
      | ScanTaken j \<Rightarrow> i \<le> j \<and> j < i + k \<and> used m (start + j)
      | ScanRangeEnd \<Rightarrow> range_end m < start + i + k)"
proof (induction k arbitrary: i)
  case (Suc k)
  show ?case
  proof (cases "scan_run m start (Suc i) k = Some r \<and> start + i < range_end m \<and> \<not> used m (start + i)")
    case True
    have split: "i \<le> j \<longleftrightarrow> j = i \<or> Suc i \<le> j" for j by auto
    from True show ?thesis
      using Suc.IH [of "Suc i"] by (cases r) (auto simp: split)
  next
    case False
    with Suc.prems show ?thesis
      by (cases r) (auto simp: GetBit_eq split: if_splits option.splits bool.splits)
  qed
qed auto

lemma scan_run_total: "range_end m \<le> kFrameCount \<Longrightarrow> scan_run m start i k \<noteq> None"
proof (induction k arbitrary: i)
  case (Suc k)
  then show ?case by (auto simp: GetBit_eq split: bool.splits)
qed simp

definition first_fit_result ::
  "BitmapMemoryManager \<Rightarrow> nat \<Rightarrow> nat \<Rightarrow> (Code + BitmapMemoryManager \<times> nat) \<Rightarrow> bool" where
  "first_fit_result m n lo r \<longleftrightarrow>
     (case r of
        Inl e \<Rightarrow> e = kNoEnoughMemory \<and> (\<forall>s\<ge>lo. \<not> fits m s n)
      | Inr (m', s) \<Rightarrow>
          lo \<le> s \<and> fits m s n \<and> (\<forall>t. lo \<le> t \<and> t < s \<longrightarrow> \<not> fits m t n)
          \<and> range_begin m' = range_begin m \<and> range_end m' = range_end m
          \<and> (\<forall>f. used m' f \<longleftrightarrow> used m f \<or> s \<le> f \<and> f < s + n))"

lemma first_fit_skip:
  assumes "first_fit_result m n (s + (i + 1)) r" and "i < n" and "used m (s + i)"
  shows "first_fit_result m n s r"
proof -
  have no: "\<not> fits m t n" if "s \<le> t" "t < s + (i + 1)" for t
  proof
    assume "fits m t n"
    moreover have "t \<le> s + i" "s + i < t + n" using that assms(2) by auto
    ultimately show False using assms(3) by (auto simp: fits_def)
  qed
  show ?thesis
  proof (cases r)
    case (Inl e)
    with assms(1) no show ?thesis by (auto simp: first_fit_result_def) (metis Suc_leI not_le)
  next
    case (Inr p)
    then obtain m' t where r: "r = Inr (m', t)" by (cases p) auto
    with assms(1) no show ?thesis
      by (auto simp: first_fit_result_def) (metis Suc_leI not_le)
  qed
qed

lemma Allocate_from_first_fit:
  "Allocate_from m n s = Some r \<Longrightarrow> 0 < n \<Longrightarrow> first_fit_result m n s r"
proof (induction m n s rule: Allocate_from.induct)
  case (1 m n s)
  from "1.prems"(1) obtain c where c: "scan_run m s 0 n = Some c"
    by (auto simp: Allocate_from.simps [of m n s] split: option.splits)
  note res = scan_run_result [OF c]
  show ?case
  proof (cases c)
    case ScanRangeEnd
    with "1.prems" c res show ?thesis
      by (auto simp: Allocate_from.simps [of m n s] first_fit_result_def fits_def)
  next
    case (ScanTaken i)
    with "1.prems"(1) c have "Allocate_from m n (s + (i + 1)) = Some r"
      by (simp add: Allocate_from.simps [of m n s])
    with "1.IH" c ScanTaken "1.prems"(2) have "first_fit_result m n (s + (i + 1)) r" by simp
    with res ScanTaken show ?thesis by (auto intro: first_fit_skip)
  next
    case ScanFits
    with "1.prems"(1) c obtain m' where m': "SetBits m s n True = Some m'" and r: "r = Inr (m', s)"
      by (auto simp: Allocate_from.simps [of m n s] MarkAllocated_def)
    from res ScanFits have all: "\<forall>j<n. s + j < range_end m \<and> \<not> used m (s + j)" by simp
    have "fits m s n"
      unfolding fits_def
    proof (intro conjI allI impI)
      from all "1.prems"(2) have "s + (n - 1) < range_end m" by (metis diff_less zero_less_one)
      with "1.prems"(2) show "s + n \<le> range_end m" by simp
      show "\<not> used m f" if "s \<le> f \<and> f < s + n" for f
        using all that by (metis add_less_cancel_left le_Suc_ex)
    qed
    with SetBits_Some [OF m'] r show ?thesis by (auto simp: first_fit_result_def)
  qed
qed

lemma Allocate_from_total:
  "range_end m \<le> kFrameCount \<Longrightarrow> 0 < n \<Longrightarrow> Allocate_from m n s \<noteq> None"
proof (induction m n s rule: Allocate_from.induct)
  case (1 m n s)
  then obtain c where c: "scan_run m s 0 n = Some c"
    using scan_run_total by fastforce
  show ?case
  proof (cases c)
    case ScanRangeEnd
    with c show ?thesis by (simp add: Allocate_from.simps [of m n s])
  next
    case (ScanTaken i)
    with 1 c show ?thesis by (simp add: Allocate_from.simps [of m n s])
  next
    case ScanFits
    from scan_run_result [OF c] ScanFits have "\<forall>j<n. s + j < range_end m" by simp
    with "1.prems"(2) have "s + (n - 1) < range_end m" by (metis diff_less zero_less_one)
    with "1.prems" have "s + n \<le> kFrameCount" by simp
    with c ScanFits show ?thesis
      by (simp add: Allocate_from.simps [of m n s] MarkAllocated_def SetBits_total)
  qed
qed

lemma Allocate_from_bound:
  "Allocate_from m n s = Some (Inr (m', t)) \<Longrightarrow> 0 < n \<Longrightarrow> t + n \<le> kFrameCount"
proof (induction m n s rule: Allocate_from.induct)
  case (1 m n s)
  then show ?case
    by (auto simp: Allocate_from.simps [of m n s] MarkAllocated_def fallible
        split: option.splits scan.splits dest: SetBits_Some)
qed

lemma Allocate_success:
  assumes "Allocate m n = Some (Inr (m', s))" and "0 < n"
  shows "range_begin m \<le> s" "s + n \<le> range_end m" "s + n \<le> kFrameCount"
    "\<And>f. s \<le> f \<Longrightarrow> f < s + n \<Longrightarrow> \<not> used m f"
    "\<And>f. used m' f \<longleftrightarrow> used m f \<or> s \<le> f \<and> f < s + n"
    "\<And>t. range_begin m \<le> t \<Longrightarrow> t < s \<Longrightarrow> \<not> fits m t n"
  using Allocate_from_first_fit [of m n "range_begin m"] Allocate_from_bound [of m n "range_begin m"] assms
  by (simp_all add: Allocate_def first_fit_result_def fits_def)

lemma scan_run_fits:
  "start + i + k \<le> range_end m \<Longrightarrow> start + i + k \<le> kFrameCount \<Longrightarrow>
     (\<forall>f. start + i \<le> f \<and> f < start + i + k \<longrightarrow> \<not> used m f) \<Longrightarrow> scan_run m start i k = Some ScanFits"
proof (induction k arbitrary: i)
  case (Suc k)
  then show ?case by (simp add: GetBit_eq)
qed simp

lemma Allocate_at_begin:
  assumes "fits m (range_begin m) n" and "range_begin m + n \<le> kFrameCount"
  shows "\<exists>m'. Allocate m n = Some (Inr (m', range_begin m))"
proof -
  let ?s = "range_begin m"
  from assms have "scan_run m ?s 0 n = Some ScanFits"
    by (intro scan_run_fits) (auto simp: fits_def)
  with assms(2) SetBits_total [of ?s n m True] show ?thesis
    by (auto simp: Allocate_def Allocate_from.simps [of m n ?s] MarkAllocated_def)
qed

definition bounded :: "BitmapMemoryManager \<Rightarrow> bool" where
  "bounded m \<longleftrightarrow> range_end m \<le> kFrameCount"

text \<open>A run of free frames inside the bitmap is enough, however far the range of the manager goes.\<close>

lemma scan_run_inside: "start + i + k \<le> kFrameCount \<Longrightarrow> scan_run m start i k \<noteq> None"
proof (induction k arbitrary: i)
  case (Suc k)
  then show ?case by (auto simp: GetBit_eq split: bool.splits)
qed simp

lemma Allocate_from_hits:
  "s \<le> t \<Longrightarrow> fits m t n \<Longrightarrow> t + n \<le> kFrameCount \<Longrightarrow> 0 < n \<Longrightarrow> Allocate_from m n s \<noteq> None"
proof (induction m n s rule: Allocate_from.induct)
  case (1 m n s)
  then have "s + 0 + n \<le> kFrameCount" by simp
  from scan_run_inside [OF this] obtain c where c: "scan_run m s 0 n = Some c" by fast
  note res = scan_run_result [OF c]
  show ?case
  proof (cases c)
    case ScanRangeEnd
    with c show ?thesis by (simp add: Allocate_from.simps [of m n s])
  next
    case (ScanTaken i)
    with res have i: "i < n" "used m (s + i)" by simp_all
    have "s + (i + 1) \<le> t"
    proof (rule ccontr)
      assume "\<not> s + (i + 1) \<le> t"
      with i "1.prems"(1) have "t \<le> s + i" "s + i < t + n" by simp_all
      with i(2) "1.prems"(2) show False by (auto simp: fits_def)
    qed
    with "1.IH" "1.prems" c ScanTaken show ?thesis by (simp add: Allocate_from.simps [of m n s])
  next
    case ScanFits
    with c "1.prems" show ?thesis
      by (simp add: Allocate_from.simps [of m n s] MarkAllocated_def SetBits_total)
  qed
qed

lemma Allocate_hits:
  assumes "t + n \<le> kFrameCount" and "0 < n" and "range_begin m \<le> t" and "fits m t n"
  shows "\<exists>m' u. Allocate m n = Some (Inr (m', u)) \<and> u \<le> t \<and> range_begin m \<le> u \<and> range_begin m' = range_begin m \<and> range_end m' = range_end m
    \<and> (\<forall>f. used m' f \<longleftrightarrow> used m f \<or> u \<le> f \<and> f < u + n)"
proof -
  from Allocate_from_hits [OF assms(3,4,1,2)] obtain r where r: "Allocate_from m n (range_begin m) = Some r" by fast
  note ff = Allocate_from_first_fit [OF r assms(2)]
  show ?thesis
  proof (cases r)
    case (Inl e)
    with ff assms(3,4) show ?thesis by (auto simp: first_fit_result_def)
  next
    case (Inr p)
    then obtain m' u where p: "r = Inr (m', u)" by (cases p) auto
    with ff assms(3,4) have "u \<le> t" by (auto simp: first_fit_result_def not_less [symmetric])
    with ff p r show ?thesis by (auto simp: first_fit_result_def Allocate_def)
  qed
qed

lemma Allocate_succeeds:
  assumes "bounded m" and "0 < n" and "range_begin m \<le> t" and "fits m t n"
  shows "\<exists>m' u. Allocate m n = Some (Inr (m', u)) \<and> u \<le> t \<and> range_begin m' = range_begin m \<and> range_end m' = range_end m
    \<and> (\<forall>f. used m' f \<longleftrightarrow> used m f \<or> u \<le> f \<and> f < u + n)"
  using Allocate_hits [OF _ assms(2-4)] assms(1,4) by (force simp: bounded_def fits_def)


definition demo_manager :: BitmapMemoryManager where
  "demo_manager = \<lparr>alloc_map = (\<lambda>_. 0)(0 := 0b10011), range_begin = 1, range_end = 8\<rparr>"


lemma Allocate_from_exhausted:
  assumes "kFrameCount < range_end m" and "0 < n"
    and "\<forall>f. s \<le> f \<and> f < kFrameCount \<longrightarrow> used m f"
  shows "s \<le> kFrameCount \<Longrightarrow> Allocate_from m n s = None"
  using assms(3)
proof (induction "kFrameCount - s" arbitrary: s)
  case 0
  with assms(1,2) have "scan_run m s 0 n = None"
    by (cases n) (simp_all add: GetBit_eq)
  then show ?case by (simp add: Allocate_from.simps [of m n s])
next
  case (Suc d)
  then have "used m s" and "s < kFrameCount" by auto
  with assms(1,2) have "scan_run m s 0 n = Some (ScanTaken 0)"
    by (cases n) (simp_all add: GetBit_eq)
  moreover have "Allocate_from m n (Suc s) = None"
    by (rule Suc.hyps) (use Suc in auto)
  ultimately show ?case by (simp add: Allocate_from.simps [of m n s])
qed

text \<open>
  Past the bitmap.  When the range ends beyond the bitmap (which is what
  \<open>InitializeMemoryManager\<close> sets up on a machine with more than 32 MiB) and every frame of the bitmap
  from the start of the range is taken, \<open>Allocate\<close> has no defined result: it reads the bitmap out of
  range instead of reporting \<open>kNoEnoughMemory\<close>.
\<close>

theorem Allocate_past_bitmap:
  assumes "kFrameCount < range_end m" and "0 < n" and "range_begin m < kFrameCount"
    and "\<forall>f. range_begin m \<le> f \<and> f < kFrameCount \<longrightarrow> used m f"
  shows "Allocate m n = None"
  using Allocate_from_exhausted [OF assms(1,2,4)] assms(3) by (simp add: Allocate_def)

definition full_manager :: BitmapMemoryManager where
  "full_manager = \<lparr>alloc_map = (\<lambda>_. - 1), range_begin = 1, range_end = kFrameCount + 1\<rparr>"

theorem Allocate_past_bitmap_witness: "Allocate full_manager 2 = None"
proof -
  have "\<forall>f. used full_manager f"
    by (simp add: used_def full_manager_def kBitsPerMapLine_def)
  then show ?thesis
    using Allocate_past_bitmap [of full_manager 2] by (simp add: full_manager_def kFrameCount_def
        kMaxPhysicalMemoryBytes_def kBytesPerFrame_def)
qed

section \<open>The interface of a frame source\<close>

text \<open>
  What the clients of the allocator (page tables, stacks, the heap) rely on: \<open>allocate\<close> hands out
  frames that were free, \<open>release\<close> makes them free again, and neither touches any other frame.
\<close>

locale frame_source =
  fixes allocate :: "'m \<Rightarrow> nat \<Rightarrow> (Code + 'm \<times> nat) option"
    and release :: "'m \<Rightarrow> nat \<Rightarrow> nat \<Rightarrow> ('m \<times> Code) option"
    and taken :: "'m \<Rightarrow> nat \<Rightarrow> bool"
    and sound :: "'m \<Rightarrow> bool"
    and limit :: nat
  assumes allocate_total: "sound m \<Longrightarrow> 0 < n \<Longrightarrow> allocate m n \<noteq> None"
    and allocate_error: "sound m \<Longrightarrow> 0 < n \<Longrightarrow> allocate m n = Some (Inl e) \<Longrightarrow> e = kNoEnoughMemory"
    and allocate_frames: "sound m \<Longrightarrow> 0 < n \<Longrightarrow> allocate m n = Some (Inr (m', s)) \<Longrightarrow>
      sound m' \<and> s + n \<le> limit \<and> (\<forall>f. s \<le> f \<and> f < s + n \<longrightarrow> \<not> taken m f)
      \<and> (\<forall>f. taken m' f \<longleftrightarrow> taken m f \<or> s \<le> f \<and> f < s + n)"
    and release_frames: "sound m \<Longrightarrow> s + n \<le> limit \<Longrightarrow>
      \<exists>m'. release m s n = Some (m', kSuccess) \<and> sound m'
        \<and> (\<forall>f. taken m' f \<longleftrightarrow> taken m f \<and> \<not> (s \<le> f \<and> f < s + n))"
begin

lemma allocations_disjoint:
  assumes "sound m" "0 < n" "0 < k" "allocate m n = Some (Inr (m1, s))" "allocate m1 k = Some (Inr (m2, t))"
  shows "s + n \<le> t \<or> t + k \<le> s"
proof -
  note a = allocate_frames [OF assms(1,2,4)]
  with allocate_frames [OF _ assms(3,5)] have fresh: "\<forall>f. t \<le> f \<and> f < t + k \<longrightarrow> \<not> taken m1 f" by blast
  show ?thesis
  proof (rule ccontr)
    assume "\<not> (s + n \<le> t \<or> t + k \<le> s)"
    then have "s \<le> max s t \<and> max s t < s + n \<and> t \<le> max s t \<and> max s t < t + k"
      using assms(2,3) by auto
    with a fresh show False by blast
  qed
qed

lemma allocate_release:
  assumes "sound m" "0 < n" "allocate m n = Some (Inr (m1, s))"
  shows "\<exists>m2. release m1 s n = Some (m2, kSuccess) \<and> sound m2 \<and> taken m2 = taken m"
proof -
  note a = allocate_frames [OF assms]
  then obtain m2 where "release m1 s n = Some (m2, kSuccess)" "sound m2"
    "\<forall>f. taken m2 f \<longleftrightarrow> taken m1 f \<and> \<not> (s \<le> f \<and> f < s + n)"
    using release_frames [of m1 s n] by blast
  with a show ?thesis by (auto simp: fun_eq_iff)
qed

end

text \<open>The bitmap manager provides it.\<close>

interpretation bitmap: frame_source Allocate Free used bounded kFrameCount
proof
  fix m n
  assume "bounded m" "0 < (n::nat)"
  then show "Allocate m n \<noteq> None"
    by (simp add: Allocate_def bounded_def Allocate_from_total)
next
  fix m n e
  assume "0 < (n::nat)" "Allocate m n = Some (Inl e)"
  then show "e = kNoEnoughMemory"
    using Allocate_from_first_fit by (force simp: Allocate_def first_fit_result_def)
next
  fix m n m' s
  assume "bounded m" "0 < (n::nat)" "Allocate m n = Some (Inr (m', s))"
  then show "bounded m' \<and> s + n \<le> kFrameCount \<and> (\<forall>f. s \<le> f \<and> f < s + n \<longrightarrow> \<not> used m f)
      \<and> (\<forall>f. used m' f \<longleftrightarrow> used m f \<or> s \<le> f \<and> f < s + n)"
    using Allocate_from_first_fit [of m n "range_begin m"]
    by (fastforce simp: Allocate_def first_fit_result_def bounded_def fits_def)
next
  fix m s n
  assume b: "bounded m" "s + n \<le> kFrameCount"
  then obtain m' where m': "SetBits m s n False = Some m'" using SetBits_total by blast
  with b SetBits_Some [OF m'] show "\<exists>m'. Free m s n = Some (m', kSuccess) \<and> bounded m'
      \<and> (\<forall>f. used m' f \<longleftrightarrow> used m f \<and> \<not> (s \<le> f \<and> f < s + n))"
    by (auto simp: Free_def bounded_def)
qed

end
