(* ===== verification/MemoryInit.thy ===== *)
theory MemoryInit
  imports FrameAllocator
begin

text \<open>
  \<^verbatim>\<open>kernel/memory_map.hpp\<close>, \<open>InitializeMemoryManager\<close> of \<^verbatim>\<open>kernel/memory_manager.cpp\<close> and the heap it
  sets up for \<open>sbrk\<close> (\<^verbatim>\<open>kernel/newlib_support.c\<close>).  The memory map is the list of the descriptors that
  the iteration over its buffer visits.
\<close>

section \<open>The UEFI memory map\<close>

record MemoryDescriptor =
  md_type :: u32
  physical_start :: u64
  virtual_start :: u64
  number_of_pages :: u64
  md_attribute :: u64

definition kEfiBootServicesCode :: u32 where [layout]: "kEfiBootServicesCode = 3"
definition kEfiBootServicesData :: u32 where [layout]: "kEfiBootServicesData = 4"
definition kEfiConventionalMemory :: u32 where [layout]: "kEfiConventionalMemory = 7"

definition IsAvailable :: "u32 \<Rightarrow> bool" where
  "IsAvailable memory_type \<longleftrightarrow>
     memory_type = kEfiBootServicesCode \<or> memory_type = kEfiBootServicesData
     \<or> memory_type = kEfiConventionalMemory"

definition kUEFIPageSize :: u64 where [layout]: "kUEFIPageSize = 4096"

text \<open>The loop of \<open>InitializeMemoryManager\<close>, with \<open>available_end\<close> and the manager as its state.\<close>

fun mark_memory_map ::
  "MemoryDescriptor list \<Rightarrow> u64 \<Rightarrow> BitmapMemoryManager \<Rightarrow> (BitmapMemoryManager \<times> u64) option" where
  "mark_memory_map [] available_end m = Some (m, available_end)"
| "mark_memory_map (desc # descs) available_end m =
     Option.bind
       (if available_end < physical_start desc
        then MarkAllocated m (unat (available_end div of_nat kBytesPerFrame))
               (unat ((physical_start desc - available_end) div of_nat kBytesPerFrame))
        else Some m)
       (\<lambda>m1. let physical_end = physical_start desc + number_of_pages desc * kUEFIPageSize
             in if IsAvailable (md_type desc) then mark_memory_map descs physical_end m1
                else Option.bind
                  (MarkAllocated m1 (unat (physical_start desc div of_nat kBytesPerFrame))
                     (unat (number_of_pages desc * kUEFIPageSize div of_nat kBytesPerFrame)))
                  (mark_memory_map descs available_end))"

section \<open>The heap\<close>

definition kHeapFrames :: nat where [layout]: "kHeapFrames = 64 * 512"

record Heap =
  program_break :: u64
  program_break_end :: u64

definition InitializeHeap :: "BitmapMemoryManager \<Rightarrow> (Code + BitmapMemoryManager \<times> Heap) option" where
  "InitializeHeap m =
     (case Allocate m kHeapFrames of
        None \<Rightarrow> None
      | Some (Inl e) \<Rightarrow> Some (Inl e)
      | Some (Inr (m', frame)) \<Rightarrow>
          let brk = of_nat (frame * kBytesPerFrame)
          in Some (Inr (m', \<lparr>program_break = brk,
                             program_break_end = brk + of_nat (kHeapFrames * kBytesPerFrame)\<rparr>)))"

text \<open>
  \<open>InitializeMemoryManager\<close>: \<open>Inl\<close> is the branch that prints the error and calls \<open>exit\<close>.  The end of
  the range is \<open>available_end\<close>, an address in bytes, as it stands in the source.
\<close>

definition InitializeMemoryManager ::
  "MemoryDescriptor list \<Rightarrow> (Code + BitmapMemoryManager \<times> Heap) option" where
  "InitializeMemoryManager memory_map =
     Option.bind (mark_memory_map memory_map 0 new_BitmapMemoryManager)
       (\<lambda>(m, available_end). InitializeHeap (SetMemoryRange m 1 (unat available_end)))"

text \<open>
  \<open>sbrk\<close> of the kernel: pointers are compared and moved modulo \<open>2^64\<close>; \<open>incr\<close> is a signed 32-bit
  \<open>int\<close>.  \<open>None\<close> of the result is \<open>(caddr_t)-1\<close> with \<open>errno = ENOMEM\<close>.
\<close>

definition sbrk :: "Heap \<Rightarrow> 32 word \<Rightarrow> Heap \<times> u64 option" where
  "sbrk h incr =
     (if program_break h = 0 \<or> program_break h + scast incr \<ge> program_break_end h then (h, None)
      else (h\<lparr>program_break := program_break h + scast incr\<rparr>, Some (program_break h)))"

section \<open>Frames of a descriptor\<close>

definition first_frame :: "MemoryDescriptor \<Rightarrow> nat" where
  "first_frame d = unat (physical_start d) div kBytesPerFrame"

definition frame_count :: "MemoryDescriptor \<Rightarrow> nat" where
  "frame_count d = unat (number_of_pages d)"

definition covers :: "MemoryDescriptor \<Rightarrow> nat \<Rightarrow> bool" where
  "covers d f \<longleftrightarrow> first_frame d \<le> f \<and> f < first_frame d + frame_count d"

text \<open>
  The maps UEFI documents: page-aligned regions in ascending order without overlap; here also inside
  the physical memory the bitmap can describe.
\<close>

fun wf_map :: "nat \<Rightarrow> MemoryDescriptor list \<Rightarrow> bool" where
  "wf_map lo [] = (lo \<le> kFrameCount)"
| "wf_map lo (d # ds) =
     (kBytesPerFrame dvd unat (physical_start d) \<and> lo \<le> first_frame d
      \<and> first_frame d + frame_count d \<le> kFrameCount \<and> wf_map (first_frame d + frame_count d) ds)"

lemma wf_map_covers: "wf_map lo ds \<Longrightarrow> d \<in> set ds \<Longrightarrow> covers d f \<Longrightarrow> lo \<le> f"
proof (induction ds arbitrary: lo)
  case (Cons a ds)
  then have "a = d \<or> first_frame a + frame_count a \<le> f" by auto
  with Cons.prems show ?case by (auto simp: covers_def)
qed simp

lemma unat_frame_size [simp]: "unat (of_nat kBytesPerFrame :: u64) = kBytesPerFrame"
  by (simp add: layout)

lemma descriptor_words:
  assumes "kBytesPerFrame dvd unat (physical_start d)"
    and "first_frame d + frame_count d \<le> kFrameCount"
  shows "unat (physical_start d) = kBytesPerFrame * first_frame d"
    and "unat (physical_start d div of_nat kBytesPerFrame) = first_frame d"
    and "unat (number_of_pages d * kUEFIPageSize div of_nat kBytesPerFrame) = frame_count d"
    and "unat (physical_start d + number_of_pages d * kUEFIPageSize)
           = kBytesPerFrame * (first_frame d + frame_count d)"
proof -
  show s: "unat (physical_start d) = kBytesPerFrame * first_frame d"
    using assms(1) by (simp add: first_frame_def)
  show "unat (physical_start d div of_nat kBytesPerFrame) = first_frame d"
    by (simp add: unat_div first_frame_def)
  have p: "unat (number_of_pages d * kUEFIPageSize) = kBytesPerFrame * frame_count d"
    using assms(2) by (simp add: unat_word_ariths frame_count_def layout)
  then show "unat (number_of_pages d * kUEFIPageSize div of_nat kBytesPerFrame) = frame_count d"
    by (simp add: unat_div layout)
  show "unat (physical_start d + number_of_pages d * kUEFIPageSize)
      = kBytesPerFrame * (first_frame d + frame_count d)"
    using assms(2) p s by (simp add: unat_word_ariths(1) layout)
qed

lemma gap_words:
  assumes "kBytesPerFrame dvd unat (physical_start d)" and "unat ae = kBytesPerFrame * e"
  shows "ae < physical_start d \<longleftrightarrow> e < first_frame d"
    and "unat (ae div of_nat kBytesPerFrame) = e"
    and "e < first_frame d \<Longrightarrow>
           unat ((physical_start d - ae) div of_nat kBytesPerFrame) = first_frame d - e"
proof -
  have s: "unat (physical_start d) = kBytesPerFrame * first_frame d"
    using assms(1) by (simp add: first_frame_def)
  show lt: "ae < physical_start d \<longleftrightarrow> e < first_frame d"
    by (simp add: word_less_nat_alt s assms(2) layout)
  show "unat (ae div of_nat kBytesPerFrame) = e"
    by (simp add: unat_div assms(2) layout)
  assume "e < first_frame d"
  then have "unat (physical_start d - ae) = kBytesPerFrame * first_frame d - kBytesPerFrame * e"
    using lt s assms(2) by (simp add: unat_sub less_imp_le)
  then show "unat ((physical_start d - ae) div of_nat kBytesPerFrame) = first_frame d - e"
    by (simp add: unat_div layout flip: diff_mult_distrib2)
qed

lemma MarkAllocated_total:
  assumes "s + n \<le> kFrameCount"
  shows "\<exists>m'. MarkAllocated m s n = Some m' \<and> (\<forall>f. used m' f \<longleftrightarrow> used m f \<or> s \<le> f \<and> f < s + n)"
proof -
  from SetBits_total [OF assms] obtain m' where "SetBits m s n True = Some m'" by blast
  with SetBits_Some [OF this] show ?thesis by (auto simp: MarkAllocated_def)
qed

lemma mark_gap:
  assumes "kBytesPerFrame dvd unat (physical_start d)" and "unat ae = kBytesPerFrame * e"
    and "first_frame d \<le> kFrameCount"
  obtains m1 where
    "(if ae < physical_start d
      then MarkAllocated m (unat (ae div of_nat kBytesPerFrame))
             (unat ((physical_start d - ae) div of_nat kBytesPerFrame))
      else Some m) = Some m1"
    and "\<And>f. used m1 f \<longleftrightarrow> used m f \<or> e \<le> f \<and> f < first_frame d"
proof (cases "e < first_frame d")
  case True
  then have "e + (first_frame d - e) \<le> kFrameCount" using assms(3) by simp
  then obtain m' where "MarkAllocated m e (first_frame d - e) = Some m'"
    "\<forall>f. used m' f \<longleftrightarrow> used m f \<or> e \<le> f \<and> f < e + (first_frame d - e)"
    using MarkAllocated_total [of e "first_frame d - e" m] by blast
  with True gap_words [OF assms(1,2)] show ?thesis
    by (intro that [of m']) auto
next
  case False
  show ?thesis
    by (rule that [of m]) (use False gap_words [OF assms(1,2)] in auto)
qed

definition available_at :: "MemoryDescriptor list \<Rightarrow> nat \<Rightarrow> bool" where
  "available_at descs f \<longleftrightarrow> (\<exists>d\<in>set descs. IsAvailable (md_type d) \<and> covers d f)"

lemma available_at_Cons:
  "available_at (d # ds) f \<longleftrightarrow> IsAvailable (md_type d) \<and> covers d f \<or> available_at ds f"
  by (auto simp: available_at_def)

lemma available_at_above: "wf_map lo ds \<Longrightarrow> available_at ds f \<Longrightarrow> lo \<le> f"
  by (auto simp: available_at_def dest: wf_map_covers)

lemma wf_map_bound: "wf_map lo ds \<Longrightarrow> lo \<le> kFrameCount"
  by (cases ds) auto

lemma mark_memory_map_exact:
  assumes "wf_map lo descs" and "unat ae = kBytesPerFrame * e" and "e \<le> lo"
    and "\<forall>f\<ge>lo. \<not> used m f"
  shows "\<exists>m' ae' e'. mark_memory_map descs ae m = Some (m', ae')
    \<and> unat ae' = kBytesPerFrame * e' \<and> e \<le> e' \<and> e' \<le> kFrameCount
    \<and> (\<forall>f<e. used m' f \<longleftrightarrow> used m f)
    \<and> (\<forall>f. e \<le> f \<and> f < e' \<longrightarrow> (used m' f \<longleftrightarrow> \<not> available_at descs f))
    \<and> (\<forall>f. available_at descs f \<longrightarrow> f < e')"
  using assms
proof (induction descs arbitrary: lo ae e m)
  case Nil
  then show ?case by (auto simp: available_at_def)
next
  case (Cons d ds)
  let ?a = "first_frame d" and ?z = "first_frame d + frame_count d"
  from Cons.prems(1) have dvd: "kBytesPerFrame dvd unat (physical_start d)" and lo: "lo \<le> ?a"
    and top: "?z \<le> kFrameCount" and ds: "wf_map ?z ds" by auto
  note w = descriptor_words [OF dvd top]
  obtain m1 where m1: "(if ae < physical_start d
      then MarkAllocated m (unat (ae div of_nat kBytesPerFrame))
             (unat ((physical_start d - ae) div of_nat kBytesPerFrame))
      else Some m) = Some m1"
    and u1: "\<And>f. used m1 f \<longleftrightarrow> used m f \<or> e \<le> f \<and> f < ?a"
    using mark_gap [OF dvd Cons.prems(2)] top by (metis add_leD1)
  note above = available_at_above [OF ds]
  show ?case
  proof (cases "IsAvailable (md_type d)")
    case True
    have "\<forall>f\<ge>?z. \<not> used m1 f" using u1 Cons.prems(4) lo by auto
    from Cons.IH [OF ds w(4) order_refl this] obtain m' ae' e' where
      r: "mark_memory_map ds (physical_start d + number_of_pages d * kUEFIPageSize) m1 = Some (m', ae')"
        "unat ae' = kBytesPerFrame * e'" "?z \<le> e'" "e' \<le> kFrameCount"
      and old: "\<forall>f<?z. used m' f \<longleftrightarrow> used m1 f"
      and new: "\<forall>f. ?z \<le> f \<and> f < e' \<longrightarrow> (used m' f \<longleftrightarrow> \<not> available_at ds f)"
      and cov: "\<forall>f. available_at ds f \<longrightarrow> f < e'" by blast
    have "used m' f \<longleftrightarrow> \<not> available_at (d # ds) f" if "e \<le> f" "f < e'" for f
    proof (cases "f < ?z")
      case lt: True
      with above [of f] have "\<not> available_at ds f" by auto
      with lt True old u1 that Cons.prems(4) lo show ?thesis
        by (auto simp: available_at_Cons covers_def)
    next
      case False
      with new that show ?thesis by (auto simp: available_at_Cons covers_def)
    qed
    moreover have "\<forall>f<e. used m' f \<longleftrightarrow> used m f" using old u1 Cons.prems(3) lo by auto
    moreover have "mark_memory_map (d # ds) ae m = Some (m', ae')"
      using True r(1) m1 by (simp add: Let_def)
    moreover have "\<forall>f. available_at (d # ds) f \<longrightarrow> f < e'"
      using cov r(3) by (auto simp: available_at_Cons covers_def)
    moreover have "e \<le> e'" using r(3) Cons.prems(3) lo by linarith
    ultimately show ?thesis using r by blast
  next
    case False
    obtain m2 where m2: "MarkAllocated m1 ?a (frame_count d) = Some m2"
      and u2: "\<And>f. used m2 f \<longleftrightarrow> used m1 f \<or> ?a \<le> f \<and> f < ?z"
      using MarkAllocated_total [OF top, of m1] by blast
    have free: "\<forall>f\<ge>?z. \<not> used m2 f" using u1 u2 Cons.prems(4) lo by auto
    have "e \<le> ?z" using Cons.prems(3) lo by simp
    from Cons.IH [OF ds Cons.prems(2) this free] obtain m' ae' e' where
      r: "mark_memory_map ds ae m2 = Some (m', ae')"
        "unat ae' = kBytesPerFrame * e'" "e \<le> e'" "e' \<le> kFrameCount"
      and old: "\<forall>f<e. used m' f \<longleftrightarrow> used m2 f"
      and new: "\<forall>f. e \<le> f \<and> f < e' \<longrightarrow> (used m' f \<longleftrightarrow> \<not> available_at ds f)"
      and cov: "\<forall>f. available_at ds f \<longrightarrow> f < e'" by blast
    have "\<forall>f<e. used m' f \<longleftrightarrow> used m f" using old u1 u2 Cons.prems(3) lo by auto
    moreover have "mark_memory_map (d # ds) ae m = Some (m', ae')"
      using False r(1) m1 m2 by (simp add: Let_def w)
    moreover have "available_at (d # ds) = available_at ds"
      using False by (simp add: available_at_Cons fun_eq_iff)
    ultimately show ?thesis using r new cov by auto
  qed
qed

section \<open>The state after initialisation\<close>

definition heap_frame :: "Heap \<Rightarrow> nat \<Rightarrow> bool" where
  "heap_frame h f \<longleftrightarrow>
     unat (program_break h) \<le> kBytesPerFrame * f \<and> kBytesPerFrame * f < unat (program_break_end h)"

lemma InitializeMemoryManager_run:
  assumes "wf_map 0 descs"
  obtains m e where "mark_memory_map descs 0 new_BitmapMemoryManager = Some (m, of_nat (kBytesPerFrame * e))"
    and "unat (of_nat (kBytesPerFrame * e) :: u64) = kBytesPerFrame * e"
    and "InitializeMemoryManager descs = InitializeHeap (SetMemoryRange m 1 (kBytesPerFrame * e))"
    and "e \<le> kFrameCount"
    and "\<And>f. f < e \<Longrightarrow> used m f \<longleftrightarrow> \<not> available_at descs f"
    and "\<And>f. available_at descs f \<Longrightarrow> f < e"
proof -
  have "\<forall>f\<ge>0. \<not> used new_BitmapMemoryManager f"
    by (simp add: used_def new_BitmapMemoryManager_def)
  from mark_memory_map_exact [OF assms _ order_refl this, of 0] obtain m ae e where
    r: "mark_memory_map descs 0 new_BitmapMemoryManager = Some (m, ae)" "unat ae = kBytesPerFrame * e"
      "e \<le> kFrameCount" "\<forall>f. 0 \<le> f \<and> f < e \<longrightarrow> (used m f \<longleftrightarrow> \<not> available_at descs f)"
      "\<forall>f. available_at descs f \<longrightarrow> f < e" by auto
  moreover from r(2) have "ae = of_nat (kBytesPerFrame * e)" by (metis of_nat_unat ucast_id)
  ultimately show ?thesis by (intro that [of m e]) (auto simp: InitializeMemoryManager_def)
qed

lemma heap_frame_eq:
  assumes "s + kHeapFrames \<le> kFrameCount"
  shows "heap_frame \<lparr>program_break = of_nat (s * kBytesPerFrame),
      program_break_end = of_nat (s * kBytesPerFrame) + of_nat (kHeapFrames * kBytesPerFrame)\<rparr> f
    \<longleftrightarrow> s \<le> f \<and> f < s + kHeapFrames"
proof -
  from assms have s: "s \<le> 2 ^ 25" by (simp add: layout)
  have "unat (of_nat (s * kBytesPerFrame) :: u64) = kBytesPerFrame * s"
    using s by (subst unat_of_nat_u64) (simp_all add: layout)
  moreover have "unat (of_nat (s * kBytesPerFrame) + of_nat (kHeapFrames * kBytesPerFrame) :: u64)
      = kBytesPerFrame * (s + kHeapFrames)"
    using s unfolding of_nat_add [symmetric]
    by (subst unat_of_nat_u64) (simp_all add: layout)
  ultimately show ?thesis by (auto simp: heap_frame_def layout)
qed

lemma InitializeHeap_success:
  assumes "InitializeHeap m = Some (Inr (m', h))"
  shows "\<exists>s. Allocate m kHeapFrames = Some (Inr (m', s)) \<and> s + kHeapFrames \<le> kFrameCount
    \<and> (\<forall>f. heap_frame h f \<longleftrightarrow> s \<le> f \<and> f < s + kHeapFrames)
    \<and> h = \<lparr>program_break = of_nat (s * kBytesPerFrame),
          program_break_end = of_nat (s * kBytesPerFrame) + of_nat (kHeapFrames * kBytesPerFrame)\<rparr>"
proof -
  from assms obtain s where a: "Allocate m kHeapFrames = Some (Inr (m', s))"
    and h: "h = \<lparr>program_break = of_nat (s * kBytesPerFrame),
          program_break_end = of_nat (s * kBytesPerFrame) + of_nat (kHeapFrames * kBytesPerFrame)\<rparr>"
    by (auto simp: InitializeHeap_def Let_def split: option.splits sum.splits)
  from Allocate_success(3) [OF a] have "s + kHeapFrames \<le> kFrameCount" by (simp add: layout)
  with a h heap_frame_eq show ?thesis by blast
qed


definition conventional :: "u64 \<Rightarrow> u64 \<Rightarrow> MemoryDescriptor" where
  "conventional start pages = \<lparr>md_type = kEfiConventionalMemory, physical_start = start,
     virtual_start = 0, number_of_pages = pages, md_attribute = 0\<rparr>"

lemma conventional_simps [simp]:
  "IsAvailable (md_type (conventional s p))" "physical_start (conventional s p) = s"
  "number_of_pages (conventional s p) = p" "frame_count (conventional s p) = unat p"
  "first_frame (conventional s p) = unat s div kBytesPerFrame"
  by (simp_all add: conventional_def IsAvailable_def frame_count_def first_frame_def)

lemma used_SetMemoryRange [simp]: "used (SetMemoryRange m b e) = used m"
  by (simp add: fun_eq_iff used_def SetMemoryRange_def)

lemma SetMemoryRange_simps [simp]:
  "range_begin (SetMemoryRange m b e) = b" "range_end (SetMemoryRange m b e) = e"
  by (simp_all add: SetMemoryRange_def)

lemma InitializeHeap_at_begin:
  assumes "fits m 1 kHeapFrames" and "range_begin m = 1"
  shows "\<exists>m'. InitializeHeap m = Some (Inr (m', \<lparr>program_break = 4096, program_break_end = 4096 + 2 ^ 27\<rparr>))"
  using Allocate_at_begin [of m kHeapFrames] assms by (auto simp: InitializeHeap_def layout)

definition demo_map :: "MemoryDescriptor list" where
  "demo_map = [conventional 0x1000 40000]"

lemma demo_map_facts:
  "wf_map 0 demo_map" "available_at demo_map f \<longleftrightarrow> 1 \<le> f \<and> f < 40001"
  by (auto simp: demo_map_def available_at_def covers_def layout)

lemma demo_map_initialized:
  "\<exists>m. InitializeMemoryManager demo_map
         = Some (Inr (m, \<lparr>program_break = 4096, program_break_end = 4096 + 2 ^ 27\<rparr>))"
proof -
  obtain m e where init: "InitializeMemoryManager demo_map = InitializeHeap (SetMemoryRange m 1 (kBytesPerFrame * e))"
    and u: "\<And>f. f < e \<Longrightarrow> used m f \<longleftrightarrow> \<not> available_at demo_map f"
    and top: "\<And>f. available_at demo_map f \<Longrightarrow> f < e"
    using InitializeMemoryManager_run [OF demo_map_facts(1)] by metis
  from top [of 40000] have e: "40000 < e" by (simp add: demo_map_facts)
  with u have "\<forall>f. 1 \<le> f \<and> f < 1 + kHeapFrames \<longrightarrow> \<not> used m f" by (auto simp: demo_map_facts layout)
  with e have "fits (SetMemoryRange m 1 (kBytesPerFrame * e)) 1 kHeapFrames"
    by (auto simp: fits_def layout)
  from InitializeHeap_at_begin [OF this] init show ?thesis by simp
qed


text \<open>
  The end of the range is passed in bytes where a frame number is expected, so the manager hands
  out frames that do not exist: with a single region of \<open>p\<close> pages of memory, \<open>9 \<le> p \<le> 8192\<close>
  (36 KiB to 32 MiB), initialisation reports success with a heap of 128 MiB that starts at
  4096 and ends beyond the memory.
\<close>

theorem InitializeMemoryManager_heap_overrun:
  assumes "9 \<le> p" and "p \<le> 8192"
  shows "\<exists>m. InitializeMemoryManager [conventional 0 (of_nat p)]
             = Some (Inr (m, \<lparr>program_break = 4096, program_break_end = 4096 + 2 ^ 27\<rparr>))
           \<and> kBytesPerFrame * p < 4096 + 2 ^ 27"
proof -
  have p: "unat (of_nat p * 4096 :: u64) = 4096 * p"
    using assms unat_of_nat_u64 [of "p * 4096"] by simp
  let ?m = "SetMemoryRange new_BitmapMemoryManager 1 (4096 * p)"
  have "fits ?m 1 kHeapFrames"
    using assms by (simp add: fits_def layout used_def new_BitmapMemoryManager_def)
  from InitializeHeap_at_begin [OF this] show ?thesis
    using assms by (simp add: InitializeMemoryManager_def p layout Let_def)
qed

theorem InitializeMemoryManager_heap_overrun_witness:
  "\<exists>m. InitializeMemoryManager [conventional 0 4096]
         = Some (Inr (m, \<lparr>program_break = 4096, program_break_end = 4096 + 2 ^ 27\<rparr>))"
  using InitializeMemoryManager_heap_overrun [of 4096] by auto



end
