(* ===== verification/Messages.thy ===== *)
theory Messages
  imports Prelude
begin

text \<open>
  \<^verbatim>\<open>kernel/message.hpp\<close>: the messages tasks exchange.  The tagged union is a datatype with one
  constructor per \<open>Message::Type\<close>; every reader of the source looks at the type first.  The pipe arm
  is \<open>char data[16]\<close> with its length byte; only the first \<open>len\<close> bytes carry data.
\<close>

datatype Message =
    kTimerTimeout (timer_timeout: u64) (timer_value: int)
  | kKeyboardPush (keycode: u16)
  | kPipe (pipe_data: "u8 list") (pipe_len: u8)

definition kPipeDataBytes :: nat where [layout]: "kPipeDataBytes = 16"

end
