(* ===== verification/Tasks.thy ===== *)
theory Tasks
  imports Messages ErrorCodes
begin

text \<open>
  \<^verbatim>\<open>kernel/task.hpp\<close> and \<^verbatim>\<open>kernel/task.cpp\<close>: tasks, their contexts, and the multi-level run queues of
  \<open>TaskManager\<close>.

  A \<open>Task *\<close> is the id of its task: ids are never reused (\<open>++latest_id_\<close>, a 64-bit counter), and
  \<open>tasks_\<close> owns each task at a fixed address.  A pointer whose task has been erased dangles, and using
  it has no defined result.  \<open>std::array<std::deque<Task *>, 4> running_\<close> is a function from levels to
  lists; an access past \<open>kMaxLevel\<close> and \<open>front()\<close> of an empty queue have no defined result.  The
  operations that switch tasks also take and return the register state of the processor, which
  \<open>SwitchContext\<close> and \<open>RestoreContext\<close> move from and to the \<open>TaskContext\<close> of a task.
\<close>

section \<open>Contexts and tasks\<close>

record TaskContext =
  ctx_cr3 :: u64
  ctx_rip :: u64
  ctx_rflags :: u64
  ctx_reserved1 :: u64
  ctx_cs :: u64
  ctx_ss :: u64
  ctx_fs :: u64
  ctx_gs :: u64
  ctx_rax :: u64
  ctx_rbx :: u64
  ctx_rcx :: u64
  ctx_rdx :: u64
  ctx_rdi :: u64
  ctx_rsi :: u64
  ctx_rsp :: u64
  ctx_rbp :: u64
  ctx_r8_r15 :: "u64 list"
  ctx_fxsave_area :: "u8 list"

definition blank_context :: TaskContext where
  "blank_context = \<lparr>ctx_cr3 = 0, ctx_rip = 0, ctx_rflags = 0, ctx_reserved1 = 0, ctx_cs = 0,
     ctx_ss = 0, ctx_fs = 0, ctx_gs = 0, ctx_rax = 0, ctx_rbx = 0, ctx_rcx = 0, ctx_rdx = 0,
     ctx_rdi = 0, ctx_rsi = 0, ctx_rsp = 0, ctx_rbp = 0, ctx_r8_r15 = replicate 8 0,
     ctx_fxsave_area = replicate 512 0\<rparr>"

definition kDefaultStackBytes :: nat where [layout]: "kDefaultStackBytes = 4096"
definition kDefaultLevel :: nat where [layout]: "kDefaultLevel = 1"
definition kMaxLevel :: nat where [layout]: "kMaxLevel = 3"
definition kKernelCS :: u16 where [layout]: "kKernelCS = push_bit 3 1"
definition kKernelSS :: u16 where [layout]: "kKernelSS = push_bit 3 2"

record Task =
  task_id :: nat
  stack_words :: nat
  ctx :: TaskContext
  msgs :: "Message list"
  level :: nat
  running :: bool
  os_stack_ptr :: u64
  files :: "nat option list"

text \<open>
  The constructor \<open>Task(id)\<close>.  The source leaves the context and the saved stack pointer
  uninitialised; the model gives them the value 0.  An element of \<open>files_\<close> is a
  \<open>shared_ptr<FileDescriptor>\<close>: the number of a descriptor object, or null.
\<close>

definition new_Task :: "nat \<Rightarrow> Task" where
  "new_Task i = \<lparr>task_id = i, stack_words = 0, ctx = blank_context, msgs = [],
     level = kDefaultLevel, running = False, os_stack_ptr = 0, files = []\<rparr>"

text \<open>
  \<open>Task::InitContext(f, data)\<close>.  The page table register and the end of the freshly sized stack are
  inputs (\<open>GetCR3()\<close> and the address the vector's allocation has).
\<close>

definition InitContext :: "u64 \<Rightarrow> u64 \<Rightarrow> u64 \<Rightarrow> u64 \<Rightarrow> Task \<Rightarrow> Task" where
  "InitContext cr3 stack_end f data t =
     t\<lparr>stack_words := kDefaultStackBytes div 8,
       ctx := blank_context
         \<lparr>ctx_cr3 := cr3, ctx_rflags := 0x202, ctx_cs := ucast kKernelCS, ctx_ss := ucast kKernelSS,
          ctx_rsp := (stack_end AND NOT 0xf) - 8, ctx_rip := f, ctx_rdi := of_nat (task_id t),
          ctx_rsi := data,
          ctx_fxsave_area := (replicate 512 0)[24 := 0x80, 25 := 0x1f, 26 := 0, 27 := 0]\<rparr>\<rparr>"

text \<open>\<open>Task::AllocateFD\<close>: the first null slot, or a new null slot at the end.\<close>

fun first_null :: "nat \<Rightarrow> nat option list \<Rightarrow> nat option" where
  "first_null i [] = None"
| "first_null i (f # fs) = (case f of None \<Rightarrow> Some i | Some _ \<Rightarrow> first_null (Suc i) fs)"

definition AllocateFD :: "Task \<Rightarrow> Task \<times> nat" where
  "AllocateFD t =
     (case first_null 0 (files t) of
        Some i \<Rightarrow> (t, i)
      | None \<Rightarrow> (t\<lparr>files := files t @ [None]\<rparr>, length (files t)))"

section \<open>The task manager\<close>

record TaskManager =
  tasks :: "Task list"
  latest_id :: nat
  run_queue :: "nat \<Rightarrow> nat list"
  current_level :: nat
  level_changed :: bool
  finish_tasks :: "nat \<rightharpoonup> int"
  finish_waiter :: "nat \<rightharpoonup> nat"

definition find_task :: "TaskManager \<Rightarrow> nat \<Rightarrow> Task option" where
  "find_task tm i = List.find (\<lambda>t. task_id t = i) (tasks tm)"

definition update_task :: "nat \<Rightarrow> (Task \<Rightarrow> Task) \<Rightarrow> TaskManager \<Rightarrow> TaskManager" where
  "update_task i f tm = tm\<lparr>tasks := map (\<lambda>t. if task_id t = i then f t else t) (tasks tm)\<rparr>"

definition set_queue :: "nat \<Rightarrow> nat list \<Rightarrow> TaskManager \<Rightarrow> TaskManager" where
  "set_queue lv q tm = tm\<lparr>run_queue := (run_queue tm)(lv := q)\<rparr>"

text \<open>\<open>NewTask\<close> returns a reference to the new task: its id.\<close>

definition NewTask :: "TaskManager \<Rightarrow> TaskManager \<times> nat" where
  "NewTask tm =
     (let i = latest_id tm + 1
      in (tm\<lparr>latest_id := i, tasks := tasks tm @ [new_Task i]\<rparr>, i))"

definition CurrentTask :: "TaskManager \<Rightarrow> nat option" where
  "CurrentTask tm = (case run_queue tm (current_level tm) of [] \<Rightarrow> None | t # _ \<Rightarrow> Some t)"

text \<open>The loop \<open>for (lv = kMaxLevel; lv >= 0; --lv)\<close> that picks the highest non-empty queue.\<close>

fun highest_level :: "(nat \<Rightarrow> nat list) \<Rightarrow> nat \<Rightarrow> nat option" where
  "highest_level q 0 = (if q 0 \<noteq> [] then Some 0 else None)"
| "highest_level q (Suc lv) = (if q (Suc lv) \<noteq> [] then Some (Suc lv) else highest_level q lv)"

definition select_level :: "TaskManager \<Rightarrow> TaskManager" where
  "select_level tm =
     (case highest_level (run_queue tm) kMaxLevel of
        None \<Rightarrow> tm
      | Some lv \<Rightarrow> tm\<lparr>current_level := lv\<rparr>)"

definition RotateCurrentRunQueue :: "bool \<Rightarrow> TaskManager \<Rightarrow> (TaskManager \<times> nat) option" where
  "RotateCurrentRunQueue current_sleep tm =
     (case run_queue tm (current_level tm) of
        [] \<Rightarrow> None
      | current_task # rest \<Rightarrow>
          let q = (if current_sleep then rest else rest @ [current_task]);
              tm1 = set_queue (current_level tm) q tm;
              tm2 = (if q = [] then tm1\<lparr>level_changed := True\<rparr> else tm1);
              tm3 = (if level_changed tm2 then select_level (tm2\<lparr>level_changed := False\<rparr>) else tm2)
          in Some (tm3, current_task))"

section \<open>Switching tasks\<close>

definition set_context :: "nat \<Rightarrow> TaskContext \<Rightarrow> TaskManager \<Rightarrow> TaskManager" where
  "set_context i c = update_task i (\<lambda>t. t\<lparr>ctx := c\<rparr>)"

text \<open>\<open>RestoreContext\<close> loads the processor from a task; \<open>SwitchContext\<close> saves it first.\<close>

definition RestoreContext :: "nat \<Rightarrow> TaskManager \<Rightarrow> (TaskManager \<times> TaskContext) option" where
  "RestoreContext next tm =
     (case find_task tm next of None \<Rightarrow> None | Some t \<Rightarrow> Some (tm, ctx t))"

definition SwitchContext :: "nat \<Rightarrow> nat \<Rightarrow> TaskManager \<times> TaskContext \<Rightarrow> (TaskManager \<times> TaskContext) option" where
  "SwitchContext next current = (\<lambda>(tm, cpu). RestoreContext next (set_context current cpu tm))"

text \<open>
  \<open>SwitchTask\<close>, called from the timer interrupt with the interrupted registers.  When the head of the
  queue did not change, the interrupt returns to the interrupted registers.
\<close>

definition SwitchTask :: "TaskContext \<Rightarrow> TaskManager \<Rightarrow> (TaskManager \<times> TaskContext) option" where
  "SwitchTask current_ctx tm =
     Option.bind (CurrentTask tm) (\<lambda>cur.
     Option.bind (RotateCurrentRunQueue False (set_context cur current_ctx tm)) (\<lambda>(tm1, current_task).
     Option.bind (CurrentTask tm1) (\<lambda>next.
       if next \<noteq> current_task then RestoreContext next tm1 else Some (tm1, current_ctx))))"

definition Sleep :: "nat \<Rightarrow> TaskManager \<times> TaskContext \<Rightarrow> (TaskManager \<times> TaskContext) option" where
  "Sleep task = (\<lambda>(tm, cpu).
     Option.bind (find_task tm task) (\<lambda>t.
       if \<not> running t then Some (tm, cpu)
       else let tm1 = update_task task (\<lambda>t. t\<lparr>running := False\<rparr>) tm
            in Option.bind (CurrentTask tm1) (\<lambda>front.
                 if task = front
                 then Option.bind (RotateCurrentRunQueue True tm1) (\<lambda>(tm2, current_task).
                      Option.bind (CurrentTask tm2) (\<lambda>next.
                        SwitchContext next current_task (tm2, cpu)))
                 else if level t \<le> kMaxLevel
                 then Some (set_queue (level t) (removeAll task (run_queue tm1 (level t))) tm1, cpu)
                 else None)))"

definition Sleep_id :: "nat \<Rightarrow> TaskManager \<times> TaskContext \<Rightarrow> (Code + TaskManager \<times> TaskContext) option" where
  "Sleep_id i s =
     (case find_task (fst s) i of
        None \<Rightarrow> Some (Inl kNoSuchTask)
      | Some _ \<Rightarrow> map_option Inr (Sleep i s))"

section \<open>Waking tasks\<close>

definition ChangeLevelRunning :: "nat \<Rightarrow> int \<Rightarrow> TaskManager \<Rightarrow> TaskManager option" where
  "ChangeLevelRunning task lv tm =
     Option.bind (find_task tm task) (\<lambda>t.
       if lv < 0 \<or> lv = int (level t) then Some tm
       else let l = nat lv in
         if l > kMaxLevel then None
         else Option.bind (CurrentTask tm) (\<lambda>front.
           if task \<noteq> front \<and> level t > kMaxLevel then None
           else if task \<noteq> front
           then let tm1 = set_queue (level t) (removeAll task (run_queue tm (level t))) tm;
                    tm2 = set_queue l (run_queue tm1 l @ [task]) tm1;
                    tm3 = update_task task (\<lambda>t. t\<lparr>level := l\<rparr>) tm2
                in Some (if l > current_level tm then tm3\<lparr>level_changed := True\<rparr> else tm3)
           else let tm1 = set_queue (current_level tm) (tl (run_queue tm (current_level tm))) tm;
                    tm2 = set_queue l (task # run_queue tm1 l) tm1;
                    tm3 = update_task task (\<lambda>t. t\<lparr>level := l\<rparr>) tm2
                in Some (if l \<ge> current_level tm then tm3\<lparr>current_level := l\<rparr>
                         else tm3\<lparr>current_level := l, level_changed := True\<rparr>)))"

definition Wakeup :: "nat \<Rightarrow> int \<Rightarrow> TaskManager \<Rightarrow> TaskManager option" where
  "Wakeup task lv tm =
     Option.bind (find_task tm task) (\<lambda>t.
       if running t then ChangeLevelRunning task lv tm
       else let l = (if lv < 0 then level t else nat lv);
                tm1 = update_task task (\<lambda>t. t\<lparr>level := l, running := True\<rparr>) tm
            in if l > kMaxLevel then None
               else let tm2 = set_queue l (run_queue tm1 l @ [task]) tm1
                    in Some (if l > current_level tm2 then tm2\<lparr>level_changed := True\<rparr> else tm2))"

definition Wakeup_id :: "nat \<Rightarrow> int \<Rightarrow> TaskManager \<Rightarrow> (Code + TaskManager) option" where
  "Wakeup_id i lv tm =
     (case find_task tm i of None \<Rightarrow> Some (Inl kNoSuchTask) | Some _ \<Rightarrow> map_option Inr (Wakeup i lv tm))"

section \<open>Messages\<close>

text \<open>\<open>Task::SendMessage\<close> and \<open>Task::ReceiveMessage\<close> on the task with a given id.\<close>

definition Task_SendMessage :: "nat \<Rightarrow> Message \<Rightarrow> TaskManager \<Rightarrow> TaskManager option" where
  "Task_SendMessage i msg tm =
     Wakeup i (- 1) (update_task i (\<lambda>t. t\<lparr>msgs := msgs t @ [msg]\<rparr>) tm)"

definition ReceiveMessage :: "nat \<Rightarrow> TaskManager \<Rightarrow> (TaskManager \<times> Message option) option" where
  "ReceiveMessage i tm =
     (case find_task tm i of
        None \<Rightarrow> None
      | Some t \<Rightarrow> (case msgs t of
            [] \<Rightarrow> Some (tm, None)
          | m # _ \<Rightarrow> Some (update_task i (\<lambda>t. t\<lparr>msgs := tl (msgs t)\<rparr>) tm, Some m)))"

definition SendMessage :: "nat \<Rightarrow> Message \<Rightarrow> TaskManager \<Rightarrow> (Code + TaskManager) option" where
  "SendMessage i msg tm =
     (case find_task tm i of
        None \<Rightarrow> Some (Inl kNoSuchTask)
      | Some _ \<Rightarrow> map_option Inr (Task_SendMessage i msg tm))"

section \<open>Finishing tasks\<close>

definition erase_task :: "nat \<Rightarrow> TaskManager \<Rightarrow> TaskManager" where
  "erase_task i tm = tm\<lparr>tasks := filter (\<lambda>t. task_id t \<noteq> i) (tasks tm)\<rparr>"

definition Finish :: "int \<Rightarrow> TaskManager \<Rightarrow> (TaskManager \<times> TaskContext) option" where
  "Finish exit_code tm =
     Option.bind (RotateCurrentRunQueue True tm) (\<lambda>(tm1, current_task).
       let tm2 = erase_task current_task tm1;
           tm3 = tm2\<lparr>finish_tasks := (finish_tasks tm2)(current_task \<mapsto> exit_code)\<rparr>
       in Option.bind
            (case finish_waiter tm3 current_task of
               None \<Rightarrow> Some tm3
             | Some waiter \<Rightarrow>
                 Wakeup waiter (- 1) (tm3\<lparr>finish_waiter := (finish_waiter tm3)(current_task := None)\<rparr>))
            (\<lambda>tm4. Option.bind (CurrentTask tm4) (\<lambda>next. RestoreContext next tm4)))"

text \<open>
  One round of the loop of \<open>WaitFinish\<close> for the task that called it: it returns the exit code of
  \<open>task\<close>, or registers the caller and puts it to sleep; the caller runs the next round when it is
  scheduled again.
\<close>

definition WaitFinish_round ::
  "nat \<Rightarrow> nat \<Rightarrow> TaskManager \<times> TaskContext \<Rightarrow> ((TaskManager \<times> TaskContext) \<times> int option) option" where
  "WaitFinish_round task caller = (\<lambda>(tm, cpu).
     case finish_tasks tm task of
       Some exit_code \<Rightarrow> Some ((tm\<lparr>finish_tasks := (finish_tasks tm)(task := None)\<rparr>, cpu), Some exit_code)
     | None \<Rightarrow>
         map_option (\<lambda>s. (s, None))
           (Sleep caller (tm\<lparr>finish_waiter := (finish_waiter tm)(task \<mapsto> caller)\<rparr>, cpu)))"

section \<open>The initial manager\<close>

text \<open>
  \<open>TaskManager::TaskManager()\<close>: task 1 is the code that is running, on the highest level; task 2 is
  \<open>TaskIdle\<close> on level 0.
\<close>

definition new_TaskManager :: "u64 \<Rightarrow> u64 \<Rightarrow> u64 \<Rightarrow> TaskManager" where
  "new_TaskManager cr3 stack_end idle_entry =
     (let tm0 = \<lparr>tasks = [], latest_id = 0, run_queue = (\<lambda>_. []), current_level = kMaxLevel,
                 level_changed = False, finish_tasks = Map.empty, finish_waiter = Map.empty\<rparr>;
          (tm1, task) = NewTask tm0;
          tm2 = update_task task (\<lambda>t. t\<lparr>level := current_level tm1, running := True\<rparr>) tm1;
          tm3 = set_queue (current_level tm2) (run_queue tm2 (current_level tm2) @ [task]) tm2;
          (tm4, idle) = NewTask tm3;
          tm5 = update_task idle
                  (\<lambda>t. (InitContext cr3 stack_end idle_entry 0 t)\<lparr>level := 0, running := True\<rparr>) tm4
      in set_queue 0 (run_queue tm5 0 @ [idle]) tm5)"

end
