(* ===== verification/SchedulerInvariant.thy ===== *)
theory SchedulerInvariant
  imports Tasks
begin

text \<open>
  The invariant that ties the run queues of \<open>TaskManager\<close> to the tasks, and its preservation by every
  operation of \<^verbatim>\<open>kernel/task.cpp\<close>.
\<close>

section \<open>Looking tasks up\<close>

lemma find_task_id: "find_task tm i = Some t \<Longrightarrow> task_id t = i"
  by (auto simp: find_task_def find_Some_iff)

lemma find_task_in: "find_task tm i = Some t \<Longrightarrow> t \<in> set (tasks tm)"
  by (auto simp: find_task_def find_Some_iff)

lemma find_map_key:
  "(\<And>t. task_id (f t) = task_id t) \<Longrightarrow>
     List.find (\<lambda>t. task_id t = j) (map (\<lambda>t. if task_id t = i then f t else t) ts)
       = (if j = i then map_option f (List.find (\<lambda>t. task_id t = i) ts)
          else List.find (\<lambda>t. task_id t = j) ts)"
  by (induction ts) auto

lemma find_task_update:
  "(\<And>t. task_id (f t) = task_id t) \<Longrightarrow>
     find_task (update_task i f tm) j = (if j = i then map_option f (find_task tm i) else find_task tm j)"
  by (simp add: find_task_def update_task_def find_map_key)

lemma find_filter_key:
  "List.find (\<lambda>t. task_id t = j) (filter (\<lambda>t. task_id t \<noteq> i) ts)
     = (if j = i then None else List.find (\<lambda>t. task_id t = j) ts)"
  by (induction ts) auto

lemma find_task_erase: "find_task (erase_task i tm) j = (if j = i then None else find_task tm j)"
  by (simp add: find_task_def erase_task_def find_filter_key)

lemma find_append_key:
  "List.find P (xs @ ys) = (case List.find P xs of None \<Rightarrow> List.find P ys | Some x \<Rightarrow> Some x)"
  by (induction xs) auto

lemma find_task_NewTask:
  assumes "\<forall>t\<in>set (tasks tm). task_id t \<le> latest_id tm"
  shows "find_task (fst (NewTask tm)) j
           = (if j = latest_id tm + 1 then Some (new_Task j) else find_task tm j)"
proof -
  have "find_task tm (latest_id tm + 1) = None"
    using assms by (fastforce simp: find_task_def find_None_iff)
  then show ?thesis
    by (auto simp: find_task_def NewTask_def Let_def find_append_key new_Task_def split: option.split)
qed

lemma update_task_frame [simp]:
  "latest_id (update_task i f tm) = latest_id tm" "run_queue (update_task i f tm) = run_queue tm"
  "current_level (update_task i f tm) = current_level tm"
  "level_changed (update_task i f tm) = level_changed tm"
  "finish_tasks (update_task i f tm) = finish_tasks tm"
  "finish_waiter (update_task i f tm) = finish_waiter tm"
  by (simp_all add: update_task_def)

lemma set_queue_frame [simp]:
  "latest_id (set_queue lv q tm) = latest_id tm" "tasks (set_queue lv q tm) = tasks tm"
  "run_queue (set_queue lv q tm) = (run_queue tm)(lv := q)"
  "current_level (set_queue lv q tm) = current_level tm"
  "level_changed (set_queue lv q tm) = level_changed tm"
  "finish_tasks (set_queue lv q tm) = finish_tasks tm"
  "finish_waiter (set_queue lv q tm) = finish_waiter tm"
  by (simp_all add: set_queue_def)

lemma erase_task_frame [simp]:
  "latest_id (erase_task i tm) = latest_id tm" "run_queue (erase_task i tm) = run_queue tm"
  "current_level (erase_task i tm) = current_level tm"
  "level_changed (erase_task i tm) = level_changed tm"
  "finish_tasks (erase_task i tm) = finish_tasks tm"
  "finish_waiter (erase_task i tm) = finish_waiter tm"
  by (simp_all add: erase_task_def)

lemma find_task_tasks: "tasks tm = tasks tm' \<Longrightarrow> find_task tm = find_task tm'"
  by (simp add: find_task_def fun_eq_iff)

lemma find_task_frame [simp]:
  "find_task (set_queue lv q tm) = find_task tm"
  "find_task (tm\<lparr>run_queue := rq\<rparr>) = find_task tm"
  "find_task (tm\<lparr>current_level := n\<rparr>) = find_task tm"
  "find_task (tm\<lparr>level_changed := b\<rparr>) = find_task tm"
  "find_task (tm\<lparr>finish_tasks := ft\<rparr>) = find_task tm"
  "find_task (tm\<lparr>finish_waiter := fw\<rparr>) = find_task tm"
  by (simp_all add: find_task_def set_queue_def fun_eq_iff)

lemma CurrentTask_eq: "CurrentTask tm = Some t \<longleftrightarrow> (\<exists>q. run_queue tm (current_level tm) = t # q)"
  by (auto simp: CurrentTask_def split: list.split)

section \<open>The invariant\<close>

definition ids_inv :: "TaskManager \<Rightarrow> bool" where
  "ids_inv tm \<longleftrightarrow> distinct (map task_id (tasks tm))
     \<and> (\<forall>t\<in>set (tasks tm). task_id t \<le> latest_id tm \<and> level t \<le> kMaxLevel)"

text \<open>Each queue holds exactly the runnable tasks of its level, once.\<close>

definition queue_inv :: "TaskManager \<Rightarrow> bool" where
  "queue_inv tm \<longleftrightarrow>
     (\<forall>lv i. i \<in> set (run_queue tm lv) \<longleftrightarrow>
        (\<exists>t. find_task tm i = Some t \<and> running t \<and> level t = lv))
     \<and> (\<forall>lv. distinct (run_queue tm lv))"

text \<open>
  Unless \<open>level_changed_\<close> announces a re-selection, no queue above the current level holds a task.
\<close>

definition level_inv :: "TaskManager \<Rightarrow> bool" where
  "level_inv tm \<longleftrightarrow> run_queue tm (current_level tm) \<noteq> []
     \<and> (\<not> level_changed tm \<longrightarrow> (\<forall>lv>current_level tm. run_queue tm lv = []))"

text \<open>A registered waiter exists, and waits for a task that has not left an exit code.\<close>

definition waiter_inv :: "TaskManager \<Rightarrow> bool" where
  "waiter_inv tm \<longleftrightarrow>
     (\<forall>i w. finish_waiter tm i = Some w \<longrightarrow> find_task tm w \<noteq> None \<and> finish_tasks tm i = None)"

definition kIdleTask :: nat where "kIdleTask = 2"

definition idle_inv :: "TaskManager \<Rightarrow> bool" where
  "idle_inv tm \<longleftrightarrow> (\<exists>t. find_task tm kIdleTask = Some t \<and> running t)"

definition sched_inv :: "TaskManager \<Rightarrow> bool" where
  "sched_inv tm \<longleftrightarrow> ids_inv tm \<and> queue_inv tm \<and> level_inv tm \<and> waiter_inv tm \<and> idle_inv tm"

lemma queue_inv_level: "queue_inv tm \<Longrightarrow> ids_inv tm \<Longrightarrow> run_queue tm lv \<noteq> [] \<Longrightarrow> lv \<le> kMaxLevel"
  unfolding queue_inv_def ids_inv_def
  by (metis find_task_in list.set_intros(1) neq_Nil_conv)

lemma ids_inv_update:
  assumes "ids_inv tm" and "\<And>t. task_id (f t) = task_id t" and "\<And>t. level t \<le> kMaxLevel \<Longrightarrow> level (f t) \<le> kMaxLevel"
  shows "ids_inv (update_task i f tm)"
proof -
  have "map task_id (tasks (update_task i f tm)) = map task_id (tasks tm)"
    using assms(2) by (simp add: update_task_def)
  then show ?thesis
    using assms by (auto simp: ids_inv_def) (auto simp: update_task_def)
qed

lemma ids_inv_tasks: "ids_inv tm \<Longrightarrow> tasks tm' = tasks tm \<Longrightarrow> latest_id tm' = latest_id tm \<Longrightarrow> ids_inv tm'"
  by (simp add: ids_inv_def)

text \<open>An update that changes neither the level nor the running flag of a task keeps everything.\<close>

lemma sched_inv_update:
  assumes "sched_inv tm"
    and "\<And>t. task_id (f t) = task_id t" "\<And>t. level (f t) = level t" "\<And>t. running (f t) = running t"
  shows "sched_inv (update_task i f tm)"
  using assms ids_inv_update [of tm f i]
  by (auto simp: sched_inv_def queue_inv_def level_inv_def waiter_inv_def idle_inv_def
      find_task_update split: if_splits)

lemma sched_inv_set_context: "sched_inv tm \<Longrightarrow> sched_inv (set_context i c tm)"
  by (simp add: set_context_def sched_inv_update)

lemma sched_inv_current: "sched_inv tm \<Longrightarrow> CurrentTask tm \<noteq> None"
  by (auto simp: sched_inv_def level_inv_def CurrentTask_def split: list.split)

section \<open>Rotation\<close>

lemma highest_level_Some:
  "highest_level q n = Some l \<Longrightarrow> l \<le> n \<and> q l \<noteq> [] \<and> (\<forall>lv. l < lv \<and> lv \<le> n \<longrightarrow> q lv = [])"
  by (induction n) (auto simp: le_Suc_eq split: if_splits)

lemma highest_level_None: "highest_level q n = None \<Longrightarrow> lv \<le> n \<Longrightarrow> q lv = []"
  by (induction n) (auto simp: le_Suc_eq split: if_splits)

lemma select_level_frame [simp]:
  "tasks (select_level tm) = tasks tm" "latest_id (select_level tm) = latest_id tm"
  "run_queue (select_level tm) = run_queue tm" "level_changed (select_level tm) = level_changed tm"
  "finish_tasks (select_level tm) = finish_tasks tm" "finish_waiter (select_level tm) = finish_waiter tm"
  by (simp_all add: select_level_def split: option.split)

lemma Rotate_total:
  "run_queue tm (current_level tm) \<noteq> [] \<Longrightarrow> RotateCurrentRunQueue b tm \<noteq> None"
  by (auto simp: RotateCurrentRunQueue_def Let_def neq_Nil_conv)

lemma Rotate_Some:
  assumes "RotateCurrentRunQueue b tm = Some (tm', t)"
  shows "\<exists>rest. run_queue tm (current_level tm) = t # rest
      \<and> run_queue tm' = (run_queue tm)(current_level tm := if b then rest else rest @ [t])"
    and "tasks tm' = tasks tm" "latest_id tm' = latest_id tm" "finish_tasks tm' = finish_tasks tm"
    "finish_waiter tm' = finish_waiter tm" "\<not> level_changed tm'"
  using assms by (auto simp: RotateCurrentRunQueue_def Let_def split: list.splits if_splits)

lemma Rotate_find [simp]: "RotateCurrentRunQueue b tm = Some (tm', t) \<Longrightarrow> find_task tm' = find_task tm"
  by (rule find_task_tasks) (rule Rotate_Some)

text \<open>
  After a rotation the current level is the highest level with a runnable task, if there is one.
\<close>

lemma Rotate_level:
  assumes r: "RotateCurrentRunQueue b tm = Some (tm', t)"
    and max: "\<forall>lv. run_queue tm lv \<noteq> [] \<longrightarrow> lv \<le> kMaxLevel"
    and some: "\<exists>lv. run_queue tm' lv \<noteq> []"
    and above: "\<not> level_changed tm \<longrightarrow> (\<forall>lv>current_level tm. run_queue tm lv = [])"
  shows "run_queue tm' (current_level tm') \<noteq> [] \<and> (\<forall>lv>current_level tm'. run_queue tm' lv = [])"
proof -
  let ?l = "current_level tm"
  from r obtain rest where q: "run_queue tm ?l = t # rest" by (auto dest!: Rotate_Some(1))
  define q' where "q' = (if b then rest else rest @ [t])"
  define tm2 where "tm2 = (if q' = [] then (set_queue ?l q' tm)\<lparr>level_changed := True\<rparr> else set_queue ?l q' tm)"
  have l2: "run_queue tm2 = (run_queue tm)(?l := q')" "current_level tm2 = ?l"
    by (simp_all add: tm2_def)
  have tm': "tm' = (if level_changed tm2 then select_level (tm2\<lparr>level_changed := False\<rparr>) else tm2)"
    using r q unfolding RotateCurrentRunQueue_def Let_def q'_def tm2_def
    by (simp only: list.case option.inject prod.inject)
  show ?thesis
  proof (cases "level_changed tm2")
    case False
    with tm' have "tm' = tm2" "q' \<noteq> []" "\<not> level_changed tm" by (auto simp: tm2_def split: if_splits)
    with l2 above show ?thesis by auto
  next
    case True
    with tm' have t2: "tm' = select_level (tm2\<lparr>level_changed := False\<rparr>)" by simp
    have max': "lv \<le> kMaxLevel" if "run_queue tm2 lv \<noteq> []" for lv
      using that max l2 q by (auto split: if_splits)
    from some t2 obtain lv where lv: "run_queue tm2 lv \<noteq> []" by auto
    with max' highest_level_None [of "run_queue tm2" kMaxLevel lv]
    obtain h where h: "highest_level (run_queue tm2) kMaxLevel = Some h" by fastforce
    note highest_level_Some [OF h]
    moreover from h t2 have "run_queue tm' = run_queue tm2" "current_level tm' = h"
      by (simp_all add: select_level_def)
    ultimately show ?thesis using max' by (metis not_le)
  qed
qed

lemma queue_inv_rotate:
  assumes "RotateCurrentRunQueue False tm = Some (tm', t)" and "queue_inv tm"
  shows "queue_inv tm'"
proof -
  from Rotate_Some(1) [OF assms(1)] obtain rest where
    "run_queue tm (current_level tm) = t # rest"
    "run_queue tm' = (run_queue tm)(current_level tm := rest @ [t])" by auto
  then have "set (run_queue tm' lv) = set (run_queue tm lv)"
    and "distinct (run_queue tm' lv) = distinct (run_queue tm lv)" for lv by auto
  with assms show ?thesis by (simp add: queue_inv_def)
qed

lemma sched_inv_queue_max: "sched_inv tm \<Longrightarrow> \<forall>lv. run_queue tm lv \<noteq> [] \<longrightarrow> lv \<le> kMaxLevel"
  using queue_inv_level by (auto simp: sched_inv_def)

lemma sched_inv_rotate:
  assumes "RotateCurrentRunQueue False tm = Some (tm', t)" and "sched_inv tm"
  shows "sched_inv tm'" and "\<forall>lv>current_level tm'. run_queue tm' lv = []"
proof -
  note r = Rotate_Some [OF assms(1)]
  have "\<exists>lv. run_queue tm' lv \<noteq> []" using r(1) by fastforce
  with assms have l: "run_queue tm' (current_level tm') \<noteq> [] \<and> (\<forall>lv>current_level tm'. run_queue tm' lv = [])"
    by (intro Rotate_level [OF assms(1) sched_inv_queue_max]) (auto simp: sched_inv_def level_inv_def)
  then show "\<forall>lv>current_level tm'. run_queue tm' lv = []" by blast
  from l r assms show "sched_inv tm'"
    by (auto simp: sched_inv_def level_inv_def ids_inv_def waiter_inv_def idle_inv_def
        intro: queue_inv_rotate)
qed

section \<open>The timer tick: \<open>SwitchTask\<close>\<close>

lemma find_set_context:
  "find_task (set_context i c tm) j = (if j = i then map_option (\<lambda>t. t\<lparr>ctx := c\<rparr>) (find_task tm i) else find_task tm j)"
  by (simp add: set_context_def find_task_update)

lemma set_context_frame [simp]:
  "run_queue (set_context i c tm) = run_queue tm" "current_level (set_context i c tm) = current_level tm"
  "level_changed (set_context i c tm) = level_changed tm" "latest_id (set_context i c tm) = latest_id tm"
  "finish_tasks (set_context i c tm) = finish_tasks tm" "finish_waiter (set_context i c tm) = finish_waiter tm"
  by (simp_all add: set_context_def)

lemma sched_inv_current_task:
  assumes "sched_inv tm" and "CurrentTask tm = Some t"
  shows "\<exists>k. find_task tm t = Some k \<and> running k \<and> level k = current_level tm"
  using assms by (fastforce simp: sched_inv_def queue_inv_def CurrentTask_eq)

lemma SwitchTask_run:
  assumes "sched_inv tm"
  shows "\<exists>cur tm1 next k. CurrentTask tm = Some cur
    \<and> RotateCurrentRunQueue False (set_context cur c tm) = Some (tm1, cur)
    \<and> sched_inv tm1 \<and> (\<forall>lv>current_level tm1. run_queue tm1 lv = [])
    \<and> CurrentTask tm1 = Some next \<and> find_task tm1 next = Some k \<and> SwitchTask c tm = Some (tm1, ctx k)"
proof -
  from sched_inv_current [OF assms] obtain cur where cur: "CurrentTask tm = Some cur" by blast
  let ?tm0 = "set_context cur c tm"
  have inv0: "sched_inv ?tm0" using assms by (rule sched_inv_set_context)
  from cur have "run_queue ?tm0 (current_level ?tm0) \<noteq> []" by (auto simp: CurrentTask_eq)
  from Rotate_total [OF this] obtain tm1 t where r0: "RotateCurrentRunQueue False ?tm0 = Some (tm1, t)" by fastforce
  with Rotate_Some(1) [OF r0] cur have r: "RotateCurrentRunQueue False ?tm0 = Some (tm1, cur)"
    by (auto simp: CurrentTask_eq)
  note inv1 = sched_inv_rotate [OF r inv0]
  from sched_inv_current [OF inv1(1)] obtain n where n: "CurrentTask tm1 = Some n" by blast
  from sched_inv_current_task [OF inv1(1) n] obtain k where k: "find_task tm1 n = Some k" by blast
  have "SwitchTask c tm = Some (tm1, ctx k)"
  proof (cases "n = cur")
    case True
    with k r have "find_task ?tm0 cur = Some k" by simp
    then have "ctx k = c" by (auto simp: find_set_context fallible)
    with cur r n True show ?thesis by (simp add: SwitchTask_def)
  next
    case False
    with cur r n k show ?thesis by (simp add: SwitchTask_def RestoreContext_def)
  qed
  with cur r inv1 n k show ?thesis by blast
qed

section \<open>Leaving a run queue\<close>

lemma queue_inv_cong:
  "queue_inv tm \<Longrightarrow> run_queue tm' = run_queue tm \<Longrightarrow> find_task tm' = find_task tm \<Longrightarrow> queue_inv tm'"
  by (simp add: queue_inv_def)

lemma queue_inv_unique:
  "queue_inv tm \<Longrightarrow> i \<in> set (run_queue tm lv) \<Longrightarrow> i \<in> set (run_queue tm lv') \<Longrightarrow> lv = lv'"
  unfolding queue_inv_def by (metis option.inject)

lemma queue_inv_stop:
  assumes "queue_inv tm" and "find_task tm i = Some t" and "running t"
  shows "queue_inv (set_queue (level t) (removeAll i (run_queue tm (level t)))
           (update_task i (\<lambda>t. t\<lparr>running := False\<rparr>) tm))"
  using assms by (auto simp: queue_inv_def find_task_update distinct_removeAll split: if_splits)

lemma queue_inv_erase:
  assumes "queue_inv tm" and "find_task tm i = Some t" and "running t"
  shows "queue_inv (set_queue (level t) (removeAll i (run_queue tm (level t))) (erase_task i tm))"
  using assms by (auto simp: queue_inv_def find_task_erase distinct_removeAll split: if_splits)

lemma idle_queued: "sched_inv tm \<Longrightarrow> \<exists>lv. kIdleTask \<in> set (run_queue tm lv)"
  by (auto simp: sched_inv_def idle_inv_def queue_inv_def)

lemma ids_inv_running: "ids_inv tm \<Longrightarrow> ids_inv (update_task i (\<lambda>t. t\<lparr>running := b\<rparr>) tm)"
  by (rule ids_inv_update) auto

text \<open>Removing the current task from its queue leaves the idle task to select.\<close>

lemma Rotate_sleep:
  assumes inv: "sched_inv tm" and cur: "CurrentTask tm = Some i" and "i \<noteq> kIdleTask"
  shows "\<exists>tm' rest next k. RotateCurrentRunQueue True tm = Some (tm', i)
    \<and> run_queue tm (current_level tm) = i # rest
    \<and> run_queue tm' = (run_queue tm)(current_level tm := removeAll i (run_queue tm (current_level tm)))
    \<and> level_inv tm' \<and> (\<forall>lv>current_level tm'. run_queue tm' lv = [])
    \<and> CurrentTask tm' = Some next \<and> next \<noteq> i \<and> find_task tm next = Some k \<and> running k"
proof -
  from cur obtain rest where q: "run_queue tm (current_level tm) = i # rest" by (auto simp: CurrentTask_eq)
  then obtain tm' j where r0: "RotateCurrentRunQueue True tm = Some (tm', j)"
    using Rotate_total [of tm True] by fastforce
  with Rotate_Some(1) [OF r0] q have r: "RotateCurrentRunQueue True tm = Some (tm', i)"
    and q': "run_queue tm' = (run_queue tm)(current_level tm := rest)" by auto
  from inv q have "distinct (i # rest)" by (metis queue_inv_def sched_inv_def)
  then have rest: "rest = removeAll i (run_queue tm (current_level tm))" by (simp add: q removeAll_id)
  obtain lv where "kIdleTask \<in> set (run_queue tm lv)" using idle_queued [OF inv] by blast
  with q' q assms(3) have "kIdleTask \<in> set (run_queue tm' lv)" by (auto split: if_splits)
  then have "\<exists>lv. run_queue tm' lv \<noteq> []" by (metis empty_iff list.set(1))
  with inv have l: "run_queue tm' (current_level tm') \<noteq> [] \<and> (\<forall>lv>current_level tm'. run_queue tm' lv = [])"
    by (intro Rotate_level [OF r sched_inv_queue_max]) (auto simp: sched_inv_def level_inv_def)
  then obtain nx n where n: "run_queue tm' (current_level tm') = nx # n" by (auto simp: neq_Nil_conv)
  then have "nx \<in> set (run_queue tm' (current_level tm'))" by simp
  moreover have "lv = current_level tm" if "i \<in> set (run_queue tm lv)" for lv
    using that q queue_inv_unique [of tm i lv "current_level tm"] inv by (simp add: sched_inv_def)
  ultimately have "nx \<in> set (run_queue tm (current_level tm'))" "nx \<noteq> i"
    using q' rest by (auto split: if_splits)
  moreover from this(1) inv obtain k where "find_task tm nx = Some k" "running k"
    by (auto simp: sched_inv_def queue_inv_def)
  ultimately show ?thesis using r q q' rest l n by (fastforce simp: level_inv_def CurrentTask_eq)
qed

section \<open>\<open>Sleep\<close>\<close>

abbreviation stop_task :: "nat \<Rightarrow> TaskManager \<Rightarrow> TaskManager" where
  "stop_task i \<equiv> update_task i (\<lambda>t. t\<lparr>running := False\<rparr>)"

lemma select_level_update_task: "select_level (update_task i f tm) = update_task i f (select_level tm)"
  by (simp add: select_level_def update_task_def split: option.split)

lemma Rotate_update_task:
  "RotateCurrentRunQueue b (update_task i f tm)
     = map_option (\<lambda>(tm', t). (update_task i f tm', t)) (RotateCurrentRunQueue b tm)"
proof -
  have a: "set_queue lv q (update_task i f tm) = update_task i f (set_queue lv q tm)" for lv q
    by (simp add: update_task_def set_queue_def)
  have b: "(update_task i f tm)\<lparr>level_changed := x\<rparr> = update_task i f (tm\<lparr>level_changed := x\<rparr>)" for x tm
    by (simp add: update_task_def)
  show ?thesis
    by (auto simp: RotateCurrentRunQueue_def Let_def a b select_level_update_task split: list.split)
qed

lemma CurrentTask_update_task [simp]: "CurrentTask (update_task i f tm) = CurrentTask tm"
  by (simp add: CurrentTask_def)

lemma sched_inv_stopped:
  assumes inv: "sched_inv tm" and t: "find_task tm i = Some t" "running t" and i: "i \<noteq> kIdleTask"
    and q: "run_queue tm' = (run_queue tm)(level t := removeAll i (run_queue tm (level t)))"
    and same: "tasks tm' = tasks tm" "latest_id tm' = latest_id tm" "finish_tasks tm' = finish_tasks tm"
      "finish_waiter tm' = finish_waiter tm"
    and l: "level_inv tm'"
  shows "sched_inv (stop_task i tm')"
proof -
  have "ids_inv (stop_task i tm')"
    using inv same by (intro ids_inv_running) (simp add: sched_inv_def ids_inv_def)
  moreover have "find_task (stop_task i tm') = find_task (stop_task i tm)"
    using same by (intro find_task_tasks) (simp add: update_task_def)
  then have f: "find_task (stop_task i tm') j
      = (if j = i then Some (t\<lparr>running := False\<rparr>) else find_task tm j)" for j
    using t by (simp add: find_task_update)
  have "queue_inv (stop_task i tm')"
    by (rule queue_inv_cong [OF queue_inv_stop [OF _ t]])
      (use inv q f t in \<open>auto simp: sched_inv_def fun_eq_iff find_task_update\<close>)
  moreover have "waiter_inv (stop_task i tm')" "idle_inv (stop_task i tm')"
    using inv f i same by (auto simp: sched_inv_def waiter_inv_def idle_inv_def)
  ultimately show ?thesis using l by (simp add: sched_inv_def level_inv_def)
qed

lemma Sleep_stopped:
  "find_task tm i = Some t \<Longrightarrow> \<not> running t \<Longrightarrow> Sleep i (tm, cpu) = Some (tm, cpu)"
  by (simp add: Sleep_def)

lemma Sleep_other:
  assumes inv: "sched_inv tm" and t: "find_task tm i = Some t" "running t" and i: "i \<noteq> kIdleTask"
    and cur: "CurrentTask tm \<noteq> Some i"
  shows "\<exists>tm'. Sleep i (tm, cpu) = Some (tm', cpu) \<and> sched_inv tm' \<and> CurrentTask tm' = CurrentTask tm
    \<and> (\<forall>j. find_task tm' j = (if j = i then Some (t\<lparr>running := False\<rparr>) else find_task tm j))"
proof -
  let ?tm' = "set_queue (level t) (removeAll i (run_queue tm (level t))) tm"
  from sched_inv_current [OF inv] obtain c where c: "CurrentTask tm = Some c" by blast
  with cur have ci: "c \<noteq> i" by simp
  from inv t have "level t \<le> kMaxLevel" by (auto simp: sched_inv_def ids_inv_def dest: find_task_in)
  then have s: "Sleep i (tm, cpu) = Some (stop_task i ?tm', cpu)"
    using t c ci by (simp add: Sleep_def Let_def set_queue_def update_task_def CurrentTask_def)
  from c obtain q where q: "run_queue tm (current_level tm) = c # q" by (auto simp: CurrentTask_eq)
  with inv ci have l: "level_inv ?tm'" by (auto simp: sched_inv_def level_inv_def)
  have "sched_inv (stop_task i ?tm')"
    by (rule sched_inv_stopped [OF inv t i]) (simp_all add: l)
  moreover have "CurrentTask (stop_task i ?tm') = CurrentTask tm"
    using q ci by (auto simp: CurrentTask_def)
  ultimately show ?thesis using s t by (simp add: find_task_update)
qed

lemma Sleep_current:
  assumes inv: "sched_inv tm" and cur: "CurrentTask tm = Some i" and i: "i \<noteq> kIdleTask"
  shows "\<exists>tm' nx t k. Sleep i (tm, cpu) = Some (tm', ctx k) \<and> sched_inv tm'
    \<and> (\<forall>lv>current_level tm'. run_queue tm' lv = [])
    \<and> CurrentTask tm' = Some nx \<and> nx \<noteq> i \<and> find_task tm nx = Some k
    \<and> find_task tm i = Some t
    \<and> (\<forall>j. find_task tm' j = (if j = i then Some (t\<lparr>running := False, ctx := cpu\<rparr>) else find_task tm j))"
proof -
  from sched_inv_current_task [OF inv cur] obtain t where
    t: "find_task tm i = Some t" "running t" "level t = current_level tm" by blast
  from Rotate_sleep [OF inv cur i] obtain tm1 nx k where
    r: "RotateCurrentRunQueue True tm = Some (tm1, i)"
    and q: "run_queue tm1 = (run_queue tm)(level t := removeAll i (run_queue tm (level t)))"
    and l: "level_inv tm1" "\<forall>lv>current_level tm1. run_queue tm1 lv = []"
    and nx: "CurrentTask tm1 = Some nx" "nx \<noteq> i" "find_task tm nx = Some k"
    unfolding t(3) by blast
  note same = Rotate_Some(2-5) [OF r]
  let ?tm' = "set_context i cpu (stop_task i tm1)"
  have f1: "find_task tm1 = find_task tm" using r by simp
  have "Sleep i (tm, cpu) = Some (?tm', ctx k)"
    using t cur r nx f1
    by (simp add: Sleep_def Let_def Rotate_update_task SwitchContext_def RestoreContext_def
        find_set_context find_task_update)
  moreover have "sched_inv ?tm'"
    by (rule sched_inv_set_context, rule sched_inv_stopped [OF inv t(1,2) i q same l(1)])
  moreover have "find_task ?tm' j = (if j = i then Some (t\<lparr>running := False, ctx := cpu\<rparr>) else find_task tm j)" for j
    using t f1 by (simp add: find_set_context find_task_update)
  moreover have "CurrentTask ?tm' = Some nx" using nx by (simp add: CurrentTask_def)
  ultimately show ?thesis using l nx t by fastforce
qed

section \<open>\<open>Wakeup\<close> and \<open>ChangeLevelRunning\<close>\<close>

lemma level_changed_frame [simp]:
  "run_queue (tm\<lparr>level_changed := b\<rparr>) = run_queue tm"
  "current_level (tm\<lparr>level_changed := b\<rparr>) = current_level tm"
  by simp_all

text \<open>A task that enters queue \<open>l\<close>, at its front or its back, from queue \<open>level t\<close> or from none.\<close>

lemma sched_inv_enqueue:
  assumes inv: "sched_inv tm" and t: "find_task tm i = Some t" and l: "l \<le> kMaxLevel"
    and q: "run_queue tm' = (\<lambda>lv. if lv = l then Q else removeAll i (run_queue tm lv))"
    and Q: "distinct Q" "set Q = insert i (set (run_queue tm l))"
    and f: "find_task tm' = (\<lambda>j. if j = i then Some (t\<lparr>level := l, running := True\<rparr>) else find_task tm j)"
    and ids: "ids_inv tm'" and same: "finish_tasks tm' = finish_tasks tm" "finish_waiter tm' = finish_waiter tm"
    and lev: "level_inv tm'"
  shows "sched_inv tm'"
proof -
  have "queue_inv tm'"
    using inv t Q by (auto simp: sched_inv_def queue_inv_def q f distinct_removeAll)
  moreover have "waiter_inv tm'" "idle_inv tm'"
    using inv t same by (auto simp: sched_inv_def waiter_inv_def idle_inv_def f)
  ultimately show ?thesis using ids lev by (simp add: sched_inv_def)
qed

lemma queue_removeAll_other:
  assumes "queue_inv tm" and "find_task tm i = Some t" and "\<not> running t \<or> lv \<noteq> level t"
  shows "removeAll i (run_queue tm lv) = run_queue tm lv"
  using assms by (auto simp: queue_inv_def intro!: removeAll_id)

lemma ids_inv_set_level:
  "ids_inv tm \<Longrightarrow> l \<le> kMaxLevel \<Longrightarrow> (\<And>t. task_id (f t) = task_id t) \<Longrightarrow> (\<And>t. level (f t) = l) \<Longrightarrow>
     ids_inv (update_task i f tm)"
  by (rule ids_inv_update) auto

lemma Wakeup_sleeping:
  assumes inv: "sched_inv tm" and t: "find_task tm i = Some t" "\<not> running t" and lv: "lv \<le> int kMaxLevel"
  shows "\<exists>tm' l. Wakeup i lv tm = Some tm' \<and> sched_inv tm' \<and> CurrentTask tm' = CurrentTask tm
    \<and> l = (if lv < 0 then level t else nat lv)
    \<and> (\<forall>j. find_task tm' j = (if j = i then Some (t\<lparr>level := l, running := True\<rparr>) else find_task tm j))
    \<and> (level_changed tm' \<longleftrightarrow> level_changed tm \<or> l > current_level tm)
    \<and> run_queue tm' = (run_queue tm)(l := run_queue tm l @ [i])"
proof -
  define l where "l = (if lv < 0 then level t else nat lv)"
  have tl: "level t \<le> kMaxLevel" using inv t by (auto simp: sched_inv_def ids_inv_def dest: find_task_in)
  then have l: "l \<le> kMaxLevel" using lv by (auto simp: l_def nat_le_iff)
  define tm1 where "tm1 = update_task i (\<lambda>t. t\<lparr>level := l, running := True\<rparr>) tm"
  define tm2 where "tm2 = set_queue l (run_queue tm l @ [i]) tm1"
  define tm' where "tm' = (if l > current_level tm then tm2\<lparr>level_changed := True\<rparr> else tm2)"
  have f: "find_task tm' = (\<lambda>j. if j = i then Some (t\<lparr>level := l, running := True\<rparr>) else find_task tm j)"
    using t by (auto simp: tm'_def tm2_def tm1_def find_task_update fun_eq_iff)
  have q: "run_queue tm' = (run_queue tm)(l := run_queue tm l @ [i])"
    "current_level tm' = current_level tm" "level_changed tm' \<longleftrightarrow> level_changed tm \<or> l > current_level tm"
    by (simp_all add: tm'_def tm2_def tm1_def)
  have Q: "queue_inv tm" using inv by (simp add: sched_inv_def)
  have ni: "i \<notin> set (run_queue tm lv)" for lv using Q t by (auto simp: queue_inv_def)
  have "sched_inv tm'"
  proof (rule sched_inv_enqueue [OF inv t(1) l])
    show "run_queue tm' = (\<lambda>lv. if lv = l then run_queue tm l @ [i] else removeAll i (run_queue tm lv))"
      using ni by (simp add: q fun_eq_iff)
    show "distinct (run_queue tm l @ [i])" using Q ni by (simp add: queue_inv_def)
    have "ids_inv tm1" unfolding tm1_def by (rule ids_inv_set_level) (use inv l in \<open>auto simp: sched_inv_def\<close>)
    then show "ids_inv tm'" by (simp add: ids_inv_def tm'_def tm2_def)
    show "level_inv tm'" using inv by (auto simp: q sched_inv_def level_inv_def)
  qed (simp_all add: f, simp_all add: tm'_def tm2_def tm1_def)
  moreover have "CurrentTask tm' = CurrentTask tm"
    using inv by (auto simp: CurrentTask_def q sched_inv_def level_inv_def split: list.split)
  moreover have "Wakeup i lv tm = Some tm'"
    using t l by (simp add: Wakeup_def Let_def tm'_def tm2_def tm1_def l_def not_less)
  ultimately show ?thesis using f q l_def by auto
qed

lemma ChangeLevelRunning_run:
  assumes inv: "sched_inv tm" and t: "find_task tm i = Some t" "running t" and lv: "lv \<le> int kMaxLevel"
  shows "\<exists>tm'. ChangeLevelRunning i lv tm = Some tm' \<and> sched_inv tm' \<and> CurrentTask tm' = CurrentTask tm
    \<and> (\<forall>j. find_task tm' j = (if j = i then Some (t\<lparr>level := if lv < 0 then level t else nat lv\<rparr>) else find_task tm j))"
proof (cases "lv < 0 \<or> lv = int (level t)")
  case True
  then have "ChangeLevelRunning i lv tm = Some tm" using t by (auto simp: ChangeLevelRunning_def)
  with inv t True show ?thesis by auto
next
  case False
  define l where "l = nat lv"
  have l: "l \<le> kMaxLevel" "l \<noteq> level t" using lv False by (auto simp: l_def nat_le_iff)
  have Q: "queue_inv tm" and tl: "level t \<le> kMaxLevel"
    using inv t by (auto simp: sched_inv_def ids_inv_def dest: find_task_in)
  from sched_inv_current [OF inv] obtain c where c: "CurrentTask tm = Some c" by blast
  then obtain cq where cq: "run_queue tm (current_level tm) = c # cq" by (auto simp: CurrentTask_eq)
  have ni: "i \<notin> set (run_queue tm lv)" if "lv \<noteq> level t" for lv using Q t that by (auto simp: queue_inv_def)
  define upd where "upd = update_task i (\<lambda>t. t\<lparr>level := l\<rparr>)"
  have ids: "ids_inv (upd tm)" unfolding upd_def by (rule ids_inv_set_level) (use inv l in \<open>auto simp: sched_inv_def\<close>)
  have rem: "(\<lambda>lv. if lv = l then X else removeAll i (run_queue tm lv))
      = (run_queue tm)(level t := removeAll i (run_queue tm (level t)), l := X)" for X
    using ni by (auto simp: fun_eq_iff)
  show ?thesis
  proof (cases "i = c")
    case front: False
    define tm2 where "tm2 = upd (set_queue l (run_queue tm l @ [i])
        (set_queue (level t) (removeAll i (run_queue tm (level t))) tm))"
    define tm' where "tm' = (if l > current_level tm then tm2\<lparr>level_changed := True\<rparr> else tm2)"
    have f: "find_task tm' = (\<lambda>j. if j = i then Some (t\<lparr>level := l, running := True\<rparr>) else find_task tm j)"
      using t by (auto simp: tm'_def tm2_def upd_def find_task_update fun_eq_iff)
    have q: "run_queue tm' = (run_queue tm)(level t := removeAll i (run_queue tm (level t)), l := run_queue tm l @ [i])"
      "current_level tm' = current_level tm" "level_changed tm' \<longleftrightarrow> level_changed tm \<or> l > current_level tm"
      by (simp_all add: tm'_def tm2_def upd_def)
    have cq': "\<exists>r. run_queue tm' (current_level tm') = c # r" using cq front by (auto simp: q)
    have "sched_inv tm'"
    proof (rule sched_inv_enqueue [OF inv t(1) l(1)])
      show "run_queue tm' = (\<lambda>lv. if lv = l then run_queue tm l @ [i] else removeAll i (run_queue tm lv))"
        by (simp add: q rem)
      show "distinct (run_queue tm l @ [i])" using Q ni l by (simp add: queue_inv_def)
      show "ids_inv tm'" using ids by (simp add: ids_inv_def tm'_def tm2_def upd_def update_task_def)
      show "level_inv tm'" using inv cq' by (auto simp: q sched_inv_def level_inv_def)
    qed (simp_all add: f, simp_all add: tm'_def tm2_def upd_def)
    moreover have "ChangeLevelRunning i lv tm = Some tm'"
      using t False l c front tl
      by (simp add: ChangeLevelRunning_def Let_def tm'_def tm2_def upd_def l_def)
    moreover have "CurrentTask tm' = CurrentTask tm" using cq' cq by (auto simp: CurrentTask_def)
    ultimately show ?thesis using f False t by (auto simp: l_def)
  next
    case front: True
    have lt: "level t = current_level tm"
      using queue_inv_unique [OF Q, of i "level t" "current_level tm"] Q t cq front by (auto simp: queue_inv_def)
    have "distinct (c # cq)" using Q cq by (metis queue_inv_def)
    then have tlq: "tl (run_queue tm (current_level tm)) = removeAll i (run_queue tm (level t))"
      by (simp add: cq lt front)
    define tm2 where "tm2 = upd (set_queue l (i # run_queue tm l)
        (set_queue (level t) (removeAll i (run_queue tm (level t))) tm))"
    define tm' where "tm' = (if l \<ge> current_level tm then tm2\<lparr>current_level := l\<rparr>
        else tm2\<lparr>current_level := l, level_changed := True\<rparr>)"
    have f: "find_task tm' = (\<lambda>j. if j = i then Some (t\<lparr>level := l, running := True\<rparr>) else find_task tm j)"
      using t by (auto simp: tm'_def tm2_def upd_def find_task_update fun_eq_iff)
    have q: "run_queue tm' = (run_queue tm)(level t := removeAll i (run_queue tm (level t)), l := i # run_queue tm l)"
      "current_level tm' = l" "level_changed tm' \<longleftrightarrow> level_changed tm \<or> l < current_level tm"
      by (auto simp: tm'_def tm2_def upd_def)
    have "sched_inv tm'"
    proof (rule sched_inv_enqueue [OF inv t(1) l(1)])
      show "run_queue tm' = (\<lambda>lv. if lv = l then i # run_queue tm l else removeAll i (run_queue tm lv))"
        by (simp add: q rem)
      show "distinct (i # run_queue tm l)" using Q ni l by (simp add: queue_inv_def)
      show "ids_inv tm'" using ids by (simp add: ids_inv_def tm'_def tm2_def upd_def update_task_def)
      show "level_inv tm'" using inv l lt by (auto simp: q sched_inv_def level_inv_def)
    qed (simp_all add: f, simp_all add: tm'_def tm2_def upd_def)
    moreover have "ChangeLevelRunning i lv tm = Some tm'"
      using t False l c front lt tlq
      by (simp add: ChangeLevelRunning_def Let_def tm'_def tm2_def upd_def l_def)
    moreover have "CurrentTask tm' = CurrentTask tm" using c front by (simp add: CurrentTask_def q)
    ultimately show ?thesis using f False t by (auto simp: l_def)
  qed
qed

lemma Wakeup_run:
  assumes inv: "sched_inv tm" and t: "find_task tm i = Some t" and lv: "lv \<le> int kMaxLevel"
  shows "\<exists>tm'. Wakeup i lv tm = Some tm' \<and> sched_inv tm' \<and> CurrentTask tm' = CurrentTask tm
    \<and> (\<forall>j. find_task tm' j = (if j = i then Some (t\<lparr>level := if lv < 0 then level t else nat lv, running := True\<rparr>)
           else find_task tm j))"
proof (cases "running t")
  case True
  then have "Wakeup i lv tm = ChangeLevelRunning i lv tm" using t by (simp add: Wakeup_def)
  with ChangeLevelRunning_run [OF inv t True lv] True show ?thesis by auto
next
  case False
  with Wakeup_sleeping [OF inv t _ lv] show ?thesis by blast
qed

section \<open>Messages\<close>

lemma find_update_msgs:
  "find_task (update_task i (\<lambda>t. t\<lparr>msgs := F (msgs t)\<rparr>) tm) j
     = (if j = i then map_option (\<lambda>t. t\<lparr>msgs := F (msgs t)\<rparr>) (find_task tm i) else find_task tm j)"
  by (simp add: find_task_update)

lemma Task_SendMessage_run:
  assumes inv: "sched_inv tm" and t: "find_task tm i = Some t"
  shows "\<exists>tm'. Task_SendMessage i m tm = Some tm' \<and> sched_inv tm' \<and> CurrentTask tm' = CurrentTask tm
    \<and> (\<forall>j. find_task tm' j = (if j = i then Some (t\<lparr>msgs := msgs t @ [m], running := True\<rparr>) else find_task tm j))"
proof -
  let ?tm = "update_task i (\<lambda>t. t\<lparr>msgs := msgs t @ [m]\<rparr>) tm"
  have inv': "sched_inv ?tm" using inv by (rule sched_inv_update) simp_all
  have t': "find_task ?tm i = Some (t\<lparr>msgs := msgs t @ [m]\<rparr>)" using t by (simp add: find_task_update)
  from Wakeup_run [OF inv' t', of "- 1"] t show ?thesis
    by (auto simp: Task_SendMessage_def find_task_update)
qed

lemma SendMessage_run:
  assumes inv: "sched_inv tm" and t: "find_task tm i = Some t"
  shows "\<exists>tm'. SendMessage i m tm = Some (Inr tm') \<and> sched_inv tm' \<and> CurrentTask tm' = CurrentTask tm
    \<and> (\<forall>j. find_task tm' j = (if j = i then Some (t\<lparr>msgs := msgs t @ [m], running := True\<rparr>) else find_task tm j))"
  using Task_SendMessage_run [OF assms, of m] t by (auto simp: SendMessage_def)

lemma ReceiveMessage_run:
  assumes inv: "sched_inv tm" and t: "find_task tm i = Some t"
  shows "\<exists>tm' m. ReceiveMessage i tm = Some (tm', m) \<and> sched_inv tm' \<and> CurrentTask tm' = CurrentTask tm
    \<and> m = (case msgs t of [] \<Rightarrow> None | m # _ \<Rightarrow> Some m)
    \<and> (\<forall>j. find_task tm' j = (if j = i then Some (t\<lparr>msgs := tl (msgs t)\<rparr>) else find_task tm j))"
proof (cases "msgs t")
  case Nil
  then have "t\<lparr>msgs := tl (msgs t)\<rparr> = t" by simp
  with Nil inv t show ?thesis by (simp add: ReceiveMessage_def)
next
  case (Cons m ms)
  have "sched_inv (update_task i (\<lambda>t. t\<lparr>msgs := tl (msgs t)\<rparr>) tm)"
    using inv by (rule sched_inv_update) simp_all
  with Cons t show ?thesis by (simp add: ReceiveMessage_def find_task_update)
qed

section \<open>New tasks\<close>

lemma NewTask_run:
  assumes inv: "sched_inv tm"
  shows "sched_inv (fst (NewTask tm))" "snd (NewTask tm) = latest_id tm + 1"
    "CurrentTask (fst (NewTask tm)) = CurrentTask tm"
    "find_task (fst (NewTask tm)) j = (if j = latest_id tm + 1 then Some (new_Task j) else find_task tm j)"
    "find_task tm (latest_id tm + 1) = None"
proof -
  let ?n = "latest_id tm + 1" and ?tm = "fst (NewTask tm)"
  have ids: "\<forall>t\<in>set (tasks tm). task_id t \<le> latest_id tm" using inv by (simp add: sched_inv_def ids_inv_def)
  show f: "find_task ?tm j = (if j = ?n then Some (new_Task j) else find_task tm j)" for j
    by (rule find_task_NewTask [OF ids])
  show n: "find_task tm ?n = None" 
  proof (cases "find_task tm ?n")
    case (Some t)
    with find_task_id [OF Some] find_task_in [OF Some] ids show ?thesis by force
  qed simp
  have same: "tasks ?tm = tasks tm @ [new_Task ?n]" "latest_id ?tm = ?n" "run_queue ?tm = run_queue tm"
    "current_level ?tm = current_level tm" "level_changed ?tm = level_changed tm"
    "finish_tasks ?tm = finish_tasks tm" "finish_waiter ?tm = finish_waiter tm"
    by (simp_all add: NewTask_def Let_def)
  have "ids_inv ?tm"
    using inv ids by (fastforce simp: sched_inv_def ids_inv_def same new_Task_def layout)
  moreover have "queue_inv ?tm"
  proof -
    have "\<not> running (new_Task ?n)" by (simp add: new_Task_def)
    then have "(\<exists>t. find_task ?tm i = Some t \<and> running t \<and> level t = lv)
        \<longleftrightarrow> (\<exists>t. find_task tm i = Some t \<and> running t \<and> level t = lv)" for i lv
      using n by (auto simp: f)
    with inv show ?thesis unfolding sched_inv_def queue_inv_def same by blast
  qed
  moreover have "level_inv ?tm" "waiter_inv ?tm" "idle_inv ?tm"
    using inv n by (auto simp: sched_inv_def level_inv_def waiter_inv_def idle_inv_def f same)
  ultimately show "sched_inv ?tm" by (simp add: sched_inv_def)
  show "snd (NewTask tm) = ?n" by (simp add: NewTask_def Let_def)
  show "CurrentTask ?tm = CurrentTask tm" by (simp add: CurrentTask_def same)
qed

lemma sched_inv_InitContext:
  "sched_inv tm \<Longrightarrow> sched_inv (update_task i (InitContext cr3 se f d) tm)"
  by (erule sched_inv_update) (simp_all add: InitContext_def)

section \<open>\<open>Finish\<close> and \<open>WaitFinish\<close>\<close>

lemma Finish_run:
  assumes inv: "sched_inv tm" and cur: "CurrentTask tm = Some i" and i: "i \<noteq> kIdleTask"
    and nowait: "\<forall>j. finish_waiter tm j \<noteq> Some i"
  shows "\<exists>tm' nx k. Finish code tm = Some (tm', ctx k) \<and> sched_inv tm'
    \<and> CurrentTask tm' = Some nx \<and> find_task tm' nx = Some k
    \<and> find_task tm' i = None
    \<and> finish_tasks tm' = (finish_tasks tm)(i \<mapsto> code)
    \<and> finish_waiter tm' = (finish_waiter tm)(i := None)
    \<and> (\<forall>j. j \<noteq> i \<longrightarrow> find_task tm' j =
          (if finish_waiter tm i = Some j then map_option (\<lambda>t. t\<lparr>running := True\<rparr>) (find_task tm j)
           else find_task tm j))"
proof -
  from sched_inv_current_task [OF inv cur] obtain t where
    t: "find_task tm i = Some t" "running t" "level t = current_level tm" by blast
  from Rotate_sleep [OF inv cur i] obtain tm1 nx k where
    r: "RotateCurrentRunQueue True tm = Some (tm1, i)"
    and q: "run_queue tm1 = (run_queue tm)(level t := removeAll i (run_queue tm (level t)))"
    and l: "level_inv tm1" "CurrentTask tm1 = Some nx" "nx \<noteq> i" "find_task tm nx = Some k"
    unfolding t(3) by blast
  note same = Rotate_Some(2-5) [OF r]
  define tm3 where "tm3 = (erase_task i tm1)\<lparr>finish_tasks := (finish_tasks tm1)(i \<mapsto> code)\<rparr>"
  define tm3' where "tm3' = tm3\<lparr>finish_waiter := (finish_waiter tm3)(i := None)\<rparr>"
  have f3: "find_task tm3' j = (if j = i then None else find_task tm j)" for j
    using r by (simp add: tm3'_def tm3_def find_task_erase)
  have e: "run_queue tm3' = run_queue tm1" "current_level tm3' = current_level tm1"
    "level_changed tm3' = level_changed tm1"
    "finish_tasks tm3' = (finish_tasks tm)(i \<mapsto> code)" "finish_waiter tm3' = (finish_waiter tm)(i := None)"
    by (simp_all add: tm3'_def tm3_def same)
  have inv3: "sched_inv tm3'"
  proof -
    have "ids_inv tm3'"
      using inv by (auto simp: sched_inv_def ids_inv_def tm3'_def tm3_def erase_task_def same
          distinct_map_filter)
    moreover have "queue_inv tm3'"
      by (rule queue_inv_cong [OF queue_inv_erase [OF _ t(1,2)]])
        (use inv in \<open>auto simp: sched_inv_def e q fun_eq_iff find_task_erase f3\<close>)
    moreover have "level_inv tm3'" using l by (simp add: level_inv_def e)
    moreover have "waiter_inv tm3'" using inv nowait by (auto simp: sched_inv_def waiter_inv_def e f3)
    moreover have "idle_inv tm3'" using inv i by (auto simp: sched_inv_def idle_inv_def f3)
    ultimately show ?thesis by (simp add: sched_inv_def)
  qed
  have cur3: "CurrentTask tm3' = Some nx" using l by (simp add: CurrentTask_def e)
  have fin: "Finish code tm = Option.bind
      (case finish_waiter tm i of None \<Rightarrow> Some tm3 | Some w \<Rightarrow> Wakeup w (- 1) tm3')
      (\<lambda>tm4. Option.bind (CurrentTask tm4) (\<lambda>nx. RestoreContext nx tm4))"
    using r by (cases "finish_waiter tm i") (simp_all add: Finish_def Let_def tm3_def tm3'_def same)
  show ?thesis
  proof (cases "finish_waiter tm i")
    case None
    then have "tm3' = tm3" by (simp add: tm3'_def tm3_def same fun_upd_idem)
    with fin None inv3 cur3 f3 e l show ?thesis by (auto simp: RestoreContext_def)
  next
    case (Some w)
    with nowait have "w \<noteq> i" by blast
    with Some inv f3 obtain wt where w: "find_task tm3' w = Some wt" "find_task tm w = Some wt"
      by (fastforce simp: sched_inv_def waiter_inv_def)
    from Wakeup_run [OF inv3 w(1), of "- 1"] obtain tm4 where
      w4: "Wakeup w (- 1) tm3' = Some tm4" "sched_inv tm4" "CurrentTask tm4 = Some nx"
      and f4: "\<forall>j. find_task tm4 j = (if j = w then Some (wt\<lparr>running := True\<rparr>) else find_task tm3' j)"
      using cur3 by auto
    from sched_inv_current_task [OF w4(2,3)] obtain k' where k': "find_task tm4 nx = Some k'" by blast
    have "finish_tasks tm4 = finish_tasks tm3'" "finish_waiter tm4 = finish_waiter tm3'"
      using w4(1) by (auto simp: Wakeup_def ChangeLevelRunning_def fallible Let_def split: if_splits)
    with fin Some w4 k' f4 f3 e w \<open>w \<noteq> i\<close> show ?thesis by (auto simp: RestoreContext_def)
  qed
qed

end
