(* ===== verification/Scheduler.thy ===== *)
theory Scheduler
  imports SchedulerInvariant
begin

text \<open>
  The scheduler as a transition system: the steps that the kernel's tasks and the timer interrupt take
  on the \<open>TaskManager\<close>, the reachable states, and the properties of \<^verbatim>\<open>kernel/task.cpp\<close> that follow
  from the invariant.
\<close>

section \<open>The initial state\<close>

lemma new_TaskManager_eq:
  "new_TaskManager cr3 se entry =
     \<lparr>tasks = [(new_Task 1)\<lparr>level := 3, running := True\<rparr>,
               (InitContext cr3 se entry 0 (new_Task 2))\<lparr>level := 0, running := True\<rparr>],
      latest_id = 2, run_queue = (\<lambda>_. [])(3 := [1], 0 := [2]), current_level = 3,
      level_changed = False, finish_tasks = Map.empty, finish_waiter = Map.empty\<rparr>"
  by (simp add: new_TaskManager_def NewTask_def Let_def update_task_def set_queue_def new_Task_def
      InitContext_def layout) (simp only: numeral_2_eq_2)

lemma sched_inv_new: "sched_inv (new_TaskManager cr3 se entry)"
  by (auto simp: new_TaskManager_eq sched_inv_def ids_inv_def queue_inv_def level_inv_def waiter_inv_def
      idle_inv_def find_task_def new_Task_def InitContext_def layout kIdleTask_def)

section \<open>Steps\<close>

text \<open>
  A state is the task manager with the registers of the processor.  Between two steps the running
  task computes, so the registers a step saves are arbitrary (\<open>c\<close>).  The idle task only executes
  \<open>hlt\<close>: no step puts it to sleep or finishes it.  A task that is registered as a waiter is inside
  the loop of \<open>WaitFinish\<close> and does not finish.
\<close>

type_synonym sched_state = "TaskManager \<times> TaskContext"

inductive sched_step :: "sched_state \<Rightarrow> sched_state \<Rightarrow> bool" where
  tick: "SwitchTask c tm = Some s' \<Longrightarrow> sched_step (tm, cpu) s'"
| sleep: "i \<noteq> kIdleTask \<Longrightarrow> Sleep_id i (tm, c) = Some (Inr s') \<Longrightarrow> sched_step (tm, cpu) s'"
| wakeup: "lv \<le> int kMaxLevel \<Longrightarrow> Wakeup_id i lv tm = Some (Inr tm') \<Longrightarrow> sched_step (tm, cpu) (tm', cpu)"
| send: "SendMessage i m tm = Some (Inr tm') \<Longrightarrow> sched_step (tm, cpu) (tm', cpu)"
| receive: "ReceiveMessage i tm = Some (tm', r) \<Longrightarrow> sched_step (tm, cpu) (tm', cpu)"
| new_task: "NewTask tm = (tm', i) \<Longrightarrow> sched_step (tm, cpu) (update_task i (InitContext cr3 se f d) tm', cpu)"
| finish: "CurrentTask tm = Some i \<Longrightarrow> i \<noteq> kIdleTask \<Longrightarrow> \<forall>j. finish_waiter tm j \<noteq> Some i \<Longrightarrow>
     Finish code tm = Some s' \<Longrightarrow> sched_step (tm, cpu) s'"
| wait_finish: "CurrentTask tm = Some i \<Longrightarrow> i \<noteq> kIdleTask \<Longrightarrow>
     WaitFinish_round j i (tm, c) = Some (s', r) \<Longrightarrow> sched_step (tm, cpu) s'"

inductive reachable :: "sched_state \<Rightarrow> bool" where
  boot: "reachable (new_TaskManager cr3 se entry, cpu)"
| step: "reachable s \<Longrightarrow> sched_step s s' \<Longrightarrow> reachable s'"

lemma WaitFinish_round_run:
  assumes inv: "sched_inv tm" and cur: "CurrentTask tm = Some i" and i: "i \<noteq> kIdleTask"
  shows "\<exists>s' r. WaitFinish_round j i (tm, c) = Some (s', r) \<and> sched_inv (fst s')
    \<and> (\<forall>k t. k \<noteq> i \<longrightarrow> find_task tm k = Some t \<longrightarrow> find_task (fst s') k = Some t)"
proof (cases "finish_tasks tm j")
  case (Some code)
  have "sched_inv (tm\<lparr>finish_tasks := (finish_tasks tm)(j := None)\<rparr>)"
    using inv by (auto simp: sched_inv_def ids_inv_def queue_inv_def level_inv_def waiter_inv_def idle_inv_def)
  with Some show ?thesis by (simp add: WaitFinish_round_def)
next
  case None
  let ?tm = "tm\<lparr>finish_waiter := (finish_waiter tm)(j \<mapsto> i)\<rparr>"
  from sched_inv_current_task [OF inv cur] have "find_task tm i \<noteq> None" by blast
  with inv None have inv': "sched_inv ?tm"
    by (auto simp: sched_inv_def ids_inv_def queue_inv_def level_inv_def waiter_inv_def idle_inv_def)
  have cur': "CurrentTask ?tm = Some i" using cur by (simp add: CurrentTask_def)
  from Sleep_current [OF inv' cur' i, of c] obtain tm' t k where
    "Sleep i (?tm, c) = Some (tm', ctx (k :: Task))" "sched_inv tm'"
    "\<forall>j. find_task tm' j = (if j = i then Some (t\<lparr>running := False, ctx := c\<rparr>) else find_task ?tm j)"
    by blast
  with None show ?thesis by (simp add: WaitFinish_round_def)
qed

lemma Sleep_run:
  assumes inv: "sched_inv tm" and t: "find_task tm i = Some t" and i: "i \<noteq> kIdleTask"
  shows "\<exists>tm' cpu'. Sleep i (tm, c) = Some (tm', cpu') \<and> sched_inv tm'
    \<and> (\<forall>j k. find_task tm j = Some k \<longrightarrow>
          (\<exists>k'. find_task tm' j = Some k' \<and> (CurrentTask tm \<noteq> Some j \<longrightarrow> ctx k' = ctx k)))"
proof (cases "running t")
  case True
  show ?thesis
  proof (cases "CurrentTask tm = Some i")
    case True
    from Sleep_current [OF inv True i, of c] show ?thesis using True by fastforce
  next
    case False
    from Sleep_other [OF inv t \<open>running t\<close> i False, of c] t show ?thesis by fastforce
  qed
next
  case False
  with Sleep_stopped [OF t] inv show ?thesis by auto
qed

text \<open>One step keeps the invariant, every task but a finished one, and the contexts of the others.\<close>

lemma sched_step_run:
  assumes "sched_step s s'" and "sched_inv (fst s)"
  shows "sched_inv (fst s')
    \<and> (\<forall>j t. find_task (fst s) j = Some t \<longrightarrow> CurrentTask (fst s) \<noteq> Some j \<longrightarrow>
          (\<exists>t'. find_task (fst s') j = Some t' \<and> ctx t' = ctx t))"
  using assms
proof (induction rule: sched_step.induct)
  case (tick c tm s' cpu)
  then have inv: "sched_inv tm" by simp
  from SwitchTask_run [OF inv, of c] tick obtain cur tm1 where cur: "CurrentTask tm = Some cur"
    and r: "RotateCurrentRunQueue False (set_context cur c tm) = Some (tm1, cur)" "sched_inv tm1" "fst s' = tm1"
    by auto
  have "find_task tm1 = find_task (set_context cur c tm)" using r by simp
  with r cur show ?case by (simp add: find_set_context)
next
  case (sleep i tm c s' cpu)
  then obtain t where t: "find_task tm i = Some t" and s: "Sleep i (tm, c) = Some s'"
    by (auto simp: Sleep_id_def split: option.splits)
  from sleep have "sched_inv tm" by simp
  from Sleep_run [OF this t sleep.hyps(1), of c] s show ?case by fastforce
next
  case (wakeup lv i tm tm' cpu)
  then obtain t where t: "find_task tm i = Some t" and w: "Wakeup i lv tm = Some tm'"
    by (auto simp: Wakeup_id_def split: option.splits)
  from wakeup have "sched_inv tm" by simp
  from Wakeup_run [OF this t wakeup.hyps(1)] w t show ?case by auto
next
  case (send i m tm tm' cpu)
  then obtain t where t: "find_task tm i = Some t"
    by (auto simp: SendMessage_def split: option.splits)
  from send have "sched_inv tm" by simp
  from SendMessage_run [OF this t, of m] send t show ?case by auto
next
  case (receive i tm tm' r cpu)
  then obtain t where t: "find_task tm i = Some t"
    by (auto simp: ReceiveMessage_def split: option.splits)
  from receive have "sched_inv tm" by simp
  from ReceiveMessage_run [OF this t] receive t show ?case by auto
next
  case (new_task tm tm' i cpu cr3 se f d)
  then have inv: "sched_inv tm" by simp
  from NewTask_run [OF inv] new_task have n: "sched_inv tm'" "i = latest_id tm + 1" "find_task tm i = None"
    "\<And>j. find_task tm' j = (if j = i then Some (new_Task j) else find_task tm j)" by (metis fst_conv snd_conv)+
  have "find_task (update_task i (InitContext cr3 se f d) tm') j = find_task tm' j" if "j \<noteq> i" for j
    using that by (simp add: find_task_update InitContext_def)
  with n have "find_task (update_task i (InitContext cr3 se f d) tm') j = find_task tm j"
    if "find_task tm j \<noteq> None" for j using that by metis
  with n(1) show ?case by (simp add: sched_inv_InitContext)
next
  case (finish tm i code s' cpu)
  then have inv: "sched_inv tm" by simp
  from Finish_run [OF inv finish.hyps(1-3), of code] finish show ?case by fastforce
next
  case (wait_finish tm i j c s' r cpu)
  then have inv: "sched_inv tm" by simp
  from WaitFinish_round_run [OF inv wait_finish.hyps(1,2), of j c] wait_finish show ?case by fastforce
qed

lemma reachable_sched_inv: "reachable s \<Longrightarrow> sched_inv (fst s)"
proof (induction rule: reachable.induct)
  case (boot cr3 se entry cpu)
  show ?case by (simp add: sched_inv_new)
next
  case (step s s')
  then show ?case using sched_step_run by blast
qed

section \<open>Concrete states\<close>

definition boot_manager :: TaskManager where
  "boot_manager = new_TaskManager 0 0x200000 0x1000"

text \<open>The state after \<open>task_manager->NewTask().InitContext(...).Wakeup()\<close> of \<open>KernelMainNewStack\<close>.\<close>

definition terminal_manager :: TaskManager where
  "terminal_manager =
     \<lparr>tasks = [(new_Task 1)\<lparr>level := 3, running := True\<rparr>,
               (InitContext 0 0x200000 0x1000 0 (new_Task 2))\<lparr>level := 0, running := True\<rparr>,
               (InitContext 0 0x300000 0x2000 0 (new_Task 3))\<lparr>level := 1, running := True\<rparr>],
      latest_id = 3, run_queue = (\<lambda>_. [])(3 := [1], 0 := [2], 1 := [3]), current_level = 3,
      level_changed = False, finish_tasks = Map.empty, finish_waiter = Map.empty\<rparr>"

lemma boot_current: "CurrentTask boot_manager = Some 1"
  by (simp add: boot_manager_def new_TaskManager_eq CurrentTask_def)

lemma boot_reachable: "reachable (boot_manager, blank_context)"
  unfolding boot_manager_def by (rule reachable.boot)

lemma boot_find:
  "find_task boot_manager 1 = Some ((new_Task 1)\<lparr>level := 3, running := True\<rparr>)"
  "find_task boot_manager 3 = None"
  by (simp_all add: boot_manager_def new_TaskManager_eq find_task_def new_Task_def InitContext_def)

lemma terminal_manager_run:
  "Wakeup_id 3 (- 1) (update_task 3 (InitContext 0 0x300000 0x2000 0) (fst (NewTask boot_manager)))
     = Some (Inr terminal_manager)"
  by (simp add: boot_manager_def new_TaskManager_eq NewTask_def Let_def Wakeup_id_def Wakeup_def
      find_task_def update_task_def set_queue_def terminal_manager_def new_Task_def InitContext_def layout)

lemma terminal_manager_reachable: "reachable (terminal_manager, blank_context)"
proof -
  have "NewTask boot_manager = (fst (NewTask boot_manager), 3)"
    by (simp add: NewTask_def Let_def boot_manager_def new_TaskManager_eq)
  from sched_step.new_task [OF this]
  have "reachable (update_task 3 (InitContext 0 0x300000 0x2000 0) (fst (NewTask boot_manager)), blank_context)"
    by (rule reachable.step [OF boot_reachable])
  from reachable.step [OF this sched_step.wakeup [OF _ terminal_manager_run]] show ?thesis by simp
qed

lemma terminal_manager_facts:
  "CurrentTask terminal_manager = Some 1"
  "find_task terminal_manager 3 = Some ((InitContext 0 0x300000 0x2000 0 (new_Task 3))\<lparr>level := 1, running := True\<rparr>)"
  "find_task terminal_manager 1 = Some ((new_Task 1)\<lparr>level := 3, running := True\<rparr>)"
  by (simp_all add: terminal_manager_def CurrentTask_def find_task_def new_Task_def InitContext_def)

lemma terminal_sched_inv: "sched_inv terminal_manager"
  using reachable_sched_inv [OF terminal_manager_reachable] by simp

section \<open>Properties\<close>

text \<open>
  C1. In every reachable state the run queues and the tasks agree: every runnable task is in the queue
  of its level exactly once and no other task is in any queue, the current queue is not empty, no
  queue above it holds a task unless a re-selection is pending, task ids are distinct, and a waiter
  is never registered for a task that has already left its exit code (no lost wake-up).
\<close>

theorem scheduler_invariant: "reachable s \<Longrightarrow> sched_inv (fst s)"
  by (rule reachable_sched_inv)

theorem scheduler_invariant_witness: "sched_inv (fst (terminal_manager, blank_context))"
  by (rule scheduler_invariant) (rule terminal_manager_reachable)

text \<open>
  C2. No operation of the scheduler reaches undefined behaviour in a reachable state: there is always
  a current task, the timer tick always has a task to switch to, and putting to sleep, waking,
  messaging, finishing and waiting are defined for every existing task (the idle task never sleeps).
\<close>

theorem scheduler_no_undefined:
  assumes "reachable (tm, cpu)"
  shows "\<exists>i. CurrentTask tm = Some i
     \<and> SwitchTask c tm \<noteq> None
     \<and> SendMessage j m tm \<noteq> None
     \<and> (lv \<le> int kMaxLevel \<longrightarrow> Wakeup_id j lv tm \<noteq> None)
     \<and> (j \<noteq> kIdleTask \<longrightarrow> Sleep_id j (tm, c) \<noteq> None)
     \<and> (i \<noteq> kIdleTask \<longrightarrow> WaitFinish_round j i (tm, c) \<noteq> None)
     \<and> (i \<noteq> kIdleTask \<and> (\<forall>k. finish_waiter tm k \<noteq> Some i) \<longrightarrow> Finish code tm \<noteq> None)"
proof -
  from reachable_sched_inv [OF assms] have inv: "sched_inv tm" by simp
  from sched_inv_current [OF inv] obtain i where i: "CurrentTask tm = Some i" by blast
  have "SwitchTask c tm \<noteq> None" using SwitchTask_run [OF inv, of c] by fastforce
  moreover have "SendMessage j m tm \<noteq> None"
    using SendMessage_run [OF inv, of j _ m] by (cases "find_task tm j") (auto simp: SendMessage_def)
  moreover have "lv \<le> int kMaxLevel \<longrightarrow> Wakeup_id j lv tm \<noteq> None"
    using Wakeup_run [OF inv, of j _ lv] by (cases "find_task tm j") (auto simp: Wakeup_id_def)
  moreover have "j \<noteq> kIdleTask \<longrightarrow> Sleep_id j (tm, c) \<noteq> None"
    using Sleep_run [OF inv, of j _ c] by (cases "find_task tm j") (auto simp: Sleep_id_def)
  moreover have "i \<noteq> kIdleTask \<longrightarrow> WaitFinish_round j i (tm, c) \<noteq> None"
    using WaitFinish_round_run [OF inv i, of j c] by auto
  moreover have "i \<noteq> kIdleTask \<and> (\<forall>k. finish_waiter tm k \<noteq> Some i) \<longrightarrow> Finish code tm \<noteq> None"
    using Finish_run [OF inv i, of code] by fastforce
  ultimately show ?thesis using i by blast
qed

theorem scheduler_no_undefined_witness:
  "CurrentTask terminal_manager = Some 1 \<and> SwitchTask blank_context terminal_manager \<noteq> None
   \<and> Sleep_id 1 (terminal_manager, blank_context) \<noteq> None \<and> Finish 0 terminal_manager \<noteq> None"
proof -
  have "\<forall>k. finish_waiter terminal_manager k \<noteq> Some 1" by (simp add: terminal_manager_def)
  with scheduler_no_undefined [OF terminal_manager_reachable, of blank_context 1 _ 0 0]
    terminal_manager_facts(1) show ?thesis by (auto simp: kIdleTask_def)
qed

text \<open>
  C15. Strict priority and faithful preemption: after a timer tick in a reachable state the current task
  is runnable and no runnable task has a higher level, the processor holds exactly the context of the
  current task, and the context of the interrupted task is the interrupted register state.
\<close>

theorem SwitchTask_priority:
  assumes "reachable (tm, cpu)" and "CurrentTask tm = Some prev"
  shows "\<exists>tm' nx t p. SwitchTask c tm = Some (tm', ctx t)
     \<and> CurrentTask tm' = Some nx \<and> find_task tm' nx = Some t \<and> running t
     \<and> (\<forall>j u. find_task tm' j = Some u \<and> running u \<longrightarrow> level u \<le> level t)
     \<and> find_task tm' prev = Some p \<and> ctx p = c"
proof -
  from reachable_sched_inv [OF assms(1)] have inv: "sched_inv tm" by simp
  from SwitchTask_run [OF inv, of c] assms(2) obtain tm1 nx k where
    r: "RotateCurrentRunQueue False (set_context prev c tm) = Some (tm1, prev)" "sched_inv tm1"
      "\<forall>lv>current_level tm1. run_queue tm1 lv = []" "CurrentTask tm1 = Some nx"
      "find_task tm1 nx = Some k" "SwitchTask c tm = Some (tm1, ctx k)"
    by auto
  from sched_inv_current_task [OF r(2,4)] r(5) have k: "running k" "level k = current_level tm1" by auto
  have "level u \<le> level k" if "find_task tm1 j = Some u" "running u" for j u
  proof (rule ccontr)
    assume "\<not> level u \<le> level k"
    with r(3) k have "run_queue tm1 (level u) = []" by simp
    moreover have "j \<in> set (run_queue tm1 (level u))"
      using r(2) that by (auto simp: sched_inv_def queue_inv_def)
    ultimately show False by simp
  qed
  moreover have "find_task tm1 = find_task (set_context prev c tm)" using r(1) by simp
  then have "\<exists>p. find_task tm1 prev = Some p \<and> ctx p = c"
    using sched_inv_current_task [OF inv assms(2)] by (auto simp: find_set_context)
  ultimately show ?thesis using r k by blast
qed

theorem SwitchTask_priority_witness:
  "\<exists>tm' nx t p. SwitchTask blank_context terminal_manager = Some (tm', ctx t)
     \<and> CurrentTask tm' = Some nx \<and> find_task tm' nx = Some t \<and> running t
     \<and> (\<forall>j u. find_task tm' j = Some u \<and> running u \<longrightarrow> level u \<le> level t)
     \<and> find_task tm' 1 = Some p \<and> ctx p = blank_context"
  by (rule SwitchTask_priority [OF terminal_manager_reachable]) (simp add: terminal_manager_facts)

text \<open>
  Isolation of contexts: no step of the scheduler changes the saved context of a task other than
  the current one, nor removes such a task; so a preempted or sleeping task later resumes with the
  registers it was saved with.
\<close>

theorem sched_step_isolates_contexts:
  assumes "reachable s" and "sched_step s s'" and "find_task (fst s) j = Some t"
    and "CurrentTask (fst s) \<noteq> Some j"
  shows "\<exists>t'. find_task (fst s') j = Some t' \<and> ctx t' = ctx t"
  using sched_step_run [OF assms(2) reachable_sched_inv [OF assms(1)]] assms(3,4) by blast

theorem sched_step_isolates_contexts_witness:
  "\<exists>s' t'. sched_step (terminal_manager, blank_context) s'
     \<and> find_task (fst s') 3 = Some t' \<and> ctx_rip (ctx t') = 0x2000"
proof -
  obtain s' where s: "SwitchTask blank_context terminal_manager = Some s'"
    using SwitchTask_run [OF terminal_sched_inv, of blank_context] by blast
  then have st: "sched_step (terminal_manager, blank_context) s'" by (rule sched_step.tick)
  from sched_step_isolates_contexts [OF terminal_manager_reachable st, of 3] obtain t' where
    "find_task (fst s') 3 = Some t'" "ctx_rip (ctx t') = 0x2000"
    by (auto simp: terminal_manager_facts InitContext_def)
  with st show ?thesis by blast
qed

section \<open>Round robin\<close>

text \<open>Consecutive timer ticks, with the registers each of them interrupts.\<close>

fun ticks :: "TaskContext list \<Rightarrow> TaskManager \<Rightarrow> TaskManager option" where
  "ticks [] tm = Some tm"
| "ticks (c # cs) tm = (case SwitchTask c tm of None \<Rightarrow> None | Some (tm', cpu) \<Rightarrow> ticks cs tm')"

lemma SwitchTask_rotates:
  assumes inv: "sched_inv tm" and "\<not> level_changed tm"
  shows "\<exists>tm' cpu. SwitchTask c tm = Some (tm', cpu) \<and> sched_inv tm' \<and> \<not> level_changed tm'
    \<and> current_level tm' = current_level tm
    \<and> run_queue tm' (current_level tm) = rotate1 (run_queue tm (current_level tm))"
proof -
  from SwitchTask_run [OF inv, of c] obtain cur tm1 nx k where
    r: "CurrentTask tm = Some cur" "RotateCurrentRunQueue False (set_context cur c tm) = Some (tm1, cur)"
      "sched_inv tm1" "SwitchTask c tm = Some (tm1, ctx (k :: Task))" by blast
  then obtain q where q: "run_queue tm (current_level tm) = cur # q" by (auto simp: CurrentTask_eq)
  with r(2) assms(2) have "tm1 = set_queue (current_level tm) (q @ [cur]) (set_context cur c tm)"
    by (simp add: RotateCurrentRunQueue_def Let_def)
  with r q assms(2) show ?thesis by simp
qed

lemma ticks_rotate:
  "sched_inv tm \<Longrightarrow> \<not> level_changed tm \<Longrightarrow>
     \<exists>tm'. ticks cs tm = Some tm' \<and> current_level tm' = current_level tm
       \<and> run_queue tm' (current_level tm) = rotate (length cs) (run_queue tm (current_level tm))"
proof (induction cs arbitrary: tm)
  case (Cons c cs)
  from SwitchTask_rotates [OF Cons.prems, of c] obtain tm1 cpu where
    s: "SwitchTask c tm = Some (tm1, cpu)" "sched_inv tm1" "\<not> level_changed tm1"
      "current_level tm1 = current_level tm"
      "run_queue tm1 (current_level tm) = rotate1 (run_queue tm (current_level tm))" by blast
  from Cons.IH [OF s(2,3)] s show ?case by (auto simp: rotate1_rotate_swap)
qed simp

text \<open>
  C35. Round robin: while no event but the timer intervenes, every task of the current level becomes the
  current task within as many ticks as the level has tasks; the \<open>n\<close>-th task of the queue after
  exactly \<open>n\<close> ticks.
\<close>

theorem round_robin_fair:
  assumes "reachable (tm, cpu)" and "\<not> level_changed tm"
    and "n < length (run_queue tm (current_level tm))" and "length cs = n"
  shows "\<exists>tm'. ticks cs tm = Some tm' \<and> CurrentTask tm' = Some (run_queue tm (current_level tm) ! n)"
proof -
  from reachable_sched_inv [OF assms(1)] have "sched_inv tm" by simp
  from ticks_rotate [OF this assms(2), of cs] obtain tm' where
    t: "ticks cs tm = Some tm'" "current_level tm' = current_level tm"
      "run_queue tm' (current_level tm) = rotate n (run_queue tm (current_level tm))"
    using assms(4) by blast
  let ?q = "run_queue tm (current_level tm)"
  have "rotate n ?q = (?q ! n) # (drop (Suc n) ?q @ take n ?q)"
    using assms(3) by (simp add: rotate_drop_take Cons_nth_drop_Suc flip: append_Cons)
  with t show ?thesis by (auto simp: CurrentTask_eq)
qed

definition pair_manager :: TaskManager where
  "pair_manager = terminal_manager
     \<lparr>tasks := [(new_Task 1)\<lparr>level := 3, running := True\<rparr>,
               (InitContext 0 0x200000 0x1000 0 (new_Task 2))\<lparr>level := 0, running := True\<rparr>,
               (InitContext 0 0x300000 0x2000 0 (new_Task 3))\<lparr>level := 3, running := True\<rparr>],
      run_queue := (\<lambda>_. [])(3 := [1, 3], 0 := [2], 1 := []), level_changed := False\<rparr>"

lemma pair_manager_reachable: "reachable (pair_manager, blank_context)"
proof -
  have "Wakeup_id 3 3 terminal_manager = Some (Inr pair_manager)"
    by (simp add: terminal_manager_def pair_manager_def Wakeup_id_def Wakeup_def ChangeLevelRunning_def
        Let_def find_task_def CurrentTask_def update_task_def set_queue_def new_Task_def InitContext_def
        layout fun_upd_twist)
  from reachable.step [OF terminal_manager_reachable sched_step.wakeup [OF _ this]]
  show ?thesis by (simp add: layout)
qed

theorem round_robin_fair_witness:
  "\<exists>tm'. ticks [blank_context] pair_manager = Some tm' \<and> CurrentTask tm' = Some 3"
  using round_robin_fair [OF pair_manager_reachable, of 1 "[blank_context]"]
  by (simp add: pair_manager_def terminal_manager_def)

section \<open>Message queues\<close>

text \<open>A client that sends a list of messages to a task, and one that polls the task \<open>n\<close> times.\<close>

fun send_all :: "nat \<Rightarrow> Message list \<Rightarrow> TaskManager \<Rightarrow> TaskManager option" where
  "send_all i [] tm = Some tm"
| "send_all i (m # ms) tm =
     (case SendMessage i m tm of Some (Inr tm') \<Rightarrow> send_all i ms tm' | _ \<Rightarrow> None)"

fun receive_n :: "nat \<Rightarrow> nat \<Rightarrow> TaskManager \<Rightarrow> (TaskManager \<times> Message option list) option" where
  "receive_n i 0 tm = Some (tm, [])"
| "receive_n i (Suc n) tm =
     (case ReceiveMessage i tm of
        None \<Rightarrow> None
      | Some (tm', m) \<Rightarrow> map_option (\<lambda>(tm'', ms). (tm'', m # ms)) (receive_n i n tm'))"

lemma send_all_run:
  "sched_inv tm \<Longrightarrow> find_task tm i = Some t \<Longrightarrow>
     \<exists>tm' t'. send_all i ms tm = Some tm' \<and> sched_inv tm' \<and> find_task tm' i = Some t' \<and> msgs t' = msgs t @ ms
       \<and> (ms \<noteq> [] \<longrightarrow> running t') \<and> (\<forall>j. j \<noteq> i \<longrightarrow> find_task tm' j = find_task tm j)"
proof (induction ms arbitrary: tm t)
  case (Cons m ms)
  from SendMessage_run [OF Cons.prems, of m] obtain tm1 where
    s: "SendMessage i m tm = Some (Inr tm1)" "sched_inv tm1"
      "find_task tm1 i = Some (t\<lparr>msgs := msgs t @ [m], running := True\<rparr>)"
      "\<forall>j. j \<noteq> i \<longrightarrow> find_task tm1 j = find_task tm j" by auto
  from Cons.IH [OF s(2,3)] s show ?case by (cases ms) auto
qed auto

lemma receive_n_run:
  "sched_inv tm \<Longrightarrow> find_task tm i = Some t \<Longrightarrow> n \<le> length (msgs t) \<Longrightarrow>
     \<exists>tm' t'. receive_n i n tm = Some (tm', map Some (take n (msgs t))) \<and> sched_inv tm'
       \<and> find_task tm' i = Some t' \<and> msgs t' = drop n (msgs t)"
proof (induction n arbitrary: tm t)
  case (Suc n)
  then obtain m ms where ms: "msgs t = m # ms" by (cases "msgs t") auto
  from ReceiveMessage_run [OF Suc.prems(1,2)] ms obtain tm1 where
    r: "ReceiveMessage i tm = Some (tm1, Some m)" "sched_inv tm1"
      "find_task tm1 i = Some (t\<lparr>msgs := ms\<rparr>)" by auto
  with Suc.IH [OF r(2,3)] Suc.prems(3) ms show ?case by auto
qed auto

text \<open>
  C33. The message queue of a task is first in, first out: messages sent to an existing task, in any
  reachable state, are received after the pending ones, each once and in the order of sending; sending
  wakes the task and leaves every other task unchanged.
\<close>

theorem messages_fifo:
  assumes "reachable (tm, cpu)" and "find_task tm i = Some t"
  shows "\<exists>tm1 t1 tm2 t2. send_all i ms tm = Some tm1
     \<and> find_task tm1 i = Some t1 \<and> (ms \<noteq> [] \<longrightarrow> running t1)
     \<and> (\<forall>j. j \<noteq> i \<longrightarrow> find_task tm1 j = find_task tm j)
     \<and> receive_n i (length (msgs t @ ms)) tm1 = Some (tm2, map Some (msgs t @ ms))
     \<and> find_task tm2 i = Some t2 \<and> msgs t2 = []"
proof -
  from reachable_sched_inv [OF assms(1)] have inv: "sched_inv tm" by simp
  from send_all_run [OF inv assms(2), of ms] obtain tm1 t1 where
    s: "send_all i ms tm = Some tm1" "sched_inv tm1" "find_task tm1 i = Some t1" "msgs t1 = msgs t @ ms"
      "ms \<noteq> [] \<longrightarrow> running t1" "\<forall>j. j \<noteq> i \<longrightarrow> find_task tm1 j = find_task tm j" by blast
  from receive_n_run [OF s(2,3), of "length (msgs t @ ms)"] s show ?thesis by auto
qed

theorem messages_fifo_witness:
  "\<exists>tm1 tm2. send_all 3 [kKeyboardPush 97, kPipe [] 0] terminal_manager = Some tm1
     \<and> receive_n 3 2 tm1 = Some (tm2, [Some (kKeyboardPush 97), Some (kPipe [] 0)])"
  using messages_fifo [OF terminal_manager_reachable terminal_manager_facts(2),
      of "[kKeyboardPush 97, kPipe [] 0]"]
  by (fastforce simp: new_Task_def InitContext_def numeral_2_eq_2)

section \<open>Finishing and waiting\<close>

lemma Rotate_finish_frame:
  "RotateCurrentRunQueue b tm = Some (tm', t) \<Longrightarrow>
     finish_tasks tm' = finish_tasks tm \<and> finish_waiter tm' = finish_waiter tm"
  using Rotate_Some(4,5) by blast

lemma Sleep_frame:
  "Sleep i (tm, c) = Some (tm', c') \<Longrightarrow> finish_waiter tm' = finish_waiter tm \<and> finish_tasks tm' = finish_tasks tm"
  by (auto simp: Sleep_def SwitchContext_def RestoreContext_def Let_def fallible
      split: if_splits option.splits prod.splits dest!: Rotate_finish_frame)

lemma WaitFinish_registers:
  assumes inv: "sched_inv tm" and cur: "CurrentTask tm = Some k" and k: "k \<noteq> kIdleTask"
    and none: "finish_tasks tm i = None"
  shows "\<exists>s t. WaitFinish_round i k (tm, c) = Some (s, None)
    \<and> find_task (fst s) k = Some t \<and> \<not> running t \<and> finish_waiter (fst s) i = Some k"
proof -
  let ?tm = "tm\<lparr>finish_waiter := (finish_waiter tm)(i \<mapsto> k)\<rparr>"
  from sched_inv_current_task [OF inv cur] have "find_task tm k \<noteq> None" by blast
  with inv none have inv': "sched_inv ?tm"
    by (auto simp: sched_inv_def ids_inv_def queue_inv_def level_inv_def waiter_inv_def idle_inv_def)
  have cur': "CurrentTask ?tm = Some k" using cur by (simp add: CurrentTask_def)
  from Sleep_current [OF inv' cur' k, of c] obtain tm' t n where
    "Sleep k (?tm, c) = Some (tm', ctx (n :: Task))"
    "\<forall>j. find_task tm' j = (if j = k then Some (t\<lparr>running := False, ctx := c\<rparr>) else find_task ?tm j)"
    by blast
  moreover from Sleep_frame [OF this(1)] have "finish_waiter tm' i = Some k" by simp
  ultimately show ?thesis using none by (simp add: WaitFinish_round_def)
qed

text \<open>
  C32. The rendezvous of \<open>Finish\<close> and \<open>WaitFinish\<close>: when the current task \<open>i\<close> finishes, it is gone,
  the task registered as its waiter is runnable, and the next round of \<open>WaitFinish(i)\<close>, by whichever
  task, returns the exit code and consumes it; a further round by a task that is current does not
  return the code again but puts that task to sleep as the registered waiter.
\<close>

theorem finish_then_wait:
  assumes "reachable (tm, cpu)" and "CurrentTask tm = Some i" and "i \<noteq> kIdleTask"
    and "\<forall>j. finish_waiter tm j \<noteq> Some i"
  shows "\<exists>tm' cpu' tm''. Finish code tm = Some (tm', cpu') \<and> find_task tm' i = None
     \<and> (\<forall>w. finish_waiter tm i = Some w \<longrightarrow> (\<exists>t. find_task tm' w = Some t \<and> running t))
     \<and> WaitFinish_round i k (tm', c) = Some ((tm'', c), Some code)
     \<and> finish_tasks tm'' i = None
     \<and> (CurrentTask tm'' = Some k \<and> k \<noteq> kIdleTask \<longrightarrow>
          (\<exists>s t. WaitFinish_round i k (tm'', c) = Some (s, None)
             \<and> find_task (fst s) k = Some t \<and> \<not> running t \<and> finish_waiter (fst s) i = Some k))"
proof -
  from reachable_sched_inv [OF assms(1)] have inv: "sched_inv tm" by simp
  from Finish_run [OF inv assms(2-4), of code] obtain tm' cpu' where
    f: "Finish code tm = Some (tm', cpu')" "sched_inv tm'" "find_task tm' i = None"
      "finish_tasks tm' = (finish_tasks tm)(i \<mapsto> code)"
      "\<forall>j. j \<noteq> i \<longrightarrow> find_task tm' j =
          (if finish_waiter tm i = Some j then map_option (\<lambda>t. t\<lparr>running := True\<rparr>) (find_task tm j)
           else find_task tm j)" by blast
  have w: "\<exists>t. find_task tm' w = Some t \<and> running t" if "finish_waiter tm i = Some w" for w
  proof -
    from that inv have "find_task tm w \<noteq> None" by (simp add: sched_inv_def waiter_inv_def)
    moreover from that assms(4) have "w \<noteq> i" by blast
    ultimately show ?thesis using f(5) that by auto
  qed
  define tm'' where "tm'' = tm'\<lparr>finish_tasks := (finish_tasks tm')(i := None)\<rparr>"
  have r: "WaitFinish_round i k (tm', c) = Some ((tm'', c), Some code)"
    using f(4) by (simp add: WaitFinish_round_def tm''_def)
  have n: "finish_tasks tm'' i = None" by (simp add: tm''_def)
  have inv'': "sched_inv tm''"
    using f(2) by (auto simp: tm''_def sched_inv_def ids_inv_def queue_inv_def level_inv_def
        waiter_inv_def idle_inv_def)
  have "\<exists>s t. WaitFinish_round i k (tm'', c) = Some (s, None)
      \<and> find_task (fst s) k = Some t \<and> \<not> running t \<and> finish_waiter (fst s) i = Some k"
    if "CurrentTask tm'' = Some k" "k \<noteq> kIdleTask"
    using WaitFinish_registers [OF inv'' that n] by blast
  with f(1,3) w r n show ?thesis by blast
qed

theorem finish_then_wait_witness:
  "\<exists>tm' cpu' tm''. Finish 7 terminal_manager = Some (tm', cpu')
     \<and> WaitFinish_round 1 3 (tm', blank_context) = Some ((tm'', blank_context), Some 7)"
proof -
  have "\<forall>k. finish_waiter terminal_manager k \<noteq> Some 1" by (simp add: terminal_manager_def)
  from finish_then_wait [OF terminal_manager_reachable terminal_manager_facts(1) _ this, of 7 3 blank_context]
  show ?thesis by (auto simp: kIdleTask_def)
qed

section \<open>File descriptors and contexts of a task\<close>

lemma first_null_Some:
  "first_null i fs = Some k \<Longrightarrow> i \<le> k \<and> k - i < length fs \<and> fs ! (k - i) = None \<and> (\<forall>j<k - i. fs ! j \<noteq> None)"
proof (induction i fs rule: first_null.induct)
  case (2 i f fs)
  then show ?case
    by (cases f) (auto simp: nth_Cons' Suc_le_eq split: if_splits)
qed simp

lemma first_null_None: "first_null i fs = None \<Longrightarrow> j < length fs \<Longrightarrow> fs ! j \<noteq> None"
  by (induction i fs arbitrary: j rule: first_null.induct) (auto simp: nth_Cons' split: option.splits)

text \<open>
  \<open>AllocateFD\<close> returns the lowest number whose slot is free; the slot exists afterwards and is
  null, and no open descriptor moves.
\<close>

theorem AllocateFD_lowest:
  "case AllocateFD t of (t', fd) \<Rightarrow>
     fd < length (files t') \<and> files t' ! fd = None
     \<and> (\<forall>j<fd. files t' ! j \<noteq> None) \<and> fd \<le> length (files t)
     \<and> (\<forall>j<length (files t). files t' ! j = files t ! j)
     \<and> length (files t') = max (length (files t)) (fd + 1)"
proof (cases "first_null 0 (files t)")
  case None
  from first_null_None [OF this] show ?thesis by (auto simp: AllocateFD_def None nth_append)
next
  case (Some k)
  from first_null_Some [OF this] show ?thesis by (auto simp: AllocateFD_def Some)
qed

theorem AllocateFD_lowest_witness:
  "case AllocateFD ((new_Task 3)\<lparr>files := [Some 0, None, Some 1]\<rparr>) of (t', fd) \<Rightarrow>
     fd = 1 \<and> files t' = [Some 0, None, Some 1] \<and> files t' ! fd = None"
  using AllocateFD_lowest [of "(new_Task 3)\<lparr>files := [Some 0, None, Some 1]\<rparr>"]
  by (simp add: AllocateFD_def)

end
