(* ===== verification/Timers.thy ===== *)
theory Timers
  imports Scheduler
begin

text \<open>
  \<^verbatim>\<open>kernel/timer.hpp\<close> and \<^verbatim>\<open>kernel/timer.cpp\<close>: software timers, the queue of \<open>TimerManager\<close>, the tick, and
  the interrupt handler that preempts the current task.

  \<open>std::priority_queue<Timer>\<close> with the reversed \<open>operator<\<close> has a timer of the smallest timeout on top.
  It is a list in the order of the timeouts; the order the standard library gives timers of the same
  timeout is not specified, and no property below depends on it.
\<close>

section \<open>Priority queues\<close>

text \<open>What \<open>Tick\<close> relies on: \<open>top\<close> is an element with the smallest key.\<close>

locale min_queue =
  fixes push :: "'a \<Rightarrow> 'q \<Rightarrow> 'q"
    and top :: "'q \<Rightarrow> 'a option"
    and pop :: "'q \<Rightarrow> 'q"
    and elems :: "'q \<Rightarrow> 'a multiset"
    and key :: "'a \<Rightarrow> 'k::linorder"
    and ok :: "'q \<Rightarrow> bool"
  assumes elems_push: "ok q \<Longrightarrow> elems (push x q) = add_mset x (elems q)"
    and ok_push: "ok q \<Longrightarrow> ok (push x q)"
    and top_None: "ok q \<Longrightarrow> top q = None \<longleftrightarrow> elems q = {#}"
    and top_least: "ok q \<Longrightarrow> top q = Some x \<Longrightarrow> x \<in># elems q \<and> (\<forall>y\<in>#elems q. key x \<le> key y)"
    and elems_pop: "ok q \<Longrightarrow> top q = Some x \<Longrightarrow> elems (pop q) = elems q - {#x#}"
    and ok_pop: "ok q \<Longrightarrow> ok (pop q)"
begin

abbreviation due :: "'k \<Rightarrow> 'q \<Rightarrow> 'a multiset" where
  "due n q \<equiv> filter_mset (\<lambda>x. key x \<le> n) (elems q)"

lemma due_top: "ok q \<Longrightarrow> top q = Some x \<Longrightarrow> key x \<le> n \<Longrightarrow> due n q = add_mset x (due n (pop q))"
proof -
  assume a: "ok q" "top q = Some x" "key x \<le> n"
  then have "elems q = add_mset x (elems (pop q))" using top_least elems_pop by fastforce
  with a show ?thesis by simp
qed

lemma due_none: "ok q \<Longrightarrow> top q = Some x \<Longrightarrow> \<not> key x \<le> n \<Longrightarrow> due n q = {#}"
  using top_least by (fastforce simp: filter_mset_eq_conv)

lemma due_push: "ok q \<Longrightarrow> \<not> key y \<le> n \<Longrightarrow> due n (push y q) = due n q"
  by (simp add: elems_push)

lemma elems_pop_add: "ok q \<Longrightarrow> top q = Some x \<Longrightarrow> elems q = add_mset x (elems (pop q))"
  using top_least elems_pop by fastforce

lemma due_size: "ok q \<Longrightarrow> top q = Some x \<Longrightarrow> key x \<le> n \<Longrightarrow> size (due n (pop q)) < size (due n q)"
  by (simp add: due_top)

end

section \<open>Timers\<close>

record Timer =
  timeout :: u64
  tvalue :: int

definition kTaskTimerPeriod :: u64 where [layout]: "kTaskTimerPeriod = 2"
definition kTaskTimerValue :: int where [layout]: "kTaskTimerValue = - (2 ^ 31)"

fun pq_push :: "Timer \<Rightarrow> Timer list \<Rightarrow> Timer list" where
  "pq_push t [] = [t]"
| "pq_push t (u # us) = (if timeout t < timeout u then t # u # us else u # pq_push t us)"

definition pq_top :: "Timer list \<Rightarrow> Timer option" where
  "pq_top q = (case q of [] \<Rightarrow> None | t # _ \<Rightarrow> Some t)"

definition pq_pop :: "Timer list \<Rightarrow> Timer list" where
  "pq_pop q = tl q"

definition pq_ok :: "Timer list \<Rightarrow> bool" where
  "pq_ok q \<longleftrightarrow> sorted (map timeout q)"

lemma mset_pq_push: "mset (pq_push t q) = add_mset t (mset q)"
  by (induction q) auto

lemma set_pq_push: "set (pq_push t q) = insert t (set q)"
  by (induction q) auto

lemma pq_ok_push: "pq_ok q \<Longrightarrow> pq_ok (pq_push t q)"
  by (induction q) (auto simp: pq_ok_def set_pq_push)

interpretation timer_queue: min_queue pq_push pq_top pq_pop mset timeout pq_ok
proof
  show "pq_ok q \<Longrightarrow> pq_top q = None \<longleftrightarrow> mset q = {#}" for q
    by (simp add: pq_top_def split: list.split)
  show "pq_ok q \<Longrightarrow> pq_top q = Some x \<Longrightarrow> x \<in># mset q \<and> (\<forall>y\<in>#mset q. timeout x \<le> timeout y)" for q x
    by (auto simp: pq_top_def pq_ok_def split: list.splits)
  show "pq_ok q \<Longrightarrow> pq_top q = Some x \<Longrightarrow> mset (pq_pop q) = mset q - {#x#}" for q x
    by (auto simp: pq_top_def pq_pop_def split: list.splits)
  show "pq_ok q \<Longrightarrow> pq_ok (pq_pop q)" for q
    by (cases q) (auto simp: pq_ok_def pq_pop_def)
qed (simp_all add: mset_pq_push pq_ok_push)

record TimerManager =
  tick :: u64
  timers :: "Timer list"

definition new_TimerManager :: TimerManager where
  "new_TimerManager = \<lparr>tick = 0, timers = pq_push \<lparr>timeout = - 1, tvalue = - 1\<rparr> []\<rparr>"

definition AddTimer :: "Timer \<Rightarrow> TimerManager \<Rightarrow> TimerManager" where
  "AddTimer t m = m\<lparr>timers := pq_push t (timers m)\<rparr>"

text \<open>
  The loop of \<open>Tick\<close>: \<open>now\<close> is the incremented \<open>tick_\<close>.  The error that \<open>SendMessage\<close> returns when task 1
  does not exist is ignored.
\<close>

partial_function (option) tick_loop ::
  "u64 \<Rightarrow> Timer list \<Rightarrow> TaskManager \<Rightarrow> bool \<Rightarrow> (Timer list \<times> TaskManager \<times> bool) option" where
  "tick_loop now q tm task_timer_timeout =
     (case pq_top q of
        None \<Rightarrow> None
      | Some t \<Rightarrow>
          if timeout t > now then Some (q, tm, task_timer_timeout)
          else if tvalue t = kTaskTimerValue
          then tick_loop now
                 (pq_push \<lparr>timeout = now + kTaskTimerPeriod, tvalue = kTaskTimerValue\<rparr> (pq_pop q)) tm True
          else (case SendMessage 1 (kTimerTimeout (timeout t) (tvalue t)) tm of
                  None \<Rightarrow> None
                | Some (Inl e) \<Rightarrow> tick_loop now (pq_pop q) tm task_timer_timeout
                | Some (Inr tm') \<Rightarrow> tick_loop now (pq_pop q) tm' task_timer_timeout))"

definition Tick :: "TimerManager \<Rightarrow> TaskManager \<Rightarrow> (TimerManager \<times> TaskManager \<times> bool) option" where
  "Tick m tm =
     (let now = tick m + 1
      in map_option (\<lambda>(q, tm', b). (\<lparr>tick = now, timers = q\<rparr>, tm', b)) (tick_loop now (timers m) tm False))"

text \<open>\<open>LAPICTimerOnInterrupt\<close>: the tick, then the switch when the task timer ran out.\<close>

definition LAPICTimerOnInterrupt ::
  "TaskContext \<Rightarrow> TimerManager \<Rightarrow> TaskManager \<Rightarrow> (TimerManager \<times> TaskManager \<times> TaskContext) option" where
  "LAPICTimerOnInterrupt ctx_stack m tm =
     Option.bind (Tick m tm) (\<lambda>(m', tm', task_timer_timeout).
       if task_timer_timeout
       then map_option (\<lambda>(tm'', cpu). (m', tm'', cpu)) (SwitchTask ctx_stack tm')
       else Some (m', tm', ctx_stack))"

text \<open>\<open>InitializeTask\<close>: a new task manager, and the first task timer.\<close>

definition InitializeTask :: "u64 \<Rightarrow> u64 \<Rightarrow> u64 \<Rightarrow> TimerManager \<Rightarrow> TimerManager \<times> TaskManager" where
  "InitializeTask cr3 stack_end idle_entry m =
     (AddTimer \<lparr>timeout = tick m + kTaskTimerPeriod, tvalue = kTaskTimerValue\<rparr> m,
      new_TaskManager cr3 stack_end idle_entry)"

section \<open>What a tick does\<close>

definition task_timer :: "Timer \<Rightarrow> bool" where
  "task_timer t \<longleftrightarrow> tvalue t = kTaskTimerValue"

definition timer_message :: "Timer \<Rightarrow> Message" where
  "timer_message t = kTimerTimeout (timeout t) (tvalue t)"

text \<open>
  The effect of running out the timers of \<open>q\<close> that are due at \<open>now\<close>, on the queue, on the messages of
  task 1 and on the flag.  \<open>es\<close> lists the expired software timers in the order of delivery.
\<close>

definition tick_effect ::
  "u64 \<Rightarrow> Timer list \<Rightarrow> TaskManager \<Rightarrow> bool \<Rightarrow> Timer list \<Rightarrow> TaskManager \<Rightarrow> bool \<Rightarrow> Timer list \<Rightarrow> bool" where
  "tick_effect now q tm b q' tm' b' es \<longleftrightarrow>
     pq_ok q' \<and> sched_inv tm' \<and> CurrentTask tm' = CurrentTask tm
     \<and> (\<forall>t\<in>set q'. timeout t > now)
     \<and> (b' \<longleftrightarrow> b \<or> (\<exists>t\<in>set q. timeout t \<le> now \<and> task_timer t))
     \<and> sorted (map timeout es)
     \<and> mset es = filter_mset (\<lambda>t. timeout t \<le> now \<and> \<not> task_timer t) (mset q)
     \<and> mset q' = filter_mset (\<lambda>t. timeout t > now) (mset q)
          + replicate_mset (size (filter_mset (\<lambda>t. timeout t \<le> now \<and> task_timer t) (mset q)))
              \<lparr>timeout = now + kTaskTimerPeriod, tvalue = kTaskTimerValue\<rparr>
     \<and> (\<forall>t. find_task tm 1 = Some t \<longrightarrow> (\<exists>t'. find_task tm' 1 = Some t' \<and> msgs t' = msgs t @ map timer_message es))
     \<and> (\<forall>j. j \<noteq> 1 \<longrightarrow> find_task tm' j = find_task tm j)"

lemma filter_mset_none: "(\<forall>x\<in>#M. \<not> P x) \<Longrightarrow> filter_mset P M = {#}"
  by (simp add: filter_mset_eq_conv)

lemma tick_effect_nothing:
  assumes "pq_ok q" "sched_inv tm" "pq_top q = Some t" "timeout t > now"
  shows "tick_effect now q tm b q tm b []"
proof -
  from timer_queue.top_least [OF assms(1,3)] assms(4) have all: "\<forall>u\<in>set q. timeout u > now" by fastforce
  then have "filter_mset (\<lambda>t. timeout t \<le> now \<and> R t) (mset q) = {#}" for R
    by (intro filter_mset_none) auto
  moreover from all have "filter_mset (\<lambda>t. timeout t > now) (mset q) = mset q"
    by (intro filter_mset_eq_conv [THEN iffD2]) auto
  ultimately show ?thesis using all assms by (auto simp: tick_effect_def)
qed

lemma tick_effect_task_timer:
  assumes q: "pq_ok q" "pq_top q = Some t" "timeout t \<le> now" "task_timer t"
    and wrap: "now < now + kTaskTimerPeriod"
    and e: "tick_effect now
      (pq_push \<lparr>timeout = now + kTaskTimerPeriod, tvalue = kTaskTimerValue\<rparr> (pq_pop q)) tm True q' tm' b' es"
  shows "tick_effect now q tm b q' tm' b' es"
proof -
  let ?n = "\<lparr>timeout = now + kTaskTimerPeriod, tvalue = kTaskTimerValue\<rparr>"
  have m: "mset q = add_mset t (mset (pq_pop q))" by (rule timer_queue.elems_pop_add [OF q(1,2)])
  then have sq: "set q = insert t (set (pq_pop q))" by (metis set_mset_add_mset_insert set_mset_mset)
  have nw: "\<not> now + kTaskTimerPeriod \<le> now" using wrap by simp
  have flag: "b' \<longleftrightarrow> b \<or> (\<exists>t\<in>set q. timeout t \<le> now \<and> task_timer t)"
    using e q(3,4) sq by (auto simp: tick_effect_def)
  have es: "mset es = filter_mset (\<lambda>t. timeout t \<le> now \<and> \<not> task_timer t) (mset q)"
    using e q(3,4) nw unfolding tick_effect_def m by (simp add: mset_pq_push)
  have rest: "mset q' = filter_mset (\<lambda>t. timeout t > now) (mset q)
          + replicate_mset (size (filter_mset (\<lambda>t. timeout t \<le> now \<and> task_timer t) (mset q)))
              \<lparr>timeout = now + kTaskTimerPeriod, tvalue = kTaskTimerValue\<rparr>"
    using e q(3,4) nw wrap unfolding tick_effect_def m by (simp add: mset_pq_push)
  from e flag es rest show ?thesis unfolding tick_effect_def by blast
qed

lemma tick_effect_message:
  assumes q: "pq_ok q" "pq_top q = Some t" "timeout t \<le> now" "\<not> task_timer t"
    and s: "find_task tm1 1 = Some (u\<lparr>msgs := msgs u @ [timer_message t], running := True\<rparr>)"
      "find_task tm 1 = Some u" "\<forall>j. j \<noteq> 1 \<longrightarrow> find_task tm1 j = find_task tm j"
      "CurrentTask tm1 = CurrentTask tm"
    and e: "tick_effect now (pq_pop q) tm1 b q' tm' b' es"
  shows "tick_effect now q tm b q' tm' b' (t # es)"
proof -
  have m: "mset q = add_mset t (mset (pq_pop q))" by (rule timer_queue.elems_pop_add [OF q(1,2)])
  then have sq: "set q = insert t (set (pq_pop q))" by (metis set_mset_add_mset_insert set_mset_mset)
  have "\<forall>x\<in>set es. x \<in># mset es" by simp
  with e have "\<forall>x\<in>set es. x \<in> set (pq_pop q)" by (auto simp: tick_effect_def)
  with timer_queue.top_least [OF q(1,2)] sq have "\<forall>x\<in>set es. timeout t \<le> timeout x" by auto
  with e q s sq show ?thesis unfolding tick_effect_def by (auto simp: m)
qed

lemma tick_loop_run:
  assumes "pq_ok q" and "sched_inv tm" and "find_task tm 1 = Some u"
    and "\<exists>t\<in>set q. timeout t > now" and "now < now + kTaskTimerPeriod"
  shows "\<exists>q' tm' b' es. tick_loop now q tm b = Some (q', tm', b') \<and> tick_effect now q tm b q' tm' b' es"
  using assms
proof (induction "size (timer_queue.due now q)" arbitrary: q tm u b rule: less_induct)
  case less
  from less.prems(4) have "pq_top q \<noteq> None" by (auto simp: pq_top_def split: list.split)
  then obtain t where t: "pq_top q = Some t" by blast
  note step = tick_loop.simps [of now q tm b]
  show ?case
  proof (cases "timeout t > now")
    case True
    with tick_effect_nothing [OF less.prems(1,2) t] t step show ?thesis by auto
  next
    case False
    then have due: "timeout t \<le> now" by simp
    have m: "mset q = add_mset t (mset (pq_pop q))" by (rule timer_queue.elems_pop_add [OF less.prems(1) t])
    then have sq: "set q = insert t (set (pq_pop q))" by (metis set_mset_add_mset_insert set_mset_mset)
    have pop: "pq_ok (pq_pop q)" by (rule timer_queue.ok_pop [OF less.prems(1)])
    have smaller: "size (timer_queue.due now (pq_pop q)) < size (timer_queue.due now q)"
      by (rule timer_queue.due_size [OF less.prems(1) t due])
    have sentinel: "\<exists>x\<in>set (pq_pop q). timeout x > now" using less.prems(4) due sq by auto
    show ?thesis
    proof (cases "task_timer t")
      case True
      let ?n = "\<lparr>timeout = now + kTaskTimerPeriod, tvalue = kTaskTimerValue\<rparr>"
      have push: "pq_ok (pq_push ?n (pq_pop q))" using pop by (rule pq_ok_push)
      have "size (timer_queue.due now (pq_push ?n (pq_pop q))) < size (timer_queue.due now q)"
        using smaller less.prems(5) by (subst timer_queue.due_push [OF pop]) auto
      from less.hyps [OF this push less.prems(2,3) _ less.prems(5), of True] sentinel
      obtain q' tm' b' es where
        "tick_loop now (pq_push ?n (pq_pop q)) tm True = Some (q', tm', b')"
        "tick_effect now (pq_push ?n (pq_pop q)) tm True q' tm' b' es"
        by (auto simp: set_pq_push)
      moreover from this tick_effect_task_timer [OF less.prems(1) t due True less.prems(5)]
      have "tick_effect now q tm b q' tm' b' es" by blast
      ultimately show ?thesis using step t False True by (auto simp: task_timer_def)
    next
      case msg: False
      from SendMessage_run [OF less.prems(2,3), of "timer_message t"] obtain tm1 where
        s: "SendMessage 1 (timer_message t) tm = Some (Inr tm1)" "sched_inv tm1"
          "CurrentTask tm1 = CurrentTask tm"
          "find_task tm1 1 = Some (u\<lparr>msgs := msgs u @ [timer_message t], running := True\<rparr>)"
          "\<forall>j. j \<noteq> 1 \<longrightarrow> find_task tm1 j = find_task tm j" by auto
      from less.hyps [OF smaller pop s(2,4) sentinel less.prems(5), of b] obtain q' tm' b' es where
        "tick_loop now (pq_pop q) tm1 b = Some (q', tm', b')" "tick_effect now (pq_pop q) tm1 b q' tm' b' es"
        by blast
      moreover from this tick_effect_message [OF less.prems(1) t due msg s(4) less.prems(3) s(5,3)]
      have "tick_effect now q tm b q' tm' b' (t # es)" by blast
      ultimately show ?thesis using step t False msg s(1)
        by (auto simp: task_timer_def timer_message_def simp del: One_nat_def)
    qed
  qed
qed


section \<open>Properties\<close>

lemma Tick_run:
  assumes "pq_ok (timers m)" and "sched_inv tm" and "find_task tm 1 = Some u"
    and "\<exists>t\<in>set (timers m). timeout t > tick m + 1" and "tick m + 1 < tick m + 1 + kTaskTimerPeriod"
  shows "\<exists>m' tm' b es. Tick m tm = Some (m', tm', b) \<and> tick m' = tick m + 1
    \<and> tick_effect (tick m + 1) (timers m) tm False (timers m') tm' b es"
  using tick_loop_run [OF assms, of False] by (auto simp: Tick_def Let_def)

text \<open>
  C13. A tick ends (the sentinel stops the loop) and delivers to task 1 exactly the software timers whose
  timeout has come, in the order of their timeouts, each once and after the messages already queued; they leave
  the queue, the timers that are not due stay, other tasks are untouched, the running task keeps running,
  and the tick reports a preemption exactly when a task timer was due.
\<close>

theorem Tick_delivers:
  assumes "pq_ok (timers m)" and "sched_inv tm" and "find_task tm 1 = Some u"
    and "\<exists>t\<in>set (timers m). timeout t > tick m + 1" and "tick m + 1 < tick m + 1 + kTaskTimerPeriod"
  shows "\<exists>m' tm' b es u'. Tick m tm = Some (m', tm', b) \<and> tick m' = tick m + 1
    \<and> find_task tm' 1 = Some u' \<and> msgs u' = msgs u @ map (\<lambda>t. kTimerTimeout (timeout t) (tvalue t)) es
    \<and> sorted (map timeout es)
    \<and> mset es = {#t \<in># mset (timers m). timeout t \<le> tick m + 1 \<and> tvalue t \<noteq> kTaskTimerValue#}
    \<and> {#t \<in># mset (timers m'). tvalue t \<noteq> kTaskTimerValue#}
        = {#t \<in># mset (timers m). timeout t > tick m + 1 \<and> tvalue t \<noteq> kTaskTimerValue#}
    \<and> (\<forall>t\<in>set (timers m'). timeout t > tick m')
    \<and> (\<forall>j. j \<noteq> 1 \<longrightarrow> find_task tm' j = find_task tm j)
    \<and> CurrentTask tm' = CurrentTask tm
    \<and> (b \<longleftrightarrow> (\<exists>t\<in>set (timers m). timeout t \<le> tick m + 1 \<and> tvalue t = kTaskTimerValue))"
proof -
  from Tick_run [OF assms] obtain m' tm' b es where r: "Tick m tm = Some (m', tm', b)" "tick m' = tick m + 1"
    and e: "tick_effect (tick m + 1) (timers m) tm False (timers m') tm' b es" by blast
  have "{#t \<in># mset (timers m'). tvalue t \<noteq> kTaskTimerValue#}
        = {#t \<in># mset (timers m). timeout t > tick m + 1 \<and> tvalue t \<noteq> kTaskTimerValue#}"
    using e by (simp add: tick_effect_def filter_filter_mset conj_commute)
  with r e assms(3) show ?thesis
    unfolding tick_effect_def task_timer_def by (auto simp: timer_message_def [abs_def])
qed


lemma timer_boot: "pq_ok (timers new_TimerManager)" "set (timers new_TimerManager) = {\<lparr>timeout = - 1, tvalue = - 1\<rparr>}"
  by (simp_all add: new_TimerManager_def pq_ok_def)

text \<open>Two software timers that are due, one that is not, and the task timer.\<close>

definition sample_timers :: TimerManager where
  "sample_timers = AddTimer \<lparr>timeout = 1, tvalue = 7\<rparr> (AddTimer \<lparr>timeout = 9, tvalue = 8\<rparr>
     (fst (InitializeTask 0 0 0 new_TimerManager)))"

lemma sample_timers_eq: "sample_timers = \<lparr>tick = 0, timers =
    [\<lparr>timeout = 1, tvalue = 7\<rparr>, \<lparr>timeout = 2, tvalue = kTaskTimerValue\<rparr>, \<lparr>timeout = 9, tvalue = 8\<rparr>,
     \<lparr>timeout = - 1, tvalue = - 1\<rparr>]\<rparr>"
  by (simp add: sample_timers_def AddTimer_def InitializeTask_def new_TimerManager_def kTaskTimerPeriod_def)

theorem Tick_delivers_witness:
  "\<exists>m' tm' u'. Tick sample_timers boot_manager = Some (m', tm', False) \<and> tick m' = 1
     \<and> find_task tm' 1 = Some u' \<and> msgs u' = [kTimerTimeout 1 7]"
proof -
  have m1: "{#t \<in># mset (timers sample_timers). timeout t \<le> tick sample_timers + 1 \<and> tvalue t \<noteq> kTaskTimerValue#}
      = {#\<lparr>timeout = 1, tvalue = 7\<rparr>#}"
    by (simp add: sample_timers_eq kTaskTimerValue_def word_le_nat_alt unsigned_minus_1_eq_mask mask_eq_exp_minus_1)
  have m2: "\<not> (\<exists>t\<in>set (timers sample_timers). timeout t \<le> tick sample_timers + 1 \<and> tvalue t = kTaskTimerValue)"
    by (simp add: sample_timers_eq kTaskTimerValue_def word_le_nat_alt unsigned_minus_1_eq_mask mask_eq_exp_minus_1)
  have inv: "sched_inv boot_manager" by (simp add: boot_manager_def sched_inv_new)
  have "pq_ok (timers sample_timers)" by (simp add: sample_timers_eq pq_ok_def)
  moreover have "\<exists>t\<in>set (timers sample_timers). timeout t > tick sample_timers + 1" by (simp add: sample_timers_eq)
  moreover have "tick sample_timers + 1 < tick sample_timers + 1 + kTaskTimerPeriod"
    by (simp add: sample_timers_eq kTaskTimerPeriod_def)
  moreover note Tick_delivers [OF _ inv boot_find(1), of sample_timers, unfolded m1]
  ultimately obtain m' tm' b es u' where r: "Tick sample_timers boot_manager = Some (m', tm', b)"
    "tick m' = tick sample_timers + 1" "find_task tm' 1 = Some u'"
    "msgs u' = msgs (new_Task 1) @ map (\<lambda>t. kTimerTimeout (timeout t) (tvalue t)) es"
    "mset es = {#\<lparr>timeout = 1, tvalue = 7\<rparr>#}" "\<not> b" using m2 by auto
  from r(5) have "es = [\<lparr>timeout = 1, tvalue = 7\<rparr>]" by simp
  with r show ?thesis by (auto simp: new_Task_def sample_timers_eq)
qed

section \<open>Preemption\<close>

text \<open>
  The timer manager while the kernel runs: an ordered queue with the sentinel, and one task timer, which
  is due at \<open>T\<close>, one or two ticks from now.
\<close>

definition timer_inv :: "TimerManager \<Rightarrow> u64 \<Rightarrow> bool" where
  "timer_inv m T \<longleftrightarrow> pq_ok (timers m) \<and> (\<exists>t\<in>set (timers m). timeout t = - 1 \<and> \<not> task_timer t)
     \<and> filter_mset task_timer (mset (timers m)) = {#\<lparr>timeout = T, tvalue = kTaskTimerValue\<rparr>#}
     \<and> (T = tick m + 1 \<or> T = tick m + 2)"

lemma timer_inv_boot: "timer_inv (fst (InitializeTask cr3 se e new_TimerManager)) 2"
  by (simp add: timer_inv_def InitializeTask_def new_TimerManager_def AddTimer_def pq_ok_def
      kTaskTimerPeriod_def kTaskTimerValue_def task_timer_def)

lemma timer_inv_AddTimer: "timer_inv m T \<Longrightarrow> \<not> task_timer t \<Longrightarrow> timer_inv (AddTimer t m) T"
  by (auto simp: timer_inv_def AddTimer_def pq_ok_push mset_pq_push set_pq_push)

lemma tick_room:
  assumes "(k::u64) < - 4"
  shows "k + 1 < k + 1 + kTaskTimerPeriod" "k + 1 < - 1" "k + 1 < k + 2" "k < k + 1" "k + 1 \<noteq> k + 2"
proof -
  from assms have k: "unat k < 2 ^ 64 - 4" by (simp add: word_less_nat_alt)
  then have "unat (k + 1) = unat k + 1" "unat (k + 2) = unat k + 2" "unat (k + 3) = unat k + 3"
    by (simp_all add: unat_word_ariths)
  moreover have p: "k + 1 + kTaskTimerPeriod = k + 3" by (simp add: kTaskTimerPeriod_def)
  moreover have "unat (- 1 :: u64) = 2 ^ 64 - 1" by (simp add: unsigned_minus_1_eq_mask mask_eq_exp_minus_1)
  ultimately show "k + 1 < k + 1 + kTaskTimerPeriod" "k + 1 < - 1" "k + 1 < k + 2" "k < k + 1" "k + 1 \<noteq> k + 2"
    using k unfolding p word_less_nat_alt by (linarith, linarith, linarith, linarith, auto)
qed

lemma timer_inv_Tick:
  assumes inv: "timer_inv m T" and k: "tick m < - 4" and e: "tick_effect (tick m + 1) (timers m) tm False q tm' b es"
  shows "(b \<longleftrightarrow> T = tick m + 1) \<and> timer_inv \<lparr>tick = tick m + 1, timers = q\<rparr> (if b then T + 2 else T)"
proof -
  let ?now = "tick m + 1" and ?n = "\<lparr>timeout = tick m + 1 + kTaskTimerPeriod, tvalue = kTaskTimerValue\<rparr>"
  note room = tick_room [OF k]
  from inv have T: "filter_mset task_timer (mset (timers m)) = {#\<lparr>timeout = T, tvalue = kTaskTimerValue\<rparr>#}"
    and T': "T = tick m + 1 \<or> T = tick m + 2" by (auto simp: timer_inv_def)
  have f: "filter_mset (\<lambda>t. P t \<and> task_timer t) (mset (timers m))
      = filter_mset P {#\<lparr>timeout = T, tvalue = kTaskTimerValue\<rparr>#}" for P
    by (simp only: T [symmetric] filter_filter_mset) (rule filter_mset_cong, auto)
  have due: "T \<le> ?now \<longleftrightarrow> T = ?now" using T' room by auto
  have b: "b \<longleftrightarrow> T = ?now"
  proof -
    have "b \<longleftrightarrow> (\<exists>t. t \<in># filter_mset (\<lambda>t. timeout t \<le> ?now \<and> task_timer t) (mset (timers m)))"
      using e by (auto simp: tick_effect_def)
    then show ?thesis by (simp add: f due)
  qed
  have q: "mset q = filter_mset (\<lambda>t. timeout t > ?now) (mset (timers m))
      + (if T = ?now then {#?n#} else {#})"
    using e due by (simp add: tick_effect_def f)
  have "filter_mset task_timer (mset q) = {#\<lparr>timeout = if b then T + 2 else T, tvalue = kTaskTimerValue\<rparr>#}"
  proof -
    have "filter_mset task_timer (filter_mset (\<lambda>t. timeout t > ?now) (mset (timers m)))
        = filter_mset (\<lambda>t. timeout t > ?now) {#\<lparr>timeout = T, tvalue = kTaskTimerValue\<rparr>#}"
      by (simp only: T [symmetric] filter_filter_mset) (rule filter_mset_cong, auto)
    then show ?thesis using T' room b by (auto simp: q task_timer_def kTaskTimerPeriod_def)
  qed
  moreover have "\<exists>t\<in>set q. timeout t = - 1 \<and> \<not> task_timer t"
  proof -
    from inv obtain t where t: "t \<in># mset (timers m)" "timeout t = - 1" "\<not> task_timer t"
      by (auto simp: timer_inv_def)
    with room have "t \<in># mset q" by (simp add: q)
    with t show ?thesis by auto
  qed
  ultimately show ?thesis using b e T' by (auto simp: timer_inv_def tick_effect_def)
qed


lemma SwitchTask_saves:
  assumes "sched_inv tm" and "CurrentTask tm = Some cur"
  shows "\<exists>tm1 nx k p. SwitchTask c tm = Some (tm1, ctx k) \<and> sched_inv tm1 \<and> CurrentTask tm1 = Some nx
    \<and> find_task tm1 nx = Some k \<and> find_task tm1 cur = Some p \<and> ctx p = c
    \<and> (\<forall>j. find_task tm j \<noteq> None \<longrightarrow> find_task tm1 j \<noteq> None)"
proof -
  from SwitchTask_run [OF assms(1), of c] assms(2) obtain tm1 nx k where
    r: "RotateCurrentRunQueue False (set_context cur c tm) = Some (tm1, cur)" "sched_inv tm1"
      "CurrentTask tm1 = Some nx" "find_task tm1 nx = Some k" "SwitchTask c tm = Some (tm1, ctx k)" by auto
  have "find_task tm1 = find_task (set_context cur c tm)" using r(1) by simp
  with sched_inv_current_task [OF assms] r show ?thesis by (auto simp: find_set_context)
qed



end
