(* ===== verification/ByteMemory.thy ===== *)
theory ByteMemory
  imports Prelude
begin

text \<open>
  Memory byte by byte with the little-endian views that the casts of the source make of it, and packed bit
  fields as ranges of bits of the word that holds them.
\<close>

section \<open>Little-endian views of memory\<close>

type_synonym memory = "nat \<Rightarrow> u8"

definition le16 :: "memory \<Rightarrow> nat \<Rightarrow> u16" where
  "le16 m a = ucast (m a) OR push_bit 8 (ucast (m (a + 1)))"

definition le32 :: "memory \<Rightarrow> nat \<Rightarrow> u32" where
  "le32 m a = ucast (le16 m a) OR push_bit 16 (ucast (le16 m (a + 2)))"

definition put16 :: "nat \<Rightarrow> u16 \<Rightarrow> memory \<Rightarrow> memory" where
  "put16 a x m = m(a := ucast x, a + 1 := ucast (drop_bit 8 x))"

definition put32 :: "nat \<Rightarrow> u32 \<Rightarrow> memory \<Rightarrow> memory" where
  "put32 a x m = put16 (a + 2) (ucast (drop_bit 16 x)) (put16 a (ucast x) m)"

definition bytes :: "memory \<Rightarrow> nat \<Rightarrow> nat \<Rightarrow> u8 list" where
  "bytes m a n = map (\<lambda>i. m (a + i)) [0..<n]"

text \<open>\<open>memcpy(&m[a], src, n)\<close> with the source as its bytes.\<close>

definition put_bytes :: "nat \<Rightarrow> u8 list \<Rightarrow> memory \<Rightarrow> memory" where
  "put_bytes a bs m = (\<lambda>i. if a \<le> i \<and> i < a + length bs then bs ! (i - a) else m i)"

lemma le16_put16 [simp]: "le16 (put16 a x m) a = x"
  by (rule bit_word_eqI) (auto simp: le16_def put16_def bit_simps)

lemma put16_other: "i < a \<or> a + 2 \<le> i \<Longrightarrow> put16 a x m i = m i"
  by (auto simp: put16_def)

lemma le16_cong: "(\<And>i. i < 2 \<Longrightarrow> m (a + i) = m' (a + i)) \<Longrightarrow> le16 m a = le16 m' a"
proof -
  assume eq: "\<And>i. i < 2 \<Longrightarrow> m (a + i) = m' (a + i)"
  from eq [of 0] eq [of 1] show ?thesis by (simp add: le16_def)
qed

lemma le32_cong: "(\<And>i. i < 4 \<Longrightarrow> m (a + i) = m' (a + i)) \<Longrightarrow> le32 m a = le32 m' a"
proof -
  assume eq: "\<And>i. i < 4 \<Longrightarrow> m (a + i) = m' (a + i)"
  have "le16 m a = le16 m' a" by (rule le16_cong) (simp add: eq)
  moreover have "le16 m (a + 2) = le16 m' (a + 2)"
    by (rule le16_cong) (metis add.assoc eq nat_add_left_cancel_less numeral_Bit0)
  ultimately show ?thesis by (simp add: le32_def)
qed

lemma put32_other: "i < a \<or> a + 4 \<le> i \<Longrightarrow> put32 a x m i = m i"
  by (auto simp: put32_def put16_other)

lemma le32_put32 [simp]: "le32 (put32 a x m) a = x"
proof -
  have "le16 (put16 (a + 2) y (put16 a (ucast x) m)) a = ucast x" for y
    by (subst le16_cong [where m' = "put16 a (ucast x) m"]) (auto simp: put16_other)
  then show ?thesis
    unfolding le32_def put32_def by (intro bit_word_eqI) (auto simp: bit_simps)
qed

lemma le32_put32_other: "a + 4 \<le> b \<or> b + 4 \<le> a \<Longrightarrow> le32 (put32 b x m) a = le32 m a"
  by (rule le32_cong) (auto simp: put32_other)

lemma length_bytes [simp]: "length (bytes m a n) = n"
  by (simp add: bytes_def)

lemma nth_bytes [simp]: "i < n \<Longrightarrow> bytes m a n ! i = m (a + i)"
  by (simp add: bytes_def)

lemma put_bytes_other: "i < a \<or> a + length bs \<le> i \<Longrightarrow> put_bytes a bs m i = m i"
  by (auto simp: put_bytes_def)

lemma bytes_put_bytes [simp]: "bytes (put_bytes a bs m) a (length bs) = bs"
  by (auto simp: bytes_def put_bytes_def intro!: nth_equalityI)

lemma bytes_cong: "(\<And>i. i < n \<Longrightarrow> m (a + i) = m' (a + i)) \<Longrightarrow> bytes m a n = bytes m' a n"
  by (simp add: bytes_def)

section \<open>Bit fields\<close>

definition get_field :: "nat \<Rightarrow> nat \<Rightarrow> 'a::len word \<Rightarrow> 'a word" where
  "get_field off w x = take_bit w (drop_bit off x)"

definition set_field :: "nat \<Rightarrow> nat \<Rightarrow> 'a::len word \<Rightarrow> 'a word \<Rightarrow> 'a word" where
  "set_field off w v x = (x AND NOT (push_bit off (mask w))) OR push_bit off (take_bit w v)"

lemma bit_set_field:
  fixes x v :: "'a::len word"
  shows "bit (set_field off w v x) n \<longleftrightarrow>
    n < LENGTH('a) \<and> (if off \<le> n \<and> n < off + w then bit v (n - off) else bit x n)"
  by (auto simp: set_field_def bit_simps)

lemma bit_get_field:
  fixes x :: "'a::len word"
  shows "bit (get_field off w x) n \<longleftrightarrow> n < w \<and> off + n < LENGTH('a) \<and> bit x (off + n)"
  by (auto simp: get_field_def bit_simps dest: bit_imp_le_length)

lemma get_set_same:
  fixes x v :: "'a::len word"
  shows "off + w \<le> LENGTH('a) \<Longrightarrow> get_field off w (set_field off w v x) = take_bit w v"
  by (rule bit_word_eqI) (auto simp: bit_get_field bit_set_field bit_simps)

lemma get_set_other:
  fixes x v :: "'a::len word"
  shows "off + w \<le> off' \<or> off' + w' \<le> off \<Longrightarrow> get_field off' w' (set_field off w v x) = get_field off' w' x"
  by (rule bit_word_eqI) (auto simp: bit_get_field bit_set_field)

lemmas field_simps_word = get_set_same get_set_other

lemma get_field_1_eq: "get_field off 1 x = 1 \<longleftrightarrow> bit x off" for x :: "'a::len word"
proof -
  have "get_field off 1 x = of_bool (bit x off)"
    by (rule bit_word_eqI) (auto simp: bit_get_field bit_simps simp del: One_nat_def dest: bit_imp_le_length)
  then show ?thesis by simp
qed

lemma set_field_1_same: "bit x off \<Longrightarrow> set_field off 1 1 x = x" for x :: "'a::len word"
proof (rule bit_word_eqI)
  fix n assume "bit x off" "n < LENGTH('a)"
  then show "bit (set_field off 1 1 x) n = bit x n"
    by (cases "n = off") (auto simp: bit_set_field simp del: One_nat_def)
qed

lemma unat_get_field_less: "unat (get_field off w x) < 2 ^ w" for x :: "'a::len word"
proof -
  have "get_field off w x = take_bit w (drop_bit off x)" by (simp add: get_field_def)
  then show ?thesis by (simp add: unsigned_take_bit_eq)
qed

section \<open>Quad words\<close>

definition le64 :: "memory \<Rightarrow> nat \<Rightarrow> u64" where
  "le64 m a = ucast (le32 m a) OR push_bit 32 (ucast (le32 m (a + 4)))"

definition put64 :: "nat \<Rightarrow> u64 \<Rightarrow> memory \<Rightarrow> memory" where
  "put64 a x m = put32 (a + 4) (ucast (drop_bit 32 x)) (put32 a (ucast x) m)"

text \<open>\<open>memset(&m[a], b, n)\<close>.\<close>

definition memset :: "nat \<Rightarrow> u8 \<Rightarrow> nat \<Rightarrow> memory \<Rightarrow> memory" where
  "memset a b n m = (\<lambda>i. if a \<le> i \<and> i < a + n then b else m i)"

lemma put64_other: "i < a \<or> a + 8 \<le> i \<Longrightarrow> put64 a x m i = m i"
  by (auto simp: put64_def put32_other)

lemma le64_cong: "(\<And>i. i < 8 \<Longrightarrow> m (a + i) = m' (a + i)) \<Longrightarrow> le64 m a = le64 m' a"
proof -
  assume eq: "\<And>i. i < 8 \<Longrightarrow> m (a + i) = m' (a + i)"
  have "le32 m a = le32 m' a" by (rule le32_cong) (simp add: eq)
  moreover have "le32 m (a + 4) = le32 m' (a + 4)"
  proof (rule le32_cong)
    fix i :: nat assume "i < 4"
    with eq [of "4 + i"] show "m (a + 4 + i) = m' (a + 4 + i)" by (simp add: add.assoc)
  qed
  ultimately show ?thesis by (simp add: le64_def)
qed

lemma le64_put64 [simp]: "le64 (put64 a x m) a = x"
proof -
  have "le32 (put32 (a + 4) y (put32 a (ucast x) m)) a = ucast x" for y
    by (simp add: le32_put32_other)
  then show ?thesis
    unfolding le64_def put64_def by (intro bit_word_eqI) (auto simp: bit_simps)
qed

lemma le64_put64_other: "a + 8 \<le> b \<or> b + 8 \<le> a \<Longrightarrow> le64 (put64 b x m) a = le64 m a"
  by (rule le64_cong) (auto simp: put64_other)

lemma put16_le16 [simp]: "put16 a (le16 m a) m = m"
proof -
  have "ucast (le16 m a) = m a" "ucast (drop_bit 8 (le16 m a)) = m (a + 1)"
    by (rule bit_word_eqI, auto simp: le16_def bit_simps dest: bit_imp_le_length)+
  then show ?thesis by (simp add: put16_def)
qed

lemma put32_le32 [simp]: "put32 a (le32 m a) m = m"
proof -
  have "ucast (le32 m a) = le16 m a" "ucast (drop_bit 16 (le32 m a)) = le16 m (a + 2)"
    by (rule bit_word_eqI, auto simp: le32_def bit_simps dest: bit_imp_le_length)+
  then show ?thesis by (simp add: put32_def)
qed

lemma put64_le64 [simp]: "put64 a (le64 m a) m = m"
proof -
  have "ucast (le64 m a) = le32 m a" "ucast (drop_bit 32 (le64 m a)) = le32 m (a + 4)"
    by (rule bit_word_eqI, auto simp: le64_def bit_simps dest: bit_imp_le_length)+
  then show ?thesis by (simp add: put64_def)
qed

lemma le64_zero: "(\<And>i. i < 8 \<Longrightarrow> m (a + i) = 0) \<Longrightarrow> le64 m a = 0"
proof -
  assume "\<And>i. i < 8 \<Longrightarrow> m (a + i) = 0"
  then have "le64 m a = le64 (\<lambda>_. 0) a" by (intro le64_cong) simp
  then show ?thesis by (simp add: le64_def le32_def le16_def)
qed

end
