(* ===== verification/FatVolume.thy ===== *)
theory FatVolume
  imports ByteMemory
begin

text \<open>
  \<^verbatim>\<open>kernel/fat.hpp\<close> and \<^verbatim>\<open>kernel/fat.cpp\<close>, part 1: the volume in memory.  The volume is the
  memory from \<open>boot_volume_image\<close> on, byte by byte, so an address is the distance from that pointer; the
  boot parameter block, the file allocation table and the clusters are views of these bytes, as the casts
  of the source make them.
\<close>

section \<open>The boot parameter block\<close>

record BPB =
  jump_boot :: "u8 list"
  oem_name :: "u8 list"
  bytes_per_sector :: u16
  sectors_per_cluster :: u8
  reserved_sector_count :: u16
  num_fats :: u8
  root_entry_count :: u16
  total_sectors_16 :: u16
  media :: u8
  fat_size_16 :: u16
  sectors_per_track :: u16
  num_heads :: u16
  hidden_sectors :: u32
  total_sectors_32 :: u32
  fat_size_32 :: u32
  ext_flags :: u16
  fs_version :: u16
  root_cluster :: u32
  fs_info :: u16
  backup_boot_sector :: u16
  reserved :: "u8 list"
  drive_number :: u8
  reserved2 :: u8
  boot_signature :: u8
  volume_id :: u32
  volume_label :: "u8 list"
  fs_type :: "u8 list"

text \<open>The cast \<open>reinterpret_cast<BPB *>\<close> of the packed structure, field after field.\<close>

definition read_BPB :: "memory \<Rightarrow> BPB" where
  "read_BPB m =
     \<lparr>jump_boot = bytes m 0 3, oem_name = bytes m 3 8, bytes_per_sector = le16 m 11,
      sectors_per_cluster = m 13, reserved_sector_count = le16 m 14, num_fats = m 16,
      root_entry_count = le16 m 17, total_sectors_16 = le16 m 19, media = m 21, fat_size_16 = le16 m 22,
      sectors_per_track = le16 m 24, num_heads = le16 m 26, hidden_sectors = le32 m 28,
      total_sectors_32 = le32 m 32, fat_size_32 = le32 m 36, ext_flags = le16 m 40, fs_version = le16 m 42,
      root_cluster = le32 m 44, fs_info = le16 m 48, backup_boot_sector = le16 m 50,
      reserved = bytes m 52 12, drive_number = m 64, reserved2 = m 65, boot_signature = m 66,
      volume_id = le32 m 67, volume_label = bytes m 71 11, fs_type = bytes m 82 8\<rparr>"

definition bpb_size :: nat where [layout]: "bpb_size = 90"

record Volume =
  image :: memory
  bytes_per_cluster :: u32

abbreviation boot_volume_image :: "Volume \<Rightarrow> BPB" where
  "boot_volume_image v \<equiv> read_BPB (image v)"

definition Initialize :: "memory \<Rightarrow> Volume" where
  "Initialize volume_image =
     \<lparr>image = volume_image,
      bytes_per_cluster = ucast (bytes_per_sector (read_BPB volume_image))
        * ucast (sectors_per_cluster (read_BPB volume_image))\<rparr>"

lemma BPB_fields:
  "bytes_per_sector (read_BPB m) = le16 m 11" "sectors_per_cluster (read_BPB m) = m 13"
  "reserved_sector_count (read_BPB m) = le16 m 14" "num_fats (read_BPB m) = m 16"
  "fat_size_32 (read_BPB m) = le32 m 36" "root_cluster (read_BPB m) = le32 m 44"
  by (simp_all add: read_BPB_def)

lemma read_BPB_cong:
  assumes "\<And>i. i < bpb_size \<Longrightarrow> m i = m' i"
  shows "read_BPB m = read_BPB m'"
proof -
  have "le16 m a = le16 m' a" if "a + 2 \<le> 90" for a by (rule le16_cong) (use that assms in \<open>simp add: layout\<close>)
  moreover have "le32 m a = le32 m' a" if "a + 4 \<le> 90" for a
    by (rule le32_cong) (use that assms in \<open>simp add: layout\<close>)
  moreover have "bytes m a n = bytes m' a n" if "a + n \<le> 90" for a n
    by (rule bytes_cong) (use that assms in \<open>simp add: layout\<close>)
  moreover have "m i = m' i" if "i < 90" for i using that assms by (simp add: layout)
  ultimately show ?thesis by (simp add: read_BPB_def)
qed

section \<open>The file allocation table\<close>

definition kEndOfClusterchain :: u32 where "kEndOfClusterchain = 0x0fffffff"

text \<open>
  The product of two 16-bit fields is an \<open>int\<close>, which is then widened with its sign.  \<open>fat_get\<close> and
  \<open>fat_set\<close> are the accesses \<open>fat[cluster]\<close> of the source, without a bounds check.
\<close>

definition GetFAT :: "Volume \<Rightarrow> nat" where
  "GetFAT v = unat (scast (ucast (reserved_sector_count (boot_volume_image v))
      * ucast (bytes_per_sector (boot_volume_image v)) :: u32) :: u64)"

definition fat_get :: "Volume \<Rightarrow> u32 \<Rightarrow> u32" where
  "fat_get v cluster = le32 (image v) (GetFAT v + 4 * unat cluster)"

definition fat_set :: "u32 \<Rightarrow> u32 \<Rightarrow> Volume \<Rightarrow> Volume" where
  "fat_set cluster x v = v\<lparr>image := put32 (GetFAT v + 4 * unat cluster) x (image v)\<rparr>"

definition IsEndOfClusterchain :: "u32 \<Rightarrow> bool" where
  "IsEndOfClusterchain cluster \<longleftrightarrow> cluster \<ge> 0x0ffffff8"

definition NextCluster :: "Volume \<Rightarrow> u32 \<Rightarrow> u32" where
  "NextCluster v cluster =
     (let next_cluster = fat_get v cluster
      in if next_cluster \<ge> 0x0ffffff8 then kEndOfClusterchain else next_cluster)"

section \<open>Clusters\<close>

text \<open>\<open>GetClusterAddr\<close> as a distance from \<open>boot_volume_image\<close>; \<open>GetSectorByCluster\<close> is the same address.\<close>

definition GetClusterAddr :: "Volume \<Rightarrow> u64 \<Rightarrow> nat" where
  "GetClusterAddr v cluster =
     (let b = boot_volume_image v;
          sector_num = ucast (ucast (reserved_sector_count b) + ucast (num_fats b) * fat_size_32 b :: u32)
            + (cluster - 2) * ucast (sectors_per_cluster b) :: u64
      in unat (sector_num * ucast (bytes_per_sector b)))"

definition GetSectorByCluster :: "Volume \<Rightarrow> u32 \<Rightarrow> nat" where
  "GetSectorByCluster v cluster = GetClusterAddr v (ucast cluster)"


section \<open>A well-formed volume\<close>

text \<open>
  \<open>volume_ok v N\<close>: the header describes a file allocation table with room for the clusters \<open>2 .. N - 1\<close>,
  behind the header and below the clusters, in the ranges that the integer types of the source hold, and
  \<open>Initialize\<close> has computed the cluster size.
\<close>

definition volume_ok :: "Volume \<Rightarrow> nat \<Rightarrow> bool" where
  "volume_ok v N \<longleftrightarrow>
     (let b = boot_volume_image v; bps = unat (bytes_per_sector b); spc = unat (sectors_per_cluster b);
          rsvd = unat (reserved_sector_count b); nf = unat (num_fats b); fs = unat (fat_size_32 b)
      in 0 < bps \<and> 0 < spc \<and> 0 < nf \<and> bpb_size \<le> rsvd * bps \<and> rsvd * bps < 2 ^ 31
         \<and> rsvd + nf * fs < 2 ^ 32 \<and> 4 * N \<le> fs * bps \<and> N \<le> 0x0ffffff8
         \<and> bytes_per_cluster v = ucast (bytes_per_sector b) * ucast (sectors_per_cluster b))"

definition valid_cluster :: "nat \<Rightarrow> u32 \<Rightarrow> bool" where
  "valid_cluster N c \<longleftrightarrow> 2 \<le> unat c \<and> unat c < N"

definition cluster_size :: "Volume \<Rightarrow> nat" where
  "cluster_size v = unat (bytes_per_cluster v)"

definition data_base :: "Volume \<Rightarrow> nat" where
  "data_base v = (let b = boot_volume_image v in
     (unat (reserved_sector_count b) + unat (num_fats b) * unat (fat_size_32 b)) * unat (bytes_per_sector b))"

lemma unat_u8_less: "unat (x :: u8) < 2 ^ 8"
  using unsigned_less [of x] by simp

lemma unat_u16_less: "unat (x :: u16) < 2 ^ 16"
  using unsigned_less [of x] by simp

lemma unat_u32_less: "unat (x :: u32) < 2 ^ 32"
  using unsigned_less [of x] by simp

lemma unat_ucast_up [simp]:
  "unat (ucast (x :: u8) :: u32) = unat x" "unat (ucast (y :: u16) :: u32) = unat y"
  "unat (ucast (x :: u8) :: u64) = unat x" "unat (ucast (y :: u16) :: u64) = unat y"
  "unat (ucast (z :: u32) :: u64) = unat z"
  by (simp_all add: unsigned_ucast_eq take_bit_nat_eq_self_iff
      order_less_trans [OF unat_u8_less] order_less_trans [OF unat_u16_less] order_less_trans [OF unat_u32_less])

lemma unat_scast_nonneg: "unat (w :: u32) < 2 ^ 31 \<Longrightarrow> unat (scast w :: u64) = unat w"
proof -
  assume w: "unat w < 2 ^ 31"
  moreover have "uint w = int (unat w)" by simp
  moreover have "int (unat w) < 2 ^ 31" using w by (metis of_nat_less_iff of_nat_numeral of_nat_power)
  ultimately have "uint w < 2 ^ 31" by simp
  moreover have "- (2 ^ 31) \<le> uint w" by (rule order_trans [of _ 0]) simp_all
  ultimately have "signed_take_bit 31 (uint w) = uint w" by (intro signed_take_bit_int_eq_self)
  then have "sint w = uint w"
    by (subst sint_uint) simp
  then have "scast w = (ucast w :: u64)"
    by (simp only: scast_eq ucast_eq)
  then show ?thesis by simp
qed

lemma cluster_size_eq:
  assumes "volume_ok v N"
  shows "cluster_size v = unat (sectors_per_cluster (boot_volume_image v))
    * unat (bytes_per_sector (boot_volume_image v))"
proof -
  let ?a = "unat (bytes_per_sector (boot_volume_image v))" and ?b = "unat (sectors_per_cluster (boot_volume_image v))"
  have "?a * ?b < 2 ^ 16 * 2 ^ 8"
    using unat_u16_less unat_u8_less by (intro mult_strict_mono) auto
  then have "unat (ucast (bytes_per_sector (boot_volume_image v))
      * ucast (sectors_per_cluster (boot_volume_image v)) :: u32) = ?a * ?b"
    by (simp add: unat_word_ariths)
  with assms show ?thesis by (simp add: volume_ok_def cluster_size_def Let_def)
qed

lemma cluster_size_pos: "volume_ok v N \<Longrightarrow> 0 < cluster_size v"
  by (simp add: cluster_size_eq) (simp add: volume_ok_def Let_def)

lemma GetFAT_eq:
  assumes "volume_ok v N"
  shows "GetFAT v = unat (reserved_sector_count (boot_volume_image v))
    * unat (bytes_per_sector (boot_volume_image v))"
proof -
  from assms have "unat (reserved_sector_count (boot_volume_image v))
    * unat (bytes_per_sector (boot_volume_image v)) < 2 ^ 31" by (simp add: volume_ok_def Let_def)
  then have "unat (ucast (reserved_sector_count (boot_volume_image v))
      * ucast (bytes_per_sector (boot_volume_image v)) :: u32)
    = unat (reserved_sector_count (boot_volume_image v)) * unat (bytes_per_sector (boot_volume_image v))"
    by (simp add: unat_word_ariths)
  with assms show ?thesis
    unfolding GetFAT_def by (subst unat_scast_nonneg) (simp_all add: volume_ok_def Let_def)
qed

lemma GetSectorByCluster_eq:
  assumes ok: "volume_ok v N" and c: "valid_cluster N c"
  shows "GetSectorByCluster v c = data_base v + (unat c - 2) * cluster_size v"
proof -
  define b where "b = boot_volume_image v"
  define first where "first = unat (reserved_sector_count b) + unat (num_fats b) * unat (fat_size_32 b)"
  define spc where "spc = unat (sectors_per_cluster b)"
  define bps where "bps = unat (bytes_per_sector b)"
  from ok have "first < 2 ^ 32" and N: "N \<le> 0x0ffffff8" by (simp_all add: volume_ok_def Let_def first_def b_def)
  then have f: "unat (ucast (reserved_sector_count b) + ucast (num_fats b) * fat_size_32 b :: u32) = first"
    by (simp add: first_def unat_word_ariths mod_add_right_eq)
  have c2: "unat (ucast c - 2 :: u64) = unat c - 2"
    using c by (subst unat_sub) (simp_all add: word_le_nat_alt valid_cluster_def)
  have bounds: "spc < 2 ^ 8" "bps < 2 ^ 16" using unat_u8_less unat_u16_less by (simp_all add: spc_def bps_def)
  from c N have "unat c < 0x0ffffff8" by (simp add: valid_cluster_def)
  then have "unat c < 2 ^ 28" by simp
  then have "unat c - 2 < 2 ^ 28" by (rule less_imp_diff_less)
  then have p: "(unat c - 2) * spc \<le> 2 ^ 28 * 2 ^ 8" using bounds by (intro mult_mono) auto
  then have q: "(first + (unat c - 2) * spc) * bps \<le> (2 ^ 32 + 2 ^ 28 * 2 ^ 8) * 2 ^ 16"
    using \<open>first < 2 ^ 32\<close> bounds by (intro mult_mono) auto
  have "unat ((ucast c - 2) * ucast (sectors_per_cluster b) :: u64) = (unat c - 2) * spc"
    using p c2 by (simp add: unat_word_ariths spc_def)
  then have "unat (ucast (ucast (reserved_sector_count b) + ucast (num_fats b) * fat_size_32 b :: u32)
      + (ucast c - 2) * ucast (sectors_per_cluster b) :: u64) = first + (unat c - 2) * spc"
    using p f \<open>first < 2 ^ 32\<close> by (simp add: unat_word_ariths)
  then have "GetSectorByCluster v c = (first + (unat c - 2) * spc) * bps"
    using q by (simp add: GetSectorByCluster_def GetClusterAddr_def Let_def b_def [symmetric] unat_word_ariths bps_def)
  then show ?thesis
    using cluster_size_eq [OF ok]
    by (simp only: data_base_def Let_def b_def [symmetric] first_def [symmetric] bps_def [symmetric]
        spc_def [symmetric]) (simp add: algebra_simps)
qed


section \<open>Frames\<close>

text \<open>
  \<open>same_header\<close>: the header bytes and the cluster size agree, so everything computed from them does.
  \<open>store a bs\<close> is \<open>memcpy\<close> into the volume.
\<close>

definition same_header :: "Volume \<Rightarrow> Volume \<Rightarrow> bool" where
  "same_header v v' \<longleftrightarrow> boot_volume_image v' = boot_volume_image v \<and> bytes_per_cluster v' = bytes_per_cluster v"

definition store :: "nat \<Rightarrow> u8 list \<Rightarrow> Volume \<Rightarrow> Volume" where
  "store a bs v = v\<lparr>image := put_bytes a bs (image v)\<rparr>"

definition cluster_bytes :: "Volume \<Rightarrow> u32 \<Rightarrow> u8 list" where
  "cluster_bytes v c = bytes (image v) (GetSectorByCluster v c) (cluster_size v)"

lemma same_header_refl [simp]: "same_header v v"
  by (simp add: same_header_def)

lemma same_header_trans: "same_header u v \<Longrightarrow> same_header v w \<Longrightarrow> same_header u w"
  by (simp add: same_header_def)

lemma same_header_eqs [frame]:
  assumes "same_header v v'"
  shows "volume_ok v' N = volume_ok v N" "GetFAT v' = GetFAT v" "data_base v' = data_base v"
    "cluster_size v' = cluster_size v" "GetSectorByCluster v' c = GetSectorByCluster v c"
    "bytes_per_cluster v' = bytes_per_cluster v"
  using assms by (simp_all add: same_header_def volume_ok_def GetFAT_def data_base_def cluster_size_def
      GetSectorByCluster_def GetClusterAddr_def)

lemma layout_order:
  assumes ok: "volume_ok v N"
  shows "bpb_size \<le> GetFAT v" and "GetFAT v + 4 * N \<le> data_base v"
proof -
  from ok show "bpb_size \<le> GetFAT v" by (simp add: GetFAT_eq) (simp add: volume_ok_def Let_def)
  let ?b = "boot_volume_image v"
  have "4 * N \<le> unat (fat_size_32 ?b) * unat (bytes_per_sector ?b)" "0 < unat (num_fats ?b)"
    using ok by (simp_all add: volume_ok_def Let_def)
  moreover have "unat (fat_size_32 ?b) \<le> unat (num_fats ?b) * unat (fat_size_32 ?b)"
    using \<open>0 < unat (num_fats ?b)\<close> by simp
  ultimately have "4 * N \<le> unat (num_fats ?b) * unat (fat_size_32 ?b) * unat (bytes_per_sector ?b)"
    by (meson le_trans mult_le_mono1)
  with ok show "GetFAT v + 4 * N \<le> data_base v" by (simp add: GetFAT_eq data_base_def Let_def add_mult_distrib)
qed

lemma same_header_image:
  "(\<And>i. i < bpb_size \<Longrightarrow> image v' i = image v i) \<Longrightarrow> bytes_per_cluster v' = bytes_per_cluster v
    \<Longrightarrow> same_header v v'"
  unfolding same_header_def using read_BPB_cong [of "image v'" "image v"] by blast

lemma fat_set_other:
  assumes "volume_ok v N" and "valid_cluster N c" and "i < bpb_size \<or> data_base v \<le> i"
  shows "image (fat_set c x v) i = image v i"
proof -
  from assms(2) have "unat c < N" by (simp add: valid_cluster_def)
  then have "4 * unat c + 4 \<le> 4 * N" by simp
  with layout_order [OF assms(1)] assms(3) have "i < GetFAT v + 4 * unat c \<or> GetFAT v + 4 * unat c + 4 \<le> i" by linarith
  then show ?thesis by (simp add: fat_set_def put32_other)
qed

lemma same_header_fat_set [frame]:
  "volume_ok v N \<Longrightarrow> valid_cluster N c \<Longrightarrow> same_header v (fat_set c x v)"
  by (rule same_header_image) (simp_all add: fat_set_other, simp add: fat_set_def)

lemma fat_get_set:
  assumes "volume_ok v N" and "valid_cluster N c"
  shows "fat_get (fat_set c x v) d = (if d = c then x else fat_get v d)"
proof -
  have "d \<noteq> c \<Longrightarrow> 4 * unat d + 4 \<le> 4 * unat c \<or> 4 * unat c + 4 \<le> 4 * unat d"
    using word_unat_eq_iff [of d c] by arith
  then show ?thesis
    using same_header_eqs(2) [OF same_header_fat_set [OF assms]]
    by (auto simp: fat_get_def) (auto simp: fat_set_def le32_put32_other)
qed

lemma cluster_bytes_fat_set [frame]:
  assumes "volume_ok v N" and "valid_cluster N c" and "valid_cluster N d"
  shows "cluster_bytes (fat_set c x v) d = cluster_bytes v d"
  unfolding cluster_bytes_def same_header_eqs [OF same_header_fat_set [OF assms(1,2)]]
  using fat_set_other [OF assms(1,2)] GetSectorByCluster_eq [OF assms(1,3)] by (intro bytes_cong) simp

text \<open>Writes into one cluster.\<close>

lemma cluster_apart:
  assumes "volume_ok v N" and "valid_cluster N c" and "valid_cluster N d" and "c \<noteq> d"
  shows "GetSectorByCluster v c + cluster_size v \<le> GetSectorByCluster v d
    \<or> GetSectorByCluster v d + cluster_size v \<le> GetSectorByCluster v c"
proof -
  have *: "(m + 1) * s \<le> n * s" if "m < n" for m n s :: nat using that by (intro mult_le_mono1) simp
  from assms have "unat c - 2 < unat d - 2 \<or> unat d - 2 < unat c - 2"
    using word_unat_eq_iff [of d c] by (auto simp: valid_cluster_def)
  with * [of "unat c - 2" "unat d - 2" "cluster_size v"] * [of "unat d - 2" "unat c - 2" "cluster_size v"]
  show ?thesis using assms by (auto simp: GetSectorByCluster_eq)
qed

lemma store_other:
  assumes "volume_ok v N" and "valid_cluster N c" and "off + length bs \<le> cluster_size v"
    and "i < GetSectorByCluster v c \<or> GetSectorByCluster v c + cluster_size v \<le> i"
  shows "image (store (GetSectorByCluster v c + off) bs v) i = image v i"
  using assms(3,4) by (auto simp: store_def put_bytes_other)

lemma same_header_store [frame]:
  assumes "volume_ok v N" and "valid_cluster N c"
  shows "same_header v (store (GetSectorByCluster v c + off) bs v)"
proof (rule same_header_image)
  fix i assume "i < bpb_size"
  with layout_order [OF assms(1)] GetSectorByCluster_eq [OF assms] have "i < GetSectorByCluster v c" by linarith
  then show "image (store (GetSectorByCluster v c + off) bs v) i = image v i" by (simp add: store_def put_bytes_other)
qed (simp add: store_def)

lemma fat_get_store [frame]:
  assumes "volume_ok v N" and "valid_cluster N c" and "valid_cluster N d"
  shows "fat_get (store (GetSectorByCluster v c + off) bs v) d = fat_get v d"
proof -
  from assms(3) have "4 * unat d + 4 \<le> 4 * N" by (simp add: valid_cluster_def)
  with layout_order [OF assms(1)] GetSectorByCluster_eq [OF assms(1,2)]
  have "GetFAT v + 4 * unat d + 4 \<le> GetSectorByCluster v c" by linarith
  then show ?thesis
    unfolding fat_get_def same_header_eqs [OF same_header_store [OF assms(1,2)]]
    by (intro le32_cong) (simp add: store_def put_bytes_other)
qed

lemma length_cluster_bytes [simp]: "length (cluster_bytes v c) = cluster_size v"
  by (simp add: cluster_bytes_def)

lemma cluster_bytes_store:
  assumes "volume_ok v N" and "valid_cluster N c" and "valid_cluster N d" and "off + length bs \<le> cluster_size v"
  shows "cluster_bytes (store (GetSectorByCluster v c + off) bs v) d =
    (if d = c then take off (cluster_bytes v c) @ bs @ drop (off + length bs) (cluster_bytes v c)
     else cluster_bytes v d)"
proof (cases "d = c")
  case True
  have "bytes (put_bytes (a + off) bs m) a n = take off (bytes m a n) @ bs @ drop (off + length bs) (bytes m a n)"
    if "off + length bs \<le> n" for a m n
    using that by (intro nth_equalityI) (auto simp: put_bytes_def nth_append)
  with True assms(4) show ?thesis
    unfolding cluster_bytes_def same_header_eqs [OF same_header_store [OF assms(1,2)]]
    by (simp add: store_def)
next
  case False
  with cluster_apart [OF assms(1,2,3)] assms(4) show ?thesis
    unfolding cluster_bytes_def same_header_eqs [OF same_header_store [OF assms(1,2)]]
    by (auto intro!: bytes_cong simp: store_def put_bytes_other)
qed

end
