(* ===== verification/FatChains.thy ===== *)
theory FatChains
  imports FatVolume
begin

text \<open>
  \<^verbatim>\<open>kernel/fat.cpp\<close>, part 2: chains of clusters.  The interface that the file operations use (a table of
  links and clusters of bytes) is the locale \<open>cluster_store\<close>, interpreted on the bytes of the volume;
  \<open>ExtendCluster\<close> and \<open>AllocateClusterchain\<close> follow with their specifications.
\<close>

section \<open>Chains\<close>

fun chain :: "('c \<Rightarrow> 'c) \<Rightarrow> ('c \<Rightarrow> bool) \<Rightarrow> 'c list \<Rightarrow> bool" where
  "chain nxt eoc [] \<longleftrightarrow> False"
| "chain nxt eoc [c] \<longleftrightarrow> eoc (nxt c)"
| "chain nxt eoc (c # d # cs) \<longleftrightarrow> nxt c = d \<and> chain nxt eoc (d # cs)"

lemma chain_not_Nil: "chain nxt eoc cs \<Longrightarrow> cs \<noteq> []"
  by auto

lemma chain_Cons: "chain nxt eoc (c # cs) \<longleftrightarrow> (if cs = [] then eoc (nxt c) else nxt c = hd cs \<and> chain nxt eoc cs)"
  by (cases cs) auto

lemma chain_cong: "(\<And>c. c \<in> set cs \<Longrightarrow> nxt c = nxt' c) \<Longrightarrow> chain nxt eoc cs = chain nxt' eoc cs"
  by (induction nxt eoc cs rule: chain.induct) auto

lemma chain_suffix: "chain nxt eoc (bs @ cs) \<Longrightarrow> cs \<noteq> [] \<Longrightarrow> chain nxt eoc cs"
  by (induction bs) (auto simp: chain_Cons split: if_splits)

lemma chain_drop: "chain nxt eoc cs \<Longrightarrow> i < length cs \<Longrightarrow> chain nxt eoc (drop i cs)"
  using chain_suffix [of nxt eoc "take i cs" "drop i cs"] by simp

lemma chain_nth: "chain nxt eoc cs \<Longrightarrow> Suc i < length cs \<Longrightarrow> nxt (cs ! i) = cs ! Suc i"
  by (induction cs arbitrary: i) (auto simp: chain_Cons nth_Cons' hd_conv_nth split: if_splits)

lemma chain_last: "chain nxt eoc cs \<Longrightarrow> eoc (nxt (last cs))"
  by (induction nxt eoc cs rule: chain.induct) auto

lemma chain_append:
  "chain nxt eoc (bs @ cs) \<longleftrightarrow>
     (if bs = [] then chain nxt eoc cs
      else if cs = [] then chain nxt eoc bs
      else nxt (last bs) = hd cs \<and> chain nxt (\<lambda>x. x = hd cs) bs \<and> chain nxt eoc cs)"
  by (induction bs) (auto simp: chain_Cons)

lemma chain_relink:
  assumes "chain nxt eoc cs" and "last cs \<notin> set (butlast cs)"
  shows "chain (nxt(last cs := d)) (\<lambda>x. x = d) cs"
  using assms
proof (induction nxt eoc cs rule: chain.induct)
  case (3 nxt eoc c d' cs)
  then show ?case by (auto split: if_splits)
qed auto

text \<open>A chain is determined by its first cluster, so no cluster occurs twice.\<close>

lemma chain_unique:
  assumes "chain nxt eoc cs" and "chain nxt eoc ds" and "hd cs = hd ds"
    and "\<forall>c\<in>set cs \<union> set ds. \<not> eoc c"
  shows "cs = ds"
  using assms
proof (induction cs arbitrary: ds)
  case (Cons c cs)
  then obtain ds' where ds: "ds = c # ds'" by (cases ds) auto
  show ?case
  proof (cases "cs = []")
    case True
    with Cons.prems ds show ?thesis by (cases ds') (auto simp: chain_Cons split: if_splits)
  next
    case False
    then have nxt: "nxt c = hd cs" and cs: "chain nxt eoc cs"
      using Cons.prems(1) by (auto simp: chain_Cons)
    have "hd cs \<in> set cs" using False by simp
    with Cons.prems(4) have "\<not> eoc (hd cs)" by simp
    with nxt Cons.prems(2) ds have "ds' \<noteq> []" by (auto simp: chain_Cons)
    with Cons.prems(2) ds nxt have "hd ds' = hd cs" "chain nxt eoc ds'" by (auto simp: chain_Cons)
    with Cons.IH [OF cs, of ds'] Cons.prems(4) ds show ?thesis by auto
  qed
qed auto

lemma chain_distinct:
  assumes c: "chain nxt eoc cs" and "\<forall>c\<in>set cs. \<not> eoc c"
  shows "distinct cs"
  unfolding distinct_conv_nth
proof (intro allI impI)
  fix i j assume ij: "i < length cs" "j < length cs" "i \<noteq> j"
  show "cs ! i \<noteq> cs ! j"
  proof
    assume eq: "cs ! i = cs ! j"
    have "drop i cs = drop j cs"
    proof (rule chain_unique)
      show "chain nxt eoc (drop i cs)" "chain nxt eoc (drop j cs)" using chain_drop [OF c] ij by auto
      show "hd (drop i cs) = hd (drop j cs)" using ij eq by (simp add: hd_drop_conv_nth)
      show "\<forall>c\<in>set (drop i cs) \<union> set (drop j cs). \<not> eoc c"
        using assms(2) by (auto dest: in_set_dropD)
    qed
    then have "length (drop i cs) = length (drop j cs)" by simp
    with ij show False by simp
  qed
qed

section \<open>Stores of clusters\<close>

locale cluster_store =
  fixes ok :: "'s \<Rightarrow> bool"
    and valid :: "'c \<Rightarrow> bool"
    and get :: "'s \<Rightarrow> 'c \<Rightarrow> 'c"
    and set_link :: "'c \<Rightarrow> 'c \<Rightarrow> 's \<Rightarrow> 's"
    and rd :: "'s \<Rightarrow> 'c \<Rightarrow> 'b list"
    and wr :: "'c \<Rightarrow> nat \<Rightarrow> 'b list \<Rightarrow> 's \<Rightarrow> 's"
    and csize :: "'s \<Rightarrow> nat"
  assumes ok_set: "ok v \<Longrightarrow> valid c \<Longrightarrow> ok (set_link c x v)"
    and get_set: "ok v \<Longrightarrow> valid c \<Longrightarrow> get (set_link c x v) d = (if d = c then x else get v d)"
    and rd_set: "ok v \<Longrightarrow> valid c \<Longrightarrow> valid d \<Longrightarrow> rd (set_link c x v) d = rd v d"
    and csize_set: "ok v \<Longrightarrow> valid c \<Longrightarrow> csize (set_link c x v) = csize v"
    and ok_wr: "ok v \<Longrightarrow> valid c \<Longrightarrow> ok (wr c off bs v)"
    and get_wr: "ok v \<Longrightarrow> valid c \<Longrightarrow> valid d \<Longrightarrow> get (wr c off bs v) d = get v d"
    and rd_wr: "ok v \<Longrightarrow> valid c \<Longrightarrow> valid d \<Longrightarrow> off + length bs \<le> csize v \<Longrightarrow>
      rd (wr c off bs v) d = (if d = c then take off (rd v c) @ bs @ drop (off + length bs) (rd v c) else rd v d)"
    and csize_wr: "ok v \<Longrightarrow> valid c \<Longrightarrow> csize (wr c off bs v) = csize v"
    and length_rd: "length (rd v c) = csize v"
begin

abbreviation content :: "'s \<Rightarrow> 'c list \<Rightarrow> 'b list" where
  "content v cs \<equiv> concat (map (rd v) cs)"

lemma length_content: "length (content v cs) = length cs * csize v"
  by (induction cs) (simp_all add: length_rd)

lemma content_set: "ok v \<Longrightarrow> valid c \<Longrightarrow> \<forall>d\<in>set cs. valid d \<Longrightarrow> content (set_link c x v) cs = content v cs"
  by (induction cs) (simp_all add: rd_set)

lemma content_wr_other:
  "ok v \<Longrightarrow> valid c \<Longrightarrow> \<forall>d\<in>set cs. valid d \<Longrightarrow> off + length bs \<le> csize v \<Longrightarrow> c \<notin> set cs \<Longrightarrow>
     content (wr c off bs v) cs = content v cs"
  by (induction cs) (auto simp: rd_wr)

lemma chain_set: "ok v \<Longrightarrow> valid c \<Longrightarrow> c \<notin> set cs \<Longrightarrow>
    chain (get (set_link c x v)) eoc cs = chain (get v) eoc cs"
  by (rule chain_cong) (auto simp: get_set)

lemma chain_wr: "ok v \<Longrightarrow> valid c \<Longrightarrow> \<forall>d\<in>set cs. valid d \<Longrightarrow>
    chain (get (wr c off bs v)) eoc cs = chain (get v) eoc cs"
  by (rule chain_cong) (auto simp: get_wr)

text \<open>A write into the \<open>k\<close>-th cluster of a chain is a write at one place of the file's bytes.\<close>

lemma content_wr:
  assumes "ok v" and "\<forall>d\<in>set cs. valid d" and "distinct cs" and "k < length cs"
    and "off + length bs \<le> csize v"
  shows "content (wr (cs ! k) off bs v) cs =
    take (k * csize v + off) (content v cs) @ bs @ drop (k * csize v + off + length bs) (content v cs)"
  using assms
proof (induction cs arbitrary: k)
  case (Cons c cs)
  have len: "length (rd v c) = csize v" by (rule length_rd)
  show ?case
  proof (cases k)
    case 0
    then have "content (wr c off bs v) cs = content v cs"
      using Cons.prems by (intro content_wr_other) auto
    with 0 Cons.prems len show ?thesis by (simp add: rd_wr)
  next
    case (Suc j)
    with Cons.prems have "c \<noteq> cs ! j" by auto
    moreover have "valid (cs ! j)" "valid c" using Cons.prems Suc by auto
    ultimately have "rd (wr (cs ! j) off bs v) c = rd v c" using Cons.prems by (simp add: rd_wr)
    with Cons.IH [of j] Cons.prems Suc len show ?thesis by (simp add: add.assoc)
  qed
qed simp

end

definition cluster_write :: "u32 \<Rightarrow> nat \<Rightarrow> u8 list \<Rightarrow> Volume \<Rightarrow> Volume" where
  "cluster_write c off bs v = store (GetSectorByCluster v c + off) bs v"

interpretation volume: cluster_store
  "\<lambda>v. volume_ok v N" "valid_cluster N" fat_get fat_set cluster_bytes cluster_write cluster_size
  for N
proof
  fix v c d x off bs
  assume a: "volume_ok v N" "valid_cluster N c"
  show "volume_ok (fat_set c x v) N" "cluster_size (fat_set c x v) = cluster_size v"
    using a by (simp_all add: same_header_eqs [OF same_header_fat_set [OF a]])
  show "volume_ok (cluster_write c off bs v) N" "cluster_size (cluster_write c off bs v) = cluster_size v"
    using a by (simp_all add: cluster_write_def same_header_eqs [OF same_header_store [OF a]])
  show "fat_get (fat_set c x v) d = (if d = c then x else fat_get v d)" by (rule fat_get_set [OF a])
next
  fix v c d x off bs
  assume a: "volume_ok v N" "valid_cluster N c" "valid_cluster N d"
  show "cluster_bytes (fat_set c x v) d = cluster_bytes v d" by (rule cluster_bytes_fat_set [OF a])
  show "fat_get (cluster_write c off bs v) d = fat_get v d" unfolding cluster_write_def by (rule fat_get_store [OF a])
  assume "off + length bs \<le> cluster_size v"
  then show "cluster_bytes (cluster_write c off bs v) d =
      (if d = c then take off (cluster_bytes v c) @ bs @ drop (off + length bs) (cluster_bytes v c)
       else cluster_bytes v d)"
    unfolding cluster_write_def by (rule cluster_bytes_store [OF a])
qed simp


section \<open>Extending and allocating chains\<close>

text \<open>\<open>ExtendCluster\<close>: the search for the end of the chain, then the loop over the candidates.\<close>

partial_function (option) chain_end :: "Volume \<Rightarrow> u32 \<Rightarrow> u32 option" where
  "chain_end v eoc_cluster =
     (if \<not> IsEndOfClusterchain (fat_get v eoc_cluster) then chain_end v (fat_get v eoc_cluster) else Some eoc_cluster)"

partial_function (option) extend_loop :: "u32 \<Rightarrow> u32 \<Rightarrow> nat \<Rightarrow> nat \<Rightarrow> Volume \<Rightarrow> (u32 \<times> Volume) option" where
  "extend_loop candidate current num_allocated n v =
     (if num_allocated < n
      then if fat_get v candidate \<noteq> 0 then extend_loop (candidate + 1) current num_allocated n v
           else extend_loop (candidate + 1) candidate (num_allocated + 1) n (fat_set current candidate v)
      else Some (current, v))"

definition ExtendCluster :: "u32 \<Rightarrow> nat \<Rightarrow> Volume \<Rightarrow> (u32 \<times> Volume) option" where
  "ExtendCluster eoc_cluster n v =
     Option.bind (chain_end v eoc_cluster) (\<lambda>eoc.
       map_option (\<lambda>(current, v'). (current, fat_set current kEndOfClusterchain v')) (extend_loop 2 eoc 0 n v))"

partial_function (option) find_free :: "Volume \<Rightarrow> u32 \<Rightarrow> u32 option" where
  "find_free v first_cluster =
     (if fat_get v first_cluster = 0 then Some first_cluster else find_free v (first_cluster + 1))"

definition AllocateClusterchain :: "nat \<Rightarrow> Volume \<Rightarrow> (u32 \<times> Volume) option" where
  "AllocateClusterchain n v =
     Option.bind (find_free v 2) (\<lambda>first_cluster.
       let v' = fat_set first_cluster kEndOfClusterchain v
       in if n > 1 then map_option (\<lambda>(_, v''). (first_cluster, v'')) (ExtendCluster first_cluster (n - 1) v')
          else Some (first_cluster, v'))"

text \<open>The free clusters from \<open>k\<close> on, in the order in which the loops meet them.\<close>

definition free_clusters :: "nat \<Rightarrow> nat \<Rightarrow> Volume \<Rightarrow> u32 list" where
  "free_clusters k N v = filter (\<lambda>c. fat_get v c = 0) (map of_nat [k..<N])"

definition file_chain :: "nat \<Rightarrow> Volume \<Rightarrow> u32 list \<Rightarrow> bool" where
  "file_chain N v cs \<longleftrightarrow> (\<forall>c\<in>set cs. valid_cluster N c) \<and> chain (fat_get v) IsEndOfClusterchain cs"

text \<open>The table after linking the clusters \<open>ps\<close> behind \<open>c\<close>, without the end mark.\<close>

fun link :: "u32 \<Rightarrow> u32 list \<Rightarrow> Volume \<Rightarrow> Volume" where
  "link c [] v = v"
| "link c (p # ps) v = link p ps (fat_set c p v)"

lemma unat_of_nat_u32: "k < 2 ^ 32 \<Longrightarrow> unat (of_nat k :: u32) = k"
  by (simp add: unat_of_nat)

lemma volume_ok_bound: "volume_ok v N \<Longrightarrow> N \<le> 0x0ffffff8"
  by (simp add: volume_ok_def Let_def)

lemma valid_not_end: "volume_ok v N \<Longrightarrow> valid_cluster N c \<Longrightarrow> \<not> IsEndOfClusterchain c"
  using volume_ok_bound [of v N] by (simp add: IsEndOfClusterchain_def valid_cluster_def word_le_nat_alt)

lemma file_chain_distinct: "volume_ok v N \<Longrightarrow> file_chain N v cs \<Longrightarrow> distinct cs"
  unfolding file_chain_def by (rule chain_distinct) (auto simp: valid_not_end)

lemma in_free_clusters:
  assumes "volume_ok v N"
  shows "c \<in> set (free_clusters k N v) \<longleftrightarrow> fat_get v c = 0 \<and> k \<le> unat c \<and> unat c < N"
proof -
  from volume_ok_bound [OF assms] have "N \<le> 2 ^ 32" by simp
  then have "c \<in> of_nat ` {k..<N} \<longleftrightarrow> k \<le> unat c \<and> unat c < N"
    by (auto simp: unat_of_nat_u32 intro!: image_eqI [of _ _ "unat c"])
  then show ?thesis by (auto simp: free_clusters_def)
qed

lemma distinct_free_clusters: "volume_ok v N \<Longrightarrow> distinct (free_clusters k N v)"
  unfolding free_clusters_def using volume_ok_bound [of v N]
  by (intro distinct_filter) (auto simp: distinct_map inj_on_def dest!: arg_cong [of _ _ unat] simp: unat_of_nat_u32)

lemma free_clusters_step:
  "k < N \<Longrightarrow> free_clusters k N v =
    (if fat_get v (of_nat k) = 0 then of_nat k # free_clusters (Suc k) N v else free_clusters (Suc k) N v)"
  by (simp add: free_clusters_def upt_conv_Cons)

lemma free_clusters_set:
  assumes "volume_ok v N" and "valid_cluster N c" and "unat c < k \<or> fat_get v c \<noteq> 0" and "x \<noteq> 0"
  shows "free_clusters k N (fat_set c x v) = free_clusters k N v"
  unfolding free_clusters_def
proof (rule filter_cong [OF refl])
  fix d assume "d \<in> set (map of_nat [k..<N] :: u32 list)"
  with volume_ok_bound [OF assms(1)] have "k \<le> unat d" by (auto simp: unat_of_nat_u32)
  with assms show "fat_get (fat_set c x v) d = 0 \<longleftrightarrow> fat_get v d = 0" by (auto simp: fat_get_set)
qed

lemma chain_end_run:
  assumes "volume_ok v N" and "file_chain N v (c # cs)"
  shows "chain_end v c = Some (last (c # cs))"
  using assms
proof (induction cs arbitrary: c)
  case Nil
  then show ?case by (subst chain_end.simps) (simp add: file_chain_def)
next
  case (Cons d cs)
  from Cons.prems have "fat_get v c = d" "valid_cluster N d" "file_chain N v (d # cs)" by (auto simp: file_chain_def)
  with Cons.IH [of d] Cons.prems(1) valid_not_end [of v N d] show ?case by (subst chain_end.simps) simp
qed

lemma find_free_run:
  assumes "volume_ok v N" and "free_clusters k N v = p # ps"
  shows "find_free v (of_nat k) = Some p"
  using assms
proof (induction "N - k" arbitrary: k)
  case 0
  then show ?case by (simp add: free_clusters_def)
next
  case (Suc m)
  then have "k < N" by simp
  then show ?case
    using Suc.hyps(1) [of "Suc k"] Suc.hyps(2) Suc.prems
    by (subst find_free.simps) (auto simp: free_clusters_step add.commute split: if_splits)
qed

lemma link_run:
  assumes "volume_ok v N" and "valid_cluster N c" and "\<forall>p\<in>set ps. valid_cluster N p"
  shows "volume_ok (link c ps v) N \<and> same_header v (link c ps v)
    \<and> (\<forall>d. d \<notin> set (butlast (c # ps)) \<longrightarrow> fat_get (link c ps v) d = fat_get v d)
    \<and> (distinct (c # ps) \<and> ps \<noteq> [] \<longrightarrow> chain (fat_get (link c ps v)) (\<lambda>x. x = last ps) (butlast (c # ps)))
    \<and> (\<forall>d. valid_cluster N d \<longrightarrow> cluster_bytes (link c ps v) d = cluster_bytes v d)"
  using assms
proof (induction ps arbitrary: c v)
  case (Cons p ps)
  let ?v = "fat_set c p v"
  from Cons.prems have v: "volume_ok ?v N" "valid_cluster N p" "\<forall>q\<in>set ps. valid_cluster N q"
    by (auto intro: volume.ok_set)
  note IH = Cons.IH [OF v]
  have "same_header v (link p ps ?v)"
    using IH Cons.prems by (blast intro: same_header_fat_set same_header_trans)
  moreover have other: "fat_get (link p ps ?v) d = (if d = c then p else fat_get v d)"
    if "d \<notin> set (butlast (p # ps))" for d
    using IH that Cons.prems by (simp add: fat_get_set)
  moreover have "chain (fat_get (link p ps ?v)) (\<lambda>x. x = last (p # ps)) (c # butlast (p # ps))"
    if d: "distinct (c # p # ps)"
  proof -
    from d have "c \<notin> set (butlast (p # ps))" by (auto dest: in_set_butlastD)
    with other [of c] IH d show ?thesis by (auto simp: chain_Cons)
  qed
  moreover have "\<forall>d. valid_cluster N d \<longrightarrow> cluster_bytes (link p ps ?v) d = cluster_bytes v d"
    using IH Cons.prems by (simp add: cluster_bytes_fat_set)
  ultimately show ?case using IH by auto
qed simp

lemma extend_loop_run:
  assumes "volume_ok v N" and "valid_cluster N c" and "unat c < k \<or> fat_get v c \<noteq> 0" and "2 \<le> k"
    and "num \<le> n" and "n - num \<le> length (free_clusters k N v)"
  shows "extend_loop (of_nat k) c num n v =
    (let ps = take (n - num) (free_clusters k N v) in Some (last (c # ps), link c ps v))"
  using assms
proof (induction "N - k" arbitrary: k c num v)
  case 0
  then show ?case by (subst extend_loop.simps) (simp add: free_clusters_def)
next
  case (Suc m)
  then have k: "k < N" "m = N - Suc k" by simp_all
  have step: "of_nat k + 1 = (of_nat (Suc k) :: u32)" by simp
  show ?case
  proof (cases "num < n")
    case True
    show ?thesis
    proof (cases "fat_get v (of_nat k) = 0")
      case zero: True
      let ?p = "of_nat k :: u32"
      from k volume_ok_bound [OF Suc.prems(1)] have u: "unat ?p = k" by (simp add: unat_of_nat_u32)
      then have vp: "valid_cluster N ?p" using k Suc.prems(4) by (simp add: valid_cluster_def)
      have nz: "?p \<noteq> 0" using u Suc.prems(4) by (metis not_numeral_le_zero unsigned_0)
      have free: "free_clusters (Suc k) N (fat_set c ?p v) = free_clusters (Suc k) N v"
        using Suc.prems nz by (intro free_clusters_set) auto
      have "volume_ok (fat_set c ?p v) N" using Suc.prems by (auto intro: volume.ok_set)
      from Suc.hyps(1) [OF k(2) this vp, of "Suc num"] u True Suc.prems zero k free step
      show ?thesis
        by (subst extend_loop.simps) (simp add: free_clusters_step Let_def Suc_diff_Suc [symmetric] del: of_nat_Suc)
    next
      case False
      from Suc.hyps(1) [OF k(2) Suc.prems(1,2), of num] Suc.prems False True k(1) step
      show ?thesis
        by (subst extend_loop.simps) (auto simp: free_clusters_step Let_def simp del: of_nat_Suc)
    qed
  next
    case False
    then show ?thesis using Suc.prems by (subst extend_loop.simps) simp
  qed
qed


section \<open>What the two operations do\<close>

text \<open>
  \<open>chain_grown\<close>: the clusters \<open>ps\<close> have been taken from the free list and put behind the chain \<open>cs\<close>
  (which may be empty); nothing else changes.
\<close>

definition chain_grown :: "nat \<Rightarrow> Volume \<Rightarrow> u32 list \<Rightarrow> u32 list \<Rightarrow> Volume \<Rightarrow> bool" where
  "chain_grown N v cs ps v' \<longleftrightarrow>
     volume_ok v' N \<and> same_header v v' \<and> file_chain N v' (cs @ ps)
     \<and> (\<forall>d. d \<notin> set (cs @ ps) \<longrightarrow> fat_get v' d = fat_get v d)
     \<and> (\<forall>d. valid_cluster N d \<longrightarrow> cluster_bytes v' d = cluster_bytes v d)"

lemma chain_used:
  assumes "volume_ok v N" and "file_chain N v cs"
  shows "set cs \<inter> set (free_clusters k N v) = {}"
proof -
  have "fat_get v c \<noteq> 0" if c: "c \<in> set cs" for c
  proof -
    from assms(2) have ch: "chain (fat_get v) IsEndOfClusterchain cs" "\<forall>d\<in>set cs. valid_cluster N d"
      by (simp_all add: file_chain_def)
    from c obtain bs ds where cs: "cs = bs @ c # ds" by (meson split_list)
    with chain_suffix [of _ _ bs "c # ds"] ch(1) have "chain (fat_get v) IsEndOfClusterchain (c # ds)" by simp
    moreover have "ds \<noteq> [] \<Longrightarrow> valid_cluster N (hd ds)" using ch(2) cs by simp
    ultimately show ?thesis
      by (auto simp: chain_Cons IsEndOfClusterchain_def valid_cluster_def split: if_splits)
  qed
  with in_free_clusters [OF assms(1)] show ?thesis by blast
qed

lemma chain_grown_frame:
  assumes "volume_ok v N" and "chain_grown N v cs ps v'" and "file_chain N v ds" and "set ds \<inter> set cs = {}"
    and "set ps \<subseteq> set (free_clusters 2 N v)"
  shows "set ds \<inter> set ps = {} \<and> file_chain N v' ds \<and> volume.content v' ds = volume.content v ds"
proof -
  from chain_used [OF assms(1,3), of 2] assms(5) have d: "set ds \<inter> set ps = {}" by blast
  with assms(2,4) have "\<forall>d\<in>set ds. fat_get v' d = fat_get v d" by (auto simp: chain_grown_def)
  with assms(3) have "file_chain N v' ds" using chain_cong [of ds "fat_get v'" "fat_get v"] by (simp add: file_chain_def)
  moreover have "volume.content v' ds = volume.content v ds"
    using assms(2,3) by (intro arg_cong [of _ _ concat] map_cong) (auto simp: chain_grown_def file_chain_def)
  ultimately show ?thesis using d by blast
qed

lemma end_mark [simp]: "IsEndOfClusterchain kEndOfClusterchain"
  by (simp add: IsEndOfClusterchain_def kEndOfClusterchain_def)

lemma link_grown:
  assumes ok: "volume_ok v N" and cs: "\<forall>c\<in>set cs. valid_cluster N c" "distinct cs"
    and ch: "cs = [c] \<or> chain (fat_get v) IsEndOfClusterchain cs \<and> c = last cs"
    and ps: "ps = take n (free_clusters 2 N v)" "set cs \<inter> set ps = {}"
  shows "chain_grown N v cs ps (fat_set (last (c # ps)) kEndOfClusterchain (link c ps v))"
proof -
  let ?l = "last (c # ps)" and ?w = "link c ps v"
  from ch chain_not_Nil have ne: "cs \<noteq> []" and c: "c = last cs" by auto
  from ps in_free_clusters [OF ok] have vps: "\<forall>p\<in>set ps. valid_cluster N p"
    by (auto simp: valid_cluster_def dest!: in_set_takeD)
  have vc: "valid_cluster N c" using cs ne c by simp
  have vl: "valid_cluster N ?l" using vc vps by simp
  have dps: "distinct ps" using distinct_free_clusters [OF ok] ps by simp
  with ps(2) ne c have d: "distinct (c # ps)" by (auto dest: last_in_set)
  note L = link_run [OF ok vc vps]
  then have ok': "volume_ok ?w N" by blast
  have get: "fat_get (fat_set ?l kEndOfClusterchain ?w) d = (if d = ?l then kEndOfClusterchain else fat_get ?w d)" for d
    using fat_get_set [OF ok' vl] .
  have sh: "same_header v (fat_set ?l kEndOfClusterchain ?w)"
    using L same_header_fat_set [OF ok' vl] by (blast intro: same_header_trans)
  have far: "fat_get (fat_set ?l kEndOfClusterchain ?w) d = fat_get v d" if "d \<notin> set (c # ps)" for d
  proof -
    have "?l \<in> set (c # ps)" by (rule last_in_set) simp
    with that have "d \<noteq> ?l" by blast
    moreover from that have "d \<notin> set (butlast (c # ps))" by (blast dest: in_set_butlastD)
    ultimately show ?thesis using L get [of d] by simp
  qed
  have tail: "chain (fat_get (fat_set ?l kEndOfClusterchain ?w)) IsEndOfClusterchain (c # ps)"
  proof (cases "ps = []")
    case True
    then show ?thesis using get [of c] end_mark by simp
  next
    case False
    with L d have "chain (fat_get ?w) (\<lambda>x. x = last ps) (butlast (c # ps))" by blast
    moreover have "?l \<notin> set (butlast (c # ps))"
      using d by (metis append_butlast_last_id distinct_append disjoint_insert(1) list.distinct(1) list.simps(15))
    then have agree: "fat_get (fat_set ?l kEndOfClusterchain ?w) d = fat_get ?w d" if "d \<in> set (butlast (c # ps))" for d
      using that get by metis
    ultimately have "chain (fat_get (fat_set ?l kEndOfClusterchain ?w)) (\<lambda>x. x = last ps) (butlast (c # ps))"
      by (subst chain_cong [OF agree])
    then have "chain (fat_get (fat_set ?l kEndOfClusterchain ?w)) IsEndOfClusterchain (butlast (c # ps) @ [last ps])"
      using False end_mark get [of ?l] by (subst chain_append) (auto dest: chain_last)
    with False show ?thesis by simp
  qed
  have "chain (fat_get (fat_set ?l kEndOfClusterchain ?w)) IsEndOfClusterchain (butlast cs @ c # ps)"
  proof (cases "butlast cs = []")
    case False
    then have "cs \<noteq> [c]" by auto
    with ch ne c have "chain (fat_get v) IsEndOfClusterchain (butlast cs @ [c])" by simp
    then have "chain (fat_get v) (\<lambda>x. x = c) (butlast cs)" "fat_get v (last (butlast cs)) = c"
      using False by (auto simp: chain_append)
    moreover have "fat_get (fat_set ?l kEndOfClusterchain ?w) d = fat_get v d" if "d \<in> set (butlast cs)" for d
    proof -
      from that cs(2) ps(2) ne c have "d \<notin> set (c # ps)"
        by (metis append_butlast_last_id disjoint_iff distinct_append in_set_butlastD list.set_intros(1) set_ConsD)
      then show ?thesis by (rule far)
    qed
    ultimately show ?thesis using tail False chain_cong [of "butlast cs"
        "fat_get (fat_set ?l kEndOfClusterchain ?w)" "fat_get v" "\<lambda>x. x = c"]
      by (simp add: chain_append)
  qed (simp only: append_Nil tail)
  moreover have "butlast cs @ c # ps = cs @ ps" using ne c by (metis append_Cons append_Nil append_assoc append_butlast_last_id)
  ultimately have chain: "file_chain N (fat_set ?l kEndOfClusterchain ?w) (cs @ ps)"
    using cs vps by (auto simp: file_chain_def)
  have "fat_get (fat_set ?l kEndOfClusterchain ?w) d = fat_get v d" if "d \<notin> set (cs @ ps)" for d
  proof -
    from that ne c have "d \<notin> set (c # ps)" by auto
    then show ?thesis by (rule far)
  qed
  moreover have "\<forall>d. valid_cluster N d \<longrightarrow> cluster_bytes (fat_set ?l kEndOfClusterchain ?w) d = cluster_bytes v d"
    using L cluster_bytes_fat_set [OF ok' vl] by simp
  moreover have "volume_ok (fat_set ?l kEndOfClusterchain ?w) N" by (rule volume.ok_set [OF ok' vl])
  ultimately show ?thesis using chain sh unfolding chain_grown_def by blast
qed


lemma ExtendCluster_run:
  assumes ok: "volume_ok v N" and cs: "file_chain N v cs" and c: "c \<in> set cs"
    and n: "n \<le> length (free_clusters 2 N v)"
  shows "\<exists>v'. ExtendCluster c n v = Some (last (cs @ take n (free_clusters 2 N v)), v')
    \<and> chain_grown N v cs (take n (free_clusters 2 N v)) v'"
proof -
  let ?ps = "take n (free_clusters 2 N v)"
  from cs have ne: "cs \<noteq> []" by (auto simp: file_chain_def)
  from c obtain bs ds where split: "cs = bs @ c # ds" by (meson split_list)
  with cs chain_suffix [of _ _ bs "c # ds"] have "file_chain N v (c # ds)" by (simp add: file_chain_def)
  from chain_end_run [OF ok this] split have e: "chain_end v c = Some (last cs)" by simp
  have vl: "valid_cluster N (last cs)" using cs ne by (simp add: file_chain_def)
  have "fat_get v (last cs) \<noteq> 0"
    using cs chain_last [of "fat_get v" IsEndOfClusterchain cs] by (auto simp: file_chain_def IsEndOfClusterchain_def)
  with extend_loop_run [OF ok vl, of 2 0 n] n
  have r: "extend_loop 2 (last cs) 0 n v = Some (last (last cs # ?ps), link (last cs) ?ps v)"
    by (simp add: Let_def)
  have "set cs \<inter> set ?ps = {}" using chain_used [OF ok cs, of 2] by (auto dest: in_set_takeD)
  moreover have "\<forall>c\<in>set cs. valid_cluster N c" "chain (fat_get v) IsEndOfClusterchain cs"
    using cs by (simp_all add: file_chain_def)
  ultimately have "chain_grown N v cs ?ps
      (fat_set (last (last cs # ?ps)) kEndOfClusterchain (link (last cs) ?ps v))"
    using ok file_chain_distinct [OF ok cs] by (intro link_grown) auto
  moreover have "last (last cs # ?ps) = last (cs @ ?ps)" using ne by (simp add: last_append)
  ultimately show ?thesis using e r by (simp add: ExtendCluster_def)
qed

lemma AllocateClusterchain_run:
  assumes ok: "volume_ok v N" and n: "max 1 n \<le> length (free_clusters 2 N v)"
  shows "\<exists>v'. AllocateClusterchain n v = Some (hd (free_clusters 2 N v), v')
    \<and> chain_grown N v [] (take (max 1 n) (free_clusters 2 N v)) v'"
proof -
  from n obtain p ps where f: "free_clusters 2 N v = p # ps" by (cases "free_clusters 2 N v") auto
  from find_free_run [OF ok f] have r: "find_free v 2 = Some p" by simp
  have p: "valid_cluster N p" using in_free_clusters [OF ok, of p 2] f by (auto simp: valid_cluster_def)
  let ?v1 = "fat_set p kEndOfClusterchain v"
  have ok1: "volume_ok ?v1 N" by (rule volume.ok_set [OF ok p])
  have sh1: "same_header v ?v1" by (rule same_header_fat_set [OF ok p])
  have c1: "file_chain N ?v1 [p]" using p fat_get_set [OF ok p] by (simp add: file_chain_def)
  have f1: "free_clusters 2 N ?v1 = ps"
  proof -
    have "free_clusters 2 N ?v1 = filter (\<lambda>c. c \<noteq> p) (free_clusters 2 N v)"
      unfolding free_clusters_def filter_filter
      by (rule filter_cong) (auto simp: fat_get_set [OF ok p] kEndOfClusterchain_def)
    moreover have "p \<notin> set ps" using distinct_free_clusters [OF ok, of 2] f by simp
    ultimately show ?thesis by (auto simp: f filter_id_conv)
  qed
  have rd1: "\<forall>d. valid_cluster N d \<longrightarrow> cluster_bytes ?v1 d = cluster_bytes v d"
    using cluster_bytes_fat_set [OF ok p] by simp
  show ?thesis
  proof (cases "n > 1")
    case True
    from f n f1 have "n - 1 \<le> length (free_clusters 2 N ?v1)" by simp
    from ExtendCluster_run [OF ok1 c1 _ this] obtain v' where
      e: "ExtendCluster p (n - 1) ?v1 = Some (last (p # take (n - 1) ps), v')"
      and g: "chain_grown N ?v1 [p] (take (n - 1) ps) v'" unfolding f1 by auto
    have t: "take (max 1 n) (p # ps) = p # take (n - 1) ps" using True by (cases n) (auto simp: max_def)
    have "chain_grown N v [] (p # take (n - 1) ps) v'"
      using g sh1 rd1 unfolding chain_grown_def
      by (auto simp: fat_get_set [OF ok p] intro: same_header_trans)
    with e r f True t show ?thesis by (simp add: AllocateClusterchain_def Let_def)
  next
    case False
    then have "take (max 1 n) (p # ps) = [p]" by (cases n) (auto simp: max_def)
    moreover have "chain_grown N v [] [p] ?v1"
      using ok1 sh1 c1 rd1 by (simp add: chain_grown_def fat_get_set [OF ok p])
    ultimately show ?thesis using r f False by (simp add: AllocateClusterchain_def Let_def)
  qed
qed

lemma find_free_zero: "find_free v c = Some d \<Longrightarrow> fat_get v d = 0"
  by (rule find_free.raw_induct [of "\<lambda>v c d. fat_get v d = 0"]) (auto split: if_splits)


section \<open>A small volume\<close>

text \<open>
  Sectors and clusters of 32 bytes, a table of 8 entries at address 96, the root directory in cluster 2 with
  one file of 40 bytes in the clusters 3 and 4; the clusters 5, 6 and 7 are free.
\<close>

definition sample_memory :: memory where
  "sample_memory = (\<lambda>i. if 160 \<le> i \<and> i < 224 then of_nat (i - 160) else 0)
     (11 := 32, 13 := 1, 14 := 3, 16 := 1, 36 := 1, 44 := 2,
      96 := 0xf8, 97 := 0xff, 98 := 0xff, 99 := 0x0f,
      100 := 0xff, 101 := 0xff, 102 := 0xff, 103 := 0x0f,
      104 := 0xff, 105 := 0xff, 106 := 0xff, 107 := 0x0f,
      108 := 4,
      112 := 0xff, 113 := 0xff, 114 := 0xff, 115 := 0x0f,
      128 := 70, 129 := 73, 130 := 76, 131 := 69, 132 := 32, 133 := 32, 134 := 32, 135 := 32,
      136 := 84, 137 := 88, 138 := 84, 139 := 0x20, 154 := 3, 156 := 40)"

definition sample_volume :: Volume where
  "sample_volume = Initialize sample_memory"

lemma sample_BPB:
  "bytes_per_sector (read_BPB sample_memory) = 32" "sectors_per_cluster (read_BPB sample_memory) = 1"
  "reserved_sector_count (read_BPB sample_memory) = 3" "num_fats (read_BPB sample_memory) = 1"
  "fat_size_32 (read_BPB sample_memory) = 1" "root_cluster (read_BPB sample_memory) = 2"
  by (simp_all add: BPB_fields le16_def le32_def sample_memory_def)

lemma sample_geometry:
  "image sample_volume = sample_memory" "bytes_per_cluster sample_volume = 32" "cluster_size sample_volume = 32"
  "GetFAT sample_volume = 96"
  by (simp_all add: sample_volume_def Initialize_def sample_BPB cluster_size_def GetFAT_def)

lemma sample_ok: "volume_ok sample_volume 8"
  by (simp add: volume_ok_def sample_geometry sample_BPB layout)

lemma sample_fat:
  "fat_get sample_volume 2 = kEndOfClusterchain" "fat_get sample_volume 3 = 4"
  "fat_get sample_volume 4 = kEndOfClusterchain" "fat_get sample_volume 5 = 0"
  "fat_get sample_volume 6 = 0" "fat_get sample_volume 7 = 0"
  by (simp_all add: fat_get_def sample_geometry le32_def le16_def sample_memory_def kEndOfClusterchain_def)

lemma sample_chain: "file_chain 8 sample_volume [3, 4]"
  by (simp add: file_chain_def valid_cluster_def sample_fat)

lemma sample_free: "free_clusters 2 8 sample_volume = [5, 6, 7]"
proof -
  have "[2..<8] = [2, 3, 4, 5, 6, 7::nat]" by (simp add: upt_conv_Cons)
  then show ?thesis by (simp add: free_clusters_def sample_fat kEndOfClusterchain_def)
qed

section \<open>Properties\<close>

text \<open>
  C16. \<open>ExtendCluster\<close> on any cluster of a file, with enough free clusters: it ends, the file's chain is
  the old chain followed by the first \<open>n\<close> free clusters in ascending order, the result is the new last cluster, and
  every other file keeps its chain and its bytes and shares no cluster with the new ones.
\<close>

theorem ExtendCluster_correct:
  assumes "volume_ok v N" and "file_chain N v cs" and "c \<in> set cs" and "n \<le> length (free_clusters 2 N v)"
  shows "\<exists>v' ps. ps = take n (free_clusters 2 N v) \<and> ExtendCluster c n v = Some (last (cs @ ps), v')
    \<and> volume_ok v' N \<and> file_chain N v' (cs @ ps) \<and> take (length (volume.content v cs)) (volume.content v' (cs @ ps)) = volume.content v cs
    \<and> (\<forall>ds. file_chain N v ds \<and> set ds \<inter> set cs = {} \<longrightarrow>
         set ds \<inter> set ps = {} \<and> file_chain N v' ds \<and> volume.content v' ds = volume.content v ds)"
proof -
  let ?ps = "take n (free_clusters 2 N v)"
  from ExtendCluster_run [OF assms] obtain v' where
    e: "ExtendCluster c n v = Some (last (cs @ ?ps), v')" and g: "chain_grown N v cs ?ps v'" by blast
  have "volume.content v' cs = volume.content v cs"
    using g assms(2) by (intro arg_cong [of _ _ concat] map_cong) (auto simp: chain_grown_def file_chain_def)
  moreover have "set ?ps \<subseteq> set (free_clusters 2 N v)" by (rule set_take_subset)
  ultimately show ?thesis using e g chain_grown_frame [OF assms(1) g] by (auto simp: chain_grown_def)
qed

theorem ExtendCluster_correct_witness:
  "\<exists>v'. ExtendCluster 3 2 sample_volume = Some (6, v') \<and> file_chain 8 v' [3, 4, 5, 6]"
  using ExtendCluster_correct [OF sample_ok sample_chain, of 3 2] by (auto simp: sample_free)

text \<open>
  \<open>AllocateClusterchain\<close> with enough free clusters: it ends and builds a new chain of \<open>n\<close> clusters (at
  least one) from the first free ones; every file keeps its chain and its bytes and shares no cluster with it.
\<close>

theorem AllocateClusterchain_correct:
  assumes "volume_ok v N" and "max 1 n \<le> length (free_clusters 2 N v)"
  shows "\<exists>v' ps. ps = take (max 1 n) (free_clusters 2 N v) \<and> AllocateClusterchain n v = Some (hd ps, v')
    \<and> volume_ok v' N \<and> file_chain N v' ps
    \<and> (\<forall>ds. file_chain N v ds \<longrightarrow>
         set ds \<inter> set ps = {} \<and> file_chain N v' ds \<and> volume.content v' ds = volume.content v ds)"
proof -
  let ?ps = "take (max 1 n) (free_clusters 2 N v)"
  from AllocateClusterchain_run [OF assms] obtain v' where
    e: "AllocateClusterchain n v = Some (hd (free_clusters 2 N v), v')" and g: "chain_grown N v [] ?ps v'" by blast
  have "hd ?ps = hd (free_clusters 2 N v)" by (simp add: hd_take)
  moreover have "set ?ps \<subseteq> set (free_clusters 2 N v)" by (rule set_take_subset)
  ultimately show ?thesis using e g chain_grown_frame [OF assms(1) g] by (auto simp: chain_grown_def)
qed

theorem AllocateClusterchain_correct_witness:
  "\<exists>v'. AllocateClusterchain 3 sample_volume = Some (5, v') \<and> file_chain 8 v' [5, 6, 7]"
  using AllocateClusterchain_correct [OF sample_ok, of 3] by (auto simp: sample_free)

text \<open>
  On a full volume the allocation does not fail: the search leaves the table, and the end mark is
  written over the first zero word behind it (the next copy of the table, or file and directory data).
\<close>

theorem AllocateClusterchain_full_volume:
  assumes "volume_ok v N" and "free_clusters 2 N v = []" and "AllocateClusterchain 1 v = Some (c, v')"
  shows "\<not> valid_cluster N c \<and> fat_get v c = 0 \<and> image v' = put32 (GetFAT v + 4 * unat c) kEndOfClusterchain (image v)"
proof -
  from assms(3) have c: "find_free v 2 = Some c" and v': "v' = fat_set c kEndOfClusterchain v"
    by (auto simp: AllocateClusterchain_def Let_def fallible)
  from find_free_zero [OF c] have z: "fat_get v c = 0" .
  moreover have "\<not> valid_cluster N c"
    using z assms(2) in_free_clusters [OF assms(1), of c 2] by (auto simp: valid_cluster_def)
  ultimately show ?thesis using v' by (simp add: fat_set_def)
qed

definition full_volume :: Volume where
  "full_volume = sample_volume\<lparr>image := sample_memory(116 := 6, 120 := 7, 124 := 0xff, 125 := 0xff, 126 := 0xff, 127 := 0x0f)\<rparr>"

lemma full_BPB: "read_BPB (sample_memory(116 := 6, 120 := 7, 124 := 0xff, 125 := 0xff, 126 := 0xff, 127 := 0x0f))
    = read_BPB sample_memory"
  by (rule read_BPB_cong) (simp add: layout)

lemma full_geometry: "GetFAT full_volume = 96" "volume_ok full_volume 8"
proof -
  have "same_header sample_volume full_volume"
    by (rule same_header_image) (simp_all add: full_volume_def sample_geometry layout)
  then show "GetFAT full_volume = 96" "volume_ok full_volume 8"
    by (simp_all add: same_header_eqs sample_geometry sample_ok)
qed

lemma full_fat:
  "fat_get full_volume 2 = kEndOfClusterchain" "fat_get full_volume 3 = 4"
  "fat_get full_volume 4 = kEndOfClusterchain" "fat_get full_volume 5 = 6"
  "fat_get full_volume 6 = 7" "fat_get full_volume 7 = kEndOfClusterchain"
  "fat_get full_volume 8 = 0x454c4946" "fat_get full_volume 9 = 0x20202020"
  "fat_get full_volume 10 = 0x20545854" "fat_get full_volume 11 = 0"
  unfolding fat_get_def full_geometry
  by (simp_all add: full_volume_def le32_def le16_def sample_memory_def kEndOfClusterchain_def)

theorem AllocateClusterchain_full_volume_witness:
  "\<exists>v'. AllocateClusterchain 1 full_volume = Some (11, v') \<and> \<not> valid_cluster 8 11
     \<and> image v' = put32 140 kEndOfClusterchain (image full_volume)"
proof -
  have free: "free_clusters 2 8 full_volume = []"
  proof -
    have "[2..<8] = [2, 3, 4, 5, 6, 7::nat]" by (simp add: upt_conv_Cons)
    then show ?thesis by (simp add: free_clusters_def full_fat kEndOfClusterchain_def)
  qed
  have "find_free full_volume 2 = Some 11"
    by (simp add: find_free.simps [of full_volume] full_fat kEndOfClusterchain_def)
  then have a: "AllocateClusterchain 1 full_volume = Some (11, fat_set 11 kEndOfClusterchain full_volume)"
    by (simp add: AllocateClusterchain_def Let_def)
  from AllocateClusterchain_full_volume [OF full_geometry(2) free a] a full_geometry(1) show ?thesis by simp
qed

end
