(* ===== verification/FatNames.thy ===== *)
theory FatNames
  imports FatChains
begin

text \<open>
  \<^verbatim>\<open>kernel/fat.cpp\<close>, part 3: names.  A C string is the list of its bytes before the terminating zero; a
  directory name is the 11 bytes of \<open>DirectoryEntry::name\<close>, 8 of the base and 3 of the extension, padded
  with spaces.
\<close>

section \<open>Names in directory entries\<close>

definition space :: u8 where "space = 0x20"
definition dot :: u8 where "dot = 0x2e"
definition slash :: u8 where "slash = 0x2f"

text \<open>\<open>toupper\<close> of the C locale.\<close>

definition toupper :: "u8 \<Rightarrow> u8" where
  "toupper c = (if 0x61 \<le> c \<and> c \<le> 0x7a then c - 0x20 else c)"

text \<open>The stores \<open>entry.name[i] = toupper(...)\<close> of a loop that starts at \<open>i\<close>.\<close>

fun put_upper :: "nat \<Rightarrow> u8 list \<Rightarrow> u8 list \<Rightarrow> u8 list" where
  "put_upper i [] name = name"
| "put_upper i (c # cs) name = put_upper (Suc i) cs (name[i := toupper c])"

text \<open>\<open>strrchr\<close> and \<open>strchr\<close>: the position of the last and of the first occurrence.\<close>

fun strchr :: "u8 list \<Rightarrow> u8 \<Rightarrow> nat option" where
  "strchr [] c = None"
| "strchr (x # xs) c = (if x = c then Some 0 else map_option Suc (strchr xs c))"

fun strrchr :: "u8 list \<Rightarrow> u8 \<Rightarrow> nat option" where
  "strrchr [] c = None"
| "strrchr (x # xs) c =
     (case strrchr xs c of Some i \<Rightarrow> Some (Suc i) | None \<Rightarrow> if x = c then Some 0 else None)"

definition SetFileName :: "u8 list \<Rightarrow> u8 list" where
  "SetFileName name =
     (case strrchr name dot of
        Some d \<Rightarrow> put_upper 8 (take 3 (drop (d + 1) name)) (put_upper 0 (take (min 8 d) name) (replicate 11 space))
      | None \<Rightarrow> put_upper 0 (take 8 name) (replicate 11 space))"

text \<open>The loop of \<open>NameIsEqual\<close>; a dot sets \<open>i83\<close> to 7, and the step of the loop makes it 8.\<close>

fun fill83 :: "u8 list \<Rightarrow> nat \<Rightarrow> u8 list \<Rightarrow> u8 list" where
  "fill83 [] i83 name83 = name83"
| "fill83 (c # cs) i83 name83 =
     (if i83 < 11
      then if c = dot then fill83 cs (7 + 1) name83 else fill83 cs (i83 + 1) (name83[i83 := toupper c])
      else name83)"

definition NameIsEqual :: "u8 list \<Rightarrow> u8 list \<Rightarrow> bool" where
  "NameIsEqual entry_name name \<longleftrightarrow> entry_name = fill83 name 0 (replicate 11 space)"

text \<open>
  \<open>ReadName\<close>: the trailing spaces of either part become zeros; the resulting C strings end at the first
  zero.
\<close>

fun cut_spaces :: "u8 list \<Rightarrow> nat \<Rightarrow> u8 list" where
  "cut_spaces s 0 = s"
| "cut_spaces s (Suc i) = (if s ! i = space then cut_spaces (s[i := 0]) i else s)"

definition c_string :: "u8 list \<Rightarrow> u8 list" where
  "c_string s = takeWhile (\<lambda>c. c \<noteq> 0) s"

definition ReadName :: "u8 list \<Rightarrow> u8 list \<times> u8 list" where
  "ReadName entry_name = (c_string (cut_spaces (take 8 entry_name) 8), c_string (cut_spaces (take 3 (drop 8 entry_name)) 3))"

definition FormatName :: "u8 list \<Rightarrow> u8 list" where
  "FormatName entry_name =
     (case ReadName entry_name of (base, ext) \<Rightarrow> if ext \<noteq> [] then base @ dot # ext else base)"

text \<open>
  \<open>NextPathElement\<close> with the 13 bytes of \<open>path_elem\<close>: a longer element overruns the buffer.  The result is the
  element, the rest of the path (\<open>None\<close> for the null pointer) and whether a slash followed.
\<close>

definition kPathElem :: nat where [layout]: "kPathElem = 13"

definition NextPathElement :: "u8 list \<Rightarrow> (u8 list \<times> u8 list option \<times> bool) option" where
  "NextPathElement path =
     (case strchr path slash of
        None \<Rightarrow> if length path + 1 \<le> kPathElem then Some (path, None, False) else None
      | Some elem_len \<Rightarrow> if elem_len + 1 \<le> kPathElem
                         then Some (take elem_len path, Some (drop (elem_len + 1) path), True) else None)"

section \<open>Names of the 8.3 form\<close>

definition name_8_3 :: "u8 list \<Rightarrow> u8 list \<Rightarrow> bool" where
  "name_8_3 base ext \<longleftrightarrow> dot \<notin> set base \<and> dot \<notin> set ext \<and> length base \<le> 8 \<and> length ext \<le> 3"

definition pad :: "nat \<Rightarrow> u8 list \<Rightarrow> u8 list" where
  "pad n s = s @ replicate (n - length s) space"

definition stored_name :: "u8 list \<Rightarrow> u8 list \<Rightarrow> u8 list" where
  "stored_name base ext = pad 8 (map toupper base) @ pad 3 (map toupper ext)"

lemma length_pad [simp]: "length s \<le> n \<Longrightarrow> length (pad n s) = n"
  by (simp add: pad_def)

lemma length_stored_name [simp]: "name_8_3 base ext \<Longrightarrow> length (stored_name base ext) = 11"
  by (simp add: stored_name_def name_8_3_def)

lemma put_upper_eq:
  "i + length cs \<le> length s \<Longrightarrow> put_upper i cs s = take i s @ map toupper cs @ drop (i + length cs) s"
proof (induction cs arbitrary: i s)
  case (Cons c cs)
  then have "put_upper i (c # cs) s = take (Suc i) (s[i := toupper c]) @ map toupper cs @ drop (Suc i + length cs) (s[i := toupper c])"
    using Cons.IH [of "Suc i" "s[i := toupper c]"] by simp
  with Cons.prems show ?case by (simp add: take_Suc_conv_app_nth)
qed simp

lemma strrchr_None: "c \<notin> set s \<Longrightarrow> strrchr s c = None"
  by (induction s) auto

lemma strrchr_append: "c \<notin> set t \<Longrightarrow> strrchr (s @ c # t) c = Some (length s)"
  by (induction s) (auto simp: strrchr_None)

lemma strchr_None: "c \<notin> set s \<Longrightarrow> strchr s c = None"
  by (induction s) auto

lemma strchr_append: "c \<notin> set s \<Longrightarrow> strchr (s @ c # t) c = Some (length s)"
  by (induction s) auto

lemma fill83_no_dot:
  "dot \<notin> set cs \<Longrightarrow> i + length cs \<le> 11 \<Longrightarrow> fill83 (cs @ rest) i s = fill83 rest (i + length cs) (put_upper i cs s)"
  by (induction cs arbitrary: i s) (auto simp: add.commute)

lemma SetFileName_plain: "name_8_3 base [] \<Longrightarrow> SetFileName base = stored_name base []"
  by (simp add: SetFileName_def strrchr_None name_8_3_def put_upper_eq stored_name_def pad_def
      flip: replicate_add)

lemma SetFileName_dotted: "name_8_3 base ext \<Longrightarrow> SetFileName (base @ dot # ext) = stored_name base ext"
  by (simp add: SetFileName_def strrchr_append name_8_3_def put_upper_eq stored_name_def pad_def min_def)

lemma fill83_plain: "name_8_3 base [] \<Longrightarrow> fill83 base 0 (replicate 11 space) = stored_name base []"
  using fill83_no_dot [of base 0 "[]" "replicate 11 space"]
  by (simp add: name_8_3_def put_upper_eq stored_name_def pad_def flip: replicate_add)

lemma fill83_dotted: "name_8_3 base ext \<Longrightarrow> fill83 (base @ dot # ext) 0 (replicate 11 space) = stored_name base ext"
  using fill83_no_dot [of base 0 "dot # ext" "replicate 11 space"]
    fill83_no_dot [of ext 8 "[]" "put_upper 0 base (replicate 11 space)"]
  by (simp add: name_8_3_def put_upper_eq stored_name_def pad_def)


lemma toupper_dot: "toupper c = dot \<longleftrightarrow> c = dot"
proof -
  have "c - 0x20 \<noteq> dot" if "0x61 \<le> c" "c \<le> 0x7a"
  proof
    assume "c - 0x20 = dot"
    then have "c = 0x4e" by (simp add: dot_def diff_eq_eq)
    with that show False by simp
  qed
  then show ?thesis by (auto simp: toupper_def dot_def)
qed

lemma toupper_keeps: "toupper c = space \<longleftrightarrow> c = space" "toupper c = 0 \<longleftrightarrow> c = 0"
proof -
  have "c - 0x20 \<noteq> space" "c - 0x20 \<noteq> 0" if "0x61 \<le> c" "c \<le> 0x7a"
    using that by (auto simp: space_def diff_eq_eq)
  then show "toupper c = space \<longleftrightarrow> c = space" "toupper c = 0 \<longleftrightarrow> c = 0"
    by (auto simp: toupper_def space_def)
qed

lemma pad_inj:
  assumes "pad n s = pad n t" and "space \<notin> set s" and "space \<notin> set t"
  shows "s = t"
proof -
  have "takeWhile (\<lambda>c. c \<noteq> space) (pad n u) = u" if "space \<notin> set u" for u
    using that by (auto simp: pad_def takeWhile_append takeWhile_eq_Nil_iff hd_replicate)
  with assms show ?thesis by metis
qed

lemma replicate_Suc_conv_snoc: "replicate (Suc k) x = replicate k x @ [x]"
  by (simp add: replicate_append_same)

lemma cut_spaces_replicate:
  "s = [] \<or> last s \<noteq> space \<Longrightarrow> cut_spaces (s @ replicate k space @ zs) (length s + k) = s @ replicate k 0 @ zs"
proof (induction k arbitrary: zs)
  case 0
  then show ?case by (cases s rule: rev_cases) (auto simp: nth_append)
next
  case (Suc k)
  have "(s @ replicate (Suc k) space @ zs) ! (length s + k) = space"
    by (simp add: nth_append del: replicate_Suc)
  moreover have "(s @ replicate (Suc k) space @ zs)[length s + k := 0] = s @ replicate k space @ 0 # zs"
    by (simp only: replicate_Suc_conv_snoc list_update_append length_replicate append_assoc) (simp add: list_update_append)
  ultimately show ?case using Suc.IH [of "0 # zs"] Suc.prems
    by (simp add: replicate_app_Cons_same)
qed

lemma c_string_pad:
  assumes "space \<notin> set s" and "0 \<notin> set s" and "length s \<le> n"
  shows "c_string (cut_spaces (pad n s) n) = s"
proof -
  from assms(1) have "s = [] \<or> last s \<noteq> space" by (metis last_in_set)
  from cut_spaces_replicate [OF this, of "n - length s" "[]"] assms(3)
  have "cut_spaces (pad n s) n = s @ replicate (n - length s) 0" by (simp add: pad_def)
  with assms(2) show ?thesis by (auto simp: c_string_def takeWhile_append takeWhile_eq_Nil_iff hd_replicate)
qed


lemma fill83_no_dots:
  "dot \<notin> set s \<Longrightarrow> dot \<notin> set (fill83 cs i s)"
proof (induction cs i s rule: fill83.induct)
  case (2 c cs i s)
  have "c \<noteq> dot \<Longrightarrow> dot \<notin> set (s[i := toupper c])"
    using set_update_subset_insert [of s i "toupper c"] 2(3) toupper_dot [of c] by auto
  with 2 show ?case by auto
qed simp

lemma toupper_notin: "space \<notin> set s \<Longrightarrow> space \<notin> set (map toupper s)" "0 \<notin> set s \<Longrightarrow> 0 \<notin> set (map toupper s)"
  by (auto simp: toupper_keeps dest: sym)

lemma stored_name_inj:
  assumes "name_8_3 b e" "name_8_3 b' e'" "space \<notin> set (b @ e @ b' @ e')"
  shows "stored_name b e = stored_name b' e' \<longleftrightarrow> map toupper b = map toupper b' \<and> map toupper e = map toupper e'"
proof
  assume "stored_name b e = stored_name b' e'"
  moreover have "length (pad 8 (map toupper b)) = length (pad 8 (map toupper b'))"
    using assms by (simp add: name_8_3_def)
  ultimately have "pad 8 (map toupper b) = pad 8 (map toupper b')" "pad 3 (map toupper e) = pad 3 (map toupper e')"
    by (simp_all add: stored_name_def)
  moreover have "space \<notin> set (map toupper b)" "space \<notin> set (map toupper b')"
    "space \<notin> set (map toupper e)" "space \<notin> set (map toupper e')"
    using assms(3) by (simp_all add: toupper_notin(1) del: set_map)
  ultimately show "map toupper b = map toupper b' \<and> map toupper e = map toupper e'"
    by (blast intro: pad_inj)
qed (simp add: stored_name_def)

section \<open>Properties\<close>

text \<open>
  C39. A name of the 8.3 form that \<open>SetFileName\<close> stored is found by \<open>NameIsEqual\<close> under a name exactly
  when the two agree but for the case of letters, in the base and in the extension.
\<close>

theorem NameIsEqual_SetFileName:
  assumes "name_8_3 base ext" and "name_8_3 base' ext'" and "space \<notin> set (base @ ext @ base' @ ext')"
  shows "NameIsEqual (SetFileName (base @ dot # ext)) (base' @ dot # ext') \<longleftrightarrow>
    map toupper base = map toupper base' \<and> map toupper ext = map toupper ext'"
  using stored_name_inj [OF assms] assms by (simp add: NameIsEqual_def SetFileName_dotted fill83_dotted)

text \<open>The names \<open>readme.txt\<close> and \<open>README.Txt\<close>.\<close>

theorem NameIsEqual_SetFileName_witness:
  "NameIsEqual (SetFileName ([0x72, 0x65, 0x61, 0x64, 0x6d, 0x65] @ dot # [0x74, 0x78, 0x74]))
     ([0x52, 0x45, 0x41, 0x44, 0x4d, 0x45] @ dot # [0x54, 0x78, 0x74])"
  by (subst NameIsEqual_SetFileName) (simp_all add: name_8_3_def dot_def space_def toupper_def)

text \<open>
  What \<open>ls\<close> prints for a stored name is the name in capitals, with the dot exactly when there is an
  extension.
\<close>

theorem FormatName_SetFileName:
  assumes "name_8_3 base ext" and "space \<notin> set (base @ ext)" and "0 \<notin> set (base @ ext)"
  shows "FormatName (SetFileName (base @ dot # ext)) =
    (if ext = [] then map toupper base else map toupper base @ dot # map toupper ext)"
proof -
  let ?b = "map toupper base" and ?e = "map toupper ext"
  have "take 8 (stored_name base ext) = pad 8 ?b" "take 3 (drop 8 (stored_name base ext)) = pad 3 ?e"
    using assms(1) by (simp_all add: stored_name_def name_8_3_def)
  moreover have "c_string (cut_spaces (pad 8 ?b) 8) = ?b"
    using assms by (intro c_string_pad) (auto simp: name_8_3_def toupper_keeps dest: sym)
  moreover have "c_string (cut_spaces (pad 3 ?e) 3) = ?e"
    using assms by (intro c_string_pad) (auto simp: name_8_3_def toupper_keeps dest: sym)
  ultimately have "ReadName (stored_name base ext) = (?b, ?e)" by (simp add: ReadName_def)
  with assms(1) show ?thesis by (simp add: SetFileName_dotted FormatName_def)
qed

theorem FormatName_SetFileName_witness:
  "FormatName (SetFileName ([0x61, 0x62] @ dot # [0x63])) = [0x41, 0x42] @ dot # [0x43]"
  by (subst FormatName_SetFileName) (simp_all add: name_8_3_def dot_def space_def toupper_def)

text \<open>
  A directory entry whose name holds a dot, such as the entries \<open>.\<close> and \<open>..\<close> that every
  subdirectory has, is equal to no name: relative paths through them are never found.
\<close>

theorem NameIsEqual_dot_entries: "dot \<in> set entry_name \<Longrightarrow> \<not> NameIsEqual entry_name name"
  using fill83_no_dots [of "replicate 11 space" name 0] by (auto simp: NameIsEqual_def dot_def space_def)

theorem NameIsEqual_dot_entries_witness:
  "\<not> NameIsEqual (dot # dot # replicate 9 space) [dot, dot]"
  by (rule NameIsEqual_dot_entries) simp

text \<open>
  A name without a dot and of more than 8 characters is stored by its first 8 only, but compared by its
  first 11: the file just created under it is not found under it.
\<close>

theorem SetFileName_long_name:
  assumes "dot \<notin> set name" and "8 < length name" and "name ! 8 \<noteq> space"
  shows "\<not> NameIsEqual (SetFileName name) name"
proof -
  let ?n = "take 11 name" and ?s = "replicate 11 space"
  have dn: "dot \<notin> set ?n" using assms(1) by (auto dest: in_set_takeD)
  have "fill83 name 0 ?s = fill83 (drop 11 name) (length ?n) (put_upper 0 ?n ?s)"
    using fill83_no_dot [OF dn, of 0 "drop 11 name" ?s] by simp
  also have "\<dots> = put_upper 0 ?n ?s" by (cases "drop 11 name") (auto simp: min_def)
  finally have "fill83 name 0 ?s ! 8 = toupper (name ! 8)"
    using assms(2) by (simp add: put_upper_eq nth_append)
  moreover have "SetFileName name ! 8 = space"
  proof -
    have "SetFileName name = put_upper 0 (take 8 name) ?s" using assms(1) by (simp add: SetFileName_def strrchr_None)
    also have "\<dots> = map toupper (take 8 name) @ drop 8 ?s"
      using put_upper_eq [of 0 "take 8 name" ?s] assms(2) by simp
    finally show ?thesis using assms(2) by (simp add: nth_append)
  qed
  moreover have "toupper (name ! 8) \<noteq> space" using assms(3) toupper_keeps(1) by blast
  ultimately show ?thesis unfolding NameIsEqual_def by metis
qed

theorem SetFileName_long_name_witness: "\<not> NameIsEqual (SetFileName (replicate 9 0x61)) (replicate 9 0x61)"
  by (rule SetFileName_long_name) (simp_all add: dot_def space_def del: replicate.simps)

end
