(* ===== verification/FatDirectory.thy ===== *)
theory FatDirectory
  imports FatNames ErrorCodes
begin

text \<open>
  \<^verbatim>\<open>kernel/fat.hpp\<close> and \<^verbatim>\<open>kernel/fat.cpp\<close>, part 4: directories.  A \<open>DirectoryEntry *\<close> is an address in the
  volume; \<open>FindFile\<close> walks paths over the entries, \<open>AllocateEntry\<close> and \<open>CreateFile\<close> add one.
\<close>

section \<open>Directory entries\<close>

record DirectoryEntry =
  dname :: "u8 list"
  attr :: u8
  ntres :: u8
  create_time_tenth :: u8
  create_time :: u16
  create_date :: u16
  last_access_date :: u16
  first_cluter_high :: u16
  wirte_time :: u16
  write_date :: u16
  first_cluster_low :: u16
  file_size :: u32

definition kEntrySize :: nat where [layout]: "kEntrySize = 32"
definition kDirectory :: u8 where "kDirectory = 0x10"
definition kLongName :: u8 where "kLongName = 0x0f"

definition read_entry :: "memory \<Rightarrow> nat \<Rightarrow> DirectoryEntry" where
  "read_entry m a =
     \<lparr>dname = bytes m a 11, attr = m (a + 11), ntres = m (a + 12), create_time_tenth = m (a + 13),
      create_time = le16 m (a + 14), create_date = le16 m (a + 16), last_access_date = le16 m (a + 18),
      first_cluter_high = le16 m (a + 20), wirte_time = le16 m (a + 22), write_date = le16 m (a + 24),
      first_cluster_low = le16 m (a + 26), file_size = le32 m (a + 28)\<rparr>"

definition FirstCluster :: "DirectoryEntry \<Rightarrow> u32" where
  "FirstCluster e = ucast (first_cluster_low e) OR push_bit 16 (ucast (first_cluter_high e))"

definition entry :: "Volume \<Rightarrow> nat \<Rightarrow> DirectoryEntry" where
  "entry v a = read_entry (image v) a"

definition set_file_size :: "nat \<Rightarrow> u32 \<Rightarrow> Volume \<Rightarrow> Volume" where
  "set_file_size a x v = v\<lparr>image := put32 (a + 28) x (image v)\<rparr>"

definition set_first_cluster :: "nat \<Rightarrow> u32 \<Rightarrow> Volume \<Rightarrow> Volume" where
  "set_first_cluster a c v =
     v\<lparr>image := put16 (a + 20) (ucast (drop_bit 16 c AND 0xffff)) (put16 (a + 26) (ucast (c AND 0xffff)) (image v))\<rparr>"

definition entries_per_cluster :: "Volume \<Rightarrow> nat" where
  "entries_per_cluster v = unat (bytes_per_cluster v) div kEntrySize"

section \<open>Looking up a path\<close>

text \<open>The \<open>for\<close> loop over the entries of one cluster: \<open>Stop\<close> is the jump to \<open>not_found\<close>.\<close>

datatype entry_scan = Stop | Hit nat | Miss

fun scan_entries :: "Volume \<Rightarrow> u8 list \<Rightarrow> nat \<Rightarrow> nat \<Rightarrow> entry_scan" where
  "scan_entries v elem a 0 = Miss"
| "scan_entries v elem a (Suc n) =
     (if image v a = 0 then Stop
      else if \<not> NameIsEqual (dname (entry v a)) elem then scan_entries v elem (a + kEntrySize) n
      else Hit a)"

partial_function (option) find_entry :: "Volume \<Rightarrow> u8 list \<Rightarrow> u32 \<Rightarrow> nat option option" where
  "find_entry v elem directory_cluster =
     (if directory_cluster \<noteq> kEndOfClusterchain
      then case scan_entries v elem (GetSectorByCluster v directory_cluster) (entries_per_cluster v) of
             Stop \<Rightarrow> Some None
           | Hit a \<Rightarrow> Some (Some a)
           | Miss \<Rightarrow> find_entry v elem (NextCluster v directory_cluster)
      else Some None)"

text \<open>
  \<open>FindFile(path, directory_cluster)\<close>: the entry or the null pointer, and \<open>post_slash\<close>.  The recursive call gets
  the rest of the path behind the slash.
\<close>

partial_function (option) FindFile :: "u8 list \<Rightarrow> u32 \<Rightarrow> Volume \<Rightarrow> (nat option \<times> bool) option" where
  "FindFile path0 directory_cluster0 v =
     (let root = root_cluster (boot_volume_image v);
          (path, directory_cluster) =
            (if path0 \<noteq> [] \<and> hd path0 = slash then (tl path0, root)
             else if directory_cluster0 = 0 then (path0, root) else (path0, directory_cluster0))
      in Option.bind (NextPathElement path) (\<lambda>(path_elem, next_path, post_slash).
           Option.bind (find_entry v path_elem directory_cluster) (\<lambda>found.
             case found of
               None \<Rightarrow> Some (None, post_slash)
             | Some a \<Rightarrow>
                 (case next_path of
                    None \<Rightarrow> Some (Some a, post_slash)
                  | Some rest \<Rightarrow>
                      if attr (entry v a) = kDirectory \<and> rest \<noteq> [] then FindFile rest (FirstCluster (entry v a)) v
                      else Some (Some a, post_slash)))))"

section \<open>Creating a file\<close>

fun scan_slots :: "Volume \<Rightarrow> nat \<Rightarrow> nat \<Rightarrow> nat option" where
  "scan_slots v a 0 = None"
| "scan_slots v a (Suc n) = (if image v a = 0 \<or> image v a = 0xe5 then Some a else scan_slots v (a + kEntrySize) n)"

text \<open>The \<open>while\<close> loop of \<open>AllocateEntry\<close>: a free slot, or the last cluster of the directory.\<close>

partial_function (option) slot_loop :: "Volume \<Rightarrow> u32 \<Rightarrow> (nat + u32) option" where
  "slot_loop v dir_cluster =
     (case scan_slots v (GetSectorByCluster v dir_cluster) (entries_per_cluster v) of
        Some a \<Rightarrow> Some (Inl a)
      | None \<Rightarrow> if NextCluster v dir_cluster = kEndOfClusterchain then Some (Inr dir_cluster)
                else slot_loop v (NextCluster v dir_cluster))"

definition AllocateEntry :: "u32 \<Rightarrow> Volume \<Rightarrow> (nat \<times> Volume) option" where
  "AllocateEntry dir_cluster v =
     Option.bind (slot_loop v dir_cluster) (\<lambda>r. case r of
       Inl a \<Rightarrow> Some (a, v)
     | Inr last_cluster \<Rightarrow>
         map_option (\<lambda>(c, v'). (GetSectorByCluster v' c,
             store (GetSectorByCluster v' c) (replicate (unat (bytes_per_cluster v')) 0) v'))
           (ExtendCluster last_cluster 1 v))"

definition CreateFile :: "u8 list \<Rightarrow> Volume \<Rightarrow> (Code + nat \<times> Volume) option" where
  "CreateFile path v =
     (let create = (\<lambda>parent_dir_cluster filename.
            map_option (\<lambda>(a, v'). Inr (a, set_file_size a 0 (store a (SetFileName filename) v')))
              (AllocateEntry parent_dir_cluster v));
          root = root_cluster (boot_volume_image v)
      in case strrchr path slash of
           None \<Rightarrow> create root path
         | Some slash_pos \<Rightarrow>
             (let filename = drop (slash_pos + 1) path; parent_dir_name = take slash_pos path
              in if filename = [] then Some (Inl kIsDirectory)
                 else if parent_dir_name \<noteq> []
                 then Option.bind (FindFile parent_dir_name 0 v) (\<lambda>(parent_dir, _).
                        case parent_dir of
                          None \<Rightarrow> Some (Inl kNoSuchDirectory)
                        | Some d \<Rightarrow> create (FirstCluster (entry v d)) filename)
                 else create root filename))"


section \<open>A directory as a list of entries\<close>

definition cluster_entries :: "Volume \<Rightarrow> u32 \<Rightarrow> nat list" where
  "cluster_entries v c = map (\<lambda>i. GetSectorByCluster v c + i * kEntrySize) [0..<entries_per_cluster v]"

definition dir_entries :: "Volume \<Rightarrow> u32 list \<Rightarrow> nat list" where
  "dir_entries v cs = concat (map (cluster_entries v) cs)"

text \<open>The entry a lookup finds: the first of that name before the end mark of the directory.\<close>

definition lookup :: "Volume \<Rightarrow> u32 list \<Rightarrow> u8 list \<Rightarrow> nat option" where
  "lookup v cs elem = find (\<lambda>a. NameIsEqual (dname (entry v a)) elem) (takeWhile (\<lambda>a. image v a \<noteq> 0) (dir_entries v cs))"

definition scan_list :: "Volume \<Rightarrow> u8 list \<Rightarrow> nat list \<Rightarrow> entry_scan" where
  "scan_list v elem as = (case find (\<lambda>a. image v a = 0 \<or> NameIsEqual (dname (entry v a)) elem) as of
     None \<Rightarrow> Miss | Some a \<Rightarrow> if image v a = 0 then Stop else Hit a)"

lemma upt_map_shift: "map (\<lambda>i. a + i * k) [0..<Suc n] = a # map (\<lambda>i. a + k + i * k) [0..<n]"
  by (rule nth_equalityI) (auto simp: nth_Cons algebra_simps simp del: upt_Suc split: nat.split)

lemma scan_entries_list: "scan_entries v elem a n = scan_list v elem (map (\<lambda>i. a + i * kEntrySize) [0..<n])"
  by (induction n arbitrary: a) (simp_all add: upt_map_shift scan_list_def del: upt_Suc)

lemma scan_list_append:
  "scan_list v elem (as @ bs) = (case scan_list v elem as of Miss \<Rightarrow> scan_list v elem bs | r \<Rightarrow> r)"
  by (induction as) (auto simp: scan_list_def)

lemma lookup_scan: "lookup v cs elem = (case scan_list v elem (dir_entries v cs) of Hit a \<Rightarrow> Some a | _ \<Rightarrow> None)"
proof -
  have "find P (takeWhile (\<lambda>a. \<not> Q a) as) = (case find (\<lambda>a. Q a \<or> P a) as of None \<Rightarrow> None | Some a \<Rightarrow> if Q a then None else Some a)"
    for P Q :: "nat \<Rightarrow> bool" and as
    by (induction as) auto
  from this [of "\<lambda>a. NameIsEqual (dname (entry v a)) elem" "\<lambda>a. image v a = 0"] show ?thesis
    by (simp add: lookup_def scan_list_def split: option.split)
qed

lemma NextCluster_chain:
  assumes "volume_ok v N" and "file_chain N v (c # cs)"
  shows "NextCluster v c = (if cs = [] then kEndOfClusterchain else hd cs)"
proof (cases cs)
  case Nil
  with assms(2) show ?thesis by (simp add: file_chain_def NextCluster_def IsEndOfClusterchain_def)
next
  case (Cons d ds)
  with assms(2) have "fat_get v c = d" "valid_cluster N d" by (auto simp: file_chain_def)
  with Cons valid_not_end [OF assms(1)] show ?thesis by (simp add: NextCluster_def IsEndOfClusterchain_def)
qed

lemma valid_not_mark: "volume_ok v N \<Longrightarrow> valid_cluster N c \<Longrightarrow> c \<noteq> kEndOfClusterchain"
  using valid_not_end end_mark by metis

lemma find_entry_scan:
  assumes "volume_ok v N" and "file_chain N v (c # cs)"
  shows "find_entry v elem c = Some (case scan_list v elem (dir_entries v (c # cs)) of Hit a \<Rightarrow> Some a | _ \<Rightarrow> None)"
  using assms
proof (induction cs arbitrary: c)
  case (Nil c)
  then have c: "c \<noteq> kEndOfClusterchain" using valid_not_mark by (auto simp: file_chain_def)
  have e: "find_entry v elem kEndOfClusterchain = Some None" by (subst find_entry.simps) simp
  show ?case
    using c NextCluster_chain [OF Nil] e
    by (subst find_entry.simps)
       (simp add: scan_entries_list dir_entries_def cluster_entries_def split: entry_scan.split)
next
  case (Cons d cs c)
  then have c: "c \<noteq> kEndOfClusterchain" "file_chain N v (d # cs)" using valid_not_mark by (auto simp: file_chain_def)
  show ?case
    using c(1) NextCluster_chain [OF Cons.prems] Cons.IH [OF Cons.prems(1) c(2)]
    by (subst find_entry.simps)
       (simp add: scan_entries_list scan_list_append dir_entries_def cluster_entries_def split: entry_scan.split)
qed

lemma find_entry_run:
  "volume_ok v N \<Longrightarrow> file_chain N v (c # cs) \<Longrightarrow> find_entry v elem c = Some (lookup v (c # cs) elem)"
  by (simp add: find_entry_scan lookup_scan)


section \<open>Paths\<close>

fun path_of :: "u8 list list \<Rightarrow> u8 list" where
  "path_of [] = []"
| "path_of [e] = e"
| "path_of (e # es) = e @ slash # path_of es"

text \<open>\<open>path_walk N v cs es a\<close>: from the directory with the clusters \<open>cs\<close>, the components \<open>es\<close> lead to the entry \<open>a\<close>.\<close>

inductive path_walk :: "nat \<Rightarrow> Volume \<Rightarrow> u32 list \<Rightarrow> u8 list list \<Rightarrow> nat \<Rightarrow> bool" for N v where
  last: "lookup v cs e = Some a \<Longrightarrow> path_walk N v cs [e] a"
| step: "lookup v cs e = Some d \<Longrightarrow> attr (entry v d) = kDirectory \<Longrightarrow> file_chain N v cs' \<Longrightarrow>
    hd cs' = FirstCluster (entry v d) \<Longrightarrow> path_walk N v cs' es a \<Longrightarrow> path_walk N v cs (e # es) a"

inductive_simps path_walk_Nil: "path_walk N v cs [] a"

definition component :: "u8 list \<Rightarrow> bool" where
  "component e \<longleftrightarrow> e \<noteq> [] \<and> slash \<notin> set e \<and> length e < kPathElem"

lemma path_of_Cons: "es \<noteq> [] \<Longrightarrow> path_of (e # es) = e @ slash # path_of es"
  by (cases es) auto

lemma path_of_first: "component e \<Longrightarrow> path_of (e # es) \<noteq> [] \<and> hd (path_of (e # es)) \<noteq> slash"
proof -
  assume "component e"
  then obtain x xs where "e = x # xs" "x \<noteq> slash" by (cases e) (auto simp: component_def)
  then show ?thesis by (cases es) auto
qed

lemma NextPathElement_last: "component e \<Longrightarrow> NextPathElement e = Some (e, None, False)"
  by (simp add: NextPathElement_def component_def strchr_None)

lemma NextPathElement_step:
  "component e \<Longrightarrow> NextPathElement (e @ slash # rest) = Some (e, Some rest, True)"
  by (simp add: NextPathElement_def component_def strchr_append)

lemma chain_head: "volume_ok v N \<Longrightarrow> file_chain N v cs \<Longrightarrow> \<exists>c ds. cs = c # ds \<and> c \<noteq> 0"
  by (cases cs) (auto simp: file_chain_def valid_cluster_def)

lemma FindFile_walk:
  assumes "volume_ok v N" and "path_walk N v cs es a" and "file_chain N v cs" and "\<forall>e\<in>set es. component e"
  shows "FindFile (path_of es) (hd cs) v = Some (Some a, False)"
  using assms(2-4)
proof (induction rule: path_walk.induct)
  case (last cs e a)
  with chain_head [OF assms(1)] obtain c ds where cs: "cs = c # ds" "c \<noteq> 0" by blast
  with last find_entry_run [OF assms(1), of c ds e] path_of_first [of e "[]"] NextPathElement_last [of e]
  show ?case by (subst FindFile.simps) (simp add: Let_def)
next
  case (step cs e d cs' es a)
  then have "es \<noteq> []" by (auto simp: path_walk_Nil)
  with chain_head [OF assms(1) step.prems(1)] obtain c ds where cs: "cs = c # ds" "c \<noteq> 0" by blast
  have "path_of es \<noteq> []" using \<open>es \<noteq> []\<close> step.prems(2) path_of_first by (cases es) auto
  moreover have "FindFile (path_of es) (hd cs') v = Some (Some a, False)" using step by simp
  ultimately show ?case
    using step.hyps step.prems find_entry_run [OF assms(1), of c ds e] path_of_first [of e es] cs
      NextPathElement_step [of e "path_of es"] path_of_Cons [OF \<open>es \<noteq> []\<close>]
    by (subst FindFile.simps) (simp add: Let_def)
qed

lemma FindFile_absolute:
  "component e \<Longrightarrow> FindFile (slash # path_of (e # es)) c v = FindFile (path_of (e # es)) 0 v"
  using path_of_first [of e es] by (subst (1 2) FindFile.simps) (simp add: Let_def)

lemma FindFile_root:
  assumes "component e" and "hd cs = root_cluster (boot_volume_image v)" and "hd cs \<noteq> 0"
  shows "FindFile (path_of (e # es)) 0 v = FindFile (path_of (e # es)) (hd cs) v"
  using path_of_first [OF assms(1), of es] assms by (subst (1 2) FindFile.simps) (simp add: Let_def)

section \<open>Entries are apart\<close>

lemma in_cluster_entries:
  "a \<in> set (cluster_entries v c) \<Longrightarrow> \<exists>off. a = GetSectorByCluster v c + off \<and> off + kEntrySize \<le> cluster_size v"
proof -
  assume "a \<in> set (cluster_entries v c)"
  then obtain i where i: "a = GetSectorByCluster v c + i * kEntrySize" "i < cluster_size v div kEntrySize"
    unfolding cluster_entries_def entries_per_cluster_def cluster_size_def set_map image_iff set_upt
    by (metis atLeastLessThan_iff)
  then have "(i + 1) * kEntrySize \<le> cluster_size v div kEntrySize * kEntrySize" by (intro mult_le_mono1) simp
  also have "\<dots> \<le> cluster_size v" by (rule div_times_less_eq_dividend)
  finally show ?thesis using i(1) by auto
qed

lemma entries_apart:
  assumes "volume_ok v N" and "\<forall>c\<in>set cs. valid_cluster N c"
    and "a \<in> set (dir_entries v cs)" and "b \<in> set (dir_entries v cs)" and "a \<noteq> b"
  shows "a + kEntrySize \<le> b \<or> b + kEntrySize \<le> a"
proof -
  from assms(3,4) obtain c d where c: "c \<in> set cs" "a \<in> set (cluster_entries v c)"
    and d: "d \<in> set cs" "b \<in> set (cluster_entries v d)" by (auto simp: dir_entries_def)
  show ?thesis
  proof (cases "c = d")
    case True
    with c d obtain i j where ij: "a = GetSectorByCluster v c + i * kEntrySize" "b = GetSectorByCluster v c + j * kEntrySize"
      by (auto simp: cluster_entries_def)
    with assms(5) have "i < j \<or> j < i" by auto
    then have "(i + 1) * kEntrySize \<le> j * kEntrySize \<or> (j + 1) * kEntrySize \<le> i * kEntrySize"
      using mult_le_mono1 [of "i + 1" j kEntrySize] mult_le_mono1 [of "j + 1" i kEntrySize] by linarith
    with ij show ?thesis by auto
  next
    case False
    with cluster_apart [OF assms(1)] assms(2) c d
    have "GetSectorByCluster v c + cluster_size v \<le> GetSectorByCluster v d
      \<or> GetSectorByCluster v d + cluster_size v \<le> GetSectorByCluster v c" by blast
    with in_cluster_entries [OF c(2)] in_cluster_entries [OF d(2)] show ?thesis by auto
  qed
qed


lemma distinct_dir_entries:
  assumes "volume_ok v N" and "\<forall>c\<in>set cs. valid_cluster N c" and "distinct cs"
  shows "distinct (dir_entries v cs)"
  using assms(2,3)
proof (induction cs)
  case (Cons c cs)
  have "distinct (cluster_entries v c)"
    by (auto simp: cluster_entries_def distinct_map inj_on_def layout)
  moreover have "set (cluster_entries v c) \<inter> set (dir_entries v cs) = {}"
  proof (rule ccontr)
    assume "set (cluster_entries v c) \<inter> set (dir_entries v cs) \<noteq> {}"
    then obtain x d where x: "x \<in> set (cluster_entries v c)" "d \<in> set cs" "x \<in> set (cluster_entries v d)"
      by (auto simp: dir_entries_def)
    with Cons.prems have "valid_cluster N c" "valid_cluster N d" "c \<noteq> d" by auto
    with cluster_apart [OF assms(1)] in_cluster_entries [OF x(1)] in_cluster_entries [OF x(3)]
    show False by (fastforce simp: layout)
  qed
  ultimately show ?case using Cons by (simp add: dir_entries_def)
qed (simp add: dir_entries_def)

section \<open>Adding an entry\<close>

abbreviation free_slot :: "Volume \<Rightarrow> nat \<Rightarrow> bool" where
  "free_slot v a \<equiv> image v a = 0 \<or> image v a = 0xe5"

lemma scan_slots_list: "scan_slots v a n = find (free_slot v) (map (\<lambda>i. a + i * kEntrySize) [0..<n])"
  by (induction n arbitrary: a) (simp_all add: upt_map_shift del: upt_Suc)

lemma find_append: "find P (xs @ ys) = (case find P xs of None \<Rightarrow> find P ys | Some x \<Rightarrow> Some x)"
  by (induction xs) auto

lemma slot_loop_run:
  assumes "volume_ok v N" and "file_chain N v (c # cs)"
  shows "slot_loop v c = Some (case find (free_slot v) (dir_entries v (c # cs)) of Some a \<Rightarrow> Inl a | None \<Rightarrow> Inr (last (c # cs)))"
  using assms
proof (induction cs arbitrary: c)
  case (Nil c)
  from NextCluster_chain [OF Nil] show ?case
    by (subst slot_loop.simps) (simp add: scan_slots_list dir_entries_def cluster_entries_def split: option.split)
next
  case (Cons d cs c)
  then have d: "file_chain N v (d # cs)" "d \<noteq> kEndOfClusterchain" using valid_not_mark by (auto simp: file_chain_def)
  from NextCluster_chain [OF Cons.prems] Cons.IH [OF Cons.prems(1) d(1)] d(2) show ?case
    by (subst slot_loop.simps)
       (simp add: scan_slots_list dir_entries_def cluster_entries_def find_append split: option.split)
qed

definition bytes32 :: "u32 \<Rightarrow> u8 list" where
  "bytes32 x = [ucast x, ucast (drop_bit 8 x), ucast (drop_bit 16 x), ucast (drop_bit 24 x)]"

lemma put32_bytes: "put32 a x m = put_bytes a (bytes32 x) m"
proof
  fix i
  have w: "ucast (ucast x :: u16) = (ucast x :: u8)" "ucast (drop_bit 8 (ucast x :: u16)) = (ucast (drop_bit 8 x) :: u8)"
    "ucast (ucast (drop_bit 16 x) :: u16) = (ucast (drop_bit 16 x) :: u8)"
    "ucast (drop_bit 8 (ucast (drop_bit 16 x) :: u16)) = (ucast (drop_bit 24 x) :: u8)"
    by (rule bit_word_eqI, auto simp: bit_simps)+
  consider "i < a" | "i = a" | "i = a + 1" | "i = a + 2" | "i = a + 3" | "a + 4 \<le> i" by linarith
  then show "put32 a x m i = put_bytes a (bytes32 x) m i"
    by cases (simp_all add: put32_def put16_def put_bytes_def bytes32_def w)
qed

lemma set_file_size_store: "set_file_size a x v = store (a + 28) (bytes32 x) v"
  by (simp add: set_file_size_def store_def put32_bytes)

text \<open>The two stores of \<open>CreateFile\<close> into the slot \<open>a\<close>.\<close>

definition fill_slot :: "nat \<Rightarrow> u8 list \<Rightarrow> Volume \<Rightarrow> Volume" where
  "fill_slot a nm v = set_file_size a 0 (store a nm v)"

lemma fill_slot_other:
  "length nm = 11 \<Longrightarrow> i < a \<or> a + kEntrySize \<le> i \<Longrightarrow> image (fill_slot a nm v) i = image v i"
  by (auto simp: fill_slot_def set_file_size_store store_def put_bytes_other bytes32_def layout)

lemma fill_slot_entry:
  assumes "length nm = 11"
  shows "dname (entry (fill_slot a nm v) a) = nm" and "file_size (entry (fill_slot a nm v) a) = 0"
proof -
  have "bytes (image (fill_slot a nm v)) a 11 = bytes (put_bytes a nm (image v)) a 11"
    by (rule bytes_cong) (simp add: fill_slot_def set_file_size_store store_def put_bytes_other)
  also have "\<dots> = nm" using bytes_put_bytes [of a nm "image v"] assms by simp
  finally show "dname (entry (fill_slot a nm v) a) = nm" by (simp add: entry_def read_entry_def)
  show "file_size (entry (fill_slot a nm v) a) = 0"
    by (simp add: entry_def read_entry_def fill_slot_def set_file_size_def)
qed

lemma entry_name_cong:
  "(\<And>i. i < kEntrySize \<Longrightarrow> image v (a + i) = image v' (a + i)) \<Longrightarrow> dname (entry v a) = dname (entry v' a)"
  by (simp add: entry_def read_entry_def layout bytes_def)

text \<open>Both stores lie in one cluster, so the laws of the cluster store apply.\<close>

lemma fill_slot_frame:
  assumes "volume_ok v N" and "valid_cluster N c" and "a \<in> set (cluster_entries v c)" and "length nm = 11"
  shows "volume_ok (fill_slot a nm v) N \<and> same_header v (fill_slot a nm v)
    \<and> (\<forall>d. valid_cluster N d \<longrightarrow> fat_get (fill_slot a nm v) d = fat_get v d)
    \<and> (\<forall>d. valid_cluster N d \<longrightarrow> d \<noteq> c \<longrightarrow> cluster_bytes (fill_slot a nm v) d = cluster_bytes v d)"
proof -
  from in_cluster_entries [OF assms(3)] obtain off where
    off: "a = GetSectorByCluster v c + off" "off + kEntrySize \<le> cluster_size v" by blast
  let ?v1 = "cluster_write c off nm v"
  have v1: "store a nm v = ?v1" by (simp add: cluster_write_def off)
  have sh1: "same_header v ?v1" unfolding cluster_write_def by (rule same_header_store [OF assms(1,2)])
  have ok1: "volume_ok ?v1 N" using volume.ok_wr assms(1,2) .
  have v2: "fill_slot a nm v = cluster_write c (off + 28) (bytes32 0) ?v1"
    by (simp add: fill_slot_def v1 set_file_size_store cluster_write_def [of _ "off + 28"] off
        same_header_eqs(5) [OF sh1] add.assoc) (simp add: cluster_write_def)
  have b: "off + length nm \<le> cluster_size v" "off + 28 + length (bytes32 0) \<le> cluster_size ?v1"
    using off(2) assms(4) by (simp_all add: layout bytes32_def same_header_eqs(4) [OF sh1])
  have "same_header ?v1 (fill_slot a nm v)"
    unfolding v2 by (subst cluster_write_def) (rule same_header_store [OF ok1 assms(2)])
  with sh1 have "same_header v (fill_slot a nm v)" by (rule same_header_trans)
  moreover have "volume_ok (fill_slot a nm v) N" unfolding v2 using volume.ok_wr ok1 assms(2) .
  moreover have "fat_get (fill_slot a nm v) d = fat_get v d" if "valid_cluster N d" for d
    unfolding v2 using volume.get_wr [OF ok1 assms(2) that] volume.get_wr [OF assms(1,2) that] by simp
  moreover have "cluster_bytes (fill_slot a nm v) d = cluster_bytes v d" if "valid_cluster N d" "d \<noteq> c" for d
    unfolding v2 using volume.rd_wr [OF ok1 assms(2) that(1) b(2)] volume.rd_wr [OF assms(1,2) that(1) b(1)] that(2) by simp
  ultimately show ?thesis by blast
qed


lemma lookup_first:
  assumes "dir_entries v cs = xs @ a # ys" and "\<forall>x\<in>set xs. image v x \<noteq> 0 \<and> \<not> NameIsEqual (dname (entry v x)) n"
    and "image v a \<noteq> 0" and "NameIsEqual (dname (entry v a)) n"
  shows "lookup v cs n = Some a"
proof -
  have "find (\<lambda>a. NameIsEqual (dname (entry v a)) n) (takeWhile (\<lambda>a. image v a \<noteq> 0) (xs @ a # ys)) = Some a"
    using assms(2-4) by (induction xs) auto
  with assms(1) show ?thesis by (simp add: lookup_def)
qed

lemma lookup_None_prefix:
  assumes "lookup v cs n = None" and "dir_entries v cs = xs @ zs" and "\<forall>x\<in>set xs. image v x \<noteq> 0" and "x \<in> set xs"
  shows "\<not> NameIsEqual (dname (entry v x)) n"
proof -
  from assms(2,3) have "takeWhile (\<lambda>a. image v a \<noteq> 0) (dir_entries v cs) = xs @ takeWhile (\<lambda>a. image v a \<noteq> 0) zs"
    by simp
  with assms(1,4) show ?thesis by (auto simp: lookup_def find_None_iff)
qed

text \<open>
  \<open>slot_ready\<close>: \<open>a\<close> is a slot of the directory \<open>cs'\<close> behind the entries \<open>xs\<close>, which are in use; either it
  was a free slot of the directory before, or it is new and \<open>xs\<close> is all the directory had; other files are as
  they were.
\<close>

definition slot_ready :: "nat \<Rightarrow> Volume \<Rightarrow> u32 list \<Rightarrow> nat \<Rightarrow> Volume \<Rightarrow> u32 list \<Rightarrow> nat list \<Rightarrow> bool" where
  "slot_ready N v cs a v' cs' xs \<longleftrightarrow>
     volume_ok v' N \<and> same_header v v' \<and> file_chain N v' cs' \<and> hd cs' = hd cs
     \<and> (\<exists>ys. dir_entries v' cs' = xs @ a # ys \<and> (dir_entries v cs = xs \<or> v' = v \<and> free_slot v a \<and> dir_entries v cs = xs @ a # ys))
     \<and> a \<notin> set xs
     \<and> (\<forall>x\<in>set xs. \<not> free_slot v x \<and> (\<forall>i<kEntrySize. image v' (x + i) = image v (x + i)))
     \<and> (\<forall>ds. file_chain N v ds \<and> set ds \<inter> set cs = {} \<longrightarrow>
          set ds \<inter> set cs' = {} \<and> file_chain N v' ds \<and> volume.content v' ds = volume.content v ds)"

lemma cluster_byte: "i < cluster_size v \<Longrightarrow> image v (GetSectorByCluster v c + i) = cluster_bytes v c ! i"
  by (simp add: cluster_bytes_def)

lemma entry_bytes_cong:
  assumes "same_header v v'" and "cluster_bytes v' c = cluster_bytes v c" and "x \<in> set (cluster_entries v c)" and "i < kEntrySize"
  shows "image v' (x + i) = image v (x + i)"
proof -
  from in_cluster_entries [OF assms(3)] obtain off where
    off: "x = GetSectorByCluster v c + off" "off + kEntrySize \<le> cluster_size v" by blast
  with assms(4) have b: "off + i < cluster_size v" by simp
  have "x + i = GetSectorByCluster v c + (off + i)" using off by simp
  with cluster_byte [OF b, of c] cluster_byte [of "off + i" v' c] b same_header_eqs [OF assms(1)] assms(2)
  show ?thesis by (simp add: add.assoc)
qed

lemma dir_entries_header: "same_header v v' \<Longrightarrow> dir_entries v' cs = dir_entries v cs"
  using same_header_eqs(5,6) [of v v']
  by (simp add: dir_entries_def cluster_entries_def [abs_def] entries_per_cluster_def)

lemma AllocateEntry_slot:
  assumes "volume_ok v N" and "file_chain N v cs" and "find (free_slot v) (dir_entries v cs) = Some a"
  shows "\<exists>xs. AllocateEntry (hd cs) v = Some (a, v) \<and> slot_ready N v cs a v cs xs"
proof -
  from chain_head [OF assms(1,2)] obtain c ds where cs: "cs = c # ds" by blast
  with slot_loop_run [OF assms(1), of c ds] assms(2,3) have r: "AllocateEntry (hd cs) v = Some (a, v)"
    by (simp add: AllocateEntry_def)
  from assms(3) obtain i where i: "i < length (dir_entries v cs)" "dir_entries v cs ! i = a" "free_slot v a"
    "\<forall>j<i. \<not> free_slot v (dir_entries v cs ! j)" by (auto simp: find_Some_iff)
  have "\<forall>x\<in>set (take i (dir_entries v cs)). \<not> free_slot v x" using i by (auto simp: in_set_conv_nth)
  with id_take_nth_drop [OF i(1)] i(2) obtain xs ys where
    xs: "dir_entries v cs = xs @ a # ys" "\<forall>x\<in>set xs. \<not> free_slot v x" by metis
  then have "a \<notin> set xs" using i(3) by blast
  with xs i(3) assms(1,2) have "slot_ready N v cs a v cs xs" by (simp add: slot_ready_def)
  with r show ?thesis by blast
qed

lemma AllocateEntry_grow:
  assumes ok: "volume_ok v N" and cs: "file_chain N v cs" and "find (free_slot v) (dir_entries v cs) = None"
    and free: "free_clusters 2 N v = p # ps" and size: "kEntrySize \<le> cluster_size v"
  shows "\<exists>a v'. AllocateEntry (hd cs) v = Some (a, v') \<and> slot_ready N v cs a v' (cs @ [p]) (dir_entries v cs)
    \<and> a \<in> set (cluster_entries v' p)"
proof -
  from chain_head [OF ok cs] obtain c ds where csc: "cs = c # ds" by blast
  then have lc: "last cs \<in> set cs" by simp
  from ExtendCluster_run [OF ok cs lc, of 1] free obtain v1 where
    e: "ExtendCluster (last cs) 1 v = Some (p, v1)" and g: "chain_grown N v cs [p] v1" by auto
  from g have ok1: "volume_ok v1 N" and sh1: "same_header v v1" and ch1: "file_chain N v1 (cs @ [p])"
    and rd1: "\<And>d. valid_cluster N d \<Longrightarrow> cluster_bytes v1 d = cluster_bytes v d" by (auto simp: chain_grown_def)
  have vp: "valid_cluster N p" using ch1 by (simp add: file_chain_def)
  have pcs: "p \<notin> set cs" using file_chain_distinct [OF ok1 ch1] by simp
  let ?z = "replicate (unat (bytes_per_cluster v1)) 0" and ?a = "GetSectorByCluster v1 p"
  define v' where "v' = cluster_write p 0 ?z v1"
  have len: "0 + length ?z \<le> cluster_size v1" by (simp add: cluster_size_def)
  have r: "AllocateEntry (hd cs) v = Some (?a, v')"
    using slot_loop_run [OF ok, of c ds] cs csc assms(3) e by (simp add: AllocateEntry_def v'_def cluster_write_def)
  have sh': "same_header v1 v'" unfolding v'_def cluster_write_def by (rule same_header_store [OF ok1 vp])
  have sh: "same_header v v'" using sh1 sh' by (rule same_header_trans)
  have ok': "volume_ok v' N" unfolding v'_def using volume.ok_wr ok1 vp .
  have ch': "file_chain N v' (cs @ [p])"
    using ch1 volume.chain_wr [OF ok1 vp, of "cs @ [p]"] by (simp add: file_chain_def v'_def)
  have rd: "cluster_bytes v' d = cluster_bytes v d" if "valid_cluster N d" "d \<noteq> p" for d
    unfolding v'_def using volume.rd_wr [OF ok1 vp that(1) len] that rd1 by simp
  have "entries_per_cluster v' \<noteq> 0"
    using size same_header_eqs(6) [OF sh] by (simp add: entries_per_cluster_def cluster_size_def layout)
  then obtain m where m: "entries_per_cluster v' = Suc m" by (cases "entries_per_cluster v'") auto
  have ent: "cluster_entries v' p = ?a # map (\<lambda>i. ?a + kEntrySize + i * kEntrySize) [0..<m]"
    unfolding cluster_entries_def m same_header_eqs(5) [OF sh'] by (rule upt_map_shift)
  have de: "dir_entries v' (cs @ [p]) = dir_entries v cs @ cluster_entries v' p"
    using dir_entries_header [OF sh, of cs] by (simp add: dir_entries_def)
  have keep: "image v' (x + i) = image v (x + i)" if "x \<in> set (dir_entries v cs)" "i < kEntrySize" for x i
  proof -
    from that obtain d where d: "d \<in> set cs" "x \<in> set (cluster_entries v d)" by (auto simp: dir_entries_def)
    then have "cluster_bytes v' d = cluster_bytes v d" using rd pcs cs by (auto simp: file_chain_def)
    with entry_bytes_cong [OF sh _ d(2) that(2)] show ?thesis by blast
  qed
  have "?a \<notin> set (dir_entries v cs)"
  proof
    assume "?a \<in> set (dir_entries v cs)"
    then obtain d where d: "d \<in> set cs" "?a \<in> set (cluster_entries v d)" by (auto simp: dir_entries_def)
    with in_cluster_entries [OF d(2)] obtain off where "?a = GetSectorByCluster v d + off" "off + kEntrySize \<le> cluster_size v"
      by blast
    moreover have "p \<noteq> d" "valid_cluster N d" using d pcs cs by (auto simp: file_chain_def)
    ultimately show False
      using cluster_apart [OF ok vp, of d] same_header_eqs(5) [OF sh1] size by (auto simp: layout)
  qed
  moreover have "\<not> free_slot v x" if "x \<in> set (dir_entries v cs)" for x
    using assms(3) that by (auto simp: find_None_iff)
  moreover have "set ds \<inter> set (cs @ [p]) = {} \<and> file_chain N v' ds \<and> volume.content v' ds = volume.content v ds"
    if "file_chain N v ds" "set ds \<inter> set cs = {}" for ds
  proof -
    from chain_grown_frame [OF ok g that] in_free_clusters [OF ok, of p 2] free
    have f: "set ds \<inter> set [p] = {}" "file_chain N v1 ds" "volume.content v1 ds = volume.content v ds" by auto
    have vd: "\<forall>d\<in>set ds. valid_cluster N d" using that(1) by (simp add: file_chain_def)
    with f volume.chain_wr [OF ok1 vp vd] volume.content_wr_other [OF ok1 vp vd len] that(2)
    show ?thesis by (auto simp: file_chain_def v'_def)
  qed
  moreover have "hd (cs @ [p]) = hd cs" by (simp add: csc)
  ultimately have "slot_ready N v cs ?a v' (cs @ [p]) (dir_entries v cs)"
    unfolding slot_ready_def using ok' sh ch' de ent keep by auto
  with r ent show ?thesis by auto
qed


lemma AllocateEntry_run:
  assumes ok: "volume_ok v N" and cs: "file_chain N v cs" and size: "kEntrySize \<le> cluster_size v"
    and room: "(\<exists>a\<in>set (dir_entries v cs). free_slot v a) \<or> free_clusters 2 N v \<noteq> []"
  shows "\<exists>a v' cs' xs. AllocateEntry (hd cs) v = Some (a, v') \<and> slot_ready N v cs a v' cs' xs"
proof (cases "find (free_slot v) (dir_entries v cs)")
  case None
  with room obtain p ps where "free_clusters 2 N v = p # ps" by (cases "free_clusters 2 N v") (auto simp: find_None_iff)
  from AllocateEntry_grow [OF ok cs None this size] show ?thesis by blast
next
  case (Some a)
  from AllocateEntry_slot [OF ok cs Some] show ?thesis by blast
qed

lemma scan_list_cong:
  "(\<And>x. x \<in> set as \<Longrightarrow> image v x = image w x \<and> dname (entry v x) = dname (entry w x)) \<Longrightarrow>
     scan_list v m as = scan_list w m as"
  by (induction as) (auto simp: scan_list_def)

lemma lookup_same_name: "fill83 m 0 (replicate 11 space) = fill83 n 0 (replicate 11 space) \<Longrightarrow> lookup v cs m = lookup v cs n"
  by (simp add: lookup_def NameIsEqual_def)

lemma slot_filled:
  assumes r: "slot_ready N v cs a v1 cs' xs" and nm: "length nm = 11" "nm ! 0 \<noteq> 0" "NameIsEqual nm n"
    and new: "lookup v cs n = None"
  defines "w \<equiv> fill_slot a nm v1"
  shows "volume_ok w N \<and> same_header v w \<and> file_chain N w cs' \<and> lookup w cs' n = Some a
    \<and> (\<forall>m b. lookup v cs m = Some b \<and> image v b \<noteq> 0xe5 \<longrightarrow> lookup w cs' m = Some b)
    \<and> (\<forall>ds. file_chain N v ds \<and> set ds \<inter> set cs = {} \<longrightarrow> file_chain N w ds \<and> volume.content w ds = volume.content v ds)"
proof -
  from r obtain ys where ok1: "volume_ok v1 N" and sh1: "same_header v v1" and ch1: "file_chain N v1 cs'"
    and ys: "dir_entries v1 cs' = xs @ a # ys" "dir_entries v cs = xs \<or> v1 = v \<and> free_slot v a \<and> dir_entries v cs = xs @ a # ys"
    and xs: "a \<notin> set xs" "\<And>x. x \<in> set xs \<Longrightarrow> \<not> free_slot v x"
      "\<And>x i. x \<in> set xs \<Longrightarrow> i < kEntrySize \<Longrightarrow> image v1 (x + i) = image v (x + i)"
    and other: "\<And>ds. file_chain N v ds \<Longrightarrow> set ds \<inter> set cs = {} \<Longrightarrow>
      set ds \<inter> set cs' = {} \<and> file_chain N v1 ds \<and> volume.content v1 ds = volume.content v ds"
    by (auto simp: slot_ready_def)
  have valid: "\<forall>c\<in>set cs'. valid_cluster N c" using ch1 by (simp add: file_chain_def)
  have "a \<in> set (dir_entries v1 cs')" using ys(1) by simp
  then obtain c where c: "c \<in> set cs'" "a \<in> set (cluster_entries v1 c)" by (auto simp: dir_entries_def)
  have vc: "valid_cluster N c" using valid c(1) by blast
  note F = fill_slot_frame [OF ok1 vc c(2) nm(1), folded w_def]
  have sh: "same_header v1 w" "same_header v w" using F sh1 same_header_trans by blast+
  have okw: "volume_ok w N" using F by blast
  have chw: "file_chain N w ds" if "file_chain N v1 ds" for ds
    using that F chain_cong [of ds "fat_get w" "fat_get v1"] by (simp add: file_chain_def)
  have dew: "dir_entries w cs' = xs @ a # ys" using dir_entries_header [OF sh(1)] ys(1) by simp
  have keep: "image w x = image v1 x \<and> dname (entry w x) = dname (entry v1 x)"
    if "x \<in> set (dir_entries v1 cs')" "x \<noteq> a" for x
  proof -
    have "x + kEntrySize \<le> a \<or> a + kEntrySize \<le> x"
      using entries_apart [OF ok1 valid that(1) \<open>a \<in> set (dir_entries v1 cs')\<close> that(2)] .
    then have "image w (x + i) = image v1 (x + i)" if "i < kEntrySize" for i
      unfolding w_def using that nm(1) by (intro fill_slot_other) auto
    from this this [of 0] entry_name_cong [of w x v1] show ?thesis by (auto simp: layout)
  qed
  have xs_w: "image w x = image v x \<and> dname (entry w x) = dname (entry v x)" if x: "x \<in> set xs" for x
  proof -
    have "image v1 x = image v x \<and> dname (entry v1 x) = dname (entry v x)"
      using xs(3) [OF x] xs(3) [OF x, of 0] entry_name_cong [of v1 x v] by (simp add: layout)
    moreover have "image w x = image v1 x \<and> dname (entry w x) = dname (entry v1 x)"
      using keep [of x] x xs(1) ys(1) by auto
    ultimately show ?thesis by simp
  qed
  have aw: "dname (entry w a) = nm" using fill_slot_entry(1) [OF nm(1)] by (simp add: w_def)
  have a0: "image w a \<noteq> 0"
  proof -
    have "image w a = dname (entry w a) ! 0" by (simp add: entry_def read_entry_def)
    then show ?thesis using aw nm(2) by simp
  qed
  have nx: "\<not> NameIsEqual (dname (entry v x)) n" if "x \<in> set xs" for x
  proof -
    from ys(2) obtain zs where "dir_entries v cs = xs @ zs" by auto
    from lookup_None_prefix [OF new this _ that] xs(2) show ?thesis by blast
  qed
  have "lookup w cs' n = Some a"
    using nx xs_w xs(2) a0 aw nm(3) by (intro lookup_first [OF dew]) auto
  moreover have "lookup w cs' m = Some b" if b: "lookup v cs m = Some b" "image v b \<noteq> 0xe5" for m b
  proof -
    have sx: "scan_list w m xs = scan_list v m xs" by (rule scan_list_cong) (simp add: xs_w)
    have ns: "scan_list v m xs \<noteq> Stop" using xs(2) by (auto simp: scan_list_def find_Some_iff split: option.splits)
    have sb: "scan_list v m (dir_entries v cs) = Hit b"
      using b(1) by (simp add: lookup_scan split: entry_scan.splits)
    show ?thesis
    proof (cases "scan_list v m xs")
      case Miss
      with sb ys(2) have v1: "v1 = v" "free_slot v a" and hb: "scan_list v m (a # ys) = Hit b"
        by (auto simp: scan_list_append)
      have hit: "scan_list v m ys = Hit b"
        using hb v1(2) b(2) by (auto simp: scan_list_def split: if_splits)
      have "\<not> NameIsEqual nm m"
      proof
        assume "NameIsEqual nm m"
        with nm(3) lookup_same_name [of m n v cs] b(1) new show False by (simp add: NameIsEqual_def)
      qed
      with a0 aw have "scan_list w m (a # ys) = scan_list w m ys" by (simp add: scan_list_def)
      moreover have "a \<notin> set ys"
        using distinct_dir_entries [OF ok1 valid file_chain_distinct [OF ok1 ch1]] ys(1) by simp
      then have "scan_list w m ys = scan_list v m ys"
        using keep ys(1) v1(1) by (intro scan_list_cong) auto
      ultimately show ?thesis using Miss sx hit dew by (simp add: lookup_scan scan_list_append)
    qed (use sx sb ys ns dew in \<open>auto simp: lookup_scan scan_list_append\<close>)
  qed
  moreover have "file_chain N w ds \<and> volume.content w ds = volume.content v ds"
    if ds: "file_chain N v ds" "set ds \<inter> set cs = {}" for ds
  proof -
    from other [OF ds] have o: "set ds \<inter> set cs' = {}" "file_chain N v1 ds" "volume.content v1 ds = volume.content v ds"
      by auto
    have "cluster_bytes w d = cluster_bytes v1 d" if "d \<in> set ds" for d
      using F o(1,2) c(1) that by (auto simp: file_chain_def)
    then have "volume.content w ds = volume.content v1 ds" by (intro arg_cong [of _ _ concat] map_cong) auto
    with o chw show ?thesis by simp
  qed
  ultimately show ?thesis using okw sh(2) chw [OF ch1] by blast
qed


lemma CreateFile_root:
  assumes "slash \<notin> set n"
  shows "CreateFile n v = map_option (\<lambda>(a, v'). Inr (a, fill_slot a (SetFileName n) v'))
    (AllocateEntry (root_cluster (boot_volume_image v)) v)"
  using assms by (simp add: CreateFile_def strrchr_None fill_slot_def Let_def)

lemma component_dotted: "name_8_3 b e \<Longrightarrow> slash \<notin> set (b @ e) \<Longrightarrow> component (b @ dot # e)"
  by (auto simp: component_def name_8_3_def layout dot_def slash_def)

lemma stored_name_first: "b \<noteq> [] \<Longrightarrow> 0 \<notin> set b \<Longrightarrow> stored_name b e ! 0 \<noteq> 0"
  by (cases b) (auto simp: stored_name_def pad_def toupper_keeps)

lemma FindFile_single:
  assumes "volume_ok v N" and "file_chain N v cs" and "hd cs = root_cluster (boot_volume_image v)" and "component n"
  shows "FindFile n 0 v = Some (lookup v cs n, False)"
proof -
  from chain_head [OF assms(1,2)] obtain c ds where cs: "cs = c # ds" "c \<noteq> 0" by blast
  with assms find_entry_run [OF assms(1), of c ds n] path_of_first [of n "[]"] NextPathElement_last [of n]
  show ?thesis by (subst FindFile.simps) (simp add: Let_def split: option.split)
qed

lemma sample_root: "file_chain 8 sample_volume [2]"
  by (simp add: file_chain_def valid_cluster_def sample_fat)

lemma sample_dir: "dir_entries sample_volume [2] = [128]"
  by (simp add: dir_entries_def cluster_entries_def entries_per_cluster_def sample_geometry layout
      GetSectorByCluster_def GetClusterAddr_def Let_def sample_BPB)

lemma sample_name: "dname (entry sample_volume 128) = [70, 73, 76, 69, 32, 32, 32, 32, 84, 88, 84]"
  by (simp add: entry_def read_entry_def bytes_def sample_geometry sample_memory_def upt_conv_Cons)

lemma sample_mark: "image sample_volume 128 = 70"
  by (simp add: sample_geometry sample_memory_def)

section \<open>Properties\<close>

text \<open>
  C30. Path lookup: when the components of a path lead from the root directory through directories to an
  entry, \<open>FindFile\<close> ends and returns that entry, for the path with and without a leading slash.
\<close>

theorem FindFile_path:
  assumes "volume_ok v N" and "file_chain N v cs" and "hd cs = root_cluster (boot_volume_image v)"
    and "path_walk N v cs es a" and "\<forall>e\<in>set es. component e"
  shows "FindFile (path_of es) 0 v = Some (Some a, False) \<and> FindFile (slash # path_of es) 0 v = Some (Some a, False)"
proof -
  from assms(4) obtain e es' where es: "es = e # es'" by (cases es) (auto simp: path_walk_Nil)
  have "hd cs \<noteq> 0" using chain_head [OF assms(1,2)] by auto
  with FindFile_root [OF _ assms(3), of e es'] FindFile_absolute [of e es' 0 v] FindFile_walk [OF assms(1,4,2,5)]
    assms(5) es show ?thesis by simp
qed

text \<open>The path \<open>file.txt\<close>.\<close>

definition file_txt :: "u8 list" where
  "file_txt = [0x66, 0x69, 0x6c, 0x65] @ dot # [0x74, 0x78, 0x74]"

lemma sample_lookup: "lookup sample_volume [2] file_txt = Some 128"
proof -
  have "NameIsEqual [70, 73, 76, 69, 32, 32, 32, 32, 84, 88, 84] file_txt"
    by code_simp
  then show ?thesis by (simp add: lookup_def sample_dir sample_mark sample_name)
qed

theorem FindFile_path_witness:
  "FindFile file_txt 0 sample_volume = Some (Some 128, False)"
proof -
  have "path_walk 8 sample_volume [2] [file_txt] 128" by (rule path_walk.last [OF sample_lookup])
  from FindFile_path [OF sample_ok sample_root _ this] show ?thesis
    by (simp add: sample_geometry sample_BPB component_def file_txt_def dot_def slash_def layout)
qed

text \<open>
  C31. Creating a file in the root directory under a new name of the 8.3 form, with a free slot or a free
  cluster: \<open>FindFile\<close> then finds exactly the new entry under that name, with size 0; every entry that was
  found before is still found, and every file outside the directory keeps its chain and bytes.
\<close>

theorem CreateFile_then_FindFile:
  assumes "volume_ok v N" and "file_chain N v cs" and "hd cs = root_cluster (boot_volume_image v)"
    and "kEntrySize \<le> cluster_size v" and "(\<exists>a\<in>set (dir_entries v cs). free_slot v a) \<or> free_clusters 2 N v \<noteq> []"
    and "name_8_3 base ext" and "base \<noteq> []" and "0 \<notin> set base" and "slash \<notin> set (base @ ext)"
    and "n = base @ dot # ext" and "FindFile n 0 v = Some (None, False)"
  shows "\<exists>a v'. CreateFile n v = Some (Inr (a, v')) \<and> volume_ok v' N
    \<and> FindFile n 0 v' = Some (Some a, False) \<and> file_size (entry v' a) = 0
    \<and> (\<forall>m b. component m \<and> FindFile m 0 v = Some (Some b, False) \<and> image v b \<noteq> 0xe5 \<longrightarrow>
         FindFile m 0 v' = Some (Some b, False))
    \<and> (\<forall>ds. file_chain N v ds \<and> set ds \<inter> set cs = {} \<longrightarrow>
         file_chain N v' ds \<and> volume.content v' ds = volume.content v ds)"
proof -
  have comp: "component n" using component_dotted assms by simp
  have nm: "SetFileName n = stored_name base ext" using SetFileName_dotted assms by simp
  have eq: "NameIsEqual (SetFileName n) n" using nm assms fill83_dotted by (simp add: NameIsEqual_def)
  have new: "lookup v cs n = None" using FindFile_single [OF assms(1-3) comp] assms(11) by simp
  from AllocateEntry_run [OF assms(1,2,4,5)] obtain a v1 cs' xs where
    r: "AllocateEntry (hd cs) v = Some (a, v1)" "slot_ready N v cs a v1 cs' xs" by blast
  let ?w = "fill_slot a (SetFileName n) v1"
  have "length (SetFileName n) = 11" "SetFileName n ! 0 \<noteq> 0"
    using nm assms stored_name_first by simp_all
  note W = slot_filled [OF r(2) this eq new]
  have "slash \<notin> set n" using assms(9,10) by (auto simp: dot_def slash_def)
  with r(1) assms(3) have c: "CreateFile n v = Some (Inr (a, ?w))" by (simp add: CreateFile_root)
  have root: "hd cs' = root_cluster (boot_volume_image ?w)"
    using W r(2) assms(3) by (simp add: slot_ready_def same_header_def)
  have find: "FindFile m 0 ?w = Some (lookup ?w cs' m, False)" if "component m" for m
    using FindFile_single [OF _ _ root that, of N] W by blast
  have "file_size (entry ?w a) = 0" using fill_slot_entry(2) \<open>length (SetFileName n) = 11\<close> .
  moreover have "FindFile m 0 ?w = Some (Some b, False)"
    if "component m" "FindFile m 0 v = Some (Some b, False)" "image v b \<noteq> 0xe5" for m b
  proof -
    have "lookup v cs m = Some b" using FindFile_single [OF assms(1-3) that(1)] that(2) by simp
    with W that(3) have "lookup ?w cs' m = Some b" by blast
    with find [OF that(1)] show ?thesis by simp
  qed
  ultimately show ?thesis using c find [OF comp] W by fastforce
qed

theorem CreateFile_then_FindFile_witness:
  "\<exists>a v'. CreateFile [0x61, dot, 0x62] sample_volume = Some (Inr (a, v'))
     \<and> FindFile [0x61, dot, 0x62] 0 v' = Some (Some a, False) \<and> FindFile file_txt 0 v' = Some (Some 128, False)"
proof -
  have comp: "component [0x61, dot, 0x62]" "component file_txt"
    by (simp_all add: component_def dot_def slash_def layout file_txt_def)
  have root: "hd [2] = root_cluster (boot_volume_image sample_volume)" by (simp add: sample_geometry sample_BPB)
  have "\<not> NameIsEqual [70, 73, 76, 69, 32, 32, 32, 32, 84, 88, 84] [0x61, dot, 0x62]"
    by code_simp
  then have "lookup sample_volume [2] [0x61, dot, 0x62] = None"
    by (simp add: lookup_def sample_dir sample_mark sample_name)
  with FindFile_single [OF sample_ok sample_root root comp(1)]
  have new: "FindFile [0x61, dot, 0x62] 0 sample_volume = Some (None, False)" by simp
  have old: "FindFile file_txt 0 sample_volume = Some (Some 128, False)"
    using FindFile_single [OF sample_ok sample_root root comp(2)] sample_lookup by simp
  have "\<exists>a v'. CreateFile [0x61, dot, 0x62] sample_volume = Some (Inr (a, v'))
     \<and> FindFile [0x61, dot, 0x62] 0 v' = Some (Some a, False)
     \<and> (\<forall>m b. component m \<and> FindFile m 0 sample_volume = Some (Some b, False) \<and> image sample_volume b \<noteq> 0xe5 \<longrightarrow>
         FindFile m 0 v' = Some (Some b, False))"
    using CreateFile_then_FindFile [OF sample_ok sample_root root, of "[0x61]" "[0x62]"] new
    by (simp add: sample_geometry sample_free layout name_8_3_def dot_def slash_def) blast
  with old comp(2) sample_mark show ?thesis by fastforce
qed


text \<open>
  Creating a file in a slot that was freed by deletion changes only the name and the size: the new,
  empty file starts with the attribute and the first cluster of the deleted one, so a directory comes back as
  one and writes go to a cluster that may belong to another file by now.
\<close>

theorem CreateFile_stale_slot:
  assumes "volume_ok v N" and "file_chain N v cs" and "hd cs = root_cluster (boot_volume_image v)"
    and "find (free_slot v) (dir_entries v cs) = Some a" and "slash \<notin> set n"
    and "length (SetFileName n) = 11"
  shows "\<exists>v'. CreateFile n v = Some (Inr (a, v')) \<and> FirstCluster (entry v' a) = FirstCluster (entry v a)
    \<and> attr (entry v' a) = attr (entry v a)"
proof -
  let ?w = "fill_slot a (SetFileName n) v"
  from AllocateEntry_slot [OF assms(1,2,4)] have "AllocateEntry (hd cs) v = Some (a, v)" by blast
  with assms(3,5) have c: "CreateFile n v = Some (Inr (a, ?w))" by (simp add: CreateFile_root)
  have keep: "image ?w (a + i) = image v (a + i)" if "11 \<le> i" "i < 28" for i
    using that assms(6) by (simp add: fill_slot_def set_file_size_store store_def put_bytes_other)
  have "le16 (image ?w) (a + 20) = le16 (image v) (a + 20)" "le16 (image ?w) (a + 26) = le16 (image v) (a + 26)"
    using keep by (intro le16_cong; simp add: add.assoc)+
  with c keep show ?thesis by (simp add: entry_def read_entry_def FirstCluster_def)
qed

text \<open>The sample volume after the deletion of its file, whose first cluster is 3.\<close>

definition deleted_volume :: Volume where
  "deleted_volume = sample_volume\<lparr>image := sample_memory(128 := 0xe5)\<rparr>"

lemma deleted_header: "same_header sample_volume deleted_volume"
  by (rule same_header_image) (simp_all add: deleted_volume_def sample_geometry layout)

theorem CreateFile_stale_slot_witness:
  "\<exists>v'. CreateFile [0x61, dot, 0x62] deleted_volume = Some (Inr (128, v')) \<and> FirstCluster (entry v' 128) = 3"
proof -
  have ok: "volume_ok deleted_volume 8" by (simp add: same_header_eqs [OF deleted_header] sample_ok)
  have "fat_get deleted_volume 2 = kEndOfClusterchain"
    unfolding fat_get_def same_header_eqs [OF deleted_header] sample_geometry
    by (simp add: deleted_volume_def le32_def le16_def sample_memory_def kEndOfClusterchain_def)
  then have chain: "file_chain 8 deleted_volume [2]" by (simp add: file_chain_def valid_cluster_def)
  have root: "hd [2] = root_cluster (boot_volume_image deleted_volume)"
    using deleted_header by (simp add: same_header_def sample_geometry sample_BPB)
  have slot: "find (free_slot deleted_volume) (dir_entries deleted_volume [2]) = Some 128"
    by (simp add: dir_entries_header [OF deleted_header] sample_dir) (simp add: deleted_volume_def)
  have "FirstCluster (entry deleted_volume 128) = 3"
    by (simp add: FirstCluster_def entry_def read_entry_def deleted_volume_def le16_def sample_memory_def)
  moreover have "slash \<notin> set [0x61, dot, 0x62]" by (simp add: slash_def dot_def)
  moreover have "length (SetFileName [0x61, dot, 0x62]) = 11" by code_simp
  ultimately show ?thesis using CreateFile_stale_slot [OF ok chain root slot] by metis
qed

text \<open>
  A path component of 13 characters or more overruns the buffer \<open>path_elem\<close> of \<open>FindFile\<close>: the lookup
  of a long name, which a program can ask for through the system call \<open>open\<close>, has no defined result.
\<close>

theorem FindFile_long_component:
  assumes "slash \<notin> set e" and "kPathElem \<le> length e"
  shows "FindFile e c v = None \<and> FindFile (e @ slash # rest) c v = None"
proof -
  from assms have "e \<noteq> []" "hd e \<noteq> slash" by (cases e; auto simp: layout)+
  moreover have "NextPathElement e = None" "NextPathElement (e @ slash # rest) = None"
    using assms by (simp_all add: NextPathElement_def strchr_None strchr_append)
  ultimately show ?thesis by (subst (1 2) FindFile.simps) (simp add: Let_def)
qed

theorem FindFile_long_component_witness: "FindFile (replicate 13 0x61) 0 sample_volume = None"
proof -
  have "slash \<notin> set (replicate 13 0x61)" "kPathElem \<le> length (replicate 13 (0x61 :: u8))"
    by (simp_all add: slash_def layout)
  from FindFile_long_component [OF this, of 0 sample_volume] show ?thesis by blast
qed

end
