(* ===== verification/FatFiles.thy ===== *)
theory FatFiles
  imports FatDirectory
begin

text \<open>
  \<^verbatim>\<open>kernel/fat.hpp\<close> and \<^verbatim>\<open>kernel/fat.cpp\<close>, part 5: file contents.  \<open>fat::FileDescriptor\<close> with its read and
  write positions, and \<open>LoadFile\<close>.  A destination buffer is the list of the bytes copied into it; the source
  buffer of a write is the memory from its address on, since \<open>Write\<close> may read past the given length.
\<close>

section \<open>Descriptors\<close>

record FatFileDescriptor =
  fat_entry :: nat
  rd_off :: nat
  rd_cluster :: u32
  rd_cluster_off :: nat
  wr_off :: nat
  wr_cluster :: u32
  wr_cluster_off :: nat

definition new_FatFileDescriptor :: "nat \<Rightarrow> FatFileDescriptor" where
  "new_FatFileDescriptor a =
     \<lparr>fat_entry = a, rd_off = 0, rd_cluster = 0, rd_cluster_off = 0, wr_off = 0, wr_cluster = 0, wr_cluster_off = 0\<rparr>"

partial_function (option) read_loop ::
  "Volume \<Rightarrow> nat \<Rightarrow> nat \<Rightarrow> u32 \<Rightarrow> nat \<Rightarrow> u8 list \<Rightarrow> (u8 list \<times> u32 \<times> nat) option" where
  "read_loop v len tot cluster off buf8 =
     (if tot < len
      then let sec = GetSectorByCluster v cluster;
               n = min (len - tot) (sub64 (unat (bytes_per_cluster v)) off);
               buf8' = buf8 @ bytes (image v) (sec + off) n
           in if off + n = unat (bytes_per_cluster v)
              then read_loop v len (tot + n) (NextCluster v cluster) 0 buf8'
              else read_loop v len (tot + n) cluster (off + n) buf8'
      else Some (buf8, cluster, off))"

definition Read :: "nat \<Rightarrow> FatFileDescriptor \<Rightarrow> Volume \<Rightarrow> (u8 list \<times> FatFileDescriptor) option" where
  "Read len0 fd v =
     (let e = entry v (fat_entry fd);
          cluster = (if rd_cluster fd = 0 then FirstCluster e else rd_cluster fd);
          len = min len0 (sub64 (unat (file_size e)) (rd_off fd))
      in map_option (\<lambda>(buf8, cluster', off').
           (buf8, fd\<lparr>rd_off := rd_off fd + length buf8, rd_cluster := cluster', rd_cluster_off := off'\<rparr>))
         (read_loop v len 0 cluster (rd_cluster_off fd) []))"

definition num_cluster :: "Volume \<Rightarrow> nat \<Rightarrow> nat" where
  "num_cluster v n = (n + unat (bytes_per_cluster v) - 1) div unat (bytes_per_cluster v)"

text \<open>The step of \<open>Write\<close> at the end of a cluster: the next cluster of the chain, or new clusters.\<close>

definition next_write_cluster :: "nat \<Rightarrow> u32 \<Rightarrow> nat \<Rightarrow> Volume \<Rightarrow> (u32 \<times> nat \<times> Volume) option" where
  "next_write_cluster remaining cluster off v =
     (if off = unat (bytes_per_cluster v)
      then let next_cluster = NextCluster v cluster
           in if next_cluster = kEndOfClusterchain
              then map_option (\<lambda>(c, v'). (c, 0, v')) (ExtendCluster cluster (num_cluster v remaining) v)
              else Some (next_cluster, 0, v)
      else Some (cluster, off, v))"

partial_function (option) write_loop ::
  "memory \<Rightarrow> nat \<Rightarrow> nat \<Rightarrow> u32 \<Rightarrow> nat \<Rightarrow> Volume \<Rightarrow> (nat \<times> u32 \<times> nat \<times> Volume) option" where
  "write_loop buf8 len tot cluster0 off0 v0 =
     (if tot < len
      then Option.bind (next_write_cluster (len - tot) cluster0 off0 v0) (\<lambda>(cluster, off, v).
             let sec = GetSectorByCluster v cluster;
                 n = min len (sub64 (unat (bytes_per_cluster v)) off)
             in write_loop buf8 len (tot + n) cluster (off + n) (store (sec + off) (bytes buf8 tot n) v))
      else Some (tot, cluster0, off0, v0))"

text \<open>The first cluster that \<open>Write\<close> uses; a file without one gets a new chain.\<close>

definition first_write_cluster :: "nat \<Rightarrow> FatFileDescriptor \<Rightarrow> Volume \<Rightarrow> (u32 \<times> Volume) option" where
  "first_write_cluster len fd v =
     (if wr_cluster fd = 0
      then if FirstCluster (entry v (fat_entry fd)) \<noteq> 0 then Some (FirstCluster (entry v (fat_entry fd)), v)
           else map_option (\<lambda>(c, v'). (c, set_first_cluster (fat_entry fd) c v')) (AllocateClusterchain (num_cluster v len) v)
      else Some (wr_cluster fd, v))"

definition Write :: "memory \<Rightarrow> nat \<Rightarrow> FatFileDescriptor \<Rightarrow> Volume \<Rightarrow> (nat \<times> FatFileDescriptor \<times> Volume) option" where
  "Write buf8 len fd v =
     Option.bind (first_write_cluster len fd v) (\<lambda>(cluster, v1).
       map_option (\<lambda>(tot, cluster', off', v2).
           (tot, fd\<lparr>wr_off := wr_off fd + tot, wr_cluster := cluster', wr_cluster_off := off'\<rparr>,
            set_file_size (fat_entry fd) (of_nat (wr_off fd + tot)) v2))
         (write_loop buf8 len 0 cluster (wr_cluster_off fd) v1))"

section \<open>LoadFile\<close>

partial_function (option) load_loop :: "Volume \<Rightarrow> nat \<Rightarrow> u32 \<Rightarrow> u8 list \<Rightarrow> (u8 list \<times> nat) option" where
  "load_loop v len cluster buf =
     (if cluster \<noteq> 0 \<and> cluster \<noteq> kEndOfClusterchain
      then let sec = GetSectorByCluster v cluster
           in if unat (bytes_per_cluster v) \<ge> len - length buf
              then Some (buf @ bytes (image v) sec (len - length buf), len)
              else load_loop v len (NextCluster v cluster) (buf @ bytes (image v) sec (unat (bytes_per_cluster v)))
      else Some (buf, length buf))"

definition LoadFile :: "nat \<Rightarrow> Volume \<Rightarrow> DirectoryEntry \<Rightarrow> (u8 list \<times> nat) option" where
  "LoadFile len v e = load_loop v len (FirstCluster e) []"

section \<open>Files as byte sequences\<close>

text \<open>\<open>file_at N v a cs\<close>: the entry \<open>a\<close> describes a file in the clusters \<open>cs\<close> that hold all its bytes.\<close>

definition file_at :: "nat \<Rightarrow> Volume \<Rightarrow> nat \<Rightarrow> u32 list \<Rightarrow> bool" where
  "file_at N v a cs \<longleftrightarrow>
     (if cs = [] then FirstCluster (entry v a) = 0 else file_chain N v cs \<and> FirstCluster (entry v a) = hd cs)
     \<and> unat (file_size (entry v a)) \<le> length cs * cluster_size v"

definition file_data :: "Volume \<Rightarrow> nat \<Rightarrow> u32 list \<Rightarrow> u8 list" where
  "file_data v a cs = take (unat (file_size (entry v a))) (volume.content v cs)"

definition cluster_at :: "u32 list \<Rightarrow> nat \<Rightarrow> u32" where
  "cluster_at cs i = (if i < length cs then cs ! i else kEndOfClusterchain)"

lemma bytes_cluster: "off + n \<le> cluster_size v \<Longrightarrow> bytes (image v) (GetSectorByCluster v c + off) n = take n (drop off (cluster_bytes v c))"
  by (rule nth_equalityI) (auto simp: cluster_bytes_def add.assoc)

lemma concat_piece:
  assumes "\<forall>x\<in>set xss. length x = B" and "i < length xss" and "off + n \<le> B"
  shows "take n (drop (i * B + off) (concat xss)) = take n (drop off (xss ! i))"
  using assms
proof (induction xss arbitrary: i)
  case (Cons xs xss)
  show ?case
  proof (cases i)
    case 0
    with Cons.prems show ?thesis by simp
  next
    case (Suc j)
    with Cons.prems have "drop (i * B + off) (concat (xs # xss)) = drop (j * B + off) (concat xss)" by simp
    with Cons Suc show ?thesis by simp
  qed
qed simp

lemma content_piece:
  assumes "i < length cs" and "off + n \<le> cluster_size v"
  shows "bytes (image v) (GetSectorByCluster v (cs ! i) + off) n
    = take n (drop (i * cluster_size v + off) (volume.content v cs))"
  using concat_piece [of "map (cluster_bytes v) cs" "cluster_size v" i off n] assms bytes_cluster [OF assms(2)] by simp

lemma NextCluster_at:
  assumes "volume_ok v N" and "file_chain N v cs" and "i < length cs"
  shows "NextCluster v (cs ! i) = cluster_at cs (Suc i)"
proof -
  have "drop i cs = cs ! i # drop (Suc i) cs" using assms(3) by (simp add: Cons_nth_drop_Suc)
  moreover have "file_chain N v (drop i cs)"
    using assms(2,3) chain_drop [of _ _ cs i] by (auto simp: file_chain_def dest: in_set_dropD)
  ultimately have "NextCluster v (cs ! i) = (if drop (Suc i) cs = [] then kEndOfClusterchain else hd (drop (Suc i) cs))"
    using NextCluster_chain [OF assms(1)] by simp
  then show ?thesis by (simp add: cluster_at_def hd_drop_conv_nth)
qed


section \<open>Reading\<close>

lemma position_step:
  fixes p B n :: nat
  assumes "0 < B" and "p mod B + n \<le> B"
  shows "p mod B + n = B \<Longrightarrow> (p + n) div B = Suc (p div B) \<and> (p + n) mod B = 0"
    and "p mod B + n < B \<Longrightarrow> (p + n) div B = p div B \<and> (p + n) mod B = p mod B + n"
proof -
  have *: "(q * B + s) div B = q \<and> (q * B + s) mod B = s" if "s < B" for q s :: nat using that by simp
  have p: "p + n = p div B * B + (p mod B + n)" by simp
  show "(p + n) div B = Suc (p div B) \<and> (p + n) mod B = 0" if "p mod B + n = B"
    using * [of 0 "Suc (p div B)"] assms(1) that p by (metis add.commute add_0_right mult_Suc)
  show "(p + n) div B = p div B \<and> (p + n) mod B = p mod B + n" if "p mod B + n < B"
    using * [OF that, of "p div B"] p by metis
qed

lemma take_take_drop: "take n (drop p xs) @ take (m - n) (drop (p + n) xs) = take (max n m) (drop p xs)"
proof -
  have "max n m = n + (m - n)" by simp
  then show ?thesis by (simp only: take_add drop_drop add.commute)
qed

lemma read_loop_run:
  assumes ok: "volume_ok v N" and cs: "file_chain N v cs"
    and room: "p + (len - tot) \<le> length cs * cluster_size v" and le: "tot \<le> len"
  shows "read_loop v len tot (cluster_at cs (p div cluster_size v)) (p mod cluster_size v) buf =
    Some (buf @ take (len - tot) (drop p (volume.content v cs)),
      cluster_at cs ((p + (len - tot)) div cluster_size v), (p + (len - tot)) mod cluster_size v)"
  using room le
proof (induction "len - tot" arbitrary: p tot buf rule: less_induct)
  case less
  let ?B = "cluster_size v" and ?i = "p div cluster_size v" and ?off = "p mod cluster_size v"
  have B: "0 < ?B" by (rule cluster_size_pos [OF ok])
  have off: "?off < ?B" using B by simp
  show ?case
  proof (cases "tot < len")
    case False
    with less.prems show ?thesis by (subst read_loop.simps) simp
  next
    case True
    define n where "n = min (len - tot) (?B - ?off)"
    have n: "0 < n" "n \<le> len - tot" "?off + n \<le> ?B" using True off by (auto simp: n_def)
    have "p < length cs * ?B" using less.prems(1) True by linarith
    then have i: "?i < length cs" by (simp add: less_mult_imp_div_less)
    have piece: "bytes (image v) (GetSectorByCluster v (cs ! ?i) + ?off) n = take n (drop p (volume.content v cs))"
      using content_piece [OF i n(3)] by simp
    have step: "read_loop v len tot (cluster_at cs ?i) ?off buf =
      read_loop v len (tot + n) (cluster_at cs ((p + n) div ?B)) ((p + n) mod ?B) (buf @ take n (drop p (volume.content v cs)))"
    proof (cases "?off + n = ?B")
      case eq: True
      with position_step(1) [OF B n(3)] NextCluster_at [OF ok cs i] i True piece off
      show ?thesis by (subst read_loop.simps) (simp add: Let_def n_def [symmetric] cluster_at_def cluster_size_def [symmetric])
    next
      case False
      with n(3) position_step(2) [OF B n(3)] i True piece off
      show ?thesis by (subst read_loop.simps) (simp add: Let_def n_def [symmetric] cluster_at_def cluster_size_def [symmetric])
    qed
    have "len - (tot + n) < len - tot" using n(1) True by linarith
    moreover have "p + n + (len - (tot + n)) = p + (len - tot)" "tot + n \<le> len" using n(2) True by linarith+
    ultimately have "read_loop v len (tot + n) (cluster_at cs ((p + n) div ?B)) ((p + n) mod ?B) (buf @ take n (drop p (volume.content v cs)))
      = Some ((buf @ take n (drop p (volume.content v cs))) @ take (len - (tot + n)) (drop (p + n) (volume.content v cs)),
          cluster_at cs ((p + (len - tot)) div ?B), (p + (len - tot)) mod ?B)"
      using less.hyps [of "tot + n" "p + n" "buf @ take n (drop p (volume.content v cs))"] less.prems(1) by simp
    with step take_take_drop [of n p "volume.content v cs" "len - tot"] n(2) show ?thesis by (simp add: max_def)
  qed
qed

text \<open>\<open>read_at N v cs fd\<close>: the descriptor stands at the byte \<open>rd_off fd\<close> of its file.\<close>

definition read_at :: "Volume \<Rightarrow> u32 list \<Rightarrow> FatFileDescriptor \<Rightarrow> bool" where
  "read_at v cs fd \<longleftrightarrow> rd_off fd \<le> unat (file_size (entry v (fat_entry fd))) \<and>
     (rd_cluster fd = 0 \<and> rd_off fd = 0 \<and> rd_cluster_off fd = 0
      \<or> rd_cluster fd = cluster_at cs (rd_off fd div cluster_size v) \<and> rd_cluster_off fd = rd_off fd mod cluster_size v)"

lemma kEnd_nonzero [simp]: "kEndOfClusterchain \<noteq> 0"
  by (simp add: kEndOfClusterchain_def)

lemma cluster_at_nonzero: "volume_ok v N \<Longrightarrow> file_chain N v cs \<Longrightarrow> cluster_at cs i \<noteq> 0"
  by (auto simp: cluster_at_def file_chain_def valid_cluster_def dest!: nth_mem)

lemma Read_run:
  assumes ok: "volume_ok v N" and fl: "file_at N v (fat_entry fd) cs" and pos: "read_at v cs fd"
  shows "\<exists>fd'. Read len fd v = Some (take len (drop (rd_off fd) (file_data v (fat_entry fd) cs)), fd')
    \<and> read_at v cs fd' \<and> fat_entry fd' = fat_entry fd
    \<and> rd_off fd' = rd_off fd + length (take len (drop (rd_off fd) (file_data v (fat_entry fd) cs)))"
proof -
  define e where "e = entry v (fat_entry fd)"
  define k where "k = rd_off fd"
  define sz where "sz = unat (file_size e)"
  define m where "m = min len (sz - k)"
  let ?B = "cluster_size v" and ?c = "volume.content v cs"
  have k: "k \<le> sz" using pos by (simp add: read_at_def k_def sz_def e_def)
  have sz: "sz \<le> length cs * ?B" using fl by (simp add: file_at_def sz_def e_def)
  have len: "length ?c = length cs * ?B" by (rule volume.length_content)
  have data: "take len (drop k (file_data v (fat_entry fd) cs)) = take m (drop k ?c)"
    by (simp add: file_data_def m_def drop_take sz_def e_def min.commute)
  have lenm: "length (take m (drop k ?c)) = m" using len sz k by (simp add: m_def)
  show ?thesis
  proof (cases "cs = []")
    case True
    with sz k have "sz = 0" "k = 0" "m = 0" by (simp_all add: m_def)
    with True fl pos show ?thesis
      unfolding Read_def Let_def e_def [symmetric] sz_def [symmetric] k_def [symmetric]
      by (subst read_loop.simps)
         (auto simp: file_data_def file_at_def e_def [symmetric] sz_def [symmetric] k_def [symmetric] read_at_def cluster_at_def)
  next
    case False
    with fl have cs: "file_chain N v cs" and first: "FirstCluster e = hd cs" by (simp_all add: file_at_def e_def)
    have start: "(if rd_cluster fd = 0 then FirstCluster e else rd_cluster fd) = cluster_at cs (k div ?B)"
      "rd_cluster_off fd = k mod ?B"
      using pos first False cluster_at_nonzero [OF ok cs, of "k div ?B"]
      by (auto simp: read_at_def k_def [symmetric]) (simp add: cluster_at_def hd_conv_nth)
    have "read_loop v m 0 (cluster_at cs (k div ?B)) (k mod ?B) [] =
      Some (take m (drop k ?c), cluster_at cs ((k + m) div ?B), (k + m) mod ?B)"
      using read_loop_run [OF ok cs, of k m 0 "[]"] sz k by (simp add: m_def)
    then have "Read len fd v = Some (take m (drop k ?c),
        fd\<lparr>rd_off := k + m, rd_cluster := cluster_at cs ((k + m) div ?B), rd_cluster_off := (k + m) mod ?B\<rparr>)"
      using start k lenm
      unfolding Read_def Let_def e_def [symmetric] sz_def [symmetric] k_def [symmetric] by (simp add: m_def [symmetric])
    moreover have "k + m \<le> sz" using k by (simp add: m_def)
    ultimately show ?thesis
      using data lenm by (simp add: read_at_def k_def [symmetric] e_def [symmetric] sz_def [symmetric])
  qed
qed

section \<open>Loading\<close>

lemma load_loop_run:
  assumes ok: "volume_ok v N" and "file_chain N v cs" and "length buf \<le> len"
  shows "load_loop v len (hd cs) buf =
    Some (buf @ take (len - length buf) (volume.content v cs), min len (length buf + length (volume.content v cs)))"
  using assms(2,3)
proof (induction cs arbitrary: buf)
  case Nil
  then show ?case by (simp add: file_chain_def)
next
  case (Cons c cs)
  let ?B = "cluster_size v"
  have c: "c \<noteq> 0" "c \<noteq> kEndOfClusterchain"
    using Cons.prems(1) valid_not_mark [OF ok] by (auto simp: file_chain_def valid_cluster_def)
  have all: "bytes (image v) (GetSectorByCluster v c) ?B = cluster_bytes v c" by (simp add: cluster_bytes_def)
  show ?case
  proof (cases "?B \<ge> len - length buf")
    case True
    then have "bytes (image v) (GetSectorByCluster v c) (len - length buf) = take (len - length buf) (cluster_bytes v c)"
      using bytes_cluster [of 0 "len - length buf" v c] by simp
    with True c Cons.prems(2) show ?thesis
      by (subst load_loop.simps) (auto simp: Let_def cluster_size_def [symmetric])
  next
    case False
    then have rest: "load_loop v len c buf = load_loop v len (NextCluster v c) (buf @ cluster_bytes v c)"
      using c all by (subst load_loop.simps) (simp add: Let_def cluster_size_def [symmetric])
    show ?thesis
    proof (cases "cs = []")
      case True
      then have "NextCluster v c = kEndOfClusterchain" using NextCluster_chain [OF ok Cons.prems(1)] by simp
      with rest True False show ?thesis
        by (simp add: load_loop.simps [of v len kEndOfClusterchain])
    next
      case ne: False
      then have nx: "NextCluster v c = hd cs" "file_chain N v cs"
        using NextCluster_chain [OF ok Cons.prems(1)] Cons.prems(1) by (auto simp: file_chain_def chain_Cons)
      from Cons.IH [OF nx(2), of "buf @ cluster_bytes v c"] False rest nx(1) show ?thesis
        by (simp add: diff_diff_left add.assoc)
    qed
  qed
qed

lemma LoadFile_run:
  assumes "volume_ok v N" and "file_at N v a cs"
  shows "LoadFile len v (entry v a) = Some (take len (volume.content v cs), min len (length (volume.content v cs)))"
proof (cases "cs = []")
  case True
  with assms(2) show ?thesis by (subst LoadFile_def) (simp add: file_at_def load_loop.simps)
next
  case False
  with assms load_loop_run [OF assms(1), of cs "[]" len] show ?thesis by (simp add: LoadFile_def file_at_def)
qed


section \<open>Writing\<close>

lemma entry_cong: "(\<And>i. i < kEntrySize \<Longrightarrow> image v' (a + i) = image v (a + i)) \<Longrightarrow> entry v' a = entry v a"
proof -
  assume eq: "\<And>i. i < kEntrySize \<Longrightarrow> image v' (a + i) = image v (a + i)"
  have "le16 (image v') (a + j) = le16 (image v) (a + j)" if "j + 2 \<le> 32" for j
    by (rule le16_cong) (use eq that in \<open>simp add: layout add.assoc\<close>)
  moreover have "le32 (image v') (a + j) = le32 (image v) (a + j)" if "j + 4 \<le> 32" for j
    by (rule le32_cong) (use eq that in \<open>simp add: layout add.assoc\<close>)
  moreover have "bytes (image v') a 11 = bytes (image v) a 11" by (rule bytes_cong) (simp add: eq layout)
  moreover have "image v' (a + j) = image v (a + j)" if "j < 32" for j using eq that by (simp add: layout)
  ultimately show ?thesis by (simp add: entry_def read_entry_def)
qed

lemma cluster_entries_header: "same_header v v' \<Longrightarrow> cluster_entries v' c = cluster_entries v c"
  using same_header_eqs(5,6) [of v v'] by (simp add: cluster_entries_def entries_per_cluster_def)

text \<open>A store into an entry is a store into the cluster of its directory.\<close>

lemma entry_store_frame:
  assumes "volume_ok v N" and "valid_cluster N d" and "a \<in> set (cluster_entries v d)" and "j + length bs \<le> kEntrySize"
  shows "volume_ok (store (a + j) bs v) N \<and> same_header v (store (a + j) bs v)
    \<and> (\<forall>c. valid_cluster N c \<longrightarrow> fat_get (store (a + j) bs v) c = fat_get v c)
    \<and> (\<forall>c. valid_cluster N c \<longrightarrow> c \<noteq> d \<longrightarrow> cluster_bytes (store (a + j) bs v) c = cluster_bytes v c)"
proof -
  from in_cluster_entries [OF assms(3)] obtain off where
    off: "a = GetSectorByCluster v d + off" "off + kEntrySize \<le> cluster_size v" by blast
  have w: "store (a + j) bs v = cluster_write d (off + j) bs v" by (simp add: cluster_write_def off add.assoc)
  have b: "off + j + length bs \<le> cluster_size v" using off(2) assms(4) by simp
  have "same_header v (cluster_write d (off + j) bs v)"
    unfolding cluster_write_def by (rule same_header_store [OF assms(1,2)])
  then show ?thesis
    unfolding w using volume.ok_wr [OF assms(1,2)] volume.get_wr [OF assms(1,2)] volume.rd_wr [OF assms(1,2) _ b] by auto
qed

text \<open>
  \<open>file_home N v a d cs\<close>: the file of the entry \<open>a\<close>, which lies in the cluster \<open>d\<close> of a directory, has the
  clusters \<open>cs\<close>.
\<close>

definition file_home :: "nat \<Rightarrow> Volume \<Rightarrow> nat \<Rightarrow> u32 \<Rightarrow> u32 list \<Rightarrow> bool" where
  "file_home N v a d cs \<longleftrightarrow> volume_ok v N \<and> valid_cluster N d \<and> fat_get v d \<noteq> 0 \<and> d \<notin> set cs
     \<and> a \<in> set (cluster_entries v d)
     \<and> (if cs = [] then FirstCluster (entry v a) = 0 else file_chain N v cs \<and> FirstCluster (entry v a) = hd cs)"

lemma entry_same:
  assumes "same_header v v'" and "cluster_bytes v' d = cluster_bytes v d" and "a \<in> set (cluster_entries v d)"
  shows "entry v' a = entry v a"
  using entry_bytes_cong [OF assms] by (rule entry_cong)

lemma file_home_set_size:
  assumes "file_home N v a d cs"
  shows "file_home N (set_file_size a x v) a d cs" and "volume.content (set_file_size a x v) cs = volume.content v cs"
    and "file_size (entry (set_file_size a x v) a) = x" and "cluster_size (set_file_size a x v) = cluster_size v"
proof -
  let ?w = "set_file_size a x v"
  from assms have ok: "volume_ok v N" and d: "valid_cluster N d" "a \<in> set (cluster_entries v d)" "d \<notin> set cs"
    by (auto simp: file_home_def)
  have F: "volume_ok ?w N \<and> same_header v ?w \<and> (\<forall>c. valid_cluster N c \<longrightarrow> fat_get ?w c = fat_get v c)
    \<and> (\<forall>c. valid_cluster N c \<longrightarrow> c \<noteq> d \<longrightarrow> cluster_bytes ?w c = cluster_bytes v c)"
    unfolding set_file_size_store by (rule entry_store_frame [OF ok d(1,2)]) (simp add: bytes32_def layout)
  have "le16 (image ?w) (a + 20) = le16 (image v) (a + 20)" "le16 (image ?w) (a + 26) = le16 (image v) (a + 26)"
    by (rule le16_cong, simp add: set_file_size_def put32_other)+
  then have first: "FirstCluster (entry ?w a) = FirstCluster (entry v a)"
    by (simp add: FirstCluster_def entry_def read_entry_def)
  have "file_chain N v cs \<Longrightarrow> file_chain N ?w cs"
    using F chain_cong [of cs "fat_get ?w" "fat_get v"] by (auto simp: file_chain_def)
  with assms F first cluster_entries_header [of v ?w d] show "file_home N ?w a d cs"
    by (auto simp: file_home_def)
  have "\<forall>c\<in>set cs. valid_cluster N c" using assms by (cases "cs = []") (simp_all add: file_home_def file_chain_def)
  then show "volume.content ?w cs = volume.content v cs"
    using F d(3) by (intro arg_cong [of _ _ concat] map_cong) auto
  show "file_size (entry ?w a) = x" by (simp add: entry_def read_entry_def set_file_size_def)
  show "cluster_size ?w = cluster_size v" using F same_header_eqs(4) by blast
qed

definition bytes16 :: "u16 \<Rightarrow> u8 list" where
  "bytes16 x = [ucast x, ucast (drop_bit 8 x)]"

lemma put16_bytes: "put16 a x m = put_bytes a (bytes16 x) m"
  by (rule ext) (auto simp: put16_def put_bytes_def bytes16_def nth_Cons' less_Suc_eq)

lemma set_first_cluster_store:
  "set_first_cluster a c v =
     store (a + 20) (bytes16 (ucast (drop_bit 16 c AND 0xffff))) (store (a + 26) (bytes16 (ucast (c AND 0xffff))) v)"
  by (simp add: set_first_cluster_def store_def put16_bytes)

lemma split_cluster: "ucast (ucast (c AND 0xffff) :: u16) OR push_bit 16 (ucast (ucast (drop_bit 16 c AND 0xffff) :: u16)) = (c :: u32)"
proof -
  have m: "(0xffff :: u32) = mask 16" by (simp add: mask_eq_exp_minus_1)
  show ?thesis
    unfolding m by (rule bit_word_eqI) (auto simp: bit_simps)
qed

lemma set_first_cluster_run:
  fixes c :: u32
  assumes ok: "volume_ok v N" and d: "valid_cluster N d" "a \<in> set (cluster_entries v d)"
  defines "w \<equiv> set_first_cluster a c v"
  shows "volume_ok w N \<and> same_header v w \<and> (\<forall>c. valid_cluster N c \<longrightarrow> fat_get w c = fat_get v c)
    \<and> (\<forall>c. valid_cluster N c \<longrightarrow> c \<noteq> d \<longrightarrow> cluster_bytes w c = cluster_bytes v c) \<and> FirstCluster (entry w a) = c"
proof -
  let ?u = "store (a + 26) (bytes16 (ucast (c AND 0xffff))) v"
  have U: "volume_ok ?u N \<and> same_header v ?u \<and> (\<forall>c. valid_cluster N c \<longrightarrow> fat_get ?u c = fat_get v c)
    \<and> (\<forall>c. valid_cluster N c \<longrightarrow> c \<noteq> d \<longrightarrow> cluster_bytes ?u c = cluster_bytes v c)"
    by (rule entry_store_frame [OF ok d]) (simp add: bytes16_def layout)
  then have du: "a \<in> set (cluster_entries ?u d)" using d cluster_entries_header [of v ?u d] by simp
  have W: "volume_ok w N \<and> same_header ?u w \<and> (\<forall>c. valid_cluster N c \<longrightarrow> fat_get w c = fat_get ?u c)
    \<and> (\<forall>c. valid_cluster N c \<longrightarrow> c \<noteq> d \<longrightarrow> cluster_bytes w c = cluster_bytes ?u c)"
    unfolding w_def set_first_cluster_store
    using U by (intro entry_store_frame [OF _ d(1) du]) (auto simp: bytes16_def layout)
  have lo: "le16 (image w) (a + 26) = ucast (c AND 0xffff)"
    unfolding w_def set_first_cluster_def
    by (subst le16_cong [where m' = "put16 (a + 26) (ucast (c AND 0xffff)) (image v)"]) (simp_all add: put16_other)
  have hi: "le16 (image w) (a + 20) = ucast (drop_bit 16 c AND 0xffff)" by (simp add: w_def set_first_cluster_def)
  have "FirstCluster (entry w a) = c"
    using lo hi split_cluster [of c] by (simp add: FirstCluster_def entry_def read_entry_def)
  with U W show ?thesis by (auto intro: same_header_trans)
qed


lemma free_cong:
  assumes "volume_ok v N" and "\<forall>c. valid_cluster N c \<longrightarrow> fat_get v' c = fat_get v c"
  shows "free_clusters 2 N v' = free_clusters 2 N v"
  unfolding free_clusters_def
proof (rule filter_cong [OF refl])
  fix c assume "c \<in> set (map of_nat [2..<N] :: u32 list)"
  with volume_ok_bound [OF assms(1)] have "valid_cluster N c" by (auto simp: valid_cluster_def unat_of_nat_u32)
  with assms(2) show "(fat_get v' c = 0) = (fat_get v c = 0)" by simp
qed

lemma filter_suffix: "distinct (xs @ ys) \<Longrightarrow> filter (\<lambda>x. x \<notin> set xs) (xs @ ys) = ys"
  by (auto simp: filter_id_conv filter_empty_conv)

lemma free_after_grown:
  assumes ok: "volume_ok v N" and g: "chain_grown N v cs (take n (free_clusters 2 N v)) v'"
    and cs: "set cs \<inter> set (free_clusters 2 N v) = {}"
  shows "free_clusters 2 N v' = drop n (free_clusters 2 N v)"
proof -
  let ?f = "free_clusters 2 N v"
  have v': "volume_ok v' N" "file_chain N v' (cs @ take n ?f)"
    and get: "\<And>c. c \<notin> set (cs @ take n ?f) \<Longrightarrow> fat_get v' c = fat_get v c" using g by (auto simp: chain_grown_def)
  from chain_used [OF v', of 2] in_free_clusters [OF v'(1), of _ 2]
  have used: "c \<in> set (cs @ take n ?f) \<Longrightarrow> 2 \<le> unat c \<Longrightarrow> unat c < N \<Longrightarrow> fat_get v' c \<noteq> 0" for c by blast
  define L where "L = (map of_nat [2..<N] :: u32 list)"
  have L: "?f = filter (\<lambda>c. fat_get v c = 0) L" "free_clusters 2 N v' = filter (\<lambda>c. fat_get v' c = 0) L"
    by (simp_all add: free_clusters_def L_def)
  have "(fat_get v' c = 0) = (fat_get v c = 0 \<and> c \<notin> set (take n ?f))" if "c \<in> set L" for c
  proof -
    from that volume_ok_bound [OF ok] have c: "2 \<le> unat c" "unat c < N" by (auto simp: L_def unat_of_nat_u32)
    show ?thesis
    proof (cases "c \<in> set (cs @ take n ?f)")
      case True
      with used [OF True c] cs in_free_clusters [OF ok, of c 2] c show ?thesis by auto
    next
      case False
      with get [OF False] show ?thesis by auto
    qed
  qed
  then have "free_clusters 2 N v' = filter (\<lambda>c. c \<notin> set (take n ?f)) ?f"
    unfolding L(2) by (subst (2) L(1)) (auto simp: filter_filter intro!: filter_cong)
  also have "\<dots> = drop n ?f"
    using filter_suffix [of "take n ?f" "drop n ?f"] distinct_free_clusters [OF ok, of 2] by simp
  finally show ?thesis .
qed

lemma file_home_grown:
  assumes h: "file_home N v a d cs" and g: "chain_grown N v cs ps v'" and ne: "cs \<noteq> []"
    and ps: "ps = take n (free_clusters 2 N v)"
  shows "file_home N v' a d (cs @ ps)" and "entry v' a = entry v a"
    and "free_clusters 2 N v' = drop n (free_clusters 2 N v)"
    and "volume.content v' cs = volume.content v cs"
proof -
  from h have ok: "volume_ok v N" and d: "valid_cluster N d" "fat_get v d \<noteq> 0" "d \<notin> set cs" "a \<in> set (cluster_entries v d)"
    and cs: "file_chain N v cs" "FirstCluster (entry v a) = hd cs" using ne by (auto simp: file_home_def)
  from g have v': "volume_ok v' N" "same_header v v'" "file_chain N v' (cs @ ps)"
    and get: "\<And>c. c \<notin> set (cs @ ps) \<Longrightarrow> fat_get v' c = fat_get v c"
    and rd: "\<And>c. valid_cluster N c \<Longrightarrow> cluster_bytes v' c = cluster_bytes v c" by (auto simp: chain_grown_def)
  have dps: "d \<notin> set ps" using d(2) in_free_clusters [OF ok, of d 2] ps by (auto dest: in_set_takeD)
  show e: "entry v' a = entry v a" by (rule entry_same [OF v'(2) rd [OF d(1)] d(4)])
  show "file_home N v' a d (cs @ ps)"
    using v' d dps get [of d] e cs ne cluster_entries_header [OF v'(2), of d] by (simp add: file_home_def)
  show "free_clusters 2 N v' = drop n (free_clusters 2 N v)"
    using g unfolding ps by (rule free_after_grown [OF ok _ chain_used [OF ok cs(1)]])
  show "volume.content v' cs = volume.content v cs"
    using rd cs(1) by (intro arg_cong [of _ _ concat] map_cong) (auto simp: file_chain_def)
qed

lemma num_cluster_small: "0 < n \<Longrightarrow> n \<le> cluster_size v \<Longrightarrow> num_cluster v n = 1"
proof -
  assume n: "0 < n" "n \<le> cluster_size v"
  then have "n + cluster_size v - 1 = (n - 1) + 1 * cluster_size v" by simp
  moreover have "((n - 1) + 1 * cluster_size v) div cluster_size v = 1"
    using n by (subst div_mult_self1) auto
  ultimately show ?thesis by (simp add: num_cluster_def cluster_size_def)
qed

text \<open>\<open>grown_to\<close>: the clusters \<open>cs\<close> of a file have become \<open>cs'\<close>; its bytes and its entry are as before.\<close>

definition grown_to :: "nat \<Rightarrow> Volume \<Rightarrow> nat \<Rightarrow> u32 \<Rightarrow> u32 list \<Rightarrow> Volume \<Rightarrow> u32 list \<Rightarrow> bool" where
  "grown_to N v a d cs v' cs' \<longleftrightarrow> file_home N v' a d cs' \<and> cluster_size v' = cluster_size v
     \<and> (\<exists>ps. cs' = cs @ ps) \<and> volume.content v' cs = volume.content v cs
     \<and> length cs' + length (free_clusters 2 N v') = length cs + length (free_clusters 2 N v)"

lemma grown_to_refl: "file_home N v a d cs \<Longrightarrow> grown_to N v a d cs v cs"
  by (simp add: grown_to_def)

lemma next_write_run:
  assumes h: "file_home N v a d cs" and i: "i < length cs" "off \<le> cluster_size v" "k = i * cluster_size v + off"
    and n: "0 < n" "n \<le> cluster_size v"
    and room: "k + n \<le> (length cs + length (free_clusters 2 N v)) * cluster_size v"
  shows "\<exists>i' off' v' cs'. next_write_cluster n (cs ! i) off v = Some (cs' ! i', off', v') \<and> grown_to N v a d cs v' cs'
    \<and> i' < length cs' \<and> k = i' * cluster_size v + off' \<and> off' = (if off = cluster_size v then 0 else off)"
proof (cases "off = cluster_size v")
  case False
  with h i grown_to_refl [OF h] show ?thesis
    by (intro exI [of _ i] exI [of _ off] exI [of _ v] exI [of _ cs])
       (simp add: next_write_cluster_def cluster_size_def)
next
  case full: True
  from h i(1) have ok: "volume_ok v N" and cs: "file_chain N v cs" by (auto simp: file_home_def split: if_splits)
  have nx: "NextCluster v (cs ! i) = cluster_at cs (Suc i)" by (rule NextCluster_at [OF ok cs i(1)])
  show ?thesis
  proof (cases "Suc i < length cs")
    case True
    then have "cs ! Suc i \<noteq> kEndOfClusterchain"
      using cs valid_not_mark [OF ok] nth_mem [OF True] by (auto simp: file_chain_def)
    with True nx full i h grown_to_refl [OF h] show ?thesis
      by (intro exI [of _ "Suc i"] exI [of _ 0] exI [of _ v] exI [of _ cs])
         (simp add: next_write_cluster_def cluster_size_def cluster_at_def)
  next
    case False
    with i have li: "Suc i = length cs" by simp
    let ?f = "free_clusters 2 N v"
    have "?f \<noteq> []"
    proof
      assume "?f = []"
      with room i(3) full li [symmetric] n show False by simp
    qed
    then have len: "1 \<le> length ?f" by (cases ?f) auto
    have "cs ! i \<in> set cs" using i(1) by simp
    from ExtendCluster_run [OF ok cs this len] obtain v' where
      e: "ExtendCluster (cs ! i) 1 v = Some (last (cs @ take 1 ?f), v')" and g: "chain_grown N v cs (take 1 ?f) v'"
      by blast
    have ne: "cs \<noteq> []" using i(1) by auto
    note G = file_home_grown [OF h g ne refl]
    have t: "take 1 ?f = [hd ?f]" using \<open>?f \<noteq> []\<close> by (cases ?f) auto
    have sz: "cluster_size v' = cluster_size v" using g same_header_eqs(4) by (auto simp: chain_grown_def)
    have "grown_to N v a d cs v' (cs @ [hd ?f])"
      using G sz len t by (simp add: grown_to_def)
    moreover have "next_write_cluster n (cs ! i) off v = Some ((cs @ [hd ?f]) ! length cs, 0, v')"
      using e nx full li t num_cluster_small [OF n] by (simp add: next_write_cluster_def cluster_size_def cluster_at_def)
    moreover have "k = length cs * cluster_size v" using i(3) full li [symmetric] by simp
    ultimately show ?thesis using full
      by (intro exI [of _ "length cs"] exI [of _ 0] exI [of _ v'] exI [of _ "cs @ [hd ?f]"]) simp
  qed
qed


text \<open>\<open>write_at\<close>: the descriptor stands behind byte \<open>wr_off\<close> of its file, at the end of a cluster or inside it.\<close>

definition write_at :: "Volume \<Rightarrow> u32 list \<Rightarrow> FatFileDescriptor \<Rightarrow> bool" where
  "write_at v cs fd \<longleftrightarrow>
     wr_cluster fd = 0 \<and> wr_off fd = 0 \<and> wr_cluster_off fd = 0
     \<or> (\<exists>i<length cs. wr_cluster fd = cs ! i \<and> wr_off fd = i * cluster_size v + wr_cluster_off fd
          \<and> wr_cluster_off fd \<le> cluster_size v)"

lemma first_write_new:
  assumes h: "file_home N v a d []" and n: "0 < n" "n \<le> cluster_size v" and free: "free_clusters 2 N v \<noteq> []"
    and fd: "wr_cluster fd = 0" "fat_entry fd = a"
  shows "\<exists>v' p. first_write_cluster n fd v = Some (p, v') \<and> grown_to N v a d [] v' [p]"
proof -
  let ?f = "free_clusters 2 N v"
  from h have ok: "volume_ok v N" and d: "valid_cluster N d" "fat_get v d \<noteq> 0" "a \<in> set (cluster_entries v d)"
    and z: "FirstCluster (entry v a) = 0" by (auto simp: file_home_def)
  have t: "take 1 ?f = [hd ?f]" "1 \<le> length ?f" using free by (cases ?f; simp)+
  from AllocateClusterchain_run [OF ok, of 1] t obtain v1 where
    e: "AllocateClusterchain 1 v = Some (hd ?f, v1)" and g: "chain_grown N v [] [hd ?f] v1" by auto
  let ?p = "hd ?f" and ?w = "set_first_cluster a (hd ?f) v1"
  from g have v1: "volume_ok v1 N" "same_header v v1" "file_chain N v1 [?p]"
    and get: "\<And>c. c \<noteq> ?p \<Longrightarrow> fat_get v1 c = fat_get v c"
    and rd: "\<And>c. valid_cluster N c \<Longrightarrow> cluster_bytes v1 c = cluster_bytes v c" by (auto simp: chain_grown_def)
  have dp: "d \<noteq> ?p" using d(2) in_free_clusters [OF ok, of ?p 2] free by auto
  have d1: "a \<in> set (cluster_entries v1 d)" using d(3) cluster_entries_header [OF v1(2)] by simp
  note W = set_first_cluster_run [OF v1(1) d(1) d1, of ?p]
  have "file_chain N ?w [?p]" using v1(3) W by (auto simp: file_chain_def)
  moreover have "free_clusters 2 N ?w = drop 1 ?f"
    using free_cong [OF v1(1), of ?w] W free_after_grown [OF ok, of "[]" 1 v1] g t(1) by auto
  moreover have "cluster_size ?w = cluster_size v"
    using W v1(2) same_header_eqs(4) by metis
  ultimately have "grown_to N v a d [] ?w [?p]"
    using W d get [OF dp] dp d1 cluster_entries_header [of v1 ?w d] t(2) v1
    by (auto simp: grown_to_def file_home_def)
  moreover have "first_write_cluster n fd v = Some (?p, ?w)"
    using e fd z num_cluster_small [OF n] by (simp add: first_write_cluster_def)
  ultimately show ?thesis by blast
qed

lemma first_write_run:
  assumes h: "file_home N v a d cs" and at: "write_at v cs fd" and fd: "fat_entry fd = a"
    and n: "0 < n" "n \<le> cluster_size v"
    and room: "wr_off fd + n \<le> (length cs + length (free_clusters 2 N v)) * cluster_size v"
  shows "\<exists>i v' cs'. first_write_cluster n fd v = Some (cs' ! i, v') \<and> grown_to N v a d cs v' cs' \<and> i < length cs'
    \<and> wr_off fd = i * cluster_size v + wr_cluster_off fd \<and> wr_cluster_off fd \<le> cluster_size v"
proof (cases "wr_cluster fd = 0")
  case zero: True
  have ok: "volume_ok v N" using h by (simp add: file_home_def)
  have nz: "cs ! i \<noteq> 0" if "i < length cs" for i
    using h that cluster_at_nonzero [OF ok, of cs i] by (auto simp: file_home_def cluster_at_def split: if_splits)
  have start: "wr_off fd = 0 \<and> wr_cluster_off fd = 0" using at zero nz by (auto simp: write_at_def)
  show ?thesis
  proof (cases "cs = []")
    case True
    have "free_clusters 2 N v \<noteq> []" using room n start True by auto
    with first_write_new [of N v a d n fd] h n fd zero True obtain v' p where
      "first_write_cluster n fd v = Some (p, v')" "grown_to N v a d [] v' [p]" by blast
    with True start show ?thesis by (intro exI [of _ 0] exI [of _ v'] exI [of _ "[p]"]) simp
  next
    case False
    then have f: "FirstCluster (entry v a) = cs ! 0" "cs ! 0 \<noteq> 0"
      using h cluster_at_nonzero [OF ok, of cs 0] by (auto simp: file_home_def cluster_at_def hd_conv_nth)
    with zero fd start False grown_to_refl [OF h] show ?thesis
      by (intro exI [of _ 0] exI [of _ v] exI [of _ cs]) (simp add: first_write_cluster_def)
  qed
next
  case False
  with at grown_to_refl [OF h] show ?thesis by (auto simp: write_at_def first_write_cluster_def)
qed

lemma grown_to_trans:
  assumes "grown_to N v a d cs v1 cs1" and "grown_to N v1 a d cs1 v2 cs2"
  shows "grown_to N v a d cs v2 cs2"
proof -
  from assms obtain ps qs where p: "cs1 = cs @ ps" "cs2 = cs1 @ qs" by (auto simp: grown_to_def)
  have "volume.content v2 cs1 = volume.content v1 cs1" using assms by (simp add: grown_to_def)
  then have "volume.content v2 cs @ volume.content v2 ps = volume.content v1 cs @ volume.content v1 ps" using p by simp
  moreover have "length (volume.content v2 cs) = length (volume.content v1 cs)"
    using assms volume.length_content [of v1 cs] volume.length_content [of v2 cs] by (simp add: grown_to_def)
  ultimately have "volume.content v2 cs = volume.content v1 cs" by simp
  with assms p show ?thesis by (auto simp: grown_to_def)
qed

lemma store_run:
  assumes h: "file_home N v a d cs" and i: "i < length cs" "off + length bs \<le> cluster_size v"
  defines "w \<equiv> store (GetSectorByCluster v (cs ! i) + off) bs v"
  shows "file_home N w a d cs" and "cluster_size w = cluster_size v"
    and "free_clusters 2 N w = free_clusters 2 N v"
    and "volume.content w cs = take (i * cluster_size v + off) (volume.content v cs) @ bs
      @ drop (i * cluster_size v + off + length bs) (volume.content v cs)"
proof -
  from h i(1) have ok: "volume_ok v N" and cs: "file_chain N v cs" "FirstCluster (entry v a) = hd cs"
    and d: "valid_cluster N d" "d \<notin> set cs" "a \<in> set (cluster_entries v d)" "fat_get v d \<noteq> 0"
    by (auto simp: file_home_def split: if_splits)
  have vi: "valid_cluster N (cs ! i)" "cs ! i \<noteq> d" using cs i(1) d(2) nth_mem [OF i(1)] by (auto simp: file_chain_def)
  have w: "w = cluster_write (cs ! i) off bs v" by (simp add: w_def cluster_write_def)
  have sh: "same_header v w" unfolding w_def by (rule same_header_store [OF ok vi(1)])
  have okw: "volume_ok w N" unfolding w using volume.ok_wr ok vi(1) .
  have get: "fat_get w c = fat_get v c" if "valid_cluster N c" for c
    unfolding w by (rule volume.get_wr [OF ok vi(1) that])
  have "cluster_bytes w d = cluster_bytes v d"
    unfolding w using volume.rd_wr [OF ok vi(1) d(1) i(2)] vi(2) by simp
  then have e: "entry w a = entry v a" by (rule entry_same [OF sh _ d(3)])
  have "file_chain N w cs"
    using cs(1) chain_cong [of cs "fat_get w" "fat_get v"] get by (simp add: file_chain_def)
  then show "file_home N w a d cs"
    using okw d e cs(2) get [OF d(1)] cluster_entries_header [OF sh, of d] i(1) by (auto simp: file_home_def)
  show "cluster_size w = cluster_size v" by (rule same_header_eqs(4) [OF sh])
  show "free_clusters 2 N w = free_clusters 2 N v" using get by (intro free_cong [OF ok]) auto
  have "\<forall>c\<in>set cs. valid_cluster N c" using cs(1) by (simp add: file_chain_def)
  then show "volume.content w cs = take (i * cluster_size v + off) (volume.content v cs) @ bs
      @ drop (i * cluster_size v + off + length bs) (volume.content v cs)"
    unfolding w using volume.content_wr [OF ok _ file_chain_distinct [OF ok cs(1)] i] by blast
qed


lemma write_at_bound: "write_at v cs fd \<Longrightarrow> wr_off fd \<le> length cs * cluster_size v"
proof -
  assume "write_at v cs fd"
  moreover have "i * B + off \<le> length cs * B" if "i < length cs" "off \<le> B" for i off B
    using that mult_le_mono1 [of "Suc i" "length cs" B] by simp
  ultimately show ?thesis by (auto simp: write_at_def)
qed

lemma Write_run:
  assumes h: "file_home N v (fat_entry fd) d cs" and at: "write_at v cs fd" and n: "0 < n"
    and fits: "n \<le> (if wr_cluster_off fd = cluster_size v then cluster_size v else cluster_size v - wr_cluster_off fd)"
    and room: "wr_off fd + n \<le> (length cs + length (free_clusters 2 N v)) * cluster_size v"
    and size: "wr_off fd + n < 2 ^ 32"
  shows "\<exists>fd' v' cs'. Write buf n fd v = Some (n, fd', v') \<and> file_home N v' (fat_entry fd) d cs'
    \<and> fat_entry fd' = fat_entry fd \<and> wr_off fd' = wr_off fd + n
    \<and> wr_cluster_off fd' = (if wr_cluster_off fd = cluster_size v then 0 else wr_cluster_off fd) + n
    \<and> write_at v' cs' fd' \<and> cluster_size v' = cluster_size v
    \<and> length cs' + length (free_clusters 2 N v') = length cs + length (free_clusters 2 N v)
    \<and> unat (file_size (entry v' (fat_entry fd))) = wr_off fd + n \<and> wr_off fd + n \<le> length cs' * cluster_size v
    \<and> take (wr_off fd + n) (volume.content v' cs') = take (wr_off fd) (volume.content v cs) @ bytes buf 0 n"
proof -
  let ?a = "fat_entry fd" and ?B = "cluster_size v" and ?k = "wr_off fd"
  from fits have nB: "n \<le> ?B" by (auto split: if_splits)
  from first_write_run [OF h at refl n nB room] obtain i1 v1 cs1 where
    f: "first_write_cluster n fd v = Some (cs1 ! i1, v1)" and g1: "grown_to N v ?a d cs v1 cs1"
    and i1: "i1 < length cs1" "?k = i1 * ?B + wr_cluster_off fd" "wr_cluster_off fd \<le> ?B" by blast
  from g1 have h1: "file_home N v1 ?a d cs1" and B1: "cluster_size v1 = ?B" by (auto simp: grown_to_def)
  have "?k + n \<le> (length cs1 + length (free_clusters 2 N v1)) * ?B" using room g1 by (simp add: grown_to_def)
  from next_write_run [OF h1 i1(1), of "wr_cluster_off fd" ?k n] i1 B1 n nB this obtain i2 off v2 cs2 where
    x: "next_write_cluster n (cs1 ! i1) (wr_cluster_off fd) v1 = Some (cs2 ! i2, off, v2)"
    and g2: "grown_to N v1 ?a d cs1 v2 cs2" and i2: "i2 < length cs2" "?k = i2 * ?B + off"
      "off = (if wr_cluster_off fd = ?B then 0 else wr_cluster_off fd)" by auto
  have g: "grown_to N v ?a d cs v2 cs2" by (rule grown_to_trans [OF g1 g2])
  then have h2: "file_home N v2 ?a d cs2" and B2: "cluster_size v2 = ?B" by (auto simp: grown_to_def)
  have on: "off + n \<le> ?B" using fits i2(3) i1(3) by (auto split: if_splits)
  let ?bs = "bytes buf 0 n"
  define v3 where "v3 = store (GetSectorByCluster v2 (cs2 ! i2) + off) ?bs v2"
  have "off + length ?bs \<le> cluster_size v2" using on B2 by simp
  note S = store_run [OF h2 i2(1) this, folded v3_def]
  have "sub64 (unat (bytes_per_cluster v2)) off = ?B - off" using on B2 by (simp add: cluster_size_def)
  then have "min n (sub64 (unat (bytes_per_cluster v2)) off) = n" using on by simp
  then have loop: "write_loop buf n 0 (cs1 ! i1) (wr_cluster_off fd) v1 = Some (n, cs2 ! i2, off + n, v3)"
    using n x by (subst write_loop.simps) (simp add: Let_def v3_def [symmetric] write_loop.simps [of buf n n])
  define v4 where "v4 = set_file_size ?a (of_nat (?k + n)) v3"
  note Z = file_home_set_size [OF S(1), of "of_nat (?k + n)", folded v4_def]
  let ?fd = "fd\<lparr>wr_off := ?k + n, wr_cluster := cs2 ! i2, wr_cluster_off := off + n\<rparr>"
  have w: "Write buf n fd v = Some (n, ?fd, v4)" using f loop by (simp add: Write_def v4_def)
  have free: "free_clusters 2 N v4 = free_clusters 2 N v2"
  proof -
    from S(1) have "volume_ok v3 N" "valid_cluster N d" "?a \<in> set (cluster_entries v3 d)" by (auto simp: file_home_def)
    from entry_store_frame [OF this, of 28 "bytes32 (of_nat (?k + n))"]
    have "\<forall>c. valid_cluster N c \<longrightarrow> fat_get v4 c = fat_get v3 c"
      by (simp add: v4_def set_file_size_store bytes32_def layout)
    with free_cong [OF \<open>volume_ok v3 N\<close>] S(3) show ?thesis by simp
  qed
  have szs: "unat (file_size (entry v4 ?a)) = ?k + n"
    using Z(3) size unat_of_nat_u32 [of "?k + n"] by simp
  have at': "write_at v4 cs2 ?fd"
    unfolding write_at_def using i2 on Z(4) S(2) B2 by (intro disjI2 exI [of _ i2]) simp
  have len2: "length (volume.content v2 cs2) = length cs2 * ?B" using volume.length_content [of v2 cs2] B2 by simp
  have "(i2 + 1) * ?B \<le> length cs2 * ?B" using i2(1) by (intro mult_le_mono1) simp
  then have kn: "?k + n \<le> length cs2 * ?B" using i2(2) on by simp
  have "take (?k + n) (volume.content v4 cs2) = take ?k (volume.content v2 cs2) @ ?bs"
    using S(4) B2 i2(2) Z(2) len2 kn by simp
  moreover have "take ?k (volume.content v2 cs2) = take ?k (volume.content v cs)"
  proof -
    from g obtain ps where ps: "cs2 = cs @ ps" "volume.content v2 cs = volume.content v cs" by (auto simp: grown_to_def)
    have "?k \<le> length (volume.content v cs)"
      using write_at_bound [OF at] volume.length_content [of v cs] by simp
    with ps show ?thesis by simp
  qed
  ultimately show ?thesis using w Z(1,4) at' S(2) B2 free g szs kn i2(3)
    by (intro exI [of _ ?fd] exI [of _ v4] exI [of _ cs2]) (simp add: grown_to_def)
qed


section \<open>Sequences of calls\<close>

fun read_all :: "nat list \<Rightarrow> FatFileDescriptor \<Rightarrow> Volume \<Rightarrow> u8 list option" where
  "read_all [] fd v = Some []"
| "read_all (n # ns) fd v = Option.bind (Read n fd v) (\<lambda>(bs, fd'). map_option (\<lambda>cs. bs @ cs) (read_all ns fd' v))"

fun write_all :: "(memory \<times> nat) list \<Rightarrow> FatFileDescriptor \<Rightarrow> Volume \<Rightarrow> (FatFileDescriptor \<times> Volume) option" where
  "write_all [] fd v = Some (fd, v)"
| "write_all ((buf, n) # ws) fd v = Option.bind (Write buf n fd v) (\<lambda>(r, fd', v'). write_all ws fd' v')"

text \<open>No write crosses the end of a cluster of \<open>B\<close> bytes; the first one starts at \<open>off\<close>.\<close>

fun within_clusters :: "nat \<Rightarrow> nat \<Rightarrow> nat list \<Rightarrow> bool" where
  "within_clusters B off [] \<longleftrightarrow> True"
| "within_clusters B off (n # ns) \<longleftrightarrow>
     0 < n \<and> n \<le> (if off = B then B else B - off) \<and> within_clusters B ((if off = B then 0 else off) + n) ns"

abbreviation written :: "(memory \<times> nat) list \<Rightarrow> u8 list" where
  "written ws \<equiv> concat (map (\<lambda>(buf, n). bytes buf 0 n) ws)"

lemma take_drop_rest: "take n xs @ take m (drop (length (take n xs)) xs) = take (n + m) xs"
  by (cases "n \<le> length xs") (simp_all add: take_add)

lemma read_all_run:
  assumes "volume_ok v N" and "file_at N v (fat_entry fd) cs" and "read_at v cs fd"
  shows "read_all ns fd v = Some (take (sum_list ns) (drop (rd_off fd) (file_data v (fat_entry fd) cs)))"
  using assms(2,3)
proof (induction ns arbitrary: fd)
  case (Cons n ns)
  let ?d = "file_data v (fat_entry fd) cs" and ?k = "rd_off fd"
  from Read_run [OF assms(1) Cons.prems, of n] obtain fd' where
    r: "Read n fd v = Some (take n (drop ?k ?d), fd')" "read_at v cs fd'" "fat_entry fd' = fat_entry fd"
      "rd_off fd' = ?k + length (take n (drop ?k ?d))" by blast
  from Cons.IH [of fd'] r Cons.prems
  have "read_all ns fd' v = Some (take (sum_list ns) (drop (?k + length (take n (drop ?k ?d))) ?d))" by simp
  moreover have "take n (drop ?k ?d) @ take m (drop (?k + length (take n (drop ?k ?d))) ?d) = take (n + m) (drop ?k ?d)" for m
    using take_drop_rest [of n "drop ?k ?d" m] by (simp add: add.commute)
  ultimately show ?case using r(1) by simp
qed simp

lemma write_all_run:
  assumes "file_home N v (fat_entry fd) d cs" and "write_at v cs fd" and "ws \<noteq> []"
    and "within_clusters (cluster_size v) (wr_cluster_off fd) (map snd ws)"
    and "wr_off fd + sum_list (map snd ws) \<le> (length cs + length (free_clusters 2 N v)) * cluster_size v"
    and "wr_off fd + sum_list (map snd ws) < 2 ^ 32"
  shows "\<exists>fd' v' cs'. write_all ws fd v = Some (fd', v') \<and> file_home N v' (fat_entry fd) d cs'
    \<and> unat (file_size (entry v' (fat_entry fd))) \<le> length cs' * cluster_size v'
    \<and> file_data v' (fat_entry fd) cs' = take (wr_off fd) (volume.content v cs) @ written ws"
  using assms
proof (induction ws arbitrary: fd v cs)
  case (Cons w ws)
  obtain buf n where w: "w = (buf, n)" by (cases w)
  have fits: "0 < n" "n \<le> (if wr_cluster_off fd = cluster_size v then cluster_size v else cluster_size v - wr_cluster_off fd)"
    using Cons.prems(4) w by (auto split: if_splits)
  have "wr_off fd + n \<le> (length cs + length (free_clusters 2 N v)) * cluster_size v" "wr_off fd + n < 2 ^ 32"
    using Cons.prems(5,6) w by simp_all
  from Write_run [OF Cons.prems(1,2) fits this, of buf] obtain fd1 v1 cs1 where
    r: "Write buf n fd v = Some (n, fd1, v1)" "file_home N v1 (fat_entry fd) d cs1" "fat_entry fd1 = fat_entry fd"
      "wr_off fd1 = wr_off fd + n"
      "wr_cluster_off fd1 = (if wr_cluster_off fd = cluster_size v then 0 else wr_cluster_off fd) + n"
      "write_at v1 cs1 fd1" "cluster_size v1 = cluster_size v"
      "length cs1 + length (free_clusters 2 N v1) = length cs + length (free_clusters 2 N v)"
      "unat (file_size (entry v1 (fat_entry fd))) = wr_off fd + n" "wr_off fd + n \<le> length cs1 * cluster_size v"
      "take (wr_off fd + n) (volume.content v1 cs1) = take (wr_off fd) (volume.content v cs) @ bytes buf 0 n" by blast
  show ?case
  proof (cases "ws = []")
    case True
    with r w show ?thesis by (intro exI [of _ fd1] exI [of _ v1] exI [of _ cs1]) (simp add: file_data_def)
  next
    case False
    from Cons.IH [of v1 fd1 cs1] r False Cons.prems(4-6) w obtain fd' v' cs' where
      "write_all ws fd1 v1 = Some (fd', v')" "file_home N v' (fat_entry fd) d cs'"
      "unat (file_size (entry v' (fat_entry fd))) \<le> length cs' * cluster_size v'"
      "file_data v' (fat_entry fd) cs' = take (wr_off fd + n) (volume.content v1 cs1) @ written ws"
      by (auto simp: add.assoc split: if_splits)
    with r w show ?thesis by (intro exI [of _ fd'] exI [of _ v'] exI [of _ cs']) simp
  qed
qed simp

lemma file_home_at: "file_home N v a d cs \<Longrightarrow> unat (file_size (entry v a)) \<le> length cs * cluster_size v \<Longrightarrow> file_at N v a cs"
  by (auto simp: file_home_def file_at_def)

lemma fresh_descriptor: "read_at v cs (new_FatFileDescriptor a)" "write_at v cs (new_FatFileDescriptor a)"
  "fat_entry (new_FatFileDescriptor a) = a" "rd_off (new_FatFileDescriptor a) = 0" "wr_off (new_FatFileDescriptor a) = 0"
  "wr_cluster_off (new_FatFileDescriptor a) = 0"
  by (simp_all add: read_at_def write_at_def new_FatFileDescriptor_def)


section \<open>Properties\<close>

text \<open>
  C38. Reading a file: successive calls of \<open>Read\<close> on a new descriptor, with any lengths, end and return the
  bytes of the file in order, each once, and nothing behind its end.
\<close>

theorem Read_sequence:
  assumes "volume_ok v N" and "file_at N v a cs"
  shows "read_all ns (new_FatFileDescriptor a) v = Some (take (sum_list ns) (file_data v a cs))"
  using read_all_run [of v N "new_FatFileDescriptor a" cs ns] assms by (simp add: fresh_descriptor)

lemma sample_entry: "FirstCluster (entry sample_volume 128) = 3" "file_size (entry sample_volume 128) = 40"
  by (simp_all add: FirstCluster_def entry_def read_entry_def sample_geometry le16_def le32_def sample_memory_def)

lemma sample_file: "file_at 8 sample_volume 128 [3, 4]"
  using sample_chain by (simp add: file_at_def sample_entry sample_geometry)

lemma sample_sectors: "GetSectorByCluster sample_volume 3 = 160" "GetSectorByCluster sample_volume 4 = 192"
  by (simp_all add: GetSectorByCluster_def GetClusterAddr_def Let_def sample_geometry sample_BPB)

lemma sample_data: "file_data sample_volume 128 [3, 4] = map of_nat [0..<40]"
proof -
  have c: "cluster_bytes sample_volume 3 = map of_nat [0..<32]" "cluster_bytes sample_volume 4 = map of_nat [32..<64]"
    unfolding cluster_bytes_def sample_sectors sample_geometry bytes_def
    by (rule nth_equalityI, simp, simp add: sample_memory_def del: upt_rec_numeral)+
  have "[0..<64] = [0..<32] @ [32..<64]" using upt_add_eq_append [of 0 32 32] by (simp del: upt_rec_numeral)
  then have "volume.content sample_volume [3, 4] = map of_nat [0..<64]" using c by simp
  then show ?thesis by (simp add: file_data_def sample_entry take_map take_upt)
qed

theorem Read_sequence_witness:
  "read_all [10, 25, 20] (new_FatFileDescriptor 128) sample_volume = Some (map of_nat [0..<40])"
  using Read_sequence [OF sample_ok sample_file, of "[10, 25, 20]"] sample_data by simp

text \<open>
  Loading a program: \<open>LoadFile\<close> with the size of the file copies exactly its bytes and returns the size.
\<close>

theorem LoadFile_contents:
  assumes "volume_ok v N" and "file_at N v a cs"
  shows "LoadFile (unat (file_size (entry v a))) v (entry v a) = Some (file_data v a cs, unat (file_size (entry v a)))"
  using LoadFile_run [OF assms] assms(2) volume.length_content [of v cs] by (simp add: file_data_def file_at_def min_def)

theorem LoadFile_contents_witness: "LoadFile 40 sample_volume (entry sample_volume 128) = Some (map of_nat [0..<40], 40)"
  using LoadFile_contents [OF sample_ok sample_file] sample_data by (simp add: sample_entry)


text \<open>The sample volume with the file emptied and its clusters freed.\<close>

definition empty_file_volume :: Volume where
  "empty_file_volume = sample_volume\<lparr>image := sample_memory(108 := 0, 112 := 0, 113 := 0, 114 := 0, 115 := 0, 154 := 0, 156 := 0)\<rparr>"

lemma empty_header: "same_header sample_volume empty_file_volume"
  by (rule same_header_image) (simp_all add: empty_file_volume_def sample_geometry layout)

lemma empty_fat:
  "fat_get empty_file_volume 2 = kEndOfClusterchain" "fat_get empty_file_volume 3 = 0" "fat_get empty_file_volume 4 = 0"
  "fat_get empty_file_volume 5 = 0" "fat_get empty_file_volume 6 = 0" "fat_get empty_file_volume 7 = 0"
  unfolding fat_get_def same_header_eqs [OF empty_header] sample_geometry
  by (simp_all add: empty_file_volume_def le32_def le16_def sample_memory_def kEndOfClusterchain_def)

lemma empty_home: "file_home 8 empty_file_volume 128 2 []"
proof -
  have "128 \<in> set (cluster_entries sample_volume 2)" using sample_dir by (simp add: dir_entries_def)
  moreover have "FirstCluster (entry empty_file_volume 128) = 0"
    by (simp add: FirstCluster_def entry_def read_entry_def le16_def empty_file_volume_def sample_memory_def)
  ultimately show ?thesis
    by (simp add: file_home_def same_header_eqs [OF empty_header] sample_ok valid_cluster_def empty_fat
        cluster_entries_header [OF empty_header])
qed

lemma empty_free: "free_clusters 2 8 empty_file_volume = [3, 4, 5, 6, 7]"
proof -
  have "[2..<8] = [2, 3, 4, 5, 6, 7::nat]" by (simp add: upt_conv_Cons)
  then show ?thesis by (simp add: free_clusters_def empty_fat)
qed



text \<open>
  A write that crosses the end of a cluster copies too much: with \<open>r\<close> bytes left in the cluster and a
  length \<open>n\<close> of at most one cluster, \<open>Write\<close> reads \<open>n + r\<close> bytes of the caller's buffer, returns \<open>n + r\<close> and makes the
  file that much longer (the second piece is again of \<open>min(len, ...)\<close> bytes).
\<close>

theorem Write_overrun:
  assumes "volume_ok v N" and "wr_cluster fd \<noteq> 0" and "valid_cluster N (wr_cluster fd)"
    and "valid_cluster N (NextCluster v (wr_cluster fd))"
    and "0 < wr_cluster_off fd" and "r = cluster_size v - wr_cluster_off fd" and "0 < r" and "r < n" and "n < cluster_size v"
  shows "\<exists>fd' v'. Write buf n fd v = Some (n + r, fd', v')
    \<and> file_size (entry v' (fat_entry fd)) = of_nat (wr_off fd + (n + r))"
proof -
  let ?c = "wr_cluster fd" and ?off = "wr_cluster_off fd" and ?d = "NextCluster v (wr_cluster fd)"
  define v1 where "v1 = store (GetSectorByCluster v ?c + ?off) (bytes buf 0 r) v"
  have sh: "same_header v v1" unfolding v1_def by (rule same_header_store [OF assms(1,3)])
  have next1: "NextCluster v1 ?c = ?d"
    using fat_get_store [OF assms(1,3,3)] by (simp add: NextCluster_def v1_def)
  have "?d \<noteq> kEndOfClusterchain" using valid_not_mark [OF assms(1,4)] .
  then have n1: "next_write_cluster (n - r) ?c (?off + r) v1 = Some (?d, 0, v1)"
    using assms(6,7) next1 same_header_eqs(4) [OF sh] by (simp add: next_write_cluster_def cluster_size_def)
  have B: "sub64 (unat (bytes_per_cluster v)) ?off = r" "unat (bytes_per_cluster v1) = cluster_size v"
    using assms(6,7) same_header_eqs(4) [OF sh] by (simp_all add: cluster_size_def)
  define v2 where "v2 = store (GetSectorByCluster v1 ?d + 0) (bytes buf r n) v1"
  have "write_loop buf n r ?c (?off + r) v1 = Some (r + n, ?d, n, v2)"
    using n1 assms(8,9) B(2)
    by (subst write_loop.simps) (simp add: Let_def v2_def write_loop.simps [of buf n "r + n"])
  moreover have "write_loop buf n 0 ?c ?off v = write_loop buf n r ?c (?off + r) v1"
    using assms(6-8) B(1)
    by (subst write_loop.simps) (simp add: Let_def v1_def next_write_cluster_def cluster_size_def)
  ultimately have "write_loop buf n 0 ?c ?off v = Some (n + r, ?d, n, v2)" by (simp add: add.commute)
  then show ?thesis
    using assms(2) by (simp add: Write_def first_write_cluster_def entry_def read_entry_def set_file_size_def)
qed

definition crossing_descriptor :: FatFileDescriptor where
  "crossing_descriptor = (new_FatFileDescriptor 128)\<lparr>wr_off := 30, wr_cluster := 3, wr_cluster_off := 30\<rparr>"

theorem Write_overrun_witness:
  "\<exists>fd' v'. Write (\<lambda>_. 0) 10 crossing_descriptor sample_volume = Some (12, fd', v') \<and> file_size (entry v' 128) = 42"
proof -
  have d: "wr_cluster crossing_descriptor = 3" "wr_cluster_off crossing_descriptor = 30" "wr_off crossing_descriptor = 30"
    "fat_entry crossing_descriptor = 128"
    by (simp_all add: crossing_descriptor_def new_FatFileDescriptor_def)
  have n: "NextCluster sample_volume 3 = 4" by (simp add: NextCluster_def sample_fat)
  have "\<exists>fd' v'. Write (\<lambda>_. 0) 10 crossing_descriptor sample_volume = Some (10 + 2, fd', v')
    \<and> file_size (entry v' (fat_entry crossing_descriptor)) = of_nat (wr_off crossing_descriptor + (10 + 2))"
    by (rule Write_overrun [OF sample_ok]) (simp_all add: d n valid_cluster_def sample_geometry)
  then show ?thesis by (simp add: d)
qed

text \<open>
  A descriptor that has read past the end its file has now (the same descriptor's \<open>Write\<close> sets the size to
  what it has written) reads on: the difference of size and position wraps around, and \<open>Read\<close> returns the
  bytes of the clusters behind the end.
\<close>

theorem Read_beyond_end:
  assumes "volume_ok v N" and "file_chain N v cs" and "rd_off fd > unat (file_size (entry v (fat_entry fd)))"
    and "rd_cluster fd = cluster_at cs (rd_off fd div cluster_size v)" and "rd_cluster_off fd = rd_off fd mod cluster_size v"
    and "rd_off fd + n \<le> length cs * cluster_size v" and "rd_off fd + n \<le> 2 ^ 64"
  shows "\<exists>fd'. Read n fd v = Some (take n (drop (rd_off fd) (volume.content v cs)), fd')"
proof -
  have "rd_cluster fd \<noteq> 0" using cluster_at_nonzero [OF assms(1,2)] assms(4) by simp
  moreover have "min n (sub64 (unat (file_size (entry v (fat_entry fd)))) (rd_off fd)) = n"
    using assms(3,7) by (simp add: sub64_def min_def)
  ultimately show ?thesis
    using read_loop_run [OF assms(1,2), of "rd_off fd" n 0 "[]"] assms(4-6) by (simp add: Read_def Let_def)
qed

definition ahead_descriptor :: FatFileDescriptor where
  "ahead_descriptor = (new_FatFileDescriptor 128)\<lparr>rd_off := 50, rd_cluster := 4, rd_cluster_off := 18\<rparr>"

theorem Read_beyond_end_witness:
  "\<exists>fd' bs. Read 8 ahead_descriptor sample_volume = Some (bs, fd') \<and> length bs = 8"
proof -
  have "unat (file_size (entry sample_volume (fat_entry ahead_descriptor))) < rd_off ahead_descriptor"
    by (simp add: ahead_descriptor_def new_FatFileDescriptor_def sample_entry)
  from Read_beyond_end [OF sample_ok sample_chain this, of 8]
  have "\<exists>fd'. Read 8 ahead_descriptor sample_volume = Some (take 8 (drop 50 (volume.content sample_volume [3, 4])), fd')"
    by (simp add: ahead_descriptor_def new_FatFileDescriptor_def cluster_at_def sample_geometry)
  moreover have "length (take 8 (drop 50 (volume.content sample_volume [3, 4]))) = 8"
    using volume.length_content [of sample_volume "[3, 4]"] by (simp add: sample_geometry)
  ultimately show ?thesis by blast
qed

end
