(* ===== verification/Descriptors.thy ===== *)
theory Descriptors
  imports Tasks FrameAllocator ByteMemory
begin

text \<open>
  \<^verbatim>\<open>kernel/segment.hpp\<close>, \<^verbatim>\<open>kernel/segment.cpp\<close>, \<^verbatim>\<open>kernel/x86_descriptor.hpp\<close> and the descriptor part of
  \<^verbatim>\<open>kernel/interrupt.hpp\<close> and \<^verbatim>\<open>kernel/interrupt.cpp\<close>: segment descriptors, the task state segment, interrupt
  gates and the table of interrupt handlers.  A packed bit field is a range of bits of the word that holds
  it.
\<close>

section \<open>Segment descriptors\<close>

type_synonym SegmentDescriptor = u64

datatype DescriptorType = kTSSAvailable | kInterruptGate | kReadWrite | kExecuteRead

fun type_value :: "DescriptorType \<Rightarrow> u64" where
  "type_value kTSSAvailable = 9"
| "type_value kInterruptGate = 14"
| "type_value kReadWrite = 2"
| "type_value kExecuteRead = 10"

definition SetCodeSegment :: "DescriptorType \<Rightarrow> u32 \<Rightarrow> u32 \<Rightarrow> u32 \<Rightarrow> SegmentDescriptor" where
  "SetCodeSegment ty dpl base limit =
     (let d0 = 0;
          d1 = set_field 16 16 (ucast (base AND 0xffff)) d0;
          d2 = set_field 32 8 (ucast (drop_bit 16 base AND 0xff)) d1;
          d3 = set_field 56 8 (ucast (drop_bit 24 base AND 0xff)) d2;
          d4 = set_field 0 16 (ucast (limit AND 0xffff)) d3;
          d5 = set_field 48 4 (ucast (drop_bit 16 limit AND 0xf)) d4;
          d6 = set_field 40 4 (type_value ty) d5;
          d7 = set_field 44 1 1 d6;
          d8 = set_field 45 2 (ucast dpl) d7;
          d9 = set_field 47 1 1 d8;
          d10 = set_field 52 1 0 d9;
          d11 = set_field 53 1 1 d10;
          d12 = set_field 54 1 0 d11
      in set_field 55 1 1 d12)"

definition SetDataSegment :: "DescriptorType \<Rightarrow> u32 \<Rightarrow> u32 \<Rightarrow> u32 \<Rightarrow> SegmentDescriptor" where
  "SetDataSegment ty dpl base limit = set_field 54 1 1 (set_field 53 1 0 (SetCodeSegment ty dpl base limit))"

definition SetSystemSegment :: "DescriptorType \<Rightarrow> u32 \<Rightarrow> u32 \<Rightarrow> u32 \<Rightarrow> SegmentDescriptor" where
  "SetSystemSegment ty dpl base limit = set_field 53 1 0 (set_field 44 1 0 (SetCodeSegment ty dpl base limit))"

text \<open>What the processor reads from a descriptor: its base address and its limit in bytes.\<close>

definition seg_base :: "SegmentDescriptor \<Rightarrow> u64" where
  "seg_base d = get_field 16 16 d OR push_bit 16 (get_field 32 8 d) OR push_bit 24 (get_field 56 8 d)"

definition seg_limit :: "SegmentDescriptor \<Rightarrow> u64" where
  "seg_limit d = get_field 0 16 d OR push_bit 16 (get_field 48 4 d)"

definition seg_bytes :: "SegmentDescriptor \<Rightarrow> nat" where
  "seg_bytes d = (unat (seg_limit d) + 1) * (if get_field 55 1 d = 1 then 4096 else 1)"


section \<open>The tables\<close>

definition kKernelDS :: u16 where [layout]: "kKernelDS = 0"
definition kUserSS :: u16 where [layout]: "kUserSS = push_bit 3 3"
definition kUserCS :: u16 where [layout]: "kUserCS = push_bit 3 4"
definition kTSS :: u16 where [layout]: "kTSS = push_bit 3 5"
definition kISTForTimer :: nat where [layout]: "kISTForTimer = 1"

text \<open>\<open>tss\<close> has 26 words of 32 bits; \<open>gdtr\<close> and \<open>tr\<close> are what \<open>LoadGDT\<close> and \<open>LoadTR\<close> set.\<close>

record Segmentation =
  gdt :: "SegmentDescriptor list"
  tss :: "u32 list"
  gdtr_limit :: nat
  tr :: u16

definition blank_segmentation :: Segmentation where
  "blank_segmentation = \<lparr>gdt = replicate 7 0, tss = replicate 26 0, gdtr_limit = 0, tr = 0\<rparr>"

definition SetupSegments :: "Segmentation \<Rightarrow> Segmentation" where
  "SetupSegments s =
     s\<lparr>gdt := (gdt s)[0 := 0,
                       1 := SetCodeSegment kExecuteRead 0 0 0xfffff,
                       2 := SetDataSegment kReadWrite 0 0 0xfffff,
                       3 := SetDataSegment kReadWrite 3 0 0xfffff,
                       4 := SetCodeSegment kExecuteRead 3 0 0xfffff],
       gdtr_limit := 8 * length (gdt s) - 1\<rparr>"

definition SetTSS :: "nat \<Rightarrow> u64 \<Rightarrow> Segmentation \<Rightarrow> Segmentation" where
  "SetTSS index x s = s\<lparr>tss := (tss s)[index := ucast (x AND 0xffffffff), index + 1 := ucast (drop_bit 32 x)]\<rparr>"

text \<open>\<open>AllocateStackArea\<close> returns the end of the area; a failure ends in \<open>exit(1)\<close>, which never returns.\<close>

definition AllocateStackArea :: "nat \<Rightarrow> BitmapMemoryManager \<Rightarrow> (BitmapMemoryManager \<times> u64) option" where
  "AllocateStackArea num_4kframes m =
     (case Allocate m num_4kframes of
        Some (Inr (m', frame)) \<Rightarrow>
          Some (m', of_nat (frame * kBytesPerFrame) + of_nat (num_4kframes * kBytesPerFrame))
      | _ \<Rightarrow> None)"

definition InitializeTSS :: "u64 \<Rightarrow> BitmapMemoryManager \<Rightarrow> Segmentation \<Rightarrow> (BitmapMemoryManager \<times> Segmentation) option" where
  "InitializeTSS tss_addr m s =
     Option.bind (AllocateStackArea 8 m) (\<lambda>(m1, rsp0).
     Option.bind (AllocateStackArea 8 m1) (\<lambda>(m2, ist).
       let s1 = SetTSS (7 + 2 * kISTForTimer) ist (SetTSS 1 rsp0 s)
       in Some (m2, s1\<lparr>gdt := (gdt s1)[5 := SetSystemSegment kTSSAvailable 0 (ucast (tss_addr AND 0xffffffff))
                                            (of_nat (4 * length (tss s1) - 1)),
                                        6 := drop_bit 32 tss_addr],
                       tr := kTSS\<rparr>)))"

section \<open>Interrupt gates\<close>

record InterruptDescriptor =
  offset_low :: u16
  segment_selector :: u16
  idt_attr :: u16
  offset_middle :: u16
  offset_high :: u32
  idt_reserved :: u32

definition blank_gate :: InterruptDescriptor where
  "blank_gate = \<lparr>offset_low = 0, segment_selector = 0, idt_attr = 0, offset_middle = 0, offset_high = 0, idt_reserved = 0\<rparr>"

definition MakeIDTAttr :: "DescriptorType \<Rightarrow> u8 \<Rightarrow> bool \<Rightarrow> u8 \<Rightarrow> u16" where
  "MakeIDTAttr ty dpl present ist =
     set_field 15 1 (of_bool present) (set_field 13 2 (ucast dpl) (set_field 8 4 (ucast (type_value ty)) (set_field 0 3 (ucast ist) 0)))"

definition SetIDTEntry :: "u16 \<Rightarrow> u64 \<Rightarrow> u16 \<Rightarrow> InterruptDescriptor \<Rightarrow> InterruptDescriptor" where
  "SetIDTEntry at offset selector desc =
     desc\<lparr>idt_attr := at, offset_low := ucast (offset AND 0xffff), offset_middle := ucast (drop_bit 16 offset AND 0xffff),
          offset_high := ucast (drop_bit 32 offset), segment_selector := selector\<rparr>"

text \<open>The handlers by their names in the source.\<close>

datatype Handler =
    IntHandlerDE | IntHandlerDB | IntHandlerDP | IntHandlerOF | IntHandlerBR | IntHandlerUD | IntHandlerNM
  | IntHandlerDF | IntHandlerTS | IntHandlerNP | IntHandlerSS | IntHandlerGP | IntHandlerPF | IntHandlerMF
  | IntHandlerAC | IntHandlerMC | IntHandlerXM | IntHandlerVE | IntHandlerKeyboard | IntHandlerLAPICTimer

definition kKeyboard :: nat where [layout]: "kKeyboard = 0x21"
definition kLAPICTimer :: nat where [layout]: "kLAPICTimer = 0x41"

text \<open>The calls of \<open>set_idt_entry\<close> in \<open>InitializeInterrupt\<close>.\<close>

definition idt_entries :: "(nat \<times> Handler) list" where
  "idt_entries =
     [(kKeyboard, IntHandlerKeyboard), (kLAPICTimer, IntHandlerLAPICTimer),
      (0, IntHandlerDE), (1, IntHandlerDB), (3, IntHandlerDP), (4, IntHandlerOF), (5, IntHandlerBR), (6, IntHandlerUD),
      (7, IntHandlerNM), (8, IntHandlerDF), (10, IntHandlerTS), (11, IntHandlerNP), (13, IntHandlerSS), (14, IntHandlerGP),
      (15, IntHandlerPF), (16, IntHandlerMF), (17, IntHandlerAC), (18, IntHandlerMC), (19, IntHandlerXM), (20, IntHandlerVE)]"

definition set_idt_entry :: "(Handler \<Rightarrow> u64) \<Rightarrow> nat \<times> Handler \<Rightarrow> InterruptDescriptor list \<Rightarrow> InterruptDescriptor list" where
  "set_idt_entry addr = (\<lambda>(irq, handler) idt.
     idt[irq := SetIDTEntry (MakeIDTAttr kInterruptGate 0 True (of_nat kISTForTimer)) (addr handler) kKernelCS (idt ! irq)])"

definition install_handlers :: "(Handler \<Rightarrow> u64) \<Rightarrow> InterruptDescriptor list \<Rightarrow> InterruptDescriptor list" where
  "install_handlers addr idt = fold (set_idt_entry addr) idt_entries idt"

text \<open>Where the processor goes for a gate.\<close>

definition gate_target :: "InterruptDescriptor \<Rightarrow> u64" where
  "gate_target d = ucast (offset_low d) OR push_bit 16 (ucast (offset_middle d)) OR push_bit 32 (ucast (offset_high d))"

definition gate_present :: "InterruptDescriptor \<Rightarrow> bool" where
  "gate_present d \<longleftrightarrow> get_field 15 1 (idt_attr d) = 1"

section \<open>Lemmas\<close>

lemma join_offset:
  "ucast (ucast (x AND mask 16) :: u16) OR push_bit 16 (ucast (ucast (drop_bit 16 x AND mask 16) :: u16))
     OR push_bit 32 (ucast (ucast (drop_bit 32 x) :: u32)) = (x :: u64)"
proof (rule bit_word_eqI)
  fix n :: nat assume "n < LENGTH(64)"
  then consider "n < 16" | "16 \<le> n" "n < 32" | "32 \<le> n" "n < 64" by fastforce
  then show "bit (ucast (ucast (x AND mask 16) :: u16) OR push_bit 16 (ucast (ucast (drop_bit 16 x AND mask 16) :: u16))
     OR push_bit 32 (ucast (ucast (drop_bit 32 x) :: u32)) :: u64) n = bit x n"
    by cases (auto simp: bit_simps)
qed

lemma gate_target_SetIDTEntry: "gate_target (SetIDTEntry at offset sel d) = offset"
proof -
  have m: "(0xffff :: u64) = mask 16" by (simp add: mask_eq_exp_minus_1)
  show ?thesis using join_offset [of offset] by (simp add: gate_target_def SetIDTEntry_def m)
qed

lemma seg_base_code: "seg_base (SetCodeSegment ty dpl base limit) = ucast base"
proof -
  have m: "(0xffff :: u32) = mask 16" "(0xff :: u32) = mask 8" by (simp_all add: mask_eq_exp_minus_1)
  have "seg_base (SetCodeSegment ty dpl base limit) =
    take_bit 16 (ucast (base AND mask 16)) OR push_bit 16 (take_bit 8 (ucast (drop_bit 16 base AND mask 8)))
      OR push_bit 24 (take_bit 8 (ucast (drop_bit 24 base AND mask 8)))"
    by (simp add: seg_base_def SetCodeSegment_def Let_def get_set_same get_set_other m)
  also have "\<dots> = ucast base"
  proof (rule bit_word_eqI)
    fix n :: nat
    consider "n < 16" | "16 \<le> n" "n < 24" | "24 \<le> n" "n < 32" | "32 \<le> n" by linarith
    then show "bit (take_bit 16 (ucast (base AND mask 16)) OR push_bit 16 (take_bit 8 (ucast (drop_bit 16 base AND mask 8)))
      OR push_bit 24 (take_bit 8 (ucast (drop_bit 24 base AND mask 8))) :: u64) n = bit (ucast base :: u64) n"
      by cases (auto simp: bit_simps dest: bit_imp_le_length)
  qed
  finally show ?thesis .
qed

lemma seg_limit_code: "seg_limit (SetCodeSegment ty dpl base limit) = take_bit 20 (ucast limit)"
proof -
  have m: "(0xffff :: u32) = mask 16" "(0xf :: u32) = mask 4" by (simp_all add: mask_eq_exp_minus_1)
  have "seg_limit (SetCodeSegment ty dpl base limit) =
    take_bit 16 (ucast (limit AND mask 16)) OR push_bit 16 (take_bit 4 (ucast (drop_bit 16 limit AND mask 4)))"
    by (simp add: seg_limit_def SetCodeSegment_def Let_def get_set_same get_set_other m)
  also have "\<dots> = take_bit 20 (ucast limit)"
  proof (rule bit_word_eqI)
    fix n :: nat
    consider "n < 16" | "16 \<le> n" "n < 20" | "20 \<le> n" by linarith
    then show "bit (take_bit 16 (ucast (limit AND mask 16)) OR push_bit 16 (take_bit 4 (ucast (drop_bit 16 limit AND mask 4))) :: u64) n
      = bit (take_bit 20 (ucast limit) :: u64) n"
      by cases (auto simp: bit_simps dest: bit_imp_le_length)
  qed
  finally show ?thesis .
qed


lemma code_fields:
  "get_field 40 4 (SetCodeSegment ty dpl base limit) = type_value ty" "get_field 44 1 (SetCodeSegment ty dpl base limit) = 1"
  "get_field 45 2 (SetCodeSegment ty dpl base limit) = take_bit 2 (ucast dpl)"
  "get_field 47 1 (SetCodeSegment ty dpl base limit) = 1" "get_field 53 1 (SetCodeSegment ty dpl base limit) = 1"
  "get_field 55 1 (SetCodeSegment ty dpl base limit) = 1"
  by (cases ty; simp add: SetCodeSegment_def Let_def get_set_same get_set_other)
     (simp_all add: SetCodeSegment_def Let_def get_set_same get_set_other)

lemma system_fields:
  "seg_base (SetSystemSegment ty dpl base limit) = ucast base"
  "seg_limit (SetSystemSegment ty dpl base limit) = take_bit 20 (ucast limit)"
  "get_field 40 4 (SetSystemSegment ty dpl base limit) = type_value ty" "get_field 44 1 (SetSystemSegment ty dpl base limit) = 0"
  "get_field 47 1 (SetSystemSegment ty dpl base limit) = 1" "get_field 55 1 (SetSystemSegment ty dpl base limit) = 1"
proof -
  note same = get_set_same get_set_other
  show "seg_base (SetSystemSegment ty dpl base limit) = ucast base"
    unfolding seg_base_code [of ty dpl base limit, symmetric] by (simp add: SetSystemSegment_def seg_base_def same)
  show "seg_limit (SetSystemSegment ty dpl base limit) = take_bit 20 (ucast limit)"
    unfolding seg_limit_code [of ty dpl base limit, symmetric] by (simp add: SetSystemSegment_def seg_limit_def same)
  show "get_field 40 4 (SetSystemSegment ty dpl base limit) = type_value ty" "get_field 44 1 (SetSystemSegment ty dpl base limit) = 0"
    "get_field 47 1 (SetSystemSegment ty dpl base limit) = 1" "get_field 55 1 (SetSystemSegment ty dpl base limit) = 1"
    by (simp_all add: SetSystemSegment_def same code_fields del: One_nat_def)
qed

lemma fold_set_idt_other:
  "k \<notin> fst ` set es \<Longrightarrow> fold (set_idt_entry addr) es idt ! k = idt ! k"
  by (induction es arbitrary: idt) (auto simp: set_idt_entry_def)

lemma length_fold_set_idt: "length (fold (set_idt_entry addr) es idt) = length idt"
  by (induction es arbitrary: idt) (auto simp: set_idt_entry_def)

lemma fold_set_idt:
  assumes "distinct (map fst es)" and "(k, h) \<in> set es" and "k < length idt"
  shows "fold (set_idt_entry addr) es idt ! k =
    SetIDTEntry (MakeIDTAttr kInterruptGate 0 True (of_nat kISTForTimer)) (addr h) kKernelCS (idt ! k)"
  using assms
proof (induction es arbitrary: idt)
  case (Cons e es)
  obtain i g where e: "e = (i, g)" by (cases e)
  show ?case
  proof (cases "(k, h) = e")
    case True
    with Cons.prems(1) e have "k \<notin> fst ` set es" by auto
    with fold_set_idt_other [of k es addr "set_idt_entry addr e idt"] True e Cons.prems(3) show ?thesis
      by (simp add: set_idt_entry_def)
  next
    case False
    with Cons.prems have kh: "(k, h) \<in> set es" by simp
    then have "k \<in> fst ` set es" by force
    with Cons.prems(1) e have "k \<noteq> i" by auto
    with Cons.IH [of "set_idt_entry addr e idt"] Cons.prems kh e show ?thesis by (simp add: set_idt_entry_def)
  qed
qed simp

lemma AllocateStackArea_run:
  assumes "AllocateStackArea n m = Some (m', area_end)" and "0 < n"
  shows "\<exists>f. Allocate m n = Some (Inr (m', f)) \<and> unat area_end = (f + n) * kBytesPerFrame \<and> f + n \<le> kFrameCount"
proof -
  from assms(1) obtain f where f: "Allocate m n = Some (Inr (m', f))"
    and area_end: "area_end = of_nat (f * kBytesPerFrame) + of_nat (n * kBytesPerFrame)"
    by (auto simp: AllocateStackArea_def split: option.splits sum.splits)
  from Allocate_success(3) [OF f assms(2)] have b: "f + n \<le> kFrameCount" .
  then have "(f + n) * kBytesPerFrame < 2 ^ 64" by (simp add: layout)
  then have "unat (of_nat ((f + n) * kBytesPerFrame) :: u64) = (f + n) * kBytesPerFrame" by (rule unat_of_nat_u64)
  moreover have "area_end = of_nat ((f + n) * kBytesPerFrame)" using area_end by (simp add: add_mult_distrib)
  ultimately show ?thesis using f b by blast
qed

definition tss_entry :: "Segmentation \<Rightarrow> nat \<Rightarrow> u64" where
  "tss_entry s i = ucast (tss s ! i) OR push_bit 32 (ucast (tss s ! (i + 1)))"

lemma join_halves: "ucast (ucast (x AND 0xffffffff) :: u32) OR push_bit 32 (ucast (ucast (drop_bit 32 x) :: u32)) = (x :: u64)"
proof -
  have m: "(0xffffffff :: u64) = mask 32" by (simp add: mask_eq_exp_minus_1)
  show ?thesis
    unfolding m
  proof (rule bit_word_eqI)
    fix n :: nat assume "n < LENGTH(64)"
    then consider "n < 32" | "32 \<le> n" "n < 64" by fastforce
    then show "bit (ucast (ucast (x AND mask 32) :: u32) OR push_bit 32 (ucast (ucast (drop_bit 32 x) :: u32)) :: u64) n = bit x n"
      by cases (auto simp: bit_simps)
  qed
qed

lemma tss_entry_SetTSS:
  "i + 1 < length (tss s) \<Longrightarrow> tss_entry (SetTSS i x s) i = x"
  "j + 1 < i \<or> i + 1 < j \<Longrightarrow> tss_entry (SetTSS i x s) j = tss_entry s j"
  "length (tss (SetTSS i x s)) = length (tss s)" "gdt (SetTSS i x s) = gdt s"
  using join_halves [of x] by (auto simp: tss_entry_def SetTSS_def)


section \<open>Properties\<close>

text \<open>
  \<open>InitializeInterrupt\<close> fills exactly the listed vectors of the interrupt table: each gate is present,
  leads to the whole 64-bit address of its handler through the kernel code segment with interrupt stack 1;
  every other vector is left as it was.
\<close>

theorem interrupt_gates:
  assumes "length idt = 256"
  shows "(\<forall>(k, h)\<in>set idt_entries.
        gate_present (install_handlers addr idt ! k) \<and> gate_target (install_handlers addr idt ! k) = addr h
        \<and> segment_selector (install_handlers addr idt ! k) = kKernelCS
        \<and> get_field 0 3 (idt_attr (install_handlers addr idt ! k)) = 1)
    \<and> (\<forall>k. k \<notin> fst ` set idt_entries \<longrightarrow> install_handlers addr idt ! k = idt ! k)"
proof -
  have d: "distinct (map fst idt_entries)" by (simp add: idt_entries_def layout)
  have k: "k < length idt" if "(k, h) \<in> set idt_entries" for k h
    using that assms by (auto simp: idt_entries_def layout)
  have attr: "get_field 15 1 (MakeIDTAttr kInterruptGate 0 True (of_nat kISTForTimer)) = 1"
    "get_field 0 3 (MakeIDTAttr kInterruptGate 0 True (of_nat kISTForTimer)) = 1"
    by (simp_all add: MakeIDTAttr_def get_set_same get_set_other layout del: One_nat_def)
  have "gate_present (install_handlers addr idt ! k) \<and> gate_target (install_handlers addr idt ! k) = addr h
      \<and> segment_selector (install_handlers addr idt ! k) = kKernelCS
      \<and> get_field 0 3 (idt_attr (install_handlers addr idt ! k)) = 1" if "(k, h) \<in> set idt_entries" for k h
    unfolding install_handlers_def fold_set_idt [OF d that k [OF that]] gate_target_SetIDTEntry gate_present_def
    by (simp add: SetIDTEntry_def attr del: One_nat_def)
  moreover have "\<forall>k. k \<notin> fst ` set idt_entries \<longrightarrow> install_handlers addr idt ! k = idt ! k"
    by (simp add: install_handlers_def fold_set_idt_other)
  ultimately show ?thesis by blast
qed

theorem interrupt_gates_witness:
  "gate_target (install_handlers (\<lambda>_. 0xffff800000123456) (replicate 256 blank_gate) ! kLAPICTimer) = 0xffff800000123456
   \<and> install_handlers (\<lambda>_. 0xffff800000123456) (replicate 256 blank_gate) ! 2 = blank_gate"
proof -
  have "(kLAPICTimer, IntHandlerLAPICTimer) \<in> set idt_entries" "2 \<notin> fst ` set idt_entries"
    by (simp_all add: idt_entries_def layout)
  moreover have "length (replicate 256 blank_gate) = 256" by simp
  from interrupt_gates [OF this, of "\<lambda>_. 0xffff800000123456"]
  have "\<forall>(k, h)\<in>set idt_entries. gate_target (install_handlers (\<lambda>_. 0xffff800000123456) (replicate 256 blank_gate) ! k) = 0xffff800000123456"
    "\<forall>k. k \<notin> fst ` set idt_entries \<longrightarrow> install_handlers (\<lambda>_. 0xffff800000123456) (replicate 256 blank_gate) ! k = replicate 256 blank_gate ! k"
    by fast+
  ultimately show ?thesis by (fastforce simp del: replicate.simps)
qed

text \<open>
  The vectors of three exceptions are off by one: the architecture raises the stack fault at 12, the general
  protection fault at 13 and the page fault at 14, but the handlers of the three are installed at 13, 14 and
  15, and vector 12 has no gate.
\<close>

theorem exception_vectors_shifted:
  assumes "length idt = 256" and "idt ! 12 = blank_gate"
  shows "\<not> gate_present (install_handlers addr idt ! 12) \<and> gate_target (install_handlers addr idt ! 13) = addr IntHandlerSS
    \<and> gate_target (install_handlers addr idt ! 14) = addr IntHandlerGP \<and> gate_target (install_handlers addr idt ! 15) = addr IntHandlerPF"
proof -
  have d: "distinct (map fst idt_entries)" by (simp add: idt_entries_def layout)
  have "12 \<notin> fst ` set idt_entries" by (simp add: idt_entries_def layout)
  from fold_set_idt_other [OF this, of addr idt] assms(2) have "install_handlers addr idt ! 12 = blank_gate"
    by (simp add: install_handlers_def)
  moreover have "gate_target (install_handlers addr idt ! k) = addr h" if "(k, h) \<in> set idt_entries" "k < 256" for k h
    using fold_set_idt [OF d that(1), of idt addr] that(2) assms(1) by (simp add: install_handlers_def gate_target_SetIDTEntry)
  moreover have "(13, IntHandlerSS) \<in> set idt_entries" "(14, IntHandlerGP) \<in> set idt_entries" "(15, IntHandlerPF) \<in> set idt_entries"
    by (simp_all add: idt_entries_def)
  ultimately show ?thesis by (simp add: gate_present_def blank_gate_def get_field_def)
qed

theorem exception_vectors_shifted_witness:
  "\<not> gate_present (install_handlers (\<lambda>_. 0x1000) (replicate 256 blank_gate) ! 12)"
proof -
  have "length (replicate 256 blank_gate) = 256" "replicate 256 blank_gate ! 12 = blank_gate" by (simp_all del: replicate.simps)
  from exception_vectors_shifted [OF this, of "\<lambda>_. 0x1000"] show ?thesis by blast
qed

lemma InitializeTSS_returns:
  assumes "t + 16 \<le> kFrameCount" and "range_begin m \<le> t" and "fits m t 16"
  shows "\<exists>r. InitializeTSS tss_addr m s = Some r"
proof -
  from assms(3) have "fits m t 8" by (auto simp: fits_def)
  from Allocate_hits [OF _ _ assms(2) this] assms(1) obtain m1 u where
    a1: "Allocate m 8 = Some (Inr (m1, u))" and u: "u \<le> t" and r1: "range_begin m1 = range_begin m" "range_end m1 = range_end m"
    and used: "\<forall>f. used m1 f \<longleftrightarrow> used m f \<or> u \<le> f \<and> f < u + 8" by auto
  from assms(3) u used r1 have "fits m1 (t + 8) 8" by (auto simp: fits_def)
  with Allocate_hits [of "t + 8" 8 m1] assms(1,2) r1 obtain m2 w where a2: "Allocate m1 8 = Some (Inr (m2, w))"
    by auto
  show ?thesis by (simp add: InitializeTSS_def AllocateStackArea_def a1 a2 Let_def)
qed

text \<open>
  \<open>InitializeTSS\<close>, where 16 consecutive frames are free, returns: the two entries of the descriptor give the address of the task state segment; the stacks
  for privilege changes and for interrupts are the ends of two areas of 8 frames that were free, do not
  overlap and are marked afterwards.  The descriptor keeps the granularity of 4 KiB, so its 104 bytes become a
  segment of 104 pages.
\<close>

theorem InitializeTSS_stacks:
  assumes "length (gdt s) = 7" and "length (tss s) = 26" and "t + 16 \<le> kFrameCount" and "range_begin m \<le> t" and "fits m t 16"
  shows "\<exists>m' s'. InitializeTSS tss_addr m s = Some (m', s')
    \<and> seg_base (gdt s' ! 5) OR push_bit 32 (gdt s' ! 6) = tss_addr \<and> get_field 40 4 (gdt s' ! 5) = 9 \<and> get_field 47 1 (gdt s' ! 5) = 1
    \<and> tr s' = kTSS \<and> seg_bytes (gdt s' ! 5) = 104 * 4096
    \<and> (\<exists>f g. unat (tss_entry s' 1) = (f + 8) * kBytesPerFrame \<and> unat (tss_entry s' 9) = (g + 8) * kBytesPerFrame
         \<and> {f..<f + 8} \<inter> {g..<g + 8} = {}
         \<and> (\<forall>x\<in>{f..<f + 8} \<union> {g..<g + 8}. \<not> used m x \<and> used m' x))"
proof -
  from InitializeTSS_returns [OF assms(3-5)] obtain m' s' where run: "InitializeTSS tss_addr m s = Some (m', s')" by fast
  from run obtain m1 a b where a: "AllocateStackArea 8 m = Some (m1, a)" and b: "AllocateStackArea 8 m1 = Some (m', b)"
    and s': "s' = (let s1 = SetTSS (7 + 2 * kISTForTimer) b (SetTSS 1 a s)
       in s1\<lparr>gdt := (gdt s1)[5 := SetSystemSegment kTSSAvailable 0 (ucast (tss_addr AND 0xffffffff)) (of_nat (4 * length (tss s1) - 1)),
                 6 := drop_bit 32 tss_addr], tr := kTSS\<rparr>)"
    by (auto simp: InitializeTSS_def fallible Let_def)
  have i: "7 + 2 * kISTForTimer = 9" by (simp add: layout)
  from AllocateStackArea_run [OF a] AllocateStackArea_run [OF b] obtain f g where
    f: "Allocate m 8 = Some (Inr (m1, f))" "unat a = (f + 8) * kBytesPerFrame"
    and g: "Allocate m1 8 = Some (Inr (m', g))" "unat b = (g + 8) * kBytesPerFrame" by auto
  note F = Allocate_success(4,5) [OF f(1)] and G = Allocate_success(4,5) [OF g(1)]
  have disj: "{f..<f + 8} \<inter> {g..<g + 8} = {}"
  proof (rule ccontr)
    assume "{f..<f + 8} \<inter> {g..<g + 8} \<noteq> {}"
    then obtain x where "x \<in> {f..<f + 8}" "x \<in> {g..<g + 8}" by blast
    with F(2) [of x] G(1) [of x] show False by simp
  qed
  have free: "\<forall>x\<in>{f..<f + 8} \<union> {g..<g + 8}. \<not> used m x \<and> used m' x"
    using F G by auto
  have desc: "gdt s' ! 5 = SetSystemSegment kTSSAvailable 0 (ucast (tss_addr AND 0xffffffff)) 103" "gdt s' ! 6 = drop_bit 32 tss_addr"
    using assms(1,2) by (simp_all add: s' Let_def tss_entry_SetTSS)
  have base: "seg_base (gdt s' ! 5) OR push_bit 32 (gdt s' ! 6) = tss_addr"
  proof -
    have "ucast (ucast (drop_bit 32 tss_addr) :: u32) = drop_bit 32 tss_addr"
      by (rule bit_word_eqI) (auto simp: bit_simps dest: bit_imp_le_length)
    with join_halves [of tss_addr] show ?thesis by (simp add: desc system_fields)
  qed
  have "tss_entry s' 1 = a" "tss_entry s' 9 = b"
    using tss_entry_SetTSS(1) [of 1 s a] tss_entry_SetTSS(1) [of 9 "SetTSS 1 a s" b] tss_entry_SetTSS(2) [of 1 9 b "SetTSS 1 a s"] assms(2)
    by (simp_all add: s' Let_def i tss_entry_def tss_entry_SetTSS(3))
  moreover have "seg_bytes (gdt s' ! 5) = 104 * 4096" by (simp add: desc seg_bytes_def system_fields del: One_nat_def)
  moreover have "tr s' = kTSS" by (simp add: s' Let_def)
  ultimately show ?thesis using run base desc f(2) g(2) disj free
    by (intro exI [of _ m'] exI [of _ s']) (auto simp: system_fields simp del: One_nat_def)
qed

theorem InitializeTSS_stacks_witness:
  "\<exists>m' s'. InitializeTSS 0x123000 new_BitmapMemoryManager blank_segmentation = Some (m', s')
     \<and> seg_base (gdt s' ! 5) OR push_bit 32 (gdt s' ! 6) = 0x123000 \<and> seg_bytes (gdt s' ! 5) = 104 * 4096"
proof -
  have b: "0 + 16 \<le> kFrameCount" "range_begin new_BitmapMemoryManager \<le> 0" "fits new_BitmapMemoryManager 0 16"
    by (auto simp: new_BitmapMemoryManager_def fits_def used_def layout)
  have "length (gdt blank_segmentation) = 7" "length (tss blank_segmentation) = 26" by (simp_all add: blank_segmentation_def)
  from InitializeTSS_stacks [OF this b] show ?thesis by blast
qed

end
