(* ===== verification/Paging.thy ===== *)
theory Paging
  imports FrameAllocator ByteMemory
begin

text \<open>
  \<^verbatim>\<open>kernel/paging.hpp\<close> and the page map part of \<^verbatim>\<open>kernel/terminal.cpp\<close>: linear addresses, page map entries,
  and the creation and removal of the page maps of a program.

  The kernel accesses page maps by their physical address, since its own mapping is the identity; \<open>phys\<close> is
  the physical memory byte by byte.  \<open>reg_cr3\<close> is the register \<open>CR3\<close>.
\<close>

section \<open>Linear addresses and page map entries\<close>

type_synonym LinearAddress4Level = u64

definition Part :: "nat \<Rightarrow> LinearAddress4Level \<Rightarrow> nat" where
  "Part page_map_level a =
     (if page_map_level = 0 then unat (get_field 0 12 a)
      else if page_map_level = 1 then unat (get_field 12 9 a)
      else if page_map_level = 2 then unat (get_field 21 9 a)
      else if page_map_level = 3 then unat (get_field 30 9 a)
      else if page_map_level = 4 then unat (get_field 39 9 a)
      else 0)"

definition SetPart :: "nat \<Rightarrow> nat \<Rightarrow> LinearAddress4Level \<Rightarrow> LinearAddress4Level" where
  "SetPart page_map_level x a =
     (if page_map_level = 0 then set_field 0 12 (of_nat x) a
      else if page_map_level = 1 then set_field 12 9 (of_nat x) a
      else if page_map_level = 2 then set_field 21 9 (of_nat x) a
      else if page_map_level = 3 then set_field 30 9 (of_nat x) a
      else if page_map_level = 4 then set_field 39 9 (of_nat x) a
      else a)"

type_synonym PageMapEntry = u64

definition present :: "PageMapEntry \<Rightarrow> bool" where "present e \<longleftrightarrow> get_field 0 1 e = 1"
definition writable :: "PageMapEntry \<Rightarrow> bool" where "writable e \<longleftrightarrow> get_field 1 1 e = 1"
definition user :: "PageMapEntry \<Rightarrow> bool" where "user e \<longleftrightarrow> get_field 2 1 e = 1"
definition huge_page :: "PageMapEntry \<Rightarrow> bool" where "huge_page e \<longleftrightarrow> get_field 7 1 e = 1"

definition Pointer :: "PageMapEntry \<Rightarrow> u64" where
  "Pointer e = push_bit 12 (get_field 12 40 e)"

definition SetPointer :: "u64 \<Rightarrow> PageMapEntry \<Rightarrow> PageMapEntry" where
  "SetPointer p e = set_field 12 40 (drop_bit 12 p) e"

section \<open>Page maps in physical memory\<close>

record Paging =
  frames :: BitmapMemoryManager
  phys :: memory
  reg_cr3 :: u64

text \<open>\<open>page_map[i]\<close>.\<close>

definition map_entry :: "memory \<Rightarrow> nat \<Rightarrow> nat \<Rightarrow> PageMapEntry" where
  "map_entry m page_map i = le64 m (page_map + 8 * i)"

definition set_map_entry :: "nat \<Rightarrow> nat \<Rightarrow> PageMapEntry \<Rightarrow> Paging \<Rightarrow> Paging" where
  "set_map_entry page_map i e s = s\<lparr>phys := put64 (page_map + 8 * i) e (phys s)\<rparr>"

definition NewPageMap :: "Paging \<Rightarrow> (Code + Paging \<times> nat) option" where
  "NewPageMap s =
     (case Allocate (frames s) 1 of
        None \<Rightarrow> None
      | Some (Inl err) \<Rightarrow> Some (Inl err)
      | Some (Inr (m, frame)) \<Rightarrow>
          let e = frame * kBytesPerFrame
          in Some (Inr (s\<lparr>frames := m, phys := memset e 0 (8 * 512) (phys s)\<rparr>, e)))"

text \<open>The argument \<open>entry\<close> is the reference \<open>page_map[i]\<close>.\<close>

definition SetNewPageMapIfNotPresent :: "nat \<Rightarrow> nat \<Rightarrow> Paging \<Rightarrow> (Code + Paging \<times> nat) option" where
  "SetNewPageMapIfNotPresent page_map i s =
     (let entry = map_entry (phys s) page_map i
      in if present entry then Some (Inr (s, unat (Pointer entry)))
         else case NewPageMap s of
                None \<Rightarrow> None
              | Some (Inl err) \<Rightarrow> Some (Inl err)
              | Some (Inr (s1, child_map)) \<Rightarrow>
                  let e = SetPointer (of_nat child_map) (map_entry (phys s1) page_map i)
                  in Some (Inr (set_map_entry page_map i (set_field 0 1 1 e) s1, child_map)))"

text \<open>The two assignments \<open>bits.writable = 1\<close> and \<open>bits.user = 1\<close>.\<close>

definition set_user_writable :: "nat \<Rightarrow> nat \<Rightarrow> Paging \<Rightarrow> Paging" where
  "set_user_writable page_map i s =
     (let s1 = set_map_entry page_map i (set_field 1 1 1 (map_entry (phys s) page_map i)) s
      in set_map_entry page_map i (set_field 2 1 1 (map_entry (phys s1) page_map i)) s1)"

text \<open>The loop \<open>for (level = page_map_level - 1; level >= 1; --level) addr.SetPart(level, 0)\<close>.\<close>

fun clear_parts :: "nat \<Rightarrow> LinearAddress4Level \<Rightarrow> LinearAddress4Level" where
  "clear_parts 0 a = a"
| "clear_parts (Suc level) a = clear_parts level (SetPart (Suc level) 0 a)"

lemma Part_SetPart_same: "1 \<le> l \<Longrightarrow> l \<le> 4 \<Longrightarrow> x < 512 \<Longrightarrow> Part l (SetPart l x a) = x"
proof -
  assume l: "1 \<le> l" "l \<le> 4" and x: "x < 512"
  have t: "unat (take_bit 9 (of_nat x :: u64)) = x"
    using x by (simp add: unsigned_take_bit_eq unat_of_nat take_bit_nat_eq_self)
  from l consider "l = 1" | "l = 2" | "l = 3" | "l = 4" by linarith
  then show ?thesis by cases (simp_all add: Part_def SetPart_def get_set_same t)
qed

lemma Part_SetPart_other: "k \<noteq> l \<Longrightarrow> Part k (SetPart l x a) = Part k a"
  by (auto simp: Part_def SetPart_def get_set_other)

lemma Part_clear_parts:
  "l \<le> 4 \<Longrightarrow> Part k (clear_parts l a) = (if 1 \<le> k \<and> k \<le> l then 0 else Part k a)"
proof (induction l arbitrary: a)
  case (Suc l)
  then show ?case
    using Part_SetPart_same [of "Suc l" 0 a] by (cases "k = Suc l") (auto simp: Part_SetPart_other)
qed simp

lemma Part_less: "1 \<le> l \<Longrightarrow> Part l a < 512"
proof -
  have "unat (get_field off 9 a) < 512" for off using unat_get_field_less [of off 9 a] by simp
  then show "1 \<le> l \<Longrightarrow> Part l a < 512" by (simp add: Part_def)
qed

text \<open>
  \<open>SetupPageMap\<close> returns the number of pages that remain and an error code; the maps that it has made
  before an error stay.  The source calls it with levels 1 to 4; outside of them the recursion does not end.
\<close>

function SetupPageMap :: "nat \<Rightarrow> nat \<Rightarrow> LinearAddress4Level \<Rightarrow> nat \<Rightarrow> Paging \<Rightarrow> (Paging \<times> nat \<times> Code) option" where
  "SetupPageMap page_map_level page_map addr num_4kpages s =
     (if num_4kpages = 0 then Some (s, num_4kpages, kSuccess)
      else if \<not> (1 \<le> page_map_level \<and> page_map_level \<le> 4) then None
      else let entry_index = Part page_map_level addr
      in case SetNewPageMapIfNotPresent page_map entry_index s of
           None \<Rightarrow> None
         | Some (Inl err) \<Rightarrow> Some (s, num_4kpages, err)
         | Some (Inr (s1, child_map)) \<Rightarrow>
             Option.bind
               (if page_map_level = 1 then Some (set_user_writable page_map entry_index s1, num_4kpages - 1, kSuccess)
                else SetupPageMap (page_map_level - 1) child_map addr num_4kpages (set_user_writable page_map entry_index s1))
               (\<lambda>(s2, num_remain_pages, err).
                  if err \<noteq> kSuccess then Some (s2, num_4kpages, err)
                  else if entry_index = 511 then Some (s2, num_remain_pages, kSuccess)
                  else SetupPageMap page_map_level page_map
                         (clear_parts (page_map_level - 1) (SetPart page_map_level (entry_index + 1) addr)) num_remain_pages s2))"
  by pat_completeness auto
termination
proof (relation "measures [\<lambda>(l, _, _, _, _). l, \<lambda>(l, _, a, _, _). 512 - Part l a]", goal_cases)
  case (3 l p a n s i)
  then have "i < 511" using Part_less [of l a] by simp
  with 3 show ?case by (auto simp: Part_clear_parts Part_SetPart_same)
qed auto

declare SetupPageMap.simps [simp del]

definition SetupPageMaps :: "LinearAddress4Level \<Rightarrow> nat \<Rightarrow> Paging \<Rightarrow> (Paging \<times> Code) option" where
  "SetupPageMaps addr num_4kpages s =
     map_option (\<lambda>(s', _, err). (s', err)) (SetupPageMap 4 (unat (reg_cr3 s)) addr num_4kpages s)"

text \<open>\<open>CleanPageMap\<close> from entry \<open>i\<close> on.\<close>

function clean_from :: "nat \<Rightarrow> nat \<Rightarrow> nat \<Rightarrow> Paging \<Rightarrow> (Paging \<times> Code) option" where
  "clean_from page_map_level page_map i s =
     (if i < 512
      then let entry = map_entry (phys s) page_map i
           in if \<not> present entry then clean_from page_map_level page_map (i + 1) s
              else Option.bind
                (if page_map_level > 1 then clean_from (page_map_level - 1) (unat (Pointer entry)) 0 s else Some (s, kSuccess))
                (\<lambda>(s1, err).
                   if err \<noteq> kSuccess then Some (s1, err)
                   else Option.bind (Free (frames s1) (unat (Pointer entry) div kBytesPerFrame) 1) (\<lambda>(m, err).
                     if err \<noteq> kSuccess then Some (s1\<lparr>frames := m\<rparr>, err)
                     else clean_from page_map_level page_map (i + 1) (set_map_entry page_map i 0 (s1\<lparr>frames := m\<rparr>))))
      else Some (s, kSuccess))"
  by pat_completeness auto
termination
  by (relation "measures [\<lambda>(l, _, _, _). l, \<lambda>(_, _, i, _). 512 - i]") auto

declare clean_from.simps [simp del]

definition CleanPageMap :: "nat \<Rightarrow> nat \<Rightarrow> Paging \<Rightarrow> (Paging \<times> Code) option" where
  "CleanPageMap page_map page_map_level s = clean_from page_map_level page_map 0 s"

definition CleanPageMaps :: "LinearAddress4Level \<Rightarrow> Paging \<Rightarrow> (Paging \<times> Code) option" where
  "CleanPageMaps addr s =
     (let pml4_table = unat (reg_cr3 s);
          pdp_table = unat (Pointer (map_entry (phys s) pml4_table (Part 4 addr)))
      in Option.bind (CleanPageMap pdp_table 3 (set_map_entry pml4_table (Part 4 addr) 0 s)) (\<lambda>(s1, err).
           if err \<noteq> kSuccess then Some (s1, err)
           else map_option (\<lambda>(m, err). (s1\<lparr>frames := m\<rparr>, err)) (Free (frames s1) (pdp_table div kBytesPerFrame) 1)))"

end
