(* ===== verification/PageTrees.thy ===== *)
theory PageTrees
  imports Paging
begin

text \<open>
  The structure of page maps: the tree of pages under a page map, its well-formedness, the page walk of the
  processor, and what \<open>SetupPageMap\<close> and \<open>CleanPageMap\<close> do to them.
\<close>

section \<open>Trees of page maps\<close>

abbreviation ptr :: "PageMapEntry \<Rightarrow> nat" where "ptr e \<equiv> unat (Pointer e)"

definition page_addr :: "nat \<Rightarrow> bool" where
  "page_addr p \<longleftrightarrow> 4096 dvd p \<and> p < kFrameCount * 4096"

definition page :: "nat \<Rightarrow> nat set" where "page p = {p..<p + 4096}"

text \<open>
  The pages of the tree under a page map of a level; only the entries from index \<open>lo\<close> on count, since the
  lower half of the topmost map belongs to the kernel.  At level 0 a page holds data.
\<close>

fun tree :: "memory \<Rightarrow> nat \<Rightarrow> nat \<Rightarrow> nat \<Rightarrow> nat set" where
  "tree m 0 lo p = {p}"
| "tree m (Suc l) lo p =
     insert p (\<Union>i\<in>{i. lo \<le> i \<and> i < 512 \<and> present (map_entry m p i)}. tree m l 0 (ptr (map_entry m p i)))"

text \<open>Every present entry gives user mode full access, every other entry is zero, and no page is shared.\<close>

fun tree_ok :: "memory \<Rightarrow> nat \<Rightarrow> nat \<Rightarrow> nat \<Rightarrow> bool" where
  "tree_ok m 0 lo p \<longleftrightarrow> page_addr p"
| "tree_ok m (Suc l) lo p \<longleftrightarrow> page_addr p
     \<and> (\<forall>i. lo \<le> i \<and> i < 512 \<and> \<not> present (map_entry m p i) \<longrightarrow> map_entry m p i = 0)
     \<and> (\<forall>i. lo \<le> i \<and> i < 512 \<and> present (map_entry m p i) \<longrightarrow>
        writable (map_entry m p i) \<and> user (map_entry m p i) \<and> \<not> huge_page (map_entry m p i)
        \<and> tree_ok m l 0 (ptr (map_entry m p i)) \<and> p \<notin> tree m l 0 (ptr (map_entry m p i))
        \<and> (\<forall>j. lo \<le> j \<and> j < 512 \<and> present (map_entry m p j) \<and> j \<noteq> i \<longrightarrow>
             tree m l 0 (ptr (map_entry m p i)) \<inter> tree m l 0 (ptr (map_entry m p j)) = {}))"

text \<open>The walk of the processor to the page number \<open>y\<close> of the range under a page map.\<close>

fun walk :: "memory \<Rightarrow> nat \<Rightarrow> nat \<Rightarrow> nat \<Rightarrow> nat option" where
  "walk m 0 p y = Some p"
| "walk m (Suc l) p y =
     (let e = map_entry m p (y div 512 ^ l mod 512) in if present e then walk m l (ptr e) y else None)"

lemma self_in_tree [simp]: "p \<in> tree m l lo p"
  by (cases l) auto

lemma tree_child:
  "lo \<le> i \<Longrightarrow> i < 512 \<Longrightarrow> present (map_entry m p i) \<Longrightarrow> tree m l 0 (ptr (map_entry m p i)) \<subseteq> tree m (Suc l) lo p"
  by auto

lemma tree_ok_page: "tree_ok m l lo p \<Longrightarrow> q \<in> tree m l lo p \<Longrightarrow> page_addr q"
proof (induction l arbitrary: lo p)
  case (Suc l)
  then show ?case by auto
qed simp

lemma page_disjoint: "page_addr p \<Longrightarrow> page_addr q \<Longrightarrow> p \<noteq> q \<Longrightarrow> page p \<inter> page q = {}"
proof -
  assume "page_addr p" "page_addr q" "p \<noteq> q"
  then obtain a b where "p = 4096 * a" "q = 4096 * b" "a \<noteq> b" by (auto simp: page_addr_def dvd_def)
  moreover from this have "a < b \<or> b < a" by auto
  ultimately show ?thesis by (auto simp: page_def)
qed

lemma map_entry_cong: "(\<forall>x\<in>page p. m x = m' x) \<Longrightarrow> i < 512 \<Longrightarrow> map_entry m p i = map_entry m' p i"
  unfolding map_entry_def by (rule le64_cong) (auto simp: page_def)

lemma tree_cong:
  "(\<forall>q\<in>tree m l lo p. \<forall>x\<in>page q. m x = m' x) \<Longrightarrow>
     tree m' l lo p = tree m l lo p \<and> (tree_ok m' l lo p \<longleftrightarrow> tree_ok m l lo p)"
proof (induction l arbitrary: lo p)
  case (Suc l)
  have e: "map_entry m' p i = map_entry m p i" if "i < 512" for i
    using Suc.prems that by (intro map_entry_cong) auto
  have c: "tree m' l 0 (ptr (map_entry m p i)) = tree m l 0 (ptr (map_entry m p i))
      \<and> (tree_ok m' l 0 (ptr (map_entry m p i)) \<longleftrightarrow> tree_ok m l 0 (ptr (map_entry m p i)))"
    if "lo \<le> i" "i < 512" "present (map_entry m p i)" for i
    using Suc.prems tree_child [OF that] by (intro Suc.IH) blast
  have "tree m' (Suc l) lo p = tree m (Suc l) lo p" using e c by auto
  moreover have "tree_ok m' (Suc l) lo p \<longleftrightarrow> tree_ok m (Suc l) lo p"
    by (simp add: e c cong: conj_cong imp_cong)
  ultimately show ?case by simp
qed simp

definition top_index :: "nat \<Rightarrow> nat \<Rightarrow> nat" where
  "top_index l y = y div 512 ^ (l - 1) mod 512"

lemma walk_cong:
  "(\<forall>q\<in>tree m l lo p. \<forall>x\<in>page q. m x = m' x) \<Longrightarrow> lo \<le> top_index l y \<Longrightarrow> walk m' l p y = walk m l p y"
proof (induction l arbitrary: lo p)
  case (Suc l)
  let ?i = "y div 512 ^ l mod 512"
  have i: "lo \<le> ?i" "?i < 512" using Suc.prems(2) by (simp_all add: top_index_def)
  have e: "map_entry m' p ?i = map_entry m p ?i"
    using Suc.prems(1) i(2) by (intro map_entry_cong) auto
  show ?case
  proof (cases "present (map_entry m p ?i)")
    case True
    then have "walk m' l (ptr (map_entry m p ?i)) y = walk m l (ptr (map_entry m p ?i)) y"
      using Suc.prems(1) tree_child [OF i True, of l] by (intro Suc.IH [of 0]) auto
    with True e show ?thesis by (simp add: Let_def)
  qed (simp add: Let_def e)
qed simp

lemma walk_in_tree: "walk m l p y = Some q \<Longrightarrow> lo \<le> top_index l y \<Longrightarrow> q \<in> tree m l lo p"
proof (induction l arbitrary: lo p)
  case (Suc l)
  let ?i = "y div 512 ^ l mod 512"
  from Suc.prems have i: "lo \<le> ?i" "?i < 512" "present (map_entry m p ?i)" "walk m l (ptr (map_entry m p ?i)) y = Some q"
    by (simp_all add: top_index_def Let_def split: if_splits)
  with Suc.IH [OF i(4), of 0] tree_child [OF i(1-3), of l] show ?case by auto
qed simp

lemma tree_ok_entry:
  assumes "tree_ok m (Suc l) lo p" "lo \<le> i" "i < 512" "present (map_entry m p i)"
  shows "writable (map_entry m p i)" "user (map_entry m p i)" "\<not> huge_page (map_entry m p i)"
    "tree_ok m l 0 (ptr (map_entry m p i))" "p \<notin> tree m l 0 (ptr (map_entry m p i))"
  using assms by auto

lemma tree_ok_sibling:
  assumes "tree_ok m (Suc l) lo p" "lo \<le> i" "i < 512" "present (map_entry m p i)"
    "lo \<le> j" "j < 512" "present (map_entry m p j)" "i \<noteq> j"
  shows "tree m l 0 (ptr (map_entry m p i)) \<inter> tree m l 0 (ptr (map_entry m p j)) = {}"
  using assms by auto

lemmas tree_Suc = tree.simps(2) and tree_ok_Suc = tree_ok.simps(2)

declare tree.simps(2) [simp del] tree_ok.simps(2) [simp del]

section \<open>Growing a tree\<close>

text \<open>What the operations need: the pages of the tree are marked in the bitmap.\<close>

definition owned :: "nat \<Rightarrow> nat \<Rightarrow> nat \<Rightarrow> Paging \<Rightarrow> bool" where
  "owned l lo p s \<longleftrightarrow> bounded (frames s) \<and> tree_ok (phys s) l lo p \<and> (\<forall>q\<in>tree (phys s) l lo p. used (frames s) (q div 4096))"

definition new_pages :: "nat \<Rightarrow> nat \<Rightarrow> nat \<Rightarrow> Paging \<Rightarrow> Paging \<Rightarrow> nat set" where
  "new_pages l lo p s s' = tree (phys s') l lo p - tree (phys s) l lo p"

definition zero_page :: "Paging \<Rightarrow> nat \<Rightarrow> bool" where
  "zero_page s q \<longleftrightarrow> (\<forall>x\<in>page q. phys s x = 0)"

definition same_page :: "Paging \<Rightarrow> Paging \<Rightarrow> nat \<Rightarrow> bool" where
  "same_page s s' q \<longleftrightarrow> (\<forall>x\<in>page q. phys s' x = phys s x)"

text \<open>
  The state grows by fresh pages: mapped page numbers stay mapped to the same page with the same contents,
  and page numbers that become mapped lie in \<open>Y\<close> and have a zeroed page.
\<close>

definition same_range :: "BitmapMemoryManager \<Rightarrow> BitmapMemoryManager \<Rightarrow> bool" where
  "same_range m m' \<longleftrightarrow> range_begin m' = range_begin m \<and> range_end m' = range_end m"

definition extends :: "nat \<Rightarrow> nat \<Rightarrow> nat \<Rightarrow> nat set \<Rightarrow> Paging \<Rightarrow> Paging \<Rightarrow> bool" where
  "extends l lo p Y s s' \<longleftrightarrow>
     bounded (frames s') \<and> reg_cr3 s' = reg_cr3 s \<and> same_range (frames s) (frames s') \<and> tree_ok (phys s') l lo p
     \<and> tree (phys s) l lo p \<subseteq> tree (phys s') l lo p
     \<and> (\<forall>f. used (frames s') f \<longleftrightarrow> used (frames s) f \<or> f * 4096 \<in> new_pages l lo p s s')
     \<and> (\<forall>q\<in>new_pages l lo p s s'. \<not> used (frames s) (q div 4096))
     \<and> (\<forall>x. (\<forall>q\<in>tree (phys s') l lo p. x \<notin> page q) \<longrightarrow> phys s' x = phys s x)
     \<and> (\<forall>y q. lo \<le> top_index l y \<and> walk (phys s) l p y = Some q \<longrightarrow> walk (phys s') l p y = Some q \<and> same_page s s' q)
     \<and> (\<forall>y q. lo \<le> top_index l y \<and> walk (phys s) l p y = None \<and> walk (phys s') l p y = Some q \<longrightarrow>
          y mod 512 ^ l \<in> Y \<and> zero_page s' q \<and> q \<in> new_pages l lo p s s')
     \<and> (\<forall>j. j < lo \<and> j < 512 \<longrightarrow> map_entry (phys s') p j = map_entry (phys s) p j)"

lemma extendsI:
  assumes "bounded (frames s')" "reg_cr3 s' = reg_cr3 s" "same_range (frames s) (frames s')" "tree_ok (phys s') l lo p"
    "tree (phys s) l lo p \<subseteq> tree (phys s') l lo p"
    "\<And>f. used (frames s') f \<longleftrightarrow> used (frames s) f \<or> f * 4096 \<in> new_pages l lo p s s'"
    "\<And>q. q \<in> new_pages l lo p s s' \<Longrightarrow> \<not> used (frames s) (q div 4096)"
    "\<And>x. \<forall>q\<in>tree (phys s') l lo p. x \<notin> page q \<Longrightarrow> phys s' x = phys s x"
    "\<And>y q. lo \<le> top_index l y \<Longrightarrow> walk (phys s) l p y = Some q \<Longrightarrow> walk (phys s') l p y = Some q \<and> same_page s s' q"
    "\<And>y q. lo \<le> top_index l y \<Longrightarrow> walk (phys s) l p y = None \<Longrightarrow> walk (phys s') l p y = Some q \<Longrightarrow>
       y mod 512 ^ l \<in> Y \<and> zero_page s' q \<and> q \<in> new_pages l lo p s s'"
    "\<And>j. j < lo \<Longrightarrow> j < 512 \<Longrightarrow> map_entry (phys s') p j = map_entry (phys s) p j"
  shows "extends l lo p Y s s'"
  unfolding extends_def using assms by blast

lemma extends_owned: "owned l lo p s \<Longrightarrow> extends l lo p Y s s' \<Longrightarrow> owned l lo p s'"
proof -
  assume o: "owned l lo p s" and e: "extends l lo p Y s s'"
  have "used (frames s') (q div 4096)" if q: "q \<in> tree (phys s') l lo p" for q
  proof (cases "q \<in> tree (phys s) l lo p")
    case True
    with o e show ?thesis by (simp add: owned_def extends_def)
  next
    case False
    from e q have "page_addr q" using tree_ok_page by (auto simp: extends_def)
    with False q e show ?thesis by (simp add: extends_def new_pages_def page_addr_def)
  qed
  with e show ?thesis by (simp add: owned_def extends_def)
qed

lemma extends_refl: "owned l lo p s \<Longrightarrow> extends l lo p Y s s"
  by (auto simp add: extends_def owned_def new_pages_def same_page_def same_range_def)

lemma extends_mono: "extends l lo p Y s s' \<Longrightarrow> Y \<subseteq> Z \<Longrightarrow> extends l lo p Z s s'"
  unfolding extends_def by blast

lemma extends_trans:
  assumes a: "extends l lo p Y s s1" and b: "extends l lo p Z s1 s2"
  shows "extends l lo p (Y \<union> Z) s s2"
proof -
  note A = a [unfolded extends_def] and B = b [unfolded extends_def]
  have N: "new_pages l lo p s s2 = new_pages l lo p s s1 \<union> new_pages l lo p s1 s2"
    using A B by (auto simp: new_pages_def)
  have new: "\<not> used (frames s) (q div 4096)" if "q \<in> new_pages l lo p s s2" for q
    using that A B by (auto simp: N)
  have outside: "phys s2 x = phys s x" if "\<forall>q\<in>tree (phys s2) l lo p. x \<notin> page q" for x
    using that A B by (metis subsetD)
  have keeps: "walk (phys s2) l p y = Some q \<and> same_page s s2 q" if "lo \<le> top_index l y" "walk (phys s) l p y = Some q" for y q
    using that A B by (metis same_page_def)
  have adds: "y mod 512 ^ l \<in> Y \<union> Z \<and> zero_page s2 q \<and> q \<in> new_pages l lo p s s2"
    if y: "lo \<le> top_index l y" "walk (phys s) l p y = None" "walk (phys s2) l p y = Some q" for y q
  proof (cases "walk (phys s1) l p y")
    case None
    with y B show ?thesis by (auto simp: N)
  next
    case (Some q')
    with y(1) B have "walk (phys s2) l p y = Some q'" "same_page s1 s2 q'" by auto
    with y Some A show ?thesis by (auto simp: N zero_page_def same_page_def)
  qed
  have u: "\<forall>f. used (frames s2) f \<longleftrightarrow> used (frames s) f \<or> f * 4096 \<in> new_pages l lo p s s2" using A B by (simp add: N)
  have r: "bounded (frames s2)" "reg_cr3 s2 = reg_cr3 s" "same_range (frames s) (frames s2)" "tree_ok (phys s2) l lo p" "tree (phys s) l lo p \<subseteq> tree (phys s2) l lo p"
    using A B by (auto simp: same_range_def)
  have low: "map_entry (phys s2) p j = map_entry (phys s) p j" if "j < lo" "j < 512" for j
    using that A B by simp
  show ?thesis
    by (rule extendsI) (use r u new outside keeps adds low in \<open>auto dest: adds\<close>)
qed

lemma new_pages_trans:
  "extends l lo p Y s s1 \<Longrightarrow> extends l lo p Z s1 s2 \<Longrightarrow> new_pages l lo p s s2 = new_pages l lo p s s1 \<union> new_pages l lo p s1 s2"
  by (auto simp: new_pages_def extends_def)

lemma top_index_Suc: "top_index (Suc l) y = y div 512 ^ l mod 512"
  by (simp add: top_index_def)

lemma page_number_split: "(y :: nat) mod 512 ^ Suc l = (y div 512 ^ l mod 512) * 512 ^ l + y mod 512 ^ l"
  by (metis add.commute mod_mult2_eq mult.commute power_Suc)

text \<open>A step inside the subtree of one entry is a step of the whole tree.\<close>

definition child_step :: "nat \<Rightarrow> nat \<Rightarrow> nat \<Rightarrow> nat \<Rightarrow> nat \<Rightarrow> nat set \<Rightarrow> Paging \<Rightarrow> Paging \<Rightarrow> bool" where
  "child_step l lo p i c Y s s' \<longleftrightarrow>
     owned (Suc l) lo p s \<and> lo \<le> i \<and> i < 512 \<and> present (map_entry (phys s) p i)
     \<and> c = ptr (map_entry (phys s) p i) \<and> extends l 0 c Y s s'"

lemma child_new: "child_step l lo p i c Y s s' \<Longrightarrow> q \<in> new_pages l 0 c s s' \<Longrightarrow> q \<notin> tree (phys s) (Suc l) lo p"
  by (auto simp: owned_def child_step_def extends_def)

lemma child_apart:
  assumes cs: "child_step l lo p i c Y s s'"
    and "r \<in> tree (phys s) (Suc l) lo p" and "r \<notin> tree (phys s) l 0 c" and "x \<in> page r"
  shows "phys s x = phys s' x"
proof -
  have r: "page_addr r" using cs assms(2) tree_ok_page [of "phys s" "Suc l"] by (auto simp: owned_def child_step_def)
  have "x \<notin> page q" if q: "q \<in> tree (phys s') l 0 c" for q
  proof -
    from cs q have "page_addr q" using tree_ok_page by (auto simp: child_step_def extends_def)
    moreover from q assms(2,3) child_new [OF cs, of q] have "q \<noteq> r" by (auto simp: new_pages_def)
    ultimately show ?thesis using page_disjoint [of q r] r assms(4) by blast
  qed
  with cs show ?thesis by (simp add: child_step_def extends_def)
qed

lemma child_entry:
  assumes cs: "child_step l lo p i c Y s s'" and j: "j < 512"
  shows "map_entry (phys s') p j = map_entry (phys s) p j"
proof -
  from cs have "p \<notin> tree (phys s) l 0 c" using tree_ok_entry(5) by (auto simp: owned_def child_step_def)
  then have "\<forall>x\<in>page p. phys s' x = phys s x" using child_apart [OF cs, of p] by simp
  with j show ?thesis by (intro map_entry_cong) auto
qed

lemma child_sibling:
  assumes cs: "child_step l lo p i c Y s s'"
    and "lo \<le> j" "j < 512" "present (map_entry (phys s) p j)" "j \<noteq> i"
  shows "\<forall>q\<in>tree (phys s) l 0 (ptr (map_entry (phys s) p j)). \<forall>x\<in>page q. phys s x = phys s' x"
proof (intro ballI)
  fix q x assume q: "q \<in> tree (phys s) l 0 (ptr (map_entry (phys s) p j))" and x: "x \<in> page q"
  from cs assms(2-5) have "tree (phys s) l 0 (ptr (map_entry (phys s) p j)) \<inter> tree (phys s) l 0 c = {}"
    using tree_ok_sibling [of "phys s" l lo p j i] by (simp add: child_step_def owned_def)
  with q have "q \<notin> tree (phys s) l 0 c" by blast
  with child_apart [OF cs _ this x] tree_child [OF assms(2-4), of l] q show "phys s x = phys s' x" by blast
qed

lemma child_tree:
  assumes cs: "child_step l lo p i c Y s s'"
  shows "tree (phys s') (Suc l) lo p = tree (phys s) (Suc l) lo p \<union> tree (phys s') l 0 c"
proof -
  have t: "tree (phys s') l 0 (ptr (map_entry (phys s) p j)) = tree (phys s) l 0 (ptr (map_entry (phys s) p j))"
    if "lo \<le> j" "j < 512" "present (map_entry (phys s) p j)" "j \<noteq> i" for j
    using tree_cong [OF child_sibling [OF cs that]] by simp
  have "tree (phys s) l 0 c \<subseteq> tree (phys s') l 0 c" "present (map_entry (phys s) p i)" "lo \<le> i" "i < 512" "c = ptr (map_entry (phys s) p i)"
    using cs by (auto simp: child_step_def extends_def)
  with t child_entry [OF cs] show ?thesis by (auto simp: tree_Suc) (metis subsetD)+
qed

lemma child_new_pages: "child_step l lo p i c Y s s' \<Longrightarrow> new_pages (Suc l) lo p s s' = new_pages l 0 c s s'"
  using child_tree [of l lo p i c Y s s'] child_new [of l lo p i c Y s s'] tree_child [of lo i "phys s" p l]
  by (auto simp: new_pages_def child_step_def)

lemma child_tree_ok:
  assumes cs: "child_step l lo p i c Y s s'"
  shows "tree_ok (phys s') (Suc l) lo p"
proof -
  have o: "tree_ok (phys s) (Suc l) lo p" and c: "present (map_entry (phys s) p i)" "lo \<le> i" "i < 512" "c = ptr (map_entry (phys s) p i)"
    and ok: "tree_ok (phys s') l 0 c"
    using cs by (auto simp: child_step_def owned_def extends_def)
  have t: "tree (phys s') l 0 (ptr (map_entry (phys s) p j)) = tree (phys s) l 0 (ptr (map_entry (phys s) p j))"
    "tree_ok (phys s') l 0 (ptr (map_entry (phys s) p j))"
    if "lo \<le> j" "j < 512" "present (map_entry (phys s) p j)" "j \<noteq> i" for j
    using tree_cong [OF child_sibling [OF cs that]] tree_ok_entry(4) [OF o that(1-3)] by simp_all
  have apart: "q \<notin> tree (phys s') l 0 c" if "q \<in> tree (phys s) (Suc l) lo p" "q \<notin> tree (phys s) l 0 c" for q
    using that child_new [OF cs, of q] by (auto simp: new_pages_def)
  have p: "p \<notin> tree (phys s') l 0 c" using apart tree_ok_entry(5) [OF o c(2,3,1)] c(4) by simp
  have d: "tree (phys s) l 0 (ptr (map_entry (phys s) p j)) \<inter> tree (phys s') l 0 c = {}"
    if j: "lo \<le> j" "j < 512" "present (map_entry (phys s) p j)" "j \<noteq> i" for j
    using tree_ok_sibling [OF o j(1-3) c(2,3,1) j(4)] c(4) apart tree_child [OF j(1-3), of l] by blast
  show ?thesis
    unfolding tree_ok_Suc
  proof (intro conjI allI impI; (elim conjE)?)
    show "page_addr p" using o by (simp add: tree_ok_Suc)
    show "map_entry (phys s') p j = 0" if "lo \<le> j" "j < 512" "\<not> present (map_entry (phys s') p j)" for j
      using that child_entry [OF cs that(2)] o by (simp add: tree_ok_Suc)
    fix j assume j: "lo \<le> j" "j < 512" "present (map_entry (phys s') p j)"
    then have j': "present (map_entry (phys s) p j)" using child_entry [OF cs] by simp
    note E = child_entry [OF cs j(2)]
    show "writable (map_entry (phys s') p j)" "user (map_entry (phys s') p j)" "\<not> huge_page (map_entry (phys s') p j)"
      unfolding E using tree_ok_entry(1-3) [OF o j(1,2) j'] by simp_all
    show "tree_ok (phys s') l 0 (ptr (map_entry (phys s') p j))"
      unfolding E using ok t(2) [OF j(1,2) j'] c(4) by (cases "j = i") simp_all
    show "p \<notin> tree (phys s') l 0 (ptr (map_entry (phys s') p j))"
      unfolding E using p t(1) [OF j(1,2) j'] tree_ok_entry(5) [OF o j(1,2) j'] c(4) by (cases "j = i") simp_all
    fix k assume k: "lo \<le> k" "k < 512" "present (map_entry (phys s') p k)" "k \<noteq> j"
    then have k': "present (map_entry (phys s) p k)" using child_entry [OF cs] by simp
    show "tree (phys s') l 0 (ptr (map_entry (phys s') p j)) \<inter> tree (phys s') l 0 (ptr (map_entry (phys s') p k)) = {}"
      unfolding E child_entry [OF cs k(2)]
      using d [of j] d [of k] t(1) [of j] t(1) [of k] j(1,2) j' k(1,2,4) k' tree_ok_sibling [OF o j(1,2) j' k(1,2) k'] c(4)
      by (cases "j = i"; cases "k = i") (simp_all add: Int_commute)
  qed
qed

lemma extends_child:
  assumes cs: "child_step l lo p i c Y s s'"
  shows "extends (Suc l) lo p ((\<lambda>y. i * 512 ^ l + y) ` Y) s s'"
proof (rule extendsI)
  have e: "extends l 0 c Y s s'" and c: "c = ptr (map_entry (phys s) p i)" "present (map_entry (phys s) p i)" "i < 512"
    using cs by (auto simp: child_step_def)
  note E = e [unfolded extends_def] and N = child_new_pages [OF cs]
  show "bounded (frames s')" "reg_cr3 s' = reg_cr3 s" "same_range (frames s) (frames s')" using E by simp_all
  show "tree_ok (phys s') (Suc l) lo p" by (rule child_tree_ok [OF cs])
  show "tree (phys s) (Suc l) lo p \<subseteq> tree (phys s') (Suc l) lo p" by (simp add: child_tree [OF cs])
  show "used (frames s') f \<longleftrightarrow> used (frames s) f \<or> f * 4096 \<in> new_pages (Suc l) lo p s s'" for f using E by (simp add: N)
  show "\<not> used (frames s) (q div 4096)" if "q \<in> new_pages (Suc l) lo p s s'" for q using E that by (simp add: N)
  show "phys s' x = phys s x" if "\<forall>q\<in>tree (phys s') (Suc l) lo p. x \<notin> page q" for x
    using E that by (simp add: child_tree [OF cs])
  show "map_entry (phys s') p j = map_entry (phys s) p j" if "j < lo" "j < 512" for j
    by (rule child_entry [OF cs that(2)])
  have w: "walk (phys s') l (ptr (map_entry (phys s) p j)) y = walk (phys s) l (ptr (map_entry (phys s) p j)) y
      \<and> same_page s s' q"
    if "lo \<le> j" "j < 512" "present (map_entry (phys s) p j)" "j \<noteq> i"
      "q \<in> tree (phys s) l 0 (ptr (map_entry (phys s) p j))" for j y q
    using walk_cong [OF child_sibling [OF cs that(1-4)], of y] child_sibling [OF cs that(1-4)] that(5) by (simp add: same_page_def)
  fix y q assume lo: "lo \<le> top_index (Suc l) y"
  let ?j = "y div 512 ^ l mod 512"
  have j: "lo \<le> ?j" "?j < 512" using lo by (simp_all add: top_index_Suc)
  note ent = child_entry [OF cs j(2)]
  have split: "y mod 512 ^ Suc l = ?j * 512 ^ l + y mod 512 ^ l" by (rule page_number_split)
  show "walk (phys s') (Suc l) p y = Some q \<and> same_page s s' q" if W: "walk (phys s) (Suc l) p y = Some q"
  proof (cases "?j = i")
    case True
    with W c E ent show ?thesis by (simp add: Let_def split: if_splits)
  next
    case False
    from W have pr: "present (map_entry (phys s) p ?j)" and W': "walk (phys s) l (ptr (map_entry (phys s) p ?j)) y = Some q"
      by (simp_all add: Let_def split: if_splits)
    with w [OF j pr False walk_in_tree [OF W']] ent show ?thesis by (simp add: Let_def)
  qed
  show "y mod 512 ^ Suc l \<in> (\<lambda>y. i * 512 ^ l + y) ` Y \<and> zero_page s' q \<and> q \<in> new_pages (Suc l) lo p s s'"
    if W: "walk (phys s) (Suc l) p y = None" and W': "walk (phys s') (Suc l) p y = Some q"
  proof (cases "?j = i")
    case True
    with W W' c E ent have "y mod 512 ^ l \<in> Y \<and> zero_page s' q \<and> q \<in> new_pages l 0 c s s'"
      by (simp add: Let_def split: if_splits)
    with True split N show ?thesis by simp
  next
    case False
    from W' ent have pr: "present (map_entry (phys s) p ?j)" by (simp add: Let_def split: if_splits)
    from w [OF j pr False self_in_tree] W W' ent pr show ?thesis by (simp add: Let_def)
  qed
qed

text \<open>A new page map or page under an entry that was not present.\<close>

definition user_entry :: "nat \<Rightarrow> PageMapEntry \<Rightarrow> PageMapEntry" where
  "user_entry c e = set_field 2 1 1 (set_field 1 1 1 (set_field 0 1 1 (SetPointer (of_nat c) e)))"

lemma user_entry_fields:
  assumes "page_addr c"
  shows "present (user_entry c 0)" "writable (user_entry c 0)" "user (user_entry c 0)" "\<not> huge_page (user_entry c 0)"
    "ptr (user_entry c 0) = c"
proof -
  show "present (user_entry c 0)" "writable (user_entry c 0)" "user (user_entry c 0)" "\<not> huge_page (user_entry c 0)"
    by (simp_all add: user_entry_def SetPointer_def present_def writable_def user_def huge_page_def get_field_1_eq bit_set_field del: One_nat_def)
  from assms obtain f where f: "c = f * 4096" "f < kFrameCount" by (auto simp: page_addr_def dvd_def mult.commute)
  then have "f < 2 ^ 25" by (simp add: layout)
  then have b: "bit (of_nat c :: u64) n \<Longrightarrow> 12 \<le> n \<and> n < 37" for n
  proof -
    assume b: "bit (of_nat c :: u64) n"
    have c: "(of_nat c :: u64) = push_bit 12 (of_nat f)" by (simp add: f push_bit_eq_mult mult.commute)
    have "take_bit 25 f = f" using \<open>f < 2 ^ 25\<close> by (simp add: take_bit_nat_eq_self)
    then have "bit f k \<Longrightarrow> k < 25" for k by (metis bit_take_bit_iff)
    with b show ?thesis by (fastforce simp: c bit_simps bit_of_nat_iff)
  qed
  have "Pointer (user_entry c 0) = of_nat c"
  proof (rule bit_word_eqI)
    fix n assume "n < LENGTH(64)"
    with b [of n] show "bit (Pointer (user_entry c 0)) n = bit (of_nat c :: u64) n"
      by (auto simp: Pointer_def user_entry_def SetPointer_def bit_simps bit_get_field bit_set_field)
  qed
  moreover have "c < 2 ^ 64" using \<open>f < 2 ^ 25\<close> f by simp
  ultimately show "ptr (user_entry c 0) = c" by (simp add: unat_of_nat_u64)
qed

lemma NewPageMap_fresh:
  assumes "NewPageMap s = Some (Inr (s1, c))" and "bounded (frames s)"
  shows "page_addr c" "\<not> used (frames s) (c div 4096)" "bounded (frames s1)" "reg_cr3 s1 = reg_cr3 s"
    "\<And>f. used (frames s1) f \<longleftrightarrow> used (frames s) f \<or> f * 4096 = c"
    "zero_page s1 c" "\<And>x. x \<notin> page c \<Longrightarrow> phys s1 x = phys s x" "same_range (frames s) (frames s1)"
proof -
  from assms(1) obtain m f where a: "Allocate (frames s) 1 = Some (Inr (m, f))" and c: "c = f * 4096"
    and s1: "s1 = s\<lparr>frames := m, phys := memset c 0 4096 (phys s)\<rparr>"
    by (auto simp: NewPageMap_def kBytesPerFrame_def Let_def split: option.splits sum.splits)
  from bitmap.allocate_frames [OF assms(2) _ a] have A: "bounded m" "f + 1 \<le> kFrameCount" "\<not> used (frames s) f"
    "\<And>g. used m g \<longleftrightarrow> used (frames s) g \<or> g = f" by auto
  show "page_addr c" using A(2) c by (simp add: page_addr_def)
  show "\<not> used (frames s) (c div 4096)" using A(3) c by simp
  show "bounded (frames s1)" "reg_cr3 s1 = reg_cr3 s" using A(1) s1 by simp_all
  show "used (frames s1) g \<longleftrightarrow> used (frames s) g \<or> g * 4096 = c" for g using A(4) s1 c by simp
  show "zero_page s1 c" "\<And>x. x \<notin> page c \<Longrightarrow> phys s1 x = phys s x" by (auto simp: zero_page_def page_def s1 memset_def)
  show "same_range (frames s) (frames s1)"
    using Allocate_from_first_fit [of "frames s" 1 "range_begin (frames s)"] a
    by (simp add: Allocate_def first_fit_result_def same_range_def s1)
qed

lemma zero_page_entry: "zero_page s c \<Longrightarrow> j < 512 \<Longrightarrow> map_entry (phys s) c j = 0"
  unfolding map_entry_def by (rule le64_zero) (simp add: zero_page_def page_def)

lemma not_present_0 [simp]: "\<not> present 0"
  by (simp add: present_def get_field_def)

lemma zero_page_tree:
  assumes "zero_page s c" "page_addr c"
  shows "tree (phys s) l 0 c = {c}" "tree_ok (phys s) l 0 c" "walk (phys s) (Suc l) c y = None"
proof -
  show "tree (phys s) l 0 c = {c}" "tree_ok (phys s) l 0 c"
    using zero_page_entry [OF assms(1)] assms(2) by (cases l; auto simp: tree_Suc tree_ok_Suc)+
  show "walk (phys s) (Suc l) c y = None" using zero_page_entry [OF assms(1)] by simp
qed

text \<open>The state after \<open>SetNewPageMapIfNotPresent\<close> has made a page and the two access bits are set.\<close>

definition new_entry_step :: "nat \<Rightarrow> nat \<Rightarrow> nat \<Rightarrow> nat \<Rightarrow> nat \<Rightarrow> Paging \<Rightarrow> Paging \<Rightarrow> bool" where
  "new_entry_step l lo p i c s s' \<longleftrightarrow>
     owned (Suc l) lo p s \<and> lo \<le> i \<and> i < 512 \<and> \<not> present (map_entry (phys s) p i)
     \<and> page_addr c \<and> \<not> used (frames s) (c div 4096) \<and> bounded (frames s') \<and> reg_cr3 s' = reg_cr3 s
     \<and> same_range (frames s) (frames s') \<and> (\<forall>f. used (frames s') f \<longleftrightarrow> used (frames s) f \<or> f * 4096 = c)
     \<and> zero_page s' c \<and> (\<forall>x. x \<notin> page c \<and> \<not> (p + 8 * i \<le> x \<and> x < p + 8 * i + 8) \<longrightarrow> phys s' x = phys s x)
     \<and> map_entry (phys s') p i = user_entry c 0"

lemma set_map_entry_same [simp]: "map_entry (phys (set_map_entry p i e s)) p i = e"
  by (simp add: map_entry_def set_map_entry_def)

lemma set_map_entry_other: "x < p + 8 * i \<or> p + 8 * i + 8 \<le> x \<Longrightarrow> phys (set_map_entry p i e s) x = phys s x"
  by (simp add: set_map_entry_def put64_other)

lemma set_map_entry_frames [simp]:
  "frames (set_map_entry p i e s) = frames s" "reg_cr3 (set_map_entry p i e s) = reg_cr3 s"
  "frames (set_user_writable p i s) = frames s" "reg_cr3 (set_user_writable p i s) = reg_cr3 s"
  by (simp_all add: set_map_entry_def set_user_writable_def Let_def)

lemma set_user_writable_phys:
  "map_entry (phys (set_user_writable p i s)) p i = set_field 2 1 1 (set_field 1 1 1 (map_entry (phys s) p i))"
  "x < p + 8 * i \<or> p + 8 * i + 8 \<le> x \<Longrightarrow> phys (set_user_writable p i s) x = phys s x"
  by (simp_all add: set_user_writable_def Let_def set_map_entry_other)

lemma new_entry_run:
  assumes "owned (Suc l) lo p s" "lo \<le> i" "i < 512" "\<not> present (map_entry (phys s) p i)"
    and run: "SetNewPageMapIfNotPresent p i s = Some (Inr (s1, c))"
  shows "new_entry_step l lo p i c s (set_user_writable p i s1)"
proof -
  from run assms(4) obtain s0 where n: "NewPageMap s = Some (Inr (s0, c))"
    and s1: "s1 = set_map_entry p i (set_field 0 1 1 (SetPointer (of_nat c) (map_entry (phys s0) p i))) s0"
    by (auto simp: SetNewPageMapIfNotPresent_def Let_def split: option.splits sum.splits)
  have o: "bounded (frames s)" "tree_ok (phys s) (Suc l) lo p" "used (frames s) (p div 4096)"
    using assms(1) self_in_tree by (auto simp: owned_def)
  note F = NewPageMap_fresh [OF n o(1)]
  have pc: "page_addr p" "p \<noteq> c" using o(2,3) F(2) by (auto simp: tree_ok_Suc)
  then have d: "page p \<inter> page c = {}" using page_disjoint F(1) by blast
  have "\<forall>x\<in>page p. phys s0 x = phys s x" using d F(7) by blast
  then have "map_entry (phys s0) p i = map_entry (phys s) p i" using assms(3) by (intro map_entry_cong) auto
  also have "\<dots> = 0" using o(2) assms(2-4) by (simp add: tree_ok_Suc)
  finally have e0: "map_entry (phys s0) p i = 0" .
  let ?s = "set_user_writable p i s1"
  have out: "phys ?s x = phys s0 x" if "x < p + 8 * i \<or> p + 8 * i + 8 \<le> x" for x
    using that by (simp add: set_user_writable_phys(2) s1 set_map_entry_other)
  have slot: "x \<in> page p" if "p + 8 * i \<le> x" "x < p + 8 * i + 8" for x using that assms(3) by (simp add: page_def)
  have "map_entry (phys ?s) p i = user_entry c 0"
    unfolding set_user_writable_phys(1) by (simp add: s1 e0 user_entry_def)
  moreover have "zero_page ?s c"
    using F(6) out slot d unfolding zero_page_def by (metis disjoint_iff not_le)
  moreover have "phys ?s x = phys s x" if "x \<notin> page c" "\<not> (p + 8 * i \<le> x \<and> x < p + 8 * i + 8)" for x
    using out [of x] F(7) [OF that(1)] that(2) by auto
  ultimately show ?thesis using assms(1-4) F by (simp add: new_entry_step_def s1)
qed

lemma new_entry_facts:
  assumes st: "new_entry_step l lo p i c s s'"
  shows "c \<notin> tree (phys s) (Suc l) lo p"
    "\<And>q x. q \<in> tree (phys s) (Suc l) lo p \<Longrightarrow> q \<noteq> p \<Longrightarrow> x \<in> page q \<Longrightarrow> phys s x = phys s' x"
    "\<And>j. j < 512 \<Longrightarrow> j \<noteq> i \<Longrightarrow> map_entry (phys s') p j = map_entry (phys s) p j"
proof -
  have o: "owned (Suc l) lo p s" and c: "page_addr c" "\<not> used (frames s) (c div 4096)" and i: "i < 512"
    and out: "\<And>x. x \<notin> page c \<Longrightarrow> \<not> (p + 8 * i \<le> x \<and> x < p + 8 * i + 8) \<Longrightarrow> phys s' x = phys s x"
    using st by (auto simp: new_entry_step_def)
  show c': "c \<notin> tree (phys s) (Suc l) lo p" using o c(2) by (auto simp: owned_def)
  have d: "page q \<inter> page c = {}" "page_addr q" if "q \<in> tree (phys s) (Suc l) lo p" for q
    using page_disjoint [of q c] tree_ok_page [OF _ that] o c(1) c' that by (auto simp: owned_def)
  have slot: "x \<in> page p" if "p + 8 * i \<le> x" "x < p + 8 * i + 8" for x using that i by (simp add: page_def)
  show "phys s x = phys s' x" if q: "q \<in> tree (phys s) (Suc l) lo p" "q \<noteq> p" "x \<in> page q" for q x
  proof -
    have "x \<notin> page p" using page_disjoint [of q p] d(2) [OF q(1)] d(2) [OF self_in_tree] q(2,3) by blast
    moreover have "x \<notin> page c" using d(1) [OF q(1)] q(3) by blast
    ultimately show ?thesis using out [of x] slot [of x] by metis
  qed
  show "map_entry (phys s') p j = map_entry (phys s) p j" if j: "j < 512" "j \<noteq> i" for j
    unfolding map_entry_def
  proof (rule le64_cong)
    fix k :: nat assume k: "k < 8"
    have "p + 8 * j + k \<in> page p" using j k by (simp add: page_def)
    with d(1) [OF self_in_tree] have "p + 8 * j + k \<notin> page c" by blast
    moreover have "\<not> (p + 8 * i \<le> p + 8 * j + k \<and> p + 8 * j + k < p + 8 * i + 8)" using j(2) k by presburger
    ultimately show "phys s' (p + 8 * j + k) = phys s (p + 8 * j + k)" by (rule out)
  qed
qed

lemma new_entry_sibling:
  assumes st: "new_entry_step l lo p i c s s'" and j: "lo \<le> j" "j < 512" "present (map_entry (phys s) p j)"
  shows "\<forall>q\<in>tree (phys s) l 0 (ptr (map_entry (phys s) p j)). \<forall>x\<in>page q. phys s x = phys s' x"
proof (intro ballI)
  fix q x assume q: "q \<in> tree (phys s) l 0 (ptr (map_entry (phys s) p j))" "x \<in> page q"
  have "p \<notin> tree (phys s) l 0 (ptr (map_entry (phys s) p j))"
    using tree_ok_entry(5) [OF _ j] st by (simp add: new_entry_step_def owned_def)
  with q(1) have "q \<noteq> p" by blast
  moreover have "q \<in> tree (phys s) (Suc l) lo p" using tree_child [OF j, of l] q(1) by blast
  ultimately show "phys s x = phys s' x" using new_entry_facts(2) [OF st] q(2) by blast
qed

lemma new_entry_tree:
  assumes st: "new_entry_step l lo p i c s s'"
  shows "tree (phys s') (Suc l) lo p = insert c (tree (phys s) (Suc l) lo p)" "tree_ok (phys s') (Suc l) lo p"
proof -
  have o: "tree_ok (phys s) (Suc l) lo p" and i: "lo \<le> i" "i < 512" "\<not> present (map_entry (phys s) p i)"
    and c: "page_addr c" "zero_page s' c" and e: "map_entry (phys s') p i = user_entry c 0"
    using st by (auto simp: new_entry_step_def owned_def)
  note U = user_entry_fields [OF c(1)] and Z = zero_page_tree [OF c(2,1)] and ent = new_entry_facts(3) [OF st]
  have t: "tree (phys s') l 0 (ptr (map_entry (phys s) p j)) = tree (phys s) l 0 (ptr (map_entry (phys s) p j))"
    "tree_ok (phys s') l 0 (ptr (map_entry (phys s) p j))"
    if "lo \<le> j" "j < 512" "present (map_entry (phys s) p j)" for j
    using tree_cong [OF new_entry_sibling [OF st that]] tree_ok_entry(4) [OF o that] by simp_all
  have P: "present (map_entry (phys s') p j) \<longleftrightarrow> j = i \<or> present (map_entry (phys s) p j)" if "j < 512" for j
    using ent [OF that] e U(1) by (cases "j = i") auto
  have idx: "{j. lo \<le> j \<and> j < 512 \<and> present (map_entry (phys s') p j)}
      = insert i {j. lo \<le> j \<and> j < 512 \<and> present (map_entry (phys s) p j)}"
    using P i by auto
  have sub: "tree (phys s') l 0 (ptr (map_entry (phys s') p j)) = tree (phys s) l 0 (ptr (map_entry (phys s) p j))"
    if "lo \<le> j" "j < 512" "present (map_entry (phys s) p j)" for j
    using t(1) [OF that] ent [OF that(2)] i(3) that(3) by (cases "j = i") auto
  show tr: "tree (phys s') (Suc l) lo p = insert c (tree (phys s) (Suc l) lo p)"
    unfolding tree_Suc idx UN_insert using sub by (auto simp: e U(5) Z(1))
  have cn: "c \<notin> tree (phys s) (Suc l) lo p" by (rule new_entry_facts(1) [OF st])
  have cj: "c \<notin> tree (phys s) l 0 (ptr (map_entry (phys s) p j))" if "lo \<le> j" "j < 512" "present (map_entry (phys s) p j)" for j
    using cn tree_child [OF that, of l] by blast
  show "tree_ok (phys s') (Suc l) lo p"
    unfolding tree_ok_Suc
  proof (intro conjI allI impI; (elim conjE)?)
    show "page_addr p" using o by (simp add: tree_ok_Suc)
    show "map_entry (phys s') p j = 0" if "lo \<le> j" "j < 512" "\<not> present (map_entry (phys s') p j)" for j
      using that P [of j] ent [of j] o by (cases "j = i") (auto simp: tree_ok_Suc)
    fix j assume j: "lo \<le> j" "j < 512" "present (map_entry (phys s') p j)"
    have j': "j \<noteq> i \<Longrightarrow> present (map_entry (phys s) p j)" using P j by blast
    show "writable (map_entry (phys s') p j)" "user (map_entry (phys s') p j)" "\<not> huge_page (map_entry (phys s') p j)"
      "tree_ok (phys s') l 0 (ptr (map_entry (phys s') p j))"
      using U Z(2) e tree_ok_entry(1-3) [OF o j(1,2) j'] ent [OF j(2)] t(2) [OF j(1,2) j'] by (cases "j = i"; simp)+
    show "p \<notin> tree (phys s') l 0 (ptr (map_entry (phys s') p j))"
      using U(5) Z(1) e cn sub [OF j(1,2) j'] tree_ok_entry(5) [OF o j(1,2) j'] self_in_tree [of p "phys s" "Suc l" lo]
      by (cases "j = i") auto
    fix k assume k: "lo \<le> k" "k < 512" "present (map_entry (phys s') p k)" "k \<noteq> j"
    have k': "k \<noteq> i \<Longrightarrow> present (map_entry (phys s) p k)" using P k by blast
    show "tree (phys s') l 0 (ptr (map_entry (phys s') p j)) \<inter> tree (phys s') l 0 (ptr (map_entry (phys s') p k)) = {}"
      using sub [OF j(1,2) j'] sub [OF k(1,2) k'] cj [OF j(1,2) j'] cj [OF k(1,2) k'] U(5) Z(1) e k(4)
        tree_ok_sibling [OF o j(1,2) j' k(1,2) k']
      by (cases "j = i"; cases "k = i") simp_all
  qed
qed

lemma extends_new:
  assumes st: "new_entry_step l lo p i c s s'"
  shows "extends (Suc l) lo p (if l = 0 then {i} else {}) s s'"
proof (rule extendsI)
  have i: "lo \<le> i" "i < 512" "\<not> present (map_entry (phys s) p i)" and o: "tree_ok (phys s) (Suc l) lo p"
    and c: "page_addr c" "zero_page s' c" and e: "map_entry (phys s') p i = user_entry c 0"
    and u: "\<not> used (frames s) (c div 4096)" "\<forall>f. used (frames s') f \<longleftrightarrow> used (frames s) f \<or> f * 4096 = c"
    using st by (auto simp: new_entry_step_def owned_def)
  note T = new_entry_tree [OF st] and U = user_entry_fields [OF c(1)] and Z = zero_page_tree [OF c(2,1)]
  have N: "new_pages (Suc l) lo p s s' = {c}" using T(1) new_entry_facts(1) [OF st] by (auto simp: new_pages_def)
  show "bounded (frames s')" "reg_cr3 s' = reg_cr3 s" "same_range (frames s) (frames s')" using st by (simp_all add: new_entry_step_def)
  show "tree_ok (phys s') (Suc l) lo p" "tree (phys s) (Suc l) lo p \<subseteq> tree (phys s') (Suc l) lo p" using T by auto
  show "used (frames s') f \<longleftrightarrow> used (frames s) f \<or> f * 4096 \<in> new_pages (Suc l) lo p s s'" for f using u(2) N by simp
  show "\<not> used (frames s) (q div 4096)" if "q \<in> new_pages (Suc l) lo p s s'" for q using that u(1) N by simp
  show "phys s' x = phys s x" if x: "\<forall>q\<in>tree (phys s') (Suc l) lo p. x \<notin> page q" for x
  proof -
    from x have "x \<notin> page c" "x \<notin> page p" by (simp_all add: T(1))
    moreover from this(2) i(2) have "\<not> (p + 8 * i \<le> x \<and> x < p + 8 * i + 8)" by (auto simp: page_def)
    ultimately show ?thesis using st by (simp add: new_entry_step_def)
  qed
  show "map_entry (phys s') p j = map_entry (phys s) p j" if "j < lo" "j < 512" for j
    using new_entry_facts(3) [OF st that(2)] that(1) i(1) by simp
  fix y q assume lo: "lo \<le> top_index (Suc l) y"
  let ?j = "y div 512 ^ l mod 512"
  have j: "lo \<le> ?j" "?j < 512" using lo by (simp_all add: top_index_Suc)
  note ent = new_entry_facts(3) [OF st j(2)]
  have w: "walk (phys s') l (ptr (map_entry (phys s) p ?j)) y = walk (phys s) l (ptr (map_entry (phys s) p ?j)) y"
    if "present (map_entry (phys s) p ?j)"
    using walk_cong [OF new_entry_sibling [OF st j that], of y] by simp
  show "walk (phys s') (Suc l) p y = Some q \<and> same_page s s' q" if W: "walk (phys s) (Suc l) p y = Some q"
  proof -
    from W have pr: "present (map_entry (phys s) p ?j)" and W': "walk (phys s) l (ptr (map_entry (phys s) p ?j)) y = Some q"
      by (simp_all add: Let_def split: if_splits)
    from pr i(3) have "?j \<noteq> i" by auto
    moreover have "same_page s s' q"
      using new_entry_sibling [OF st j pr] walk_in_tree [OF W', of 0] by (simp add: same_page_def)
    ultimately show ?thesis using ent w [OF pr] pr W' by (simp add: Let_def)
  qed
  show "y mod 512 ^ Suc l \<in> (if l = 0 then {i} else {}) \<and> zero_page s' q \<and> q \<in> new_pages (Suc l) lo p s s'"
    if W: "walk (phys s) (Suc l) p y = None" and W': "walk (phys s') (Suc l) p y = Some q"
  proof (cases "?j = i")
    case True
    from W' True e U have "walk (phys s') l c y = Some q" by (simp add: Let_def)
    with Z(3) True N c(2) show ?thesis by (cases l) auto
  next
    case False
    with W W' ent w show ?thesis by (simp add: Let_def split: if_splits)
  qed
qed

text \<open>An entry that is present keeps its value.\<close>

lemma set_user_writable_id:
  assumes "tree_ok (phys s) (Suc l) lo p" "lo \<le> i" "i < 512" "present (map_entry (phys s) p i)"
  shows "set_user_writable p i s = s"
proof -
  from tree_ok_entry(1,2) [OF assms] have "bit (map_entry (phys s) p i) 1" "bit (map_entry (phys s) p i) 2"
    by (simp_all add: writable_def user_def get_field_1_eq del: One_nat_def)
  then show ?thesis
    by (simp add: set_user_writable_def set_map_entry_def set_field_1_same Let_def map_entry_def del: One_nat_def)
qed

section \<open>\<open>SetupPageMap\<close>\<close>

text \<open>The number of the page of an address in the range under a page map.\<close>

fun page_number :: "nat \<Rightarrow> LinearAddress4Level \<Rightarrow> nat" where
  "page_number 0 a = 0"
| "page_number (Suc l) a = Part (Suc l) a * 512 ^ l + page_number l a"

lemma page_number_less: "page_number l a < 512 ^ l"
proof (induction l)
  case (Suc l)
  have "Part (Suc l) a * 512 ^ l + page_number l a < (Part (Suc l) a + 1) * 512 ^ l" using Suc by (simp add: algebra_simps)
  also have "\<dots> \<le> 512 * 512 ^ l" using Part_less [of "Suc l" a] by (intro mult_le_mono) simp_all
  finally show ?case by simp
qed simp

lemma page_number_next:
  assumes "l \<le> 3" and "x < 512"
  shows "page_number (Suc l) (clear_parts l (SetPart (Suc l) x a)) = x * 512 ^ l"
proof -
  have "page_number k (clear_parts l b) = 0" if "k \<le> l" for k b
    using that assms(1) by (induction k) (auto simp: Part_clear_parts)
  with assms show ?thesis by (simp add: Part_clear_parts Part_SetPart_same)
qed

definition memory_full :: "BitmapMemoryManager \<Rightarrow> bool" where
  "memory_full m \<longleftrightarrow> (\<forall>f. range_begin m \<le> f \<and> f < range_end m \<longrightarrow> used m f)"

lemma Allocate_one_fails:
  assumes "Allocate m 1 = Some (Inl e)"
  shows "e = kNoEnoughMemory \<and> memory_full m"
proof -
  from assms Allocate_from_first_fit [of m 1 "range_begin m"] have "e = kNoEnoughMemory" "\<forall>s\<ge>range_begin m. \<not> fits m s 1"
    by (simp_all add: Allocate_def first_fit_result_def)
  moreover have "fits m f 1 \<longleftrightarrow> f < range_end m \<and> \<not> used m f" for f
    by (auto simp: fits_def less_Suc_eq_le)
  ultimately show ?thesis by (auto simp: memory_full_def)
qed

text \<open>
  The outcome of mapping pages \<open>x, ..., x + n - 1\<close> in blocks of \<open>b\<close> pages: all of them up to the end of the block
  are mapped and the number that remains is returned, or the memory is full; each page takes at most one new
  frame per level.
\<close>

definition mapped :: "nat \<Rightarrow> nat \<Rightarrow> nat \<Rightarrow> (nat \<Rightarrow> bool) \<Rightarrow> nat \<Rightarrow> nat \<Rightarrow> nat \<Rightarrow> Paging \<Rightarrow> Paging \<times> nat \<times> Code \<Rightarrow> bool" where
  "mapped l lo p B x n b s = (\<lambda>(s', r, err).
     extends l lo p {x..<x + n} s s' \<and> finite (new_pages l lo p s s')
     \<and> card (new_pages l lo p s s') \<le> l * (if err = kSuccess then n - r else n)
     \<and> (if err = kSuccess
        then r = n - b \<and> (\<forall>y. lo \<le> top_index l y \<and> B y \<and> x \<le> y mod 512 ^ l \<and> y mod 512 ^ l < x + n \<longrightarrow> walk (phys s') l p y \<noteq> None)
        else err = kNoEnoughMemory \<and> memory_full (frames s')))"

lemma owned_child:
  "owned (Suc l) lo p s \<Longrightarrow> lo \<le> i \<Longrightarrow> i < 512 \<Longrightarrow> present (map_entry (phys s) p i) \<Longrightarrow> owned l 0 (ptr (map_entry (phys s) p i)) s"
  using tree_child [of lo i "phys s" p l] tree_ok_entry(4) [of "phys s" l lo p i] by (auto simp: owned_def)

lemma SetNewPageMapIfNotPresent_run:
  assumes o: "owned (Suc l) lo p s" and i: "lo \<le> i" "i < 512"
  shows "(\<exists>s0 c s1. SetNewPageMapIfNotPresent p i s = Some (Inr (s0, c)) \<and> s1 = set_user_writable p i s0
      \<and> extends (Suc l) lo p (if l = 0 then {i} else {}) s s1 \<and> new_pages (Suc l) lo p s s1 \<subseteq> {c}
      \<and> present (map_entry (phys s1) p i) \<and> ptr (map_entry (phys s1) p i) = c)
    \<or> SetNewPageMapIfNotPresent p i s = Some (Inl kNoEnoughMemory) \<and> memory_full (frames s)"
proof (cases "present (map_entry (phys s) p i)")
  case True
  then have "SetNewPageMapIfNotPresent p i s = Some (Inr (s, ptr (map_entry (phys s) p i)))"
    by (simp add: SetNewPageMapIfNotPresent_def)
  moreover have "set_user_writable p i s = s" using o i True set_user_writable_id by (auto simp: owned_def)
  ultimately show ?thesis using True extends_refl [OF o] by (auto simp: new_pages_def)
next
  case False
  from o have b: "bounded (frames s)" by (simp add: owned_def)
  then obtain r where r: "Allocate (frames s) 1 = Some r" using bitmap.allocate_total [of "frames s" 1] by auto
  show ?thesis
  proof (cases r)
    case (Inl e)
    with Allocate_one_fails [of "frames s" e] r False show ?thesis
      by (simp add: SetNewPageMapIfNotPresent_def NewPageMap_def)
  next
    case (Inr mf)
    with r False obtain s0 c where run: "SetNewPageMapIfNotPresent p i s = Some (Inr (s0, c))"
      by (cases mf) (auto simp: SetNewPageMapIfNotPresent_def NewPageMap_def Let_def)
    note st = new_entry_run [OF o i False run]
    from st have "map_entry (phys (set_user_writable p i s0)) p i = user_entry c 0" "page_addr c"
      by (simp_all add: new_entry_step_def)
    with user_entry_fields [of c] extends_new [OF st] new_entry_tree(1) [OF st] run show ?thesis by (auto simp: new_pages_def)
  qed
qed

text \<open>One round of the loop, up to the test for the last entry.\<close>

definition setup_entry :: "nat \<Rightarrow> nat \<Rightarrow> LinearAddress4Level \<Rightarrow> nat \<Rightarrow> Paging \<Rightarrow> (Paging \<times> nat \<times> Code) option" where
  "setup_entry level p a n s =
     (case SetNewPageMapIfNotPresent p (Part level a) s of
        None \<Rightarrow> None
      | Some (Inl err) \<Rightarrow> Some (s, n, err)
      | Some (Inr (s1, c)) \<Rightarrow>
          if level = 1 then Some (set_user_writable p (Part level a) s1, n - 1, kSuccess)
          else SetupPageMap (level - 1) c a n (set_user_writable p (Part level a) s1))"

lemma setup_entry_run:
  assumes o: "owned (Suc l) lo p s" and lo: "lo \<le> Part (Suc l) a" and "0 < n"
    and IH: "\<And>c s. owned l 0 c s \<Longrightarrow> l \<noteq> 0 \<Longrightarrow>
      \<exists>r. SetupPageMap l c a n s = Some r \<and> mapped l 0 c (\<lambda>_. True) (page_number l a) n (512 ^ l - page_number l a) s r"
  shows "\<exists>r. setup_entry (Suc l) p a n s = Some r \<and>
    mapped (Suc l) lo p (\<lambda>y. top_index (Suc l) y = Part (Suc l) a) (page_number (Suc l) a) n (512 ^ l - page_number l a) s r"
proof -
  let ?i = "Part (Suc l) a" and ?x = "page_number (Suc l) a"
  have i: "?i < 512" by (rule Part_less) simp
  from SetNewPageMapIfNotPresent_run [OF o lo i] show ?thesis
  proof (elim disjE exE conjE)
    assume "SetNewPageMapIfNotPresent p ?i s = Some (Inl kNoEnoughMemory)" "memory_full (frames s)"
    then show ?thesis using extends_refl [OF o] by (auto simp: setup_entry_def mapped_def new_pages_def)
  next
    fix s0 c s1
    assume run: "SetNewPageMapIfNotPresent p ?i s = Some (Inr (s0, c))" and s1: "s1 = set_user_writable p ?i s0"
      and e: "extends (Suc l) lo p (if l = 0 then {?i} else {}) s s1"
      and nc: "new_pages (Suc l) lo p s s1 \<subseteq> {c}"
      and c: "present (map_entry (phys s1) p ?i)" "ptr (map_entry (phys s1) p ?i) = c"
    have fin: "finite (new_pages (Suc l) lo p s s1)" "card (new_pages (Suc l) lo p s s1) \<le> 1"
      using finite_subset [OF nc] card_mono [OF _ nc] by simp_all
    have o1: "owned (Suc l) lo p s1" by (rule extends_owned [OF o e])
    show ?thesis
    proof (cases "l = 0")
      case True
      have "extends (Suc l) lo p {?x..<?x + n} s s1" using e True \<open>0 < n\<close> by (auto elim!: extends_mono)
      with True run s1 c fin \<open>0 < n\<close> show ?thesis by (auto simp: setup_entry_def mapped_def top_index_def Let_def)
    next
      case False
      have "owned l 0 c s1" using owned_child [OF o1 lo i c(1)] c(2) by simp
      from IH [OF this False] obtain s2 r err where rec: "SetupPageMap l c a n s1 = Some (s2, r, err)"
        and m: "mapped l 0 c (\<lambda>_. True) (page_number l a) n (512 ^ l - page_number l a) s1 (s2, r, err)" by auto
      then have cs: "child_step l lo p ?i c {page_number l a..<page_number l a + n} s1 s2"
        using o1 lo i c by (simp add: child_step_def mapped_def)
      from extends_child [OF cs] have e2: "extends (Suc l) lo p {?x..<?x + n} s1 s2"
        by (rule extends_mono) auto
      with extends_trans [OF e e2] False have ext: "extends (Suc l) lo p {?x..<?x + n} s s2" by simp
      have cov: "walk (phys s2) (Suc l) p y \<noteq> None"
        if "err = kSuccess" "top_index (Suc l) y = ?i" "?x \<le> y mod 512 ^ Suc l" "y mod 512 ^ Suc l < ?x + n" for y
        using that m child_entry [OF cs i] c page_number_split [of y l] by (auto simp: mapped_def top_index_Suc Let_def)
      have N: "new_pages (Suc l) lo p s s2 = new_pages (Suc l) lo p s s1 \<union> new_pages l 0 c s1 s2"
        using new_pages_trans [OF e e2] child_new_pages [OF cs] by simp
      from m have mc: "finite (new_pages l 0 c s1 s2)" "card (new_pages l 0 c s1 s2) \<le> l * (if err = kSuccess then n - r else n)"
        by (simp_all add: mapped_def)
      have "0 < (if err = kSuccess then n - r else n)"
        using m \<open>0 < n\<close> page_number_less [of l a] by (auto simp: mapped_def)
      then have count: "finite (new_pages (Suc l) lo p s s2)" "card (new_pages (Suc l) lo p s s2) \<le> Suc l * (if err = kSuccess then n - r else n)"
        using mc fin card_Un_le [of "new_pages (Suc l) lo p s s1" "new_pages l 0 c s1 s2"] unfolding N by auto
      from run s1 False rec have "setup_entry (Suc l) p a n s = Some (s2, r, err)" by (simp add: setup_entry_def)
      moreover have "mapped (Suc l) lo p (\<lambda>y. top_index (Suc l) y = ?i) ?x n (512 ^ l - page_number l a) s (s2, r, err)"
        using ext cov m count by (auto simp: mapped_def split: if_splits)
      ultimately show ?thesis by blast
    qed
  qed
qed

lemma SetupPageMap_round:
  assumes "l \<le> 3" and "0 < n" and "SetNewPageMapIfNotPresent p (Part (Suc l) a) s \<noteq> Some (Inl kSuccess)"
  shows "SetupPageMap (Suc l) p a n s =
    Option.bind (setup_entry (Suc l) p a n s) (\<lambda>(s2, r, err).
      if err \<noteq> kSuccess then Some (s2, n, err)
      else if Part (Suc l) a = 511 then Some (s2, r, kSuccess)
      else SetupPageMap (Suc l) p (clear_parts l (SetPart (Suc l) (Part (Suc l) a + 1) a)) r s2)"
  using assms
  by (subst SetupPageMap.simps, unfold diff_Suc_1) (auto simp: setup_entry_def Let_def split: option.splits sum.splits)

lemma block_arith:
  fixes b x' i n r :: nat
  assumes "x' < b" "i < 511" "r = n - (b - x')"
  shows "r - (512 * b - (i + 1) * b) = n - (512 * b - (i * b + x'))"
    "r \<noteq> 0 \<Longrightarrow> (i + 1) * b + r = i * b + x' + n"
proof -
  from assms(2) have "i * b + 2 * b \<le> 512 * b" using mult_le_mono1 [of "i + 2" 512 b] by (simp add: algebra_simps)
  moreover have "(i + 1) * b = i * b + b" by simp
  ultimately show "r - (512 * b - (i + 1) * b) = n - (512 * b - (i * b + x'))" "r \<noteq> 0 \<Longrightarrow> (i + 1) * b + r = i * b + x' + n"
    using assms(1,3) by arith+
qed

lemma mapped_compose:
  assumes m: "mapped (Suc l) lo p (\<lambda>y. top_index (Suc l) y = i) (i * 512 ^ l + x') n (512 ^ l - x') s (s2, r, kSuccess)"
    and m2: "mapped (Suc l) lo p (\<lambda>_. True) ((i + 1) * 512 ^ l) r (512 ^ Suc l - (i + 1) * 512 ^ l) s2 z"
    and "x' < 512 ^ l" and "i < 511"
  shows "mapped (Suc l) lo p (\<lambda>_. True) (i * 512 ^ l + x') n (512 ^ Suc l - (i * 512 ^ l + x')) s z"
proof -
  obtain s3 r3 err where z: "z = (s3, r3, err)" by (cases z) auto
  let ?x = "i * 512 ^ l + x'" and ?x2 = "(i + 1) * 512 ^ l"
  from m have r: "r = n - (512 ^ l - x')" and e: "extends (Suc l) lo p {?x..<?x + n} s s2"
    and cov: "\<And>y. lo \<le> top_index (Suc l) y \<Longrightarrow> top_index (Suc l) y = i \<Longrightarrow> ?x \<le> y mod 512 ^ Suc l \<Longrightarrow> y mod 512 ^ Suc l < ?x + n
      \<Longrightarrow> walk (phys s2) (Suc l) p y \<noteq> None"
    by (auto simp: mapped_def)
  from m2 z have e2: "extends (Suc l) lo p {?x2..<?x2 + r} s2 s3" by (simp add: mapped_def)
  note A = block_arith [OF assms(3,4) r]
  have sub: "{?x2..<?x2 + r} \<subseteq> {?x..<?x + n}"
    using A(2) assms(3) by (cases "r = 0") (auto simp: algebra_simps)
  from extends_trans [OF e e2] have ext: "extends (Suc l) lo p {?x..<?x + n} s s3" using sub by (simp add: Un_absorb2)
  have "walk (phys s3) (Suc l) p y \<noteq> None"
    if ok: "err = kSuccess" and y: "lo \<le> top_index (Suc l) y" "?x \<le> y mod 512 ^ Suc l" "y mod 512 ^ Suc l < ?x + n" for y
  proof (cases "top_index (Suc l) y = i")
    case True
    with cov y obtain q where "walk (phys s2) (Suc l) p y = Some q" by auto
    with e2 y(1) show ?thesis by (auto simp: extends_def)
  next
    case False
    have lt: "y mod 512 ^ l < 512 ^ l" by simp
    have "i < top_index (Suc l) y"
    proof (rule ccontr)
      assume "\<not> i < top_index (Suc l) y"
      with False have "top_index (Suc l) y + 1 \<le> i" by simp
      then have "(top_index (Suc l) y + 1) * 512 ^ l \<le> i * 512 ^ l" by (rule mult_le_mono1)
      then have "top_index (Suc l) y * 512 ^ l + 512 ^ l \<le> i * 512 ^ l" by (simp only: add_mult_distrib mult_1)
      with y(2) page_number_split [of y l] lt show False unfolding top_index_Suc by linarith
    qed
    then have "?x2 \<le> top_index (Suc l) y * 512 ^ l" by (intro mult_le_mono1) simp
    then have x2: "?x2 \<le> y mod 512 ^ Suc l" using page_number_split [of y l] by (simp add: top_index_Suc)
    with y(3) assms(3) have "r \<noteq> 0" unfolding r by (auto simp: algebra_simps)
    with A(2) y(3) x2 m2 z ok y(1) show ?thesis by (simp add: mapped_def)
  qed
  moreover have "finite (new_pages (Suc l) lo p s s3)"
    "card (new_pages (Suc l) lo p s s3) \<le> Suc l * (if err = kSuccess then n - r3 else n)"
  proof -
    from m m2 z have f: "finite (new_pages (Suc l) lo p s s2)" "finite (new_pages (Suc l) lo p s2 s3)"
      "card (new_pages (Suc l) lo p s s2) \<le> Suc l * (n - r)"
      "card (new_pages (Suc l) lo p s2 s3) \<le> Suc l * (if err = kSuccess then r - r3 else r)"
      unfolding mapped_def by auto
    have "r \<le> n" "err = kSuccess \<Longrightarrow> r3 \<le> r" using r m2 z by (auto simp: mapped_def)
    then have "n - r + (if err = kSuccess then r - r3 else r) = (if err = kSuccess then n - r3 else n)" by auto
    then have "Suc l * (n - r) + Suc l * (if err = kSuccess then r - r3 else r) = Suc l * (if err = kSuccess then n - r3 else n)"
      by (simp only: add_mult_distrib2 [symmetric])
    with f card_Un_le [of "new_pages (Suc l) lo p s s2" "new_pages (Suc l) lo p s2 s3"]
    show "finite (new_pages (Suc l) lo p s s3)" "card (new_pages (Suc l) lo p s s3) \<le> Suc l * (if err = kSuccess then n - r3 else n)"
      unfolding new_pages_trans [OF e e2] by auto
  qed
  ultimately show ?thesis using ext m2 z A(1) unfolding mapped_def by auto
qed

lemma SetupPageMap_step:
  assumes l: "l \<le> 3" and IH: "\<And>c s a n. owned l 0 c s \<Longrightarrow> l \<noteq> 0 \<Longrightarrow>
      \<exists>r. SetupPageMap l c a n s = Some r \<and> mapped l 0 c (\<lambda>_. True) (page_number l a) n (512 ^ l - page_number l a) s r"
  shows "owned (Suc l) lo p s \<Longrightarrow> lo \<le> Part (Suc l) a \<Longrightarrow>
   \<exists>r. SetupPageMap (Suc l) p a n s = Some r \<and>
     mapped (Suc l) lo p (\<lambda>_. True) (page_number (Suc l) a) n (512 ^ Suc l - page_number (Suc l) a) s r"
proof (induction "512 - Part (Suc l) a" arbitrary: a n s rule: less_induct)
  case less
  let ?i = "Part (Suc l) a" and ?x' = "page_number l a"
  have i: "?i < 512" by (rule Part_less) simp
  have x': "?x' < 512 ^ l" by (rule page_number_less)
  show ?case
  proof (cases "n = 0")
    case True
    then show ?thesis using extends_refl [OF less.prems(1)] by (auto simp: SetupPageMap.simps [of "Suc l"] mapped_def new_pages_def)
  next
    case False
    then have n: "0 < n" by simp
    from setup_entry_run [OF less.prems n IH] obtain s2 r err where run: "setup_entry (Suc l) p a n s = Some (s2, r, err)"
      and m: "mapped (Suc l) lo p (\<lambda>y. top_index (Suc l) y = ?i) (?i * 512 ^ l + ?x') n (512 ^ l - ?x') s (s2, r, err)"
      by auto
    have "SetNewPageMapIfNotPresent p ?i s \<noteq> Some (Inl kSuccess)"
      using SetNewPageMapIfNotPresent_run [OF less.prems i] by auto
    note R = SetupPageMap_round [OF l n this, unfolded run]
    consider "err \<noteq> kSuccess" | "err = kSuccess" "?i = 511" | "err = kSuccess" "?i < 511" using i by fastforce
    then show ?thesis
    proof cases
      case 1
      with m R show ?thesis by (auto simp: mapped_def)
    next
      case 2
      have "top_index (Suc l) y = 511" if "511 * 512 ^ l + ?x' \<le> y mod 512 ^ Suc l" for y
      proof -
        have lt: "y mod 512 ^ l < 512 ^ l" "top_index (Suc l) y < 512" by (simp_all add: top_index_def)
        have "\<not> top_index (Suc l) y \<le> 510"
        proof
          assume "top_index (Suc l) y \<le> 510"
          then have "top_index (Suc l) y * 512 ^ l \<le> 510 * 512 ^ l" by (rule mult_le_mono1)
          with that page_number_split [of y l] lt(1) show False unfolding top_index_Suc by linarith
        qed
        with lt(2) show ?thesis by simp
      qed
      with 2 m R show ?thesis by (auto simp: mapped_def)
    next
      case 3
      let ?a = "clear_parts l (SetPart (Suc l) (?i + 1) a)"
      have P: "Part (Suc l) ?a = ?i + 1" using 3(2) l by (simp add: Part_clear_parts Part_SetPart_same)
      have N: "page_number (Suc l) ?a = (?i + 1) * 512 ^ l" using page_number_next [OF l, of "?i + 1" a] 3(2) by simp
      have o: "owned (Suc l) lo p s2" using m extends_owned [OF less.prems(1)] by (auto simp: mapped_def)
      have "512 - Part (Suc l) ?a < 512 - ?i" "lo \<le> Part (Suc l) ?a" using P 3(2) less.prems(2) by simp_all
      from less.hyps [OF this(1) o this(2), of r, unfolded N] obtain z where
        z: "SetupPageMap (Suc l) p ?a r s2 = Some z"
        "mapped (Suc l) lo p (\<lambda>_. True) ((?i + 1) * 512 ^ l) r (512 ^ Suc l - (?i + 1) * 512 ^ l) s2 z"
        by blast
      with mapped_compose [OF m [unfolded 3(1)] z(2) x' 3(2)] R 3 show ?thesis by simp
    qed
  qed
qed

lemma SetupPageMap_run:
  "l \<le> 3 \<Longrightarrow> owned (Suc l) lo p s \<Longrightarrow> lo \<le> Part (Suc l) a \<Longrightarrow>
   \<exists>r. SetupPageMap (Suc l) p a n s = Some r \<and>
     mapped (Suc l) lo p (\<lambda>_. True) (page_number (Suc l) a) n (512 ^ Suc l - page_number (Suc l) a) s r"
proof (induction l arbitrary: lo p s a n)
  case 0
  then show ?case by (intro SetupPageMap_step) simp_all
next
  case (Suc l)
  show ?case
    by (rule SetupPageMap_step) (use Suc.prems Suc.IH [of 0] in simp_all)
qed

end
