(* ===== verification/PageMaps.thy ===== *)
theory PageMaps
  imports PageTrees
begin

text \<open>
  Removing page maps, and the properties of \<open>SetupPageMaps\<close> and \<open>CleanPageMaps\<close> for the user half of the
  topmost page map.
\<close>

section \<open>\<open>CleanPageMap\<close>\<close>

lemma tree_cong_entries:
  assumes e: "\<And>j. lo \<le> j \<Longrightarrow> j < 512 \<Longrightarrow> map_entry m' p j = map_entry m p j"
    and t: "\<And>j q x. lo \<le> j \<Longrightarrow> j < 512 \<Longrightarrow> present (map_entry m p j) \<Longrightarrow> q \<in> tree m l 0 (ptr (map_entry m p j)) \<Longrightarrow> x \<in> page q \<Longrightarrow> m x = m' x"
  shows "tree m' (Suc l) lo p = tree m (Suc l) lo p \<and> (tree_ok m' (Suc l) lo p \<longleftrightarrow> tree_ok m (Suc l) lo p)"
proof -
  have c: "tree m' l 0 (ptr (map_entry m p j)) = tree m l 0 (ptr (map_entry m p j))
      \<and> (tree_ok m' l 0 (ptr (map_entry m p j)) \<longleftrightarrow> tree_ok m l 0 (ptr (map_entry m p j)))"
    if "lo \<le> j" "j < 512" "present (map_entry m p j)" for j
    using t [OF that] by (intro tree_cong) blast
  have "tree m' (Suc l) lo p = tree m (Suc l) lo p" using e c by (auto simp: tree_Suc)
  moreover have "tree_ok m' (Suc l) lo p \<longleftrightarrow> tree_ok m (Suc l) lo p"
    by (simp add: tree_ok_Suc e c cong: conj_cong imp_cong)
  ultimately show ?thesis by simp
qed

text \<open>The pages under the entries from \<open>lo\<close> on are freed and the entries are zero.\<close>

definition cleaned :: "nat \<Rightarrow> nat \<Rightarrow> nat \<Rightarrow> Paging \<Rightarrow> Paging \<Rightarrow> bool" where
  "cleaned l lo p s s' \<longleftrightarrow>
     bounded (frames s') \<and> reg_cr3 s' = reg_cr3 s
     \<and> (\<forall>f. used (frames s') f \<longleftrightarrow> used (frames s) f \<and> f * 4096 \<notin> tree (phys s) l lo p - {p})
     \<and> (\<forall>x. (\<forall>q\<in>tree (phys s) l lo p. x \<notin> page q) \<longrightarrow> phys s' x = phys s x)
     \<and> (l \<noteq> 0 \<longrightarrow> (\<forall>j<512. map_entry (phys s') p j = (if lo \<le> j then 0 else map_entry (phys s) p j)))"

lemma tree_next_entry:
  assumes "i < 512"
  shows "tree m (Suc l) i p = tree m (Suc l) (Suc i) p \<union> (if present (map_entry m p i) then tree m l 0 (ptr (map_entry m p i)) else {})"
proof -
  have "{j. i \<le> j \<and> j < 512 \<and> present (map_entry m p j)} =
    {j. Suc i \<le> j \<and> j < 512 \<and> present (map_entry m p j)} \<union> (if present (map_entry m p i) then {i} else {})"
    using assms by (auto simp: le_less Suc_le_eq)
  then show ?thesis by (auto simp: tree_Suc)
qed

lemma tree_ok_next_entry: "tree_ok m (Suc l) i p \<Longrightarrow> tree_ok m (Suc l) (Suc i) p"
  unfolding tree_ok_Suc by (meson Suc_leD)

lemma owned_next_entry: "i < 512 \<Longrightarrow> owned (Suc l) i p s \<Longrightarrow> owned (Suc l) (Suc i) p s"
  using tree_next_entry [of i "phys s" l p] tree_ok_next_entry [of "phys s" l i p] by (auto simp: owned_def)

lemma tree_apart_next:
  assumes ok: "tree_ok m (Suc l) i p" and i: "i < 512" "present (map_entry m p i)"
  shows "tree m (Suc l) (Suc i) p \<inter> tree m l 0 (ptr (map_entry m p i)) = {}"
proof (rule ccontr)
  assume "tree m (Suc l) (Suc i) p \<inter> tree m l 0 (ptr (map_entry m p i)) \<noteq> {}"
  then obtain q where q: "q \<in> tree m l 0 (ptr (map_entry m p i))" "q \<in> tree m (Suc l) (Suc i) p" by blast
  have "q \<noteq> p" using tree_ok_entry(5) [OF ok _ i] q(1) by auto
  with q(2) obtain j where j: "Suc i \<le> j" "j < 512" "present (map_entry m p j)" "q \<in> tree m l 0 (ptr (map_entry m p j))"
    by (auto simp: tree_Suc)
  with tree_ok_sibling [OF ok _ i _ j(2,3)] q(1) show False by fastforce
qed

text \<open>One present entry: its subtree is cleaned, its page freed and the entry cleared.\<close>

lemma clean_entry:
  assumes o: "owned (Suc l) i p s" and i: "i < 512" and pr: "present (map_entry (phys s) p i)"
    and c: "c = ptr (map_entry (phys s) p i)" and cl: "cleaned l 0 c s s1"
  shows "\<exists>m. Free (frames s1) (c div kBytesPerFrame) 1 = Some (m, kSuccess) \<and>
    owned (Suc l) (Suc i) p (set_map_entry p i 0 (s1\<lparr>frames := m\<rparr>)) \<and>
    (\<forall>s'. cleaned (Suc l) (Suc i) p (set_map_entry p i 0 (s1\<lparr>frames := m\<rparr>)) s' \<longrightarrow> cleaned (Suc l) i p s s')"
proof -
  let ?m = "phys s" and ?T = "tree (phys s) l 0 c" and ?U = "tree (phys s) (Suc l) (Suc i) p"
  have ok: "tree_ok ?m (Suc l) i p" using o by (simp add: owned_def)
  have cT: "page_addr c" using tree_ok_page [OF tree_ok_entry(4) [OF ok _ i pr]] c by simp
  then have c4: "c div 4096 * 4096 = c" "c div 4096 + 1 \<le> kFrameCount" by (auto simp: page_addr_def)
  note C = cl [unfolded cleaned_def]
  from bitmap.release_frames [of "frames s1" "c div 4096" 1] C c4(2) obtain m where
    m: "Free (frames s1) (c div 4096) 1 = Some (m, kSuccess)" "bounded m"
    and "\<forall>f. used m f \<longleftrightarrow> used (frames s1) f \<and> \<not> (c div 4096 \<le> f \<and> f < c div 4096 + 1)"
    by blast
  then have m3: "used m f \<longleftrightarrow> used (frames s1) f \<and> f \<noteq> c div 4096" for f by (cases "f = c div 4096") auto
  let ?s = "set_map_entry p i 0 (s1\<lparr>frames := m\<rparr>)"
  have U: "used (frames ?s) f \<longleftrightarrow> used (frames s) f \<and> f * 4096 \<notin> ?T" for f
    using C m3 [of f] c4(1) self_in_tree [of c ?m l 0] by auto
  have d: "?U \<inter> ?T = {}" using tree_apart_next [OF ok i pr] c by simp
  have all: "tree ?m (Suc l) i p = ?U \<union> ?T" using tree_next_entry [OF i, of ?m l p] pr c by simp
  have pa: "page_addr q" if "q \<in> ?U \<union> ?T" for q using tree_ok_page [OF ok] that all by blast
  have off: "phys s1 x = ?m x" if "q \<in> ?U" "x \<in> page q" for q x
  proof -
    have "x \<notin> page r" if "r \<in> ?T" for r
      using page_disjoint [of q r] pa [of q] pa [of r] d \<open>q \<in> ?U\<close> \<open>x \<in> page q\<close> that by blast
    with C show ?thesis by simp
  qed
  have slot: "p + 8 * i + k \<in> page p" if "k < 8" for k using that i by (simp add: page_def)
  have ent: "map_entry (phys ?s) p j = (if j = i then 0 else map_entry ?m p j)" if j: "j < 512" for j
  proof (cases "j = i")
    case False
    then have "map_entry (phys ?s) p j = map_entry (phys s1) p j"
      by (auto simp: map_entry_def set_map_entry_def intro!: le64_put64_other)
    also have "\<dots> = map_entry ?m p j" using off [OF self_in_tree] j by (intro map_entry_cong) auto
    finally show ?thesis using False by simp
  qed simp
  have far: "phys ?s x = phys s1 x" if "x \<notin> page p" for x
  proof -
    have "x < p + 8 * i \<or> p + 8 * i + 8 \<le> x" using that i by (auto simp: page_def)
    then show ?thesis using set_map_entry_other [of x p i 0 "s1\<lparr>frames := m\<rparr>"] by simp
  qed
  have sub: "?m x = phys ?s x" if j: "Suc i \<le> j" "j < 512" "present (map_entry ?m p j)"
    and q: "q \<in> tree ?m l 0 (ptr (map_entry ?m p j))" "x \<in> page q" for j q x
  proof -
    have qU: "q \<in> ?U" using tree_child [OF j, of l] q(1) by blast
    have "q \<noteq> p" using tree_ok_entry(5) [OF ok _ j(2,3)] j(1) q(1) by auto
    then have "x \<notin> page p" using page_disjoint [of q p] pa [of q] pa [of p] qU q(2) by auto
    with far off [OF qU q(2)] show ?thesis by simp
  qed
  have T: "tree (phys ?s) (Suc l) (Suc i) p = ?U" "tree_ok (phys ?s) (Suc l) (Suc i) p"
    using tree_cong_entries [of "Suc i" "phys ?s" p ?m l] ent sub tree_ok_next_entry [OF ok] by auto
  have mult: "q div 4096 * 4096 = q" if "q \<in> ?U" for q using pa [of q] that by (auto simp: page_addr_def)
  have "owned (Suc l) (Suc i) p ?s"
    using o T U d all m(2) mult unfolding owned_def by (auto simp: disjoint_iff)
  moreover have "cleaned (Suc l) i p s s'" if cl': "cleaned (Suc l) (Suc i) p ?s s'" for s'
  proof -
    note D = cl' [unfolded cleaned_def T]
    have p: "p \<in> ?U" "p \<notin> ?T" using d self_in_tree [of p ?m "Suc l" "Suc i"] by blast+
    have "used (frames s') f \<longleftrightarrow> used (frames s) f \<and> f * 4096 \<notin> tree ?m (Suc l) i p - {p}" for f
      using D U [of f] p unfolding all by auto
    moreover have "phys s' x = ?m x" if x: "\<forall>q\<in>tree ?m (Suc l) i p. x \<notin> page q" for x
    proof -
      from x have "\<forall>q\<in>?U. x \<notin> page q" "\<forall>q\<in>?T. x \<notin> page q" "x \<notin> page p" using p(1) unfolding all by auto
      then show ?thesis using D C far [of x] by simp
    qed
    moreover have "map_entry (phys s') p j = (if i \<le> j then 0 else map_entry ?m p j)" if "j < 512" for j
      using D ent [OF that] that by (auto simp: Suc_le_eq)
    ultimately show ?thesis using D C by (simp add: cleaned_def)
  qed
  ultimately show ?thesis using m(1) by (auto simp: kBytesPerFrame_def)
qed

lemma clean_from_step:
  assumes IH: "\<And>c s. owned l 0 c s \<Longrightarrow> l \<noteq> 0 \<Longrightarrow> \<exists>s'. clean_from l c 0 s = Some (s', kSuccess) \<and> cleaned l 0 c s s'"
  shows "owned (Suc l) i p s \<Longrightarrow> i \<le> 512 \<Longrightarrow> \<exists>s'. clean_from (Suc l) p i s = Some (s', kSuccess) \<and> cleaned (Suc l) i p s s'"
proof (induction "512 - i" arbitrary: i s)
  case 0
  then have "tree (phys s) (Suc l) i p = {p}" by (auto simp: tree_Suc)
  with 0 show ?case by (simp add: clean_from.simps [of "Suc l"] cleaned_def owned_def)
next
  case (Suc k)
  then have i: "i < 512" and k: "k = 512 - Suc i" by simp_all
  show ?case
  proof (cases "present (map_entry (phys s) p i)")
    case False
    then have e0: "map_entry (phys s) p i = 0" using Suc.prems(1) i by (simp add: owned_def tree_ok_Suc)
    have t: "tree (phys s) (Suc l) i p = tree (phys s) (Suc l) (Suc i) p" using tree_next_entry [OF i, of "phys s" l p] False by simp
    from Suc.hyps(1) [OF k owned_next_entry [OF i Suc.prems(1)]] i obtain s' where
      s': "clean_from (Suc l) p (Suc i) s = Some (s', kSuccess)" "cleaned (Suc l) (Suc i) p s s'" by auto
    then have "cleaned (Suc l) i p s s'" unfolding cleaned_def t using e0 by (auto simp: Suc_le_eq le_less)
    with s'(1) i False show ?thesis by (simp add: clean_from.simps [of "Suc l" p i])
  next
    case True
    let ?c = "ptr (map_entry (phys s) p i)"
    obtain s1 where s1: "(if 1 < Suc l then clean_from l ?c 0 s else Some (s, kSuccess)) = Some (s1, kSuccess)" "cleaned l 0 ?c s s1"
    proof (cases "l = 0")
      case True
      then have "cleaned l 0 ?c s s" using Suc.prems(1) by (simp add: cleaned_def owned_def)
      with that [of s] True show ?thesis by simp
    next
      case False
      from IH [OF owned_child [OF Suc.prems(1) order_refl i True] False] that False show ?thesis by auto
    qed
    from clean_entry [OF Suc.prems(1) i True refl s1(2)] obtain m where
      m: "Free (frames s1) (?c div kBytesPerFrame) 1 = Some (m, kSuccess)"
      and o: "owned (Suc l) (Suc i) p (set_map_entry p i 0 (s1\<lparr>frames := m\<rparr>))"
      and cl: "\<And>s'. cleaned (Suc l) (Suc i) p (set_map_entry p i 0 (s1\<lparr>frames := m\<rparr>)) s' \<Longrightarrow> cleaned (Suc l) i p s s'"
      by blast
    from Suc.hyps(1) [OF k o] i obtain s' where
      s': "clean_from (Suc l) p (Suc i) (set_map_entry p i 0 (s1\<lparr>frames := m\<rparr>)) = Some (s', kSuccess)"
      "cleaned (Suc l) (Suc i) p (set_map_entry p i 0 (s1\<lparr>frames := m\<rparr>)) s'" by auto
    have "clean_from (Suc l) p i s = Some (s', kSuccess)"
      unfolding clean_from.simps [of "Suc l" p i] using i True s1(1) m s'(1) by (cases "l = 0") (simp_all add: Let_def)
    with cl [OF s'(2)] show ?thesis by blast
  qed
qed

lemma clean_from_run:
  "owned (Suc l) i p s \<Longrightarrow> i \<le> 512 \<Longrightarrow> \<exists>s'. clean_from (Suc l) p i s = Some (s', kSuccess) \<and> cleaned (Suc l) i p s s'"
proof (induction l arbitrary: i p s)
  case 0
  then show ?case by (intro clean_from_step) simp_all
next
  case (Suc l)
  show ?case by (rule clean_from_step) (use Suc in simp_all)
qed

section \<open>The user half of the current page map\<close>

definition pml4 :: "Paging \<Rightarrow> nat" where "pml4 s = unat (reg_cr3 s)"

definition user_space :: "Paging \<Rightarrow> bool" where "user_space s \<longleftrightarrow> owned 4 256 (pml4 s) s"

definition user_address :: "LinearAddress4Level \<Rightarrow> bool" where "user_address a \<longleftrightarrow> 256 \<le> Part 4 a"

definition user_walk :: "Paging \<Rightarrow> LinearAddress4Level \<Rightarrow> nat option" where
  "user_walk s a = walk (phys s) 4 (pml4 s) (page_number 4 a)"

definition subtree :: "Paging \<Rightarrow> nat \<Rightarrow> nat set" where
  "subtree s i = tree (phys s) 3 0 (ptr (map_entry (phys s) (pml4 s) i))"

lemma page_number_parts: "Suc k \<le> l \<Longrightarrow> page_number l a div 512 ^ k mod 512 = Part (Suc k) a"
proof (induction l)
  case (Suc l)
  show ?case
  proof (cases "k = l")
    case True
    then show ?thesis using page_number_less [of l a] Part_less [of "Suc l" a] by simp
  next
    case False
    then have k: "Suc k \<le> l" using Suc.prems by simp
    then obtain d where l: "l = k + Suc d" by (metis add_Suc_right le_iff_add add_Suc)
    have e: "Part (Suc l) a * 512 ^ l = (Part (Suc l) a * 512 ^ d * 512) * 512 ^ k" by (simp add: l power_add)
    have "page_number (Suc l) a div 512 ^ k = Part (Suc l) a * 512 ^ d * 512 + page_number l a div 512 ^ k"
      unfolding page_number.simps e by (rule div_mult_self3) simp
    then show ?thesis using Suc.IH [OF k] by (simp only: mod_mult_self3)
  qed
qed simp

lemma top_index_page_number: "top_index 4 (page_number 4 a) = Part 4 a"
  using page_number_parts [of 3 4 a] by (simp add: top_index_def)

lemma page_number_mod: "page_number 4 a mod 512 ^ 4 = page_number 4 a"
  using page_number_less [of 4 a] by simp

lemma CleanPageMaps_run:
  assumes u: "user_space s" and a: "user_address addr" and pr: "present (map_entry (phys s) (pml4 s) (Part 4 addr))"
  shows "\<exists>s'. CleanPageMaps addr s = Some (s', kSuccess) \<and> bounded (frames s') \<and> reg_cr3 s' = reg_cr3 s
    \<and> (\<forall>f. used (frames s') f \<longleftrightarrow> used (frames s) f \<and> f * 4096 \<notin> subtree s (Part 4 addr))
    \<and> (\<forall>j<512. map_entry (phys s') (pml4 s) j = (if j = Part 4 addr then 0 else map_entry (phys s) (pml4 s) j))
    \<and> (\<forall>q\<in>tree (phys s) 4 256 (pml4 s) - subtree s (Part 4 addr) - {pml4 s}. \<forall>x\<in>page q. phys s' x = phys s x)"
proof -
  let ?p = "pml4 s" and ?i = "Part 4 addr"
  let ?c = "ptr (map_entry (phys s) ?p ?i)" and ?cleared = "set_map_entry ?p ?i 0 s"
  let ?T = "tree (phys s) 3 0 ?c"
  have four: "(4::nat) = Suc 3" "(3::nat) = Suc 2" by simp_all
  have i: "256 \<le> ?i" "?i < 512" using a Part_less [of 4 addr] by (simp_all add: user_address_def)
  have o: "owned (Suc 3) 256 ?p s" using u by (simp add: user_space_def)
  then have ok: "tree_ok (phys s) (Suc 3) 256 ?p" by (simp add: owned_def)
  have oc: "owned 3 0 ?c s" by (rule owned_child [OF o i pr])
  have pT: "?p \<notin> ?T" using tree_ok_entry(5) [OF ok i pr] .
  have pa: "page_addr q" if "q \<in> tree (phys s) (Suc 3) 256 ?p" for q using tree_ok_page [OF ok that] .
  have TU: "?T \<subseteq> tree (phys s) (Suc 3) 256 ?p" by (rule tree_child [OF i pr])
  have far: "phys ?cleared x = phys s x" if "x \<notin> page ?p" for x
  proof -
    have "x < ?p + 8 * ?i \<or> ?p + 8 * ?i + 8 \<le> x" using that i(2) by (auto simp: page_def)
    then show ?thesis by (rule set_map_entry_other)
  qed
  have off: "x \<notin> page r" if "q \<in> tree (phys s) (Suc 3) 256 ?p" "r \<in> tree (phys s) (Suc 3) 256 ?p" "q \<noteq> r" "x \<in> page q" for q r x
    using page_disjoint [of q r] pa that by blast
  have same: "\<forall>q\<in>?T. \<forall>x\<in>page q. phys s x = phys ?cleared x"
  proof (intro ballI)
    fix q x assume q: "q \<in> ?T" "x \<in> page q"
    then have "q \<in> tree (phys s) (Suc 3) 256 ?p" "q \<noteq> ?p" using TU pT by blast+
    from off [OF this(1) self_in_tree this(2) q(2)] far [of x] show "phys s x = phys ?cleared x" by simp
  qed
  note S = tree_cong [OF same]
  have o0: "owned (Suc 2) 0 ?c ?cleared" using oc S unfolding owned_def four by simp
  from clean_from_run [OF o0] obtain s1 where s1: "clean_from (Suc 2) ?c 0 ?cleared = Some (s1, kSuccess)" "cleaned (Suc 2) 0 ?c ?cleared s1"
    by auto
  note C = s1(2) [unfolded cleaned_def four(2) [symmetric] conjunct1 [OF S]]
  have c4: "?c div 4096 * 4096 = ?c" "?c div 4096 + 1 \<le> kFrameCount"
    using pa [OF subsetD [OF TU self_in_tree]] by (auto simp: page_addr_def)
  from bitmap.release_frames [of "frames s1" "?c div 4096" 1] C c4(2) obtain m where
    m: "Free (frames s1) (?c div 4096) 1 = Some (m, kSuccess)" "bounded m"
    and m': "\<forall>f. used m f \<longleftrightarrow> used (frames s1) f \<and> \<not> (?c div 4096 \<le> f \<and> f < ?c div 4096 + 1)"
    by blast
  let ?s = "s1\<lparr>frames := m\<rparr>"
  have run: "CleanPageMaps addr s = Some (?s, kSuccess)"
    using s1(1) m(1) by (simp add: CleanPageMaps_def CleanPageMap_def Let_def pml4_def [symmetric] kBytesPerFrame_def four(2) [symmetric])
  have us: "used (frames ?s) f \<longleftrightarrow> used (frames s) f \<and> f * 4096 \<notin> ?T" for f
  proof (cases "f = ?c div 4096")
    case True
    then show ?thesis using m' c4(1) self_in_tree [of ?c "phys s" 3 0] by auto
  next
    case False
    then have "f * 4096 \<noteq> ?c" using c4(1) by auto
    with False m' C show ?thesis by auto
  qed
  have out: "phys ?s x = phys ?cleared x" if "q \<in> tree (phys s) (Suc 3) 256 ?p" "q \<notin> ?T" "x \<in> page q" for q x
  proof -
    have "x \<notin> page r" if "r \<in> ?T" for r using off [OF \<open>q \<in> _\<close> _ _ \<open>x \<in> page q\<close>, of r] TU that \<open>q \<notin> ?T\<close> by blast
    with C show ?thesis by simp
  qed
  have ent: "map_entry (phys ?s) ?p j = (if j = ?i then 0 else map_entry (phys s) ?p j)" if "j < 512" for j
  proof -
    have "map_entry (phys ?s) ?p j = map_entry (phys ?cleared) ?p j" using out [of ?p] pT that by (intro map_entry_cong) auto
    also have "\<dots> = (if j = ?i then 0 else map_entry (phys s) ?p j)"
      by (auto simp: map_entry_def set_map_entry_def intro!: le64_put64_other)
    finally show ?thesis .
  qed
  have oth: "phys ?s x = phys s x" if "q \<in> tree (phys s) (Suc 3) 256 ?p" "q \<notin> ?T" "q \<noteq> ?p" "x \<in> page q" for q x
    using out [OF that(1,2,4)] far off [OF that(1) _ that(3,4)] by simp
  show ?thesis
    using run us ent oth C m(2) by (intro exI [of _ ?s]) (auto simp: subtree_def)
qed

lemma CleanPageMaps_user_space:
  assumes u: "user_space s" and pr: "256 \<le> i" "i < 512" "present (map_entry (phys s) (pml4 s) i)"
    and s': "bounded (frames s')" "reg_cr3 s' = reg_cr3 s"
    "\<And>f. used (frames s') f \<longleftrightarrow> used (frames s) f \<and> f * 4096 \<notin> subtree s i"
    and e: "\<And>j. j < 512 \<Longrightarrow> map_entry (phys s') (pml4 s) j = (if j = i then 0 else map_entry (phys s) (pml4 s) j)"
    and m: "\<And>q x. q \<in> tree (phys s) 4 256 (pml4 s) - subtree s i - {pml4 s} \<Longrightarrow> x \<in> page q \<Longrightarrow> phys s' x = phys s x"
  shows "user_space s' \<and> tree (phys s') 4 256 (pml4 s) = tree (phys s) 4 256 (pml4 s) - subtree s i
    \<and> (\<forall>y. 256 \<le> top_index 4 y \<and> top_index 4 y \<noteq> i \<longrightarrow> walk (phys s') 4 (pml4 s) y = walk (phys s) 4 (pml4 s) y
         \<and> (\<forall>q. walk (phys s) 4 (pml4 s) y = Some q \<longrightarrow> same_page s s' q))"
proof -
  let ?p = "pml4 s" and ?c = "\<lambda>j. ptr (map_entry (phys s) (pml4 s) j)"
  have four: "(4::nat) = Suc 3" by simp
  have p': "pml4 s' = ?p" using s'(2) by (simp add: pml4_def)
  have ok: "tree_ok (phys s) (Suc 3) 256 ?p" using u unfolding user_space_def owned_def four by simp
  have sep: "q \<in> tree (phys s) (Suc 3) 256 ?p - subtree s i - {?p}"
    if j: "256 \<le> j" "j < 512" "present (map_entry (phys s) ?p j)" "j \<noteq> i" and q: "q \<in> tree (phys s) 3 0 (?c j)" for j q
    using tree_ok_sibling [OF ok j(1-3) pr j(4)] tree_ok_entry(5) [OF ok j(1-3)] tree_child [OF j(1-3), of 3] q
    by (auto simp: subtree_def)
  have agree: "\<forall>q\<in>tree (phys s) 3 0 (?c j). \<forall>x\<in>page q. phys s x = phys s' x"
    if j: "256 \<le> j" "j < 512" "present (map_entry (phys s) ?p j)" "j \<noteq> i" for j
    using sep [OF j] m unfolding four by (metis (no_types, lifting))
  have P: "present (map_entry (phys s') ?p j) \<longleftrightarrow> j \<noteq> i \<and> present (map_entry (phys s) ?p j)" if "j < 512" for j
    using e [OF that] by simp
  note T = tree_cong [OF agree]
  have tr: "tree (phys s') (Suc 3) 256 ?p = tree (phys s) (Suc 3) 256 ?p - subtree s i"
  proof -
    have "tree (phys s') (Suc 3) 256 ?p = insert ?p (\<Union>j\<in>{j. 256 \<le> j \<and> j < 512 \<and> present (map_entry (phys s) ?p j) \<and> j \<noteq> i}. tree (phys s) 3 0 (?c j))"
    proof -
      let ?I = "{j. 256 \<le> j \<and> j < 512 \<and> present (map_entry (phys s) ?p j) \<and> j \<noteq> i}"
      have I: "{j. 256 \<le> j \<and> j < 512 \<and> present (map_entry (phys s') ?p j)} = ?I" using P by auto
      have "(\<Union>j\<in>?I. tree (phys s') 3 0 (ptr (map_entry (phys s') ?p j))) = (\<Union>j\<in>?I. tree (phys s) 3 0 (?c j))"
        by (rule SUP_cong [OF refl]) (simp add: e T)
      then show ?thesis unfolding tree_Suc I by simp
    qed
    moreover have "tree (phys s) (Suc 3) 256 ?p =
        insert ?p (\<Union>j\<in>{j. 256 \<le> j \<and> j < 512 \<and> present (map_entry (phys s) ?p j) \<and> j \<noteq> i}. tree (phys s) 3 0 (?c j)) \<union> subtree s i"
      unfolding tree_Suc subtree_def using pr by blast
    moreover have "insert ?p (\<Union>j\<in>{j. 256 \<le> j \<and> j < 512 \<and> present (map_entry (phys s) ?p j) \<and> j \<noteq> i}. tree (phys s) 3 0 (?c j)) \<inter> subtree s i = {}"
      using sep tree_ok_entry(5) [OF ok pr] by (auto simp: subtree_def [of s i, symmetric])
    ultimately show ?thesis by (simp only: Un_Diff Diff_cancel Un_empty_right Diff_triv)
  qed
  have ok': "tree_ok (phys s') (Suc 3) 256 ?p"
    unfolding tree_ok_Suc
  proof (intro conjI allI impI; (elim conjE)?)
    show "page_addr ?p" using ok unfolding tree_ok_Suc by blast
    show "map_entry (phys s') ?p j = 0" if "256 \<le> j" "j < 512" "\<not> present (map_entry (phys s') ?p j)" for j
      using that P [of j] e [of j] ok unfolding tree_ok_Suc by (cases "j = i") auto
    fix j assume j: "256 \<le> j" "j < 512" "present (map_entry (phys s') ?p j)"
    then have j': "present (map_entry (phys s) ?p j)" "j \<noteq> i" and E: "map_entry (phys s') ?p j = map_entry (phys s) ?p j" using P e by auto
    show "writable (map_entry (phys s') ?p j)" "user (map_entry (phys s') ?p j)" "\<not> huge_page (map_entry (phys s') ?p j)"
      "tree_ok (phys s') 3 0 (ptr (map_entry (phys s') ?p j))" "?p \<notin> tree (phys s') 3 0 (ptr (map_entry (phys s') ?p j))"
      unfolding E using tree_ok_entry [OF ok j(1,2) j'(1)] T [OF j(1,2) j'] by simp_all
    fix k assume k: "256 \<le> k" "k < 512" "present (map_entry (phys s') ?p k)" "k \<noteq> j"
    then have k': "present (map_entry (phys s) ?p k)" "k \<noteq> i" and F: "map_entry (phys s') ?p k = map_entry (phys s) ?p k" using P e by auto
    show "tree (phys s') 3 0 (ptr (map_entry (phys s') ?p j)) \<inter> tree (phys s') 3 0 (ptr (map_entry (phys s') ?p k)) = {}"
      unfolding E F using tree_ok_sibling [OF ok j(1,2) j'(1) k(1,2) k'(1)] k(4) T [OF j(1,2) j'] T [OF k(1,2) k'] by simp
  qed
  have mult: "q div 4096 * 4096 = q" if "q \<in> tree (phys s) (Suc 3) 256 ?p" for q
    using tree_ok_page [OF ok that] by (auto simp: page_addr_def)
  have "owned (Suc 3) 256 ?p s'"
    using u s'(1,3) ok' tr mult unfolding owned_def user_space_def four by auto
  moreover have "walk (phys s') (Suc 3) ?p y = walk (phys s) (Suc 3) ?p y
      \<and> (\<forall>q. walk (phys s) (Suc 3) ?p y = Some q \<longrightarrow> same_page s s' q)" if y: "256 \<le> top_index (Suc 3) y" "top_index (Suc 3) y \<noteq> i" for y
  proof -
    let ?j = "y div 512 ^ 3 mod 512"
    have j: "256 \<le> ?j" "?j < 512" "?j \<noteq> i" using y unfolding top_index_Suc by simp_all
    have E: "map_entry (phys s') ?p ?j = map_entry (phys s) ?p ?j" using e [OF j(2)] j(3) by simp
    show ?thesis
      unfolding walk.simps Let_def E
      using walk_cong [OF agree [OF j(1,2) _ j(3)], of y] agree [OF j(1,2) _ j(3)]
        walk_in_tree [of "phys s" 3 "ptr (map_entry (phys s) ?p ?j)" y _ 0]
      by (auto simp: same_page_def simp del: power_numeral)
  qed
  ultimately show ?thesis using tr unfolding user_space_def p' four by blast
qed

lemma walk_inj:
  assumes "tree_ok m l lo p" "lo \<le> top_index l y" "lo \<le> top_index l z" "walk m l p y = Some q" "walk m l p z = Some q"
  shows "y mod 512 ^ l = z mod 512 ^ l"
  using assms
proof (induction l arbitrary: lo p)
  case (Suc l)
  let ?i = "y div 512 ^ l mod 512" and ?j = "z div 512 ^ l mod 512"
  have i: "lo \<le> ?i" "?i < 512" "lo \<le> ?j" "?j < 512" using Suc.prems(2,3) by (simp_all add: top_index_Suc)
  from Suc.prems(4,5) have w: "present (map_entry m p ?i)" "walk m l (ptr (map_entry m p ?i)) y = Some q"
    "present (map_entry m p ?j)" "walk m l (ptr (map_entry m p ?j)) z = Some q"
    by (simp_all add: Let_def split: if_splits)
  have "q \<in> tree m l 0 (ptr (map_entry m p ?i))" "q \<in> tree m l 0 (ptr (map_entry m p ?j))"
    using walk_in_tree [OF w(2), of 0] walk_in_tree [OF w(4), of 0] by simp_all
  with tree_ok_sibling [OF Suc.prems(1) i(1,2) w(1) i(3,4) w(3)] have ij: "?i = ?j" by blast
  with Suc.IH [OF tree_ok_entry(4) [OF Suc.prems(1) i(1,2) w(1)] _ _ w(2)] w(4) have "y mod 512 ^ l = z mod 512 ^ l" by simp
  with ij page_number_split [of y l] page_number_split [of z l] show ?case by simp
qed simp

lemma setup_new_entry:
  assumes o: "owned (Suc l) lo p s" and lo: "lo \<le> Part (Suc l) a" and np: "\<not> present (map_entry (phys s) p (Part (Suc l) a))"
    and l: "l = Suc k" "k \<le> 2" and run: "setup_entry (Suc l) p a n s = Some (s2, r, kSuccess)"
  shows "present (map_entry (phys s2) p (Part (Suc l) a))
    \<and> new_pages (Suc l) lo p s s2 = tree (phys s2) l 0 (ptr (map_entry (phys s2) p (Part (Suc l) a)))"
proof -
  let ?i = "Part (Suc l) a"
  have i: "?i < 512" by (rule Part_less) simp
  from run obtain s0 c where n: "SetNewPageMapIfNotPresent p ?i s = Some (Inr (s0, c))"
    and rec: "SetupPageMap l c a n (set_user_writable p ?i s0) = Some (s2, r, kSuccess)"
    using SetNewPageMapIfNotPresent_run [OF o lo i] l(1) by (auto simp: setup_entry_def)
  let ?t = "set_user_writable p ?i s0"
  note st = new_entry_run [OF o lo i np n]
  note T = new_entry_tree [OF st] and e = extends_new [OF st]
  have o1: "owned (Suc l) lo p ?t" by (rule extends_owned [OF o e])
  have c: "page_addr c" "map_entry (phys ?t) p ?i = user_entry c 0" "zero_page ?t c" using st by (simp_all add: new_entry_step_def)
  then have pc: "present (map_entry (phys ?t) p ?i)" "ptr (map_entry (phys ?t) p ?i) = c" using user_entry_fields [OF c(1)] by simp_all
  have oc: "owned l 0 c ?t" using owned_child [OF o1 lo i pc(1)] pc(2) by simp
  from SetupPageMap_run [of k 0 c ?t a n] oc l rec have
    "extends l 0 c {page_number l a..<page_number l a + n} ?t s2" by (auto simp: mapped_def)
  then have cs: "child_step l lo p ?i c {page_number l a..<page_number l a + n} ?t s2"
    using o1 lo i pc by (simp add: child_step_def)
  have ent: "map_entry (phys s2) p ?i = map_entry (phys ?t) p ?i" by (rule child_entry [OF cs i])
  have t1: "tree (phys ?t) l 0 c = {c}" by (rule zero_page_tree(1) [OF c(3,1)])
  have sub: "{c} \<subseteq> tree (phys s2) l 0 c" by simp
  have "new_pages (Suc l) lo p s s2 = tree (phys s2) l 0 c"
    unfolding new_pages_def child_tree [OF cs] T(1)
    using new_entry_facts(1) [OF st] child_new [OF cs] t1 unfolding new_pages_def T(1) by auto
  with pc ent show ?thesis by simp
qed

section \<open>Properties\<close>

lemma extends_user_space:
  "user_space s \<Longrightarrow> extends 4 256 (pml4 s) Y s s' \<Longrightarrow> user_space s' \<and> pml4 s' = pml4 s"
  using extends_owned [of 4 256 "pml4 s" s Y s'] by (auto simp: user_space_def pml4_def extends_def)

lemma SetupPageMaps_run:
  assumes "user_space s" and "user_address addr"
  shows "\<exists>s' r err. SetupPageMaps addr n s = Some (s', err) \<and> SetupPageMap 4 (pml4 s) addr n s = Some (s', r, err) \<and>
     mapped 4 256 (pml4 s) (\<lambda>_. True) (page_number 4 addr) n (512 ^ 4 - page_number 4 addr) s (s', r, err)"
proof -
  have "\<exists>r. SetupPageMap (Suc 3) (pml4 s) addr n s = Some r \<and>
     mapped (Suc 3) 256 (pml4 s) (\<lambda>_. True) (page_number (Suc 3) addr) n (512 ^ Suc 3 - page_number (Suc 3) addr) s r"
    using assms by (intro SetupPageMap_run) (simp_all add: user_space_def user_address_def)
  moreover have "Suc 3 = 4" by simp
  ultimately show ?thesis by (auto simp: SetupPageMaps_def pml4_def [symmetric] simp del: power_Suc page_number.simps)
qed

definition free_frames :: "BitmapMemoryManager \<Rightarrow> nat set" where
  "free_frames m = {f. range_begin m \<le> f \<and> f < range_end m \<and> \<not> used m f}"

lemma mapped_succeeds:
  assumes m: "mapped l lo p B x n b s (s', r, err)" and c: "l * n < card (free_frames (frames s))"
  shows "err = kSuccess"
proof (rule ccontr)
  assume "err \<noteq> kSuccess"
  with m have e: "extends l lo p {x..<x + n} s s'" and f: "memory_full (frames s')" "finite (new_pages l lo p s s')"
    and n: "card (new_pages l lo p s s') \<le> l * n" by (auto simp: mapped_def)
  have "free_frames (frames s) \<subseteq> (\<lambda>q. q div 4096) ` new_pages l lo p s s'"
  proof
    fix g assume g: "g \<in> free_frames (frames s)"
    with e f(1) have "used (frames s') g" by (auto simp: free_frames_def extends_def same_range_def memory_full_def)
    with e g have "g * 4096 \<in> new_pages l lo p s s'" by (simp add: free_frames_def extends_def)
    then show "g \<in> (\<lambda>q. q div 4096) ` new_pages l lo p s s'" by (rule rev_image_eqI) simp
  qed
  from surj_card_le [OF f(2) this] n c show False by simp
qed


lemma walk_top:
  "walk m 4 p (page_number 4 b) =
     (if present (map_entry m p (Part 4 b)) then walk m 3 (ptr (map_entry m p (Part 4 b))) (page_number 4 b) else None)"
proof -
  have "page_number 4 b div 512 ^ 3 mod 512 = Part 4 b" using page_number_parts [of 3 4 b] by simp
  then show ?thesis using walk.simps(2) [of m 3 p "page_number 4 b"] by (simp add: Let_def del: power_numeral)
qed

text \<open>A range that does not leave its topmost entry takes one round.\<close>

lemma SetupPageMap_one_entry:
  assumes o: "owned (Suc 3) 256 p s" and i: "256 \<le> Part 4 addr" and n: "0 < n" "page_number 3 addr + n \<le> 512 ^ 3"
    and run: "SetupPageMap 4 p addr n s = Some (s1, r, kSuccess)"
  shows "setup_entry (Suc 3) p addr n s = Some (s1, r, kSuccess)"
proof -
  have IH: "\<exists>r. SetupPageMap 3 c addr n s = Some r \<and> mapped 3 0 c (\<lambda>_. True) (page_number 3 addr) n (512 ^ 3 - page_number 3 addr) s r"
    if "owned 3 0 c s" for c s
    using SetupPageMap_run [of 2 0 c s addr n] that by (simp add: numeral_3_eq_3 del: page_number.simps power_Suc)
  from setup_entry_run [OF o _ n(1) IH] i obtain s2 r2 err where se: "setup_entry (Suc 3) p addr n s = Some (s2, r2, err)"
    and "mapped (Suc 3) 256 p (\<lambda>y. top_index (Suc 3) y = Part (Suc 3) addr) (page_number (Suc 3) addr) n (512 ^ 3 - page_number 3 addr) s (s2, r2, err)"
    by fastforce
  then have r2: "err = kSuccess \<Longrightarrow> r2 = 0" using n(2) by (simp add: mapped_def del: power_numeral page_number.simps)
  have "SetNewPageMapIfNotPresent p (Part (Suc 3) addr) s \<noteq> Some (Inl kSuccess)"
    using SetNewPageMapIfNotPresent_run [OF o, of "Part (Suc 3) addr"] i Part_less [of 4 addr] by auto
  from SetupPageMap_round [OF _ n(1) this] run se r2 show ?thesis
    by (auto simp: SetupPageMap.simps [of _ _ _ 0] split: if_splits)
qed

definition demo_paging :: Paging where
  "demo_paging = \<lparr>frames = \<lparr>alloc_map = (\<lambda>_. 0)(0 := 3), range_begin = 1, range_end = kFrameCount\<rparr>, phys = (\<lambda>_. 0), reg_cr3 = 0x1000\<rparr>"

lemma demo_used: "used (frames demo_paging) f \<longleftrightarrow> f < 2"
proof -
  have "bit (3 :: u64) n \<longleftrightarrow> n < 2" for n
    by (cases n; cases "n - 1") (auto simp: bit_Suc bit_0 numeral_3_eq_3 [symmetric])
  then show ?thesis by (auto simp: used_def demo_paging_def layout div_eq_0_iff)
qed

lemma demo_user_space: "user_space demo_paging"
proof -
  have e: "map_entry (phys demo_paging) p j = 0" for p j
    unfolding map_entry_def by (rule le64_zero) (simp add: demo_paging_def)
  have "tree (phys demo_paging) (Suc 3) 256 0x1000 = {0x1000}" "tree_ok (phys demo_paging) (Suc 3) 256 0x1000"
    unfolding tree_Suc tree_ok_Suc by (simp_all add: e page_addr_def layout)
  moreover have "pml4 demo_paging = 0x1000" by (simp add: pml4_def demo_paging_def)
  moreover have "Suc 3 = 4" by simp
  ultimately show ?thesis by (simp add: user_space_def owned_def demo_used) (simp add: demo_paging_def bounded_def)
qed

lemma demo_parts: "Part 4 0xffff800000000000 = 256" "Part 3 0xffff800000000000 = 0" "Part 2 0xffff800000000000 = 0" "Part 1 0xffff800000000000 = 0"
  by (simp_all add: Part_def) (code_simp+)

lemma demo_address: "user_address 0xffff800000000000" "page_number 4 0xffff800000000000 = 256 * 512 ^ 3"
proof -
  note p = demo_parts
  have "page_number 4 a = Part 4 a * 512 ^ 3 + (Part 3 a * 512 ^ 2 + (Part 2 a * 512 + Part 1 a))" for a
  proof -
    have "page_number 2 a = Part 2 a * 512 + Part 1 a" by (simp add: numeral_2_eq_2)
    then show ?thesis using page_number.simps(2) [of 3 a] page_number.simps(2) [of 2 a] by simp
  qed
  with p show "user_address 0xffff800000000000" "page_number 4 0xffff800000000000 = 256 * 512 ^ 3"
    by (simp_all add: user_address_def)
qed

lemma demo_free: "free_frames (frames demo_paging) = {2..<kFrameCount}"
  by (auto simp: free_frames_def demo_used) (auto simp: demo_paging_def)

lemma demo_enough: "4 * 3 < card (free_frames (frames demo_paging))"
  by (simp add: demo_free layout)




end
