(* ===== verification/VirtualMemory.thy ===== *)
theory VirtualMemory
  imports PageMaps
begin

text \<open>
  Accesses through the page maps: what the processor does for an address, and \<open>memcpy\<close> and \<open>memset\<close> to
  addresses of the program that is being loaded.  An access to an address that is not mapped is a page fault
  in the kernel, which never returns: \<open>None\<close>.
\<close>

section \<open>Address translation\<close>

text \<open>A present entry with \<open>huge_page\<close> at level 2 or 3 ends the walk.\<close>

fun translate_from :: "memory \<Rightarrow> nat \<Rightarrow> nat \<Rightarrow> LinearAddress4Level \<Rightarrow> nat option" where
  "translate_from m 0 p a = Some (p + Part 0 a)"
| "translate_from m (Suc l) p a =
     (let e = map_entry m p (Part (Suc l) a)
      in if \<not> present e then None
         else if huge_page e \<and> (l = 1 \<or> l = 2)
         then Some (ptr e div (4096 * 512 ^ l) * (4096 * 512 ^ l) + page_number l a * 4096 + Part 0 a)
         else translate_from m l (ptr e) a)"

definition translate :: "Paging \<Rightarrow> LinearAddress4Level \<Rightarrow> nat option" where
  "translate s a = translate_from (phys s) 4 (pml4 s) a"

definition vread :: "Paging \<Rightarrow> LinearAddress4Level \<Rightarrow> u8 option" where
  "vread s a = map_option (phys s) (translate s a)"

definition vwrite :: "LinearAddress4Level \<Rightarrow> u8 \<Rightarrow> Paging \<Rightarrow> Paging option" where
  "vwrite a b s = map_option (\<lambda>x. s\<lparr>phys := (phys s)(x := b)\<rparr>) (translate s a)"

text \<open>\<open>memcpy(dst, src, n)\<close> with the source as its bytes, and \<open>memset(dst, b, n)\<close>.\<close>

fun vmemcpy :: "LinearAddress4Level \<Rightarrow> u8 list \<Rightarrow> Paging \<Rightarrow> Paging option" where
  "vmemcpy dst [] s = Some s"
| "vmemcpy dst (b # bs) s = Option.bind (vwrite dst b s) (vmemcpy (dst + 1) bs)"

fun vmemset :: "LinearAddress4Level \<Rightarrow> u8 \<Rightarrow> nat \<Rightarrow> Paging \<Rightarrow> Paging option" where
  "vmemset dst b 0 s = Some s"
| "vmemset dst b (Suc n) s = Option.bind (vwrite dst b s) (vmemset (dst + 1) b n)"

section \<open>Addresses as numbers\<close>

lemma unat_u64_less: "unat (a :: u64) < 2 ^ 64"
  using unsigned_less [of a] by simp

lemma unat_get_field: "unat (get_field off w a) = unat a div 2 ^ off mod 2 ^ w" for a :: u64
proof -
  have "unat (get_field off w a) = take_bit w (drop_bit off (unat a))"
    unfolding get_field_def
    using take_bit_nat_eq_self [OF unat_u64_less, of a] by (simp add: unsigned_take_bit_eq unsigned_drop_bit_eq)
  then show ?thesis by (simp add: take_bit_eq_mod drop_bit_eq_div)
qed

lemma Part_div:
  "Part 0 a = unat a mod 4096" "1 \<le> l \<Longrightarrow> l \<le> 4 \<Longrightarrow> Part l a = unat a div (4096 * 512 ^ (l - 1)) mod 512"
proof -
  show "Part 0 a = unat a mod 4096" by (simp add: Part_def unat_get_field)
  assume "1 \<le> l" "l \<le> 4"
  then consider "l = 1" | "l = 2" | "l = 3" | "l = 4" by linarith
  then show "Part l a = unat a div (4096 * 512 ^ (l - 1)) mod 512" by cases (simp_all add: Part_def unat_get_field)
qed

lemma page_number_div: "l \<le> 4 \<Longrightarrow> page_number l a = unat a div 4096 mod 512 ^ l"
proof (induction l)
  case (Suc l)
  have "Part (Suc l) a = unat a div 4096 div 512 ^ l mod 512"
    using Suc.prems by (simp add: Part_div div_mult2_eq)
  then show ?case using Suc page_number_split [of "unat a div 4096" l] by (simp del: power_Suc)
qed simp

text \<open>The canonical addresses of the user half.\<close>

definition user_half :: "LinearAddress4Level \<Rightarrow> bool" where
  "user_half a \<longleftrightarrow> 0xffff800000000000 \<le> unat a"

lemma user_half_address:
  assumes "user_half a"
  shows "user_address a" "unat a = 0xffff000000000000 + page_number 4 a * 4096 + Part 0 a"
proof -
  have b: "unat a < 2 ^ 64" by (rule unat_u64_less)
  have P: "Part 4 a = unat a div 549755813888 mod 512" by (simp add: Part_div)
  have N: "page_number 4 a = unat a div 4096 mod 68719476736" by (simp add: page_number_div)
  have Z: "Part 0 a = unat a mod 4096" by (simp add: Part_div)
  define d where "d = unat a div 4096"
  have d: "0xffff * 68719476736 \<le> d" "d < 0x10000 * 68719476736" "0xffff800000000 \<le> d"
    using assms b by (simp_all add: d_def user_half_def div_less_iff_less_mult less_eq_div_iff_mult_less_eq)
  then have "d div 68719476736 = 0xffff" by (intro div_nat_eqI) simp_all
  then have m: "d = 0xffff * 68719476736 + d mod 68719476736" using div_mult_mod_eq [of d 68719476736] by simp
  have "unat a = d * 4096 + unat a mod 4096" by (simp add: d_def)
  with m show "unat a = 0xffff000000000000 + page_number 4 a * 4096 + Part 0 a"
    unfolding N Z d_def [symmetric] by simp
  from m d(3) have "34359738368 \<le> d mod 68719476736" by simp
  then have "256 \<le> (d mod 68719476736) div 134217728" by simp
  also have "(d mod 68719476736) div 134217728 = d div 134217728 mod 512"
    using mod_mult2_eq [of d 134217728 512] by simp
  finally show "user_address a" unfolding user_address_def P by (simp add: d_def div_mult2_eq [symmetric])
qed

section \<open>Translation in the user half\<close>

lemma translate_from_walk:
  assumes "tree_ok m l lo p" "l = 0 \<or> lo \<le> Part l a" "l \<le> 4"
    and "\<And>k. Suc k \<le> l \<Longrightarrow> y div 512 ^ k mod 512 = Part (Suc k) a"
  shows "translate_from m l p a = map_option (\<lambda>q. q + Part 0 a) (walk m l p y)"
  using assms
proof (induction l arbitrary: lo p)
  case (Suc l)
  let ?e = "map_entry m p (Part (Suc l) a)"
  have i: "y div 512 ^ l mod 512 = Part (Suc l) a" "Part (Suc l) a < 512" using Suc.prems(4) Part_less by simp_all
  show ?case
  proof (cases "present ?e")
    case True
    have "lo \<le> Part (Suc l) a" using Suc.prems(2) by simp
    note ok = tree_ok_entry [OF Suc.prems(1) this i(2) True]
    have "translate_from m l (ptr ?e) a = map_option (\<lambda>q. q + Part 0 a) (walk m l (ptr ?e) y)"
      using ok(4) Suc.prems(3,4) by (intro Suc.IH [of 0]) simp_all
    with True ok(3) i(1) show ?thesis by (simp add: Let_def)
  qed (simp add: Let_def i(1))
qed simp

lemma translate_user:
  assumes "user_space s" "user_address a"
  shows "translate s a = map_option (\<lambda>q. q + Part 0 a) (user_walk s a)"
  unfolding translate_def user_walk_def
  using assms page_number_parts [of _ 4 a]
  by (intro translate_from_walk [where lo = 256]) (simp_all add: user_space_def owned_def user_address_def)

text \<open>Writing into a data page changes neither the tree nor the walks.\<close>

lemma leaf_write:
  assumes "tree_ok m l lo p" "lo \<le> top_index l y" "walk m l p y = Some q" and out: "\<And>x. x \<notin> page q \<Longrightarrow> m' x = m x"
  shows "tree m' l lo p = tree m l lo p \<and> tree_ok m' l lo p \<and> (\<forall>z. lo \<le> top_index l z \<longrightarrow> walk m' l p z = walk m l p z)"
  using assms(1-3)
proof (induction l arbitrary: lo p)
  case (Suc l)
  let ?i = "y div 512 ^ l mod 512"
  note ok = Suc.prems(1)
  have i: "lo \<le> ?i" "?i < 512" using Suc.prems(2) by (simp_all add: top_index_Suc)
  from Suc.prems(3) have pr: "present (map_entry m p ?i)" and w: "walk m l (ptr (map_entry m p ?i)) y = Some q"
    by (simp_all add: Let_def split: if_splits)
  have q: "q \<in> tree m l 0 (ptr (map_entry m p ?i))" using walk_in_tree [OF w, of 0] by simp
  then have qp: "page_addr q" using tree_ok_page [OF tree_ok_entry(4) [OF ok i pr]] by simp
  have "p \<noteq> q" using tree_ok_entry(5) [OF ok i pr] q by auto
  then have "page p \<inter> page q = {}" using page_disjoint [of p q] qp ok by (simp add: tree_ok_Suc)
  then have e: "map_entry m' p j = map_entry m p j" if "j < 512" for j
    using out that by (intro map_entry_cong) auto
  have child: "tree m' l 0 (ptr (map_entry m p j)) = tree m l 0 (ptr (map_entry m p j)) \<and> tree_ok m' l 0 (ptr (map_entry m p j))
      \<and> (\<forall>z. walk m' l (ptr (map_entry m p j)) z = walk m l (ptr (map_entry m p j)) z)"
    if j: "lo \<le> j" "j < 512" "present (map_entry m p j)" for j
  proof (cases "j = ?i")
    case True
    then show ?thesis using Suc.IH [OF tree_ok_entry(4) [OF ok i pr] _ w] by simp
  next
    case False
    have "\<forall>r\<in>tree m l 0 (ptr (map_entry m p j)). \<forall>x\<in>page r. m x = m' x"
    proof (intro ballI)
      fix r x assume r: "r \<in> tree m l 0 (ptr (map_entry m p j))" "x \<in> page r"
      have "r \<noteq> q" using tree_ok_sibling [OF ok j i pr False] r(1) q by blast
      moreover have "page_addr r" using tree_ok_page [OF tree_ok_entry(4) [OF ok j] r(1)] .
      ultimately have "x \<notin> page q" using page_disjoint [of r q] qp r(2) by blast
      then show "m x = m' x" using out by simp
    qed
    note C = tree_cong [OF this] and W = walk_cong [OF this]
    with tree_ok_entry(4) [OF ok j] show ?thesis by simp
  qed
  have "tree m' (Suc l) lo p = tree m (Suc l) lo p" unfolding tree_Suc using e child by (auto cong: conj_cong)
  moreover have "tree_ok m' (Suc l) lo p" using ok unfolding tree_ok_Suc using e child by (simp cong: conj_cong imp_cong)
  moreover have "walk m' (Suc l) p z = walk m (Suc l) p z" if "lo \<le> top_index (Suc l) z" for z
    using that e child by (simp add: top_index_Suc Let_def)
  ultimately show ?case by blast
qed simp

lemma leaf_not_root:
  assumes ok: "tree_ok m (Suc l) lo p" and "lo \<le> top_index (Suc l) y" and "walk m (Suc l) p y = Some q"
  shows "p \<noteq> q" "page p \<inter> page q = {}"
proof -
  let ?i = "y div 512 ^ l mod 512"
  have i: "lo \<le> ?i" "?i < 512" using assms(2) by (simp_all add: top_index_Suc)
  from assms(3) have pr: "present (map_entry m p ?i)" and w: "walk m l (ptr (map_entry m p ?i)) y = Some q"
    by (simp_all add: Let_def split: if_splits)
  have q: "q \<in> tree m l 0 (ptr (map_entry m p ?i))" using walk_in_tree [OF w, of 0] by simp
  show "p \<noteq> q" using tree_ok_entry(5) [OF ok i pr] q by auto
  then show "page p \<inter> page q = {}"
    using page_disjoint [of p q] tree_ok_page [OF tree_ok_entry(4) [OF ok i pr] q] ok by (simp add: tree_ok_Suc)
qed

definition same_mapping :: "Paging \<Rightarrow> Paging \<Rightarrow> bool" where
  "same_mapping s s' \<longleftrightarrow> user_space s' \<and> frames s' = frames s \<and> reg_cr3 s' = reg_cr3 s
     \<and> tree (phys s') 4 256 (pml4 s) = tree (phys s) 4 256 (pml4 s)
     \<and> (\<forall>x. (\<forall>q\<in>tree (phys s) 4 256 (pml4 s). x \<notin> page q) \<longrightarrow> phys s' x = phys s x)
     \<and> (\<forall>j<256. map_entry (phys s') (pml4 s) j = map_entry (phys s) (pml4 s) j)
     \<and> (\<forall>a. user_address a \<longrightarrow> user_walk s' a = user_walk s a)"

lemma same_mapping_refl [simp]: "user_space s \<Longrightarrow> same_mapping s s"
  by (simp add: same_mapping_def)

lemma same_mapping_trans: "same_mapping s s1 \<Longrightarrow> same_mapping s1 s2 \<Longrightarrow> same_mapping s s2"
  by (auto simp: same_mapping_def pml4_def)

lemma translate_inj:
  assumes u: "user_space s" and ab: "user_half a" "user_half b" and t: "translate s a = Some x" "translate s b = Some x"
  shows "a = b"
proof -
  have ua: "user_address a" "user_address b" using user_half_address(1) ab by blast+
  from t obtain q r where q: "user_walk s a = Some q" "x = q + Part 0 a" and r: "user_walk s b = Some r" "x = r + Part 0 b"
    using translate_user [OF u] ua by auto
  have ok: "tree_ok (phys s) 4 256 (pml4 s)" using u by (simp add: user_space_def owned_def)
  have top: "256 \<le> top_index 4 (page_number 4 a)" "256 \<le> top_index 4 (page_number 4 b)"
    using ua by (simp_all add: top_index_page_number user_address_def)
  have "page_addr q" "page_addr r"
    using tree_ok_page [OF ok] walk_in_tree [OF q(1) [unfolded user_walk_def] top(1)] walk_in_tree [OF r(1) [unfolded user_walk_def] top(2)] by blast+
  moreover have "x \<in> page q" "x \<in> page r" using q(2) r(2) by (auto simp: page_def Part_div)
  ultimately have "q = r" using page_disjoint [of q r] by blast
  moreover from this q r have "Part 0 a = Part 0 b" by simp
  moreover have "page_number 4 a = page_number 4 b"
    using walk_inj [OF ok top] q(1) r(1) \<open>q = r\<close> page_number_mod unfolding user_walk_def by metis
  ultimately have "unat a = unat b" using user_half_address(2) ab by metis
  then show ?thesis by (rule unsigned_word_eqI)
qed

lemma vwrite_user:
  assumes u: "user_space s" and a: "user_half a" and m: "user_walk s a \<noteq> None"
  shows "\<exists>s'. vwrite a b s = Some s' \<and> same_mapping s s' \<and> (\<forall>c. user_half c \<longrightarrow> vread s' c = (if c = a then Some b else vread s c))"
proof -
  have ua: "user_address a" using user_half_address(1) [OF a] .
  from m obtain q where q: "user_walk s a = Some q" by blast
  let ?x = "q + Part 0 a" and ?s = "s\<lparr>phys := (phys s)(q + Part 0 a := b)\<rparr>"
  have t: "translate s a = Some ?x" using translate_user [OF u ua] q by simp
  have x: "?x \<in> page q" by (simp add: page_def Part_div)
  have ok: "tree_ok (phys s) 4 256 (pml4 s)" using u by (simp add: user_space_def owned_def)
  have top: "256 \<le> top_index 4 (page_number 4 a)" using ua by (simp add: top_index_page_number user_address_def)
  have out: "phys ?s y = phys s y" if "y \<notin> page q" for y using that x by auto
  from leaf_write [where m' = "phys ?s", OF ok top q [unfolded user_walk_def] out]
  have L: "tree (phys ?s) 4 256 (pml4 s) = tree (phys s) 4 256 (pml4 s)" "tree_ok (phys ?s) 4 256 (pml4 s)"
    "\<forall>z. 256 \<le> top_index 4 z \<longrightarrow> walk (phys ?s) 4 (pml4 s) z = walk (phys s) 4 (pml4 s) z" by blast+
  have p: "pml4 ?s = pml4 s" by (simp add: pml4_def)
  have us: "user_space ?s" using u L p by (simp add: user_space_def owned_def)
  have w: "user_walk ?s c = user_walk s c" if "user_address c" for c
    using L(3) that p by (simp add: user_walk_def user_address_def top_index_page_number)
  have four: "4 = Suc 3" by simp
  have root: "page (pml4 s) \<inter> page q = {}"
    using leaf_not_root(2) [of "phys s" 3 256 "pml4 s" "page_number 4 a" q] ok top q unfolding four user_walk_def by blast
  have "map_entry (phys ?s) (pml4 s) j = map_entry (phys s) (pml4 s) j" if "j < 256" for j
    using root x that by (intro map_entry_cong) auto
  moreover have "phys ?s y = phys s y" if "\<forall>r\<in>tree (phys s) 4 256 (pml4 s). y \<notin> page r" for y
    using walk_in_tree [OF q [unfolded user_walk_def] top] that out by blast
  ultimately have sm: "same_mapping s ?s" using us L(1) w by (simp add: same_mapping_def)
  have "vread ?s c = (if c = a then Some b else vread s c)" if c: "user_half c" for c
  proof -
    have uc: "user_address c" using user_half_address(1) [OF c] .
    have tc: "translate ?s c = translate s c" using translate_user [OF us uc] translate_user [OF u uc] w [OF uc] by simp
    show ?thesis
    proof (cases "c = a")
      case True
      with tc t show ?thesis by (simp add: vread_def)
    next
      case False
      then have "translate s c \<noteq> Some ?x" using translate_inj [OF u c a _ t] by blast
      with False tc show ?thesis by (cases "translate s c") (auto simp: vread_def)
    qed
  qed
  with sm t show ?thesis by (intro exI [of _ ?s]) (simp add: vwrite_def)
qed

lemma unat_add_small: "unat a + k < 2 ^ 64 \<Longrightarrow> unat (a + of_nat k) = unat a + k" for a :: u64
  by (simp add: unat_word_ariths unat_of_nat)

lemma user_half_add: "user_half a \<Longrightarrow> unat a + k < 2 ^ 64 \<Longrightarrow> user_half (a + of_nat k)"
  by (simp add: user_half_def unat_add_small)

text \<open>The addresses of a block of \<open>n\<close> bytes.\<close>

definition block :: "LinearAddress4Level \<Rightarrow> nat \<Rightarrow> LinearAddress4Level \<Rightarrow> bool" where
  "block a n c \<longleftrightarrow> unat a \<le> unat c \<and> unat c < unat a + n"

definition user_block :: "Paging \<Rightarrow> LinearAddress4Level \<Rightarrow> nat \<Rightarrow> bool" where
  "user_block s a n \<longleftrightarrow> user_half a \<and> unat a + n \<le> 2 ^ 64 \<and> (\<forall>c. block a n c \<longrightarrow> user_walk s c \<noteq> None)"

lemma block_user_half: "user_half a \<Longrightarrow> block a n c \<Longrightarrow> user_half c"
  by (simp add: block_def user_half_def)

lemma user_block_Suc:
  assumes "user_block s a (Suc n)"
  shows "user_walk s a \<noteq> None" "n \<noteq> 0 \<Longrightarrow> user_block s (a + 1) n" "n \<noteq> 0 \<Longrightarrow> unat (a + 1) = unat a + 1"
proof -
  from assms have a: "user_half a" "unat a + Suc n \<le> 2 ^ 64" and w: "\<And>c. block a (Suc n) c \<Longrightarrow> user_walk s c \<noteq> None"
    by (simp_all add: user_block_def)
  show "user_walk s a \<noteq> None" using w [of a] by (simp add: block_def)
  show s: "unat (a + 1) = unat a + 1" if "n \<noteq> 0" using unat_add_small [of a 1] a(2) that by simp
  show "user_block s (a + 1) n" if "n \<noteq> 0" using s [OF that] a w by (auto simp: user_block_def user_half_def block_def)
qed

lemma user_block_same:
  assumes "same_mapping s s'" "user_block s a n"
  shows "user_block s' a n"
proof -
  have "user_address c" if "block a n c" for c
    using user_half_address(1) block_user_half [OF _ that] assms(2) by (simp add: user_block_def)
  with assms show ?thesis by (auto simp: user_block_def same_mapping_def)
qed

lemma vmemcpy_user:
  assumes "user_space s" "user_block s a (length bs)"
  shows "\<exists>s'. vmemcpy a bs s = Some s' \<and> same_mapping s s' \<and>
    (\<forall>c. user_half c \<longrightarrow> vread s' c = (if block a (length bs) c then Some (bs ! (unat c - unat a)) else vread s c))"
  using assms
proof (induction bs arbitrary: a s)
  case Nil
  then show ?case by (auto simp: block_def)
next
  case (Cons b bs)
  have a: "user_half a" using Cons.prems(2) by (simp add: user_block_def)
  note B = user_block_Suc [OF Cons.prems(2) [unfolded length_Cons]]
  from vwrite_user [OF Cons.prems(1) a B(1), of b] obtain s1 where s1: "vwrite a b s = Some s1" "same_mapping s s1"
    and r1: "\<And>c. user_half c \<Longrightarrow> vread s1 c = (if c = a then Some b else vread s c)" by blast
  have eq: "c = a \<longleftrightarrow> unat c = unat a" for c by (auto intro: unsigned_word_eqI)
  show ?case
  proof (cases "bs = []")
    case True
    have "block a (Suc 0) c \<longleftrightarrow> c = a" for c by (auto simp: block_def eq)
    with True s1 r1 show ?thesis by auto
  next
    case False
    then have n: "length bs \<noteq> 0" by simp
    from Cons.IH [of s1 "a + 1"] user_block_same [OF s1(2) B(2) [OF n]] s1(2) obtain s2 where
      s2: "vmemcpy (a + 1) bs s1 = Some s2" "same_mapping s1 s2"
      and r2: "\<And>c. user_half c \<Longrightarrow> vread s2 c = (if block (a + 1) (length bs) c then Some (bs ! (unat c - unat (a + 1))) else vread s1 c)"
      by (auto simp: same_mapping_def)
    have "vread s2 c = (if block a (length (b # bs)) c then Some ((b # bs) ! (unat c - unat a)) else vread s c)" if c: "user_half c" for c
    proof (cases "block (a + 1) (length bs) c")
      case True
      then have "unat c - unat a = Suc (unat c - unat (a + 1))" "block a (length (b # bs)) c" using B(3) [OF n] by (auto simp: block_def)
      with True r2 [OF c] show ?thesis by simp
    next
      case False
      then have "block a (length (b # bs)) c \<longleftrightarrow> c = a" using B(3) [OF n] by (auto simp: block_def eq)
      with False r2 [OF c] r1 [OF c] show ?thesis by simp
    qed
    with s1 s2 same_mapping_trans [OF s1(2) s2(2)] show ?thesis by auto
  qed
qed

lemma vmemset_memcpy: "vmemset a b n s = vmemcpy a (replicate n b) s"
  by (induction n arbitrary: a s) (simp_all cong: Option.bind_cong)

section \<open>What the set up of a program leaves alone\<close>

text \<open>
  The pages below the upper half of the table grow by at most \<open>n\<close> frames that were free; the entries of the lower half
  and all memory outside of these pages stay.
\<close>

definition grows :: "nat \<Rightarrow> Paging \<Rightarrow> Paging \<Rightarrow> bool" where
  "grows n s s' \<longleftrightarrow> reg_cr3 s' = reg_cr3 s \<and> same_range (frames s) (frames s')
     \<and> (\<forall>f. used (frames s') f \<longleftrightarrow> used (frames s) f \<or> f * 4096 \<in> new_pages 4 256 (pml4 s) s s')
     \<and> tree (phys s) 4 256 (pml4 s) \<subseteq> tree (phys s') 4 256 (pml4 s)
     \<and> (\<forall>q\<in>new_pages 4 256 (pml4 s) s s'. \<not> used (frames s) (q div 4096))
     \<and> finite (new_pages 4 256 (pml4 s) s s') \<and> card (new_pages 4 256 (pml4 s) s s') \<le> n
     \<and> (\<forall>x. (\<forall>q\<in>tree (phys s') 4 256 (pml4 s). x \<notin> page q) \<longrightarrow> phys s' x = phys s x)
     \<and> (\<forall>j<256. map_entry (phys s') (pml4 s) j = map_entry (phys s) (pml4 s) j)"

lemma grows_refl [simp]: "grows n s s"
  by (simp add: grows_def same_range_def new_pages_def)

lemma grows_mono: "grows n s s' \<Longrightarrow> n \<le> k \<Longrightarrow> grows k s s'"
  by (auto simp: grows_def)

lemma grows_trans:
  assumes a: "grows n s s1" and b: "grows k s1 s2"
  shows "grows (n + k) s s2"
proof -
  have p: "pml4 s1 = pml4 s" using a by (simp add: grows_def pml4_def)
  note A = a [unfolded grows_def] and B = b [unfolded grows_def p]
  let ?new = "new_pages 4 256 (pml4 s)"
  have N: "?new s s2 = ?new s s1 \<union> ?new s1 s2" using A B by (auto simp: new_pages_def)
  have fresh: "\<not> used (frames s) (q div 4096)" if "q \<in> ?new s s2" for q
    using that A B by (auto simp: N)
  have outside: "phys s2 x = phys s x" if "\<forall>q\<in>tree (phys s2) 4 256 (pml4 s). x \<notin> page q" for x
    using that A B by (metis subsetD)
  have size: "finite (?new s s2)" "card (?new s s2) \<le> n + k"
    using A B card_Un_le [of "?new s s1" "?new s1 s2"] by (simp_all add: N)
  have uses: "used (frames s2) f \<longleftrightarrow> used (frames s) f \<or> f * 4096 \<in> ?new s s2" for f using A B by (simp add: N)
  have more: "tree (phys s) 4 256 (pml4 s) \<subseteq> tree (phys s2) 4 256 (pml4 s)" using A B by blast
  have rest: "reg_cr3 s2 = reg_cr3 s" "same_range (frames s) (frames s2)"
    "\<forall>j<256. map_entry (phys s2) (pml4 s) j = map_entry (phys s) (pml4 s) j"
    using A B by (simp_all add: same_range_def)
  show ?thesis unfolding grows_def using rest uses more fresh size outside by blast
qed

lemma mapped_grows:
  assumes "mapped 4 256 (pml4 s) B x n b s (s', r, err)"
  shows "grows (4 * n) s s'"
proof -
  have "card (new_pages 4 256 (pml4 s) s s') \<le> 4 * n" "finite (new_pages 4 256 (pml4 s) s s')"
    and "extends 4 256 (pml4 s) {x..<x + n} s s'"
    using assms by (auto simp: mapped_def split: if_splits)
  then show ?thesis by (simp add: extends_def grows_def)
qed

lemma same_mapping_grows: "same_mapping s s' \<Longrightarrow> grows 0 s s'"
  by (simp add: same_mapping_def grows_def new_pages_def same_range_def)

text \<open>When the memory is full then, it had no more than \<open>n\<close> free frames.\<close>

lemma grows_full:
  assumes "grows n s s'" "memory_full (frames s')"
  shows "card (free_frames (frames s)) \<le> n"
proof -
  let ?new = "new_pages 4 256 (pml4 s) s s'"
  have "(\<lambda>f. f * 4096) ` free_frames (frames s) \<subseteq> ?new"
    using assms by (auto simp: grows_def free_frames_def memory_full_def same_range_def)
  then have "card ((\<lambda>f. f * 4096) ` free_frames (frames s)) \<le> card ?new"
    using assms(1) by (intro card_mono) (simp_all add: grows_def)
  moreover have "card ((\<lambda>f. f * 4096) ` free_frames (frames s)) = card (free_frames (frames s))"
    by (rule card_image) (simp add: inj_on_def)
  ultimately show ?thesis using assms(1) by (simp add: grows_def)
qed

end
