(* ===== verification/ElfLoader.thy ===== *)
theory ElfLoader
  imports VirtualMemory
begin

text \<open>
  \<^verbatim>\<open>kernel/elf.hpp\<close> and the loader of \<^verbatim>\<open>kernel/terminal.cpp\<close>: \<open>GetProgramHeader\<close>, \<open>GetFirstLoadAddress\<close>,
  \<open>CopyLoadSegments\<close>, \<open>LoadELF\<close>, \<open>SetupPML4\<close> and \<open>FreePML4\<close>.  The file is the vector \<open>file_buf\<close>, a list of bytes;
  reading outside of it has no defined result.
\<close>

section \<open>Headers\<close>

record Elf64_Ehdr =
  e_ident :: "u8 list"
  e_type :: u16
  e_machine :: u16
  e_version :: u32
  e_entry :: u64
  e_phoff :: u64
  e_shoff :: u64
  e_flags :: u32
  e_ehsize :: u16
  e_phentsize :: u16
  e_phnum :: u16
  e_shentsize :: u16
  e_shnum :: u16
  e_shstrndx :: u16

record Elf64_Phdr =
  p_type :: u32
  p_flags :: u32
  p_offset :: u64
  p_vaddr :: u64
  p_paddr :: u64
  p_filesz :: u64
  p_memsz :: u64
  p_align :: u64

definition kEhdrSize :: nat where [layout]: "kEhdrSize = 64"
definition kPhdrSize :: nat where [layout]: "kPhdrSize = 56"
definition ET_EXEC :: u16 where "ET_EXEC = 2"
definition PT_LOAD :: u32 where "PT_LOAD = 1"

definition mem_of :: "u8 list \<Rightarrow> memory" where
  "mem_of buf = (\<lambda>i. if i < length buf then buf ! i else 0)"

definition read_Ehdr :: "u8 list \<Rightarrow> Elf64_Ehdr" where
  "read_Ehdr buf =
     (let m = mem_of buf
      in \<lparr>e_ident = bytes m 0 16, e_type = le16 m 16, e_machine = le16 m 18, e_version = le32 m 20, e_entry = le64 m 24,
          e_phoff = le64 m 32, e_shoff = le64 m 40, e_flags = le32 m 48, e_ehsize = le16 m 52, e_phentsize = le16 m 54,
          e_phnum = le16 m 56, e_shentsize = le16 m 58, e_shnum = le16 m 60, e_shstrndx = le16 m 62\<rparr>)"

definition read_Phdr :: "u8 list \<Rightarrow> nat \<Rightarrow> Elf64_Phdr" where
  "read_Phdr buf a =
     (let m = mem_of buf
      in \<lparr>p_type = le32 m a, p_flags = le32 m (a + 4), p_offset = le64 m (a + 8), p_vaddr = le64 m (a + 16),
          p_paddr = le64 m (a + 24), p_filesz = le64 m (a + 32), p_memsz = le64 m (a + 40), p_align = le64 m (a + 48)\<rparr>)"

text \<open>\<open>GetProgramHeader(ehdr)[i]\<close>.\<close>

definition GetProgramHeader :: "u8 list \<Rightarrow> nat \<Rightarrow> Elf64_Phdr option" where
  "GetProgramHeader buf i =
     (let a = unat (e_phoff (read_Ehdr buf)) + kPhdrSize * i
      in if a + kPhdrSize \<le> length buf then Some (read_Phdr buf a) else None)"

section \<open>Loading\<close>

text \<open>The loop from header \<open>i\<close> on, with \<open>k\<close> headers left.\<close>

fun first_load :: "u8 list \<Rightarrow> nat \<Rightarrow> nat \<Rightarrow> u64 option" where
  "first_load buf i 0 = Some 0"
| "first_load buf i (Suc k) =
     Option.bind (GetProgramHeader buf i) (\<lambda>ph.
       if p_type ph \<noteq> PT_LOAD then first_load buf (Suc i) k else Some (p_vaddr ph))"

definition GetFirstLoadAddress :: "u8 list \<Rightarrow> u64 option" where
  "GetFirstLoadAddress buf = first_load buf 0 (unat (e_phnum (read_Ehdr buf)))"

definition num_4kpages :: "Elf64_Phdr \<Rightarrow> nat" where
  "num_4kpages ph = unat ((p_memsz ph + 4095) div 4096)"

text \<open>The \<open>memcpy\<close> and the \<open>memset\<close> of one segment.\<close>

definition copy_segment :: "u8 list \<Rightarrow> Elf64_Phdr \<Rightarrow> Paging \<Rightarrow> Paging option" where
  "copy_segment buf ph s =
     (let off = unat (p_offset ph); n = unat (p_filesz ph)
      in if off + n \<le> length buf
         then Option.bind (vmemcpy (p_vaddr ph) (take n (drop off buf)) s)
                (vmemset (p_vaddr ph + p_filesz ph) 0 (unat (p_memsz ph - p_filesz ph)))
         else None)"

fun copy_segments :: "u8 list \<Rightarrow> nat \<Rightarrow> nat \<Rightarrow> Paging \<Rightarrow> (Paging \<times> Code) option" where
  "copy_segments buf i 0 s = Some (s, kSuccess)"
| "copy_segments buf i (Suc k) s =
     Option.bind (GetProgramHeader buf i) (\<lambda>ph.
       if p_type ph \<noteq> PT_LOAD then copy_segments buf (Suc i) k s
       else Option.bind (SetupPageMaps (p_vaddr ph) (num_4kpages ph) s) (\<lambda>(s1, err).
              if err \<noteq> kSuccess then Some (s1, err)
              else Option.bind (copy_segment buf ph s1) (copy_segments buf (Suc i) k)))"

definition CopyLoadSegments :: "u8 list \<Rightarrow> Paging \<Rightarrow> (Paging \<times> Code) option" where
  "CopyLoadSegments buf s = copy_segments buf 0 (unat (e_phnum (read_Ehdr buf))) s"

definition LoadELF :: "u8 list \<Rightarrow> Paging \<Rightarrow> (Paging \<times> Code) option" where
  "LoadELF buf s =
     (if length buf < kEhdrSize then None
      else if e_type (read_Ehdr buf) \<noteq> ET_EXEC then Some (s, kInvalidFormat)
      else Option.bind (GetFirstLoadAddress buf) (\<lambda>addr_first.
             if addr_first < 0xffff800000000000 then Some (s, kInvalidFormat)
             else CopyLoadSegments buf s))"

text \<open>\<open>SetupPML4\<close> and \<open>FreePML4\<close>; \<open>kernel_pml4\<close> is the address of the kernel's own table, which \<open>ResetCR3\<close> loads.\<close>

definition ResetCR3 :: "u64 \<Rightarrow> Paging \<Rightarrow> Paging" where
  "ResetCR3 kernel_pml4 s = s\<lparr>reg_cr3 := kernel_pml4\<rparr>"

definition SetupPML4 :: "Paging \<Rightarrow> (Code + Paging \<times> u64) option" where
  "SetupPML4 s =
     (case NewPageMap s of
        None \<Rightarrow> None
      | Some (Inl err) \<Rightarrow> Some (Inl err)
      | Some (Inr (s1, table)) \<Rightarrow>
          let current = unat (reg_cr3 s1);
              cr3 = of_nat table
          in Some (Inr (s1\<lparr>phys := put_bytes table (bytes (phys s1) current (256 * 8)) (phys s1), reg_cr3 := cr3\<rparr>, cr3)))"

definition FreePML4 :: "u64 \<Rightarrow> u64 \<Rightarrow> Paging \<Rightarrow> (Paging \<times> Code) option" where
  "FreePML4 kernel_pml4 cr3 s =
     map_option (\<lambda>(m, err). ((ResetCR3 kernel_pml4 s)\<lparr>frames := m\<rparr>, err))
       (Free (frames s) (unat cr3 div kBytesPerFrame) 1)"

section \<open>What a program sees\<close>

definition covers :: "Elf64_Phdr \<Rightarrow> u64 \<Rightarrow> bool" where
  "covers ph c \<longleftrightarrow> block (p_vaddr ph) (unat (p_memsz ph)) c"

definition seg_byte :: "u8 list \<Rightarrow> Elf64_Phdr \<Rightarrow> u64 \<Rightarrow> u8" where
  "seg_byte buf ph c =
     (let k = unat c - unat (p_vaddr ph) in if k < unat (p_filesz ph) then buf ! (unat (p_offset ph) + k) else 0)"

text \<open>The byte that the segments give an address: later segments win.\<close>

fun elf_image :: "u8 list \<Rightarrow> Elf64_Phdr list \<Rightarrow> u64 \<Rightarrow> u8 option" where
  "elf_image buf [] c = None"
| "elf_image buf (ph # phs) c =
     (case elf_image buf phs c of
        Some b \<Rightarrow> Some b
      | None \<Rightarrow> if p_type ph = PT_LOAD \<and> covers ph c then Some (seg_byte buf ph c) else None)"

definition headers :: "u8 list \<Rightarrow> Elf64_Phdr list" where
  "headers buf = map (\<lambda>i. read_Phdr buf (unat (e_phoff (read_Ehdr buf)) + kPhdrSize * i)) [0..<unat (e_phnum (read_Ehdr buf))]"

text \<open>A segment that lies in the user half and in the pages that are set up for it.\<close>

definition segment_ok :: "u8 list \<Rightarrow> Elf64_Phdr \<Rightarrow> bool" where
  "segment_ok buf ph \<longleftrightarrow>
     user_half (p_vaddr ph) \<and> unat (p_vaddr ph) + unat (p_memsz ph) \<le> 2 ^ 64
     \<and> Part 0 (p_vaddr ph) + unat (p_memsz ph) \<le> 4096 * num_4kpages ph
     \<and> p_filesz ph \<le> p_memsz ph \<and> unat (p_offset ph) + unat (p_filesz ph) \<le> length buf"

section \<open>Loading a segment\<close>

lemma user_walk_page:
  assumes "user_space s" "user_address a" "user_walk s a = Some q"
  shows "q + Part 0 a \<in> page q" "vread s a = Some (phys s (q + Part 0 a))"
  using translate_user [OF assms(1,2)] assms(3) by (simp_all add: page_def Part_div vread_def)

lemma extends_vread:
  assumes u: "user_space s" and e: "extends 4 256 (pml4 s) Y s s'" and c: "user_half c"
  shows "vread s' c = vread s c \<or> vread s c = None \<and> vread s' c = Some 0"
proof -
  note U = extends_user_space [OF u e] and E = e [unfolded extends_def]
  have uc: "user_address c" using user_half_address(1) [OF c] .
  have top: "256 \<le> top_index 4 (page_number 4 c)" using uc by (simp add: top_index_page_number user_address_def)
  show ?thesis
  proof (cases "user_walk s c")
    case (Some q)
    with E top U have "user_walk s' c = Some q" "same_page s s' q" by (auto simp: user_walk_def)
    with user_walk_page [OF u uc Some] user_walk_page [of s' c q] U uc show ?thesis by (simp add: same_page_def)
  next
    case None
    then have v: "vread s c = None" using translate_user [OF u uc] by (simp add: vread_def)
    show ?thesis
    proof (cases "user_walk s' c")
      case (Some q)
      with None E top U have "zero_page s' q" by (auto simp: user_walk_def)
      with Some user_walk_page [of s' c q] U uc v show ?thesis by (simp add: zero_page_def)
    next
      case None
      then show ?thesis using translate_user [of s' c] U uc v by (simp add: vread_def)
    qed
  qed
qed

lemma block_page_number:
  assumes "user_half a" "block a n c" "Part 0 a + n \<le> 4096 * k"
  shows "page_number 4 a \<le> page_number 4 c" "page_number 4 c < page_number 4 a + k"
proof -
  have c: "user_half c" using block_user_half assms(1,2) .
  note A = user_half_address(2) [OF assms(1)] and C = user_half_address(2) [OF c]
  have z: "Part 0 c < 4096" "Part 0 a < 4096" by (simp_all add: Part_div)
  from assms(2) have b: "unat a \<le> unat c" "unat c < unat a + n" by (simp_all add: block_def)
  show "page_number 4 a \<le> page_number 4 c" using A C b(1) z by linarith
  have "page_number 4 c * 4096 < (page_number 4 a + k) * 4096" unfolding add_mult_distrib using A C b(2) assms(3) by linarith
  then show "page_number 4 c < page_number 4 a + k" by simp
qed

lemma setup_block:
  assumes u: "user_space s" and m: "mapped 4 256 (pml4 s) (\<lambda>_. True) (page_number 4 a) k b s (s', r, kSuccess)"
    and a: "user_half a" "unat a + n \<le> 2 ^ 64" "Part 0 a + n \<le> 4096 * k"
  shows "user_space s'" "user_block s' a n"
proof -
  from m have e: "extends 4 256 (pml4 s) {page_number 4 a..<page_number 4 a + k} s s'" by (simp add: mapped_def)
  note U = extends_user_space [OF u e]
  show "user_space s'" using U by blast
  have "user_walk s' c \<noteq> None" if c: "block a n c" for c
  proof -
    have uc: "256 \<le> top_index 4 (page_number 4 c)"
      using user_half_address(1) [OF block_user_half [OF a(1) c]] by (simp add: top_index_page_number user_address_def)
    with m block_page_number [OF a(1) c a(3)] U page_number_mod [of c] show ?thesis
      unfolding user_walk_def mapped_def by simp
  qed
  with a show "user_block s' a n" by (simp add: user_block_def)
qed

lemma copy_segment_run:
  assumes ok: "segment_ok buf ph" and u: "user_space s" and b: "user_block s (p_vaddr ph) (unat (p_memsz ph))"
  shows "\<exists>s'. copy_segment buf ph s = Some s' \<and> same_mapping s s'
    \<and> (\<forall>c. user_half c \<longrightarrow> vread s' c = (if covers ph c then Some (seg_byte buf ph c) else vread s c))"
proof -
  let ?a = "p_vaddr ph" and ?n = "unat (p_filesz ph)" and ?m = "unat (p_memsz ph)" and ?o = "unat (p_offset ph)"
  let ?bs = "take ?n (drop ?o buf)"
  from ok have h: "user_half ?a" "unat ?a + ?m \<le> 2 ^ 64" "?n \<le> ?m" "?o + ?n \<le> length buf"
    by (simp_all add: segment_ok_def word_le_nat_alt)
  have len: "length ?bs = ?n" using h(4) by simp
  have b1: "user_block s ?a (length ?bs)" using b h unfolding len user_block_def block_def by auto
  from vmemcpy_user [OF u b1] obtain s1 where s1: "vmemcpy ?a ?bs s = Some s1" "same_mapping s s1"
    and r1: "\<And>c. user_half c \<Longrightarrow> vread s1 c = (if block ?a ?n c then Some (?bs ! (unat c - unat ?a)) else vread s c)"
    unfolding len by blast
  have u1: "user_space s1" using s1(2) by (simp add: same_mapping_def)
  let ?k = "unat (p_memsz ph - p_filesz ph)" and ?d = "?a + p_filesz ph"
  have k: "?k = ?m - ?n" using h(3) by (simp add: unat_sub word_le_nat_alt)
  obtain s2 where s2: "vmemset ?d 0 ?k s1 = Some s2" "same_mapping s1 s2"
    and r2: "\<And>c. user_half c \<Longrightarrow> vread s2 c = (if ?n < ?m \<and> block ?a ?m c \<and> unat ?a + ?n \<le> unat c then Some 0 else vread s1 c)"
  proof (cases "?n = ?m")
    case True
    then show ?thesis using that [of s1] k u1 by simp
  next
    case False
    with h(3) have lt: "?n < ?m" by simp
    then have d: "unat ?d = unat ?a + ?n" using unat_add_small [of ?a ?n] h(2) by simp
    have b2: "user_block s1 ?d (length (replicate ?k (0 :: u8)))"
      using user_block_same [OF s1(2) b] h lt d k unfolding user_block_def block_def user_half_def by auto
    from vmemcpy_user [OF u1 b2] obtain s2 where "vmemset ?d 0 ?k s1 = Some s2" "same_mapping s1 s2"
      and r: "\<And>c. user_half c \<Longrightarrow> vread s2 c = (if block ?d ?k c then Some (replicate ?k 0 ! (unat c - unat ?d)) else vread s1 c)"
      unfolding vmemset_memcpy length_replicate by blast
    moreover have "block ?d ?k c \<longleftrightarrow> ?n < ?m \<and> block ?a ?m c \<and> unat ?a + ?n \<le> unat c" for c
      using d k lt by (auto simp: block_def)
    moreover have "block ?d ?k c \<Longrightarrow> replicate ?k (0 :: u8) ! (unat c - unat ?d) = 0" for c
      by (rule nth_replicate) (auto simp: block_def)
    ultimately show ?thesis using that [of s2] by simp
  qed
  have "vread s2 c = (if covers ph c then Some (seg_byte buf ph c) else vread s c)" if c: "user_half c" for c
  proof -
    have nth: "?bs ! (unat c - unat ?a) = seg_byte buf ph c" if "block ?a ?n c"
    proof -
      from that have "unat c - unat ?a < ?n" by (auto simp: block_def)
      then show ?thesis using h(4) by (simp add: seg_byte_def Let_def)
    qed
    have zero: "seg_byte buf ph c = 0" if "unat ?a + ?n \<le> unat c"
    proof -
      from that have "\<not> unat c - unat ?a < ?n" by linarith
      then show ?thesis by (simp only: seg_byte_def Let_def if_False)
    qed
    show ?thesis using r1 [OF c] r2 [OF c] nth zero h(3) by (auto simp: covers_def block_def split: if_splits)
  qed
  moreover have "copy_segment buf ph s = Some s2" using s1(1) s2(1) h(4) by (simp add: copy_segment_def Let_def)
  ultimately show ?thesis using same_mapping_trans [OF s1(2) s2(2)] by blast
qed

text \<open>The pages of a list of segments, and the outcome of loading it.\<close>

definition segment_pages :: "Elf64_Phdr list \<Rightarrow> nat" where
  "segment_pages phs = sum_list (map (\<lambda>ph. if p_type ph = PT_LOAD then num_4kpages ph else 0) phs)"

definition loaded :: "u8 list \<Rightarrow> Elf64_Phdr list \<Rightarrow> Paging \<Rightarrow> Paging \<times> Code \<Rightarrow> bool" where
  "loaded buf phs s = (\<lambda>(s', err).
     user_space s' \<and> pml4 s' = pml4 s \<and> grows (4 * segment_pages phs) s s'
     \<and> (if err = kSuccess
        then \<forall>c. user_half c \<longrightarrow> (case elf_image buf phs c of
               Some b \<Rightarrow> vread s' c = Some b
             | None \<Rightarrow> vread s' c = vread s c \<or> vread s c = None \<and> vread s' c = Some 0)
        else err = kNoEnoughMemory \<and> memory_full (frames s')))"

lemma copy_segments_run:
  assumes "user_space s" and "\<And>j. i \<le> j \<Longrightarrow> j < i + k \<Longrightarrow> \<exists>ph. GetProgramHeader buf j = Some ph \<and> (p_type ph = PT_LOAD \<longrightarrow> segment_ok buf ph)"
  shows "\<exists>r. copy_segments buf i k s = Some r \<and> loaded buf (map (\<lambda>j. the (GetProgramHeader buf j)) [i..<i + k]) s r"
  using assms
proof (induction k arbitrary: i s)
  case 0
  then show ?case by (simp add: loaded_def)
next
  case (Suc k)
  from Suc.prems(2) [of i] obtain ph where ph: "GetProgramHeader buf i = Some ph" "p_type ph = PT_LOAD \<Longrightarrow> segment_ok buf ph" by auto
  define rest where "rest = map (\<lambda>j. the (GetProgramHeader buf j)) [Suc i..<Suc i + k]"
  have phs: "map (\<lambda>j. the (GetProgramHeader buf j)) [i..<i + Suc k] = ph # rest"
  proof -
    have "[i..<i + Suc k] = i # [Suc i..<Suc i + k]" by (subst upt_conv_Cons) simp_all
    with ph(1) show ?thesis by (simp add: rest_def del: upt_Suc)
  qed
  have IH: "\<exists>r. copy_segments buf (Suc i) k t = Some r \<and> loaded buf rest t r" if "user_space t" for t
    unfolding rest_def using that Suc.prems(2) by (intro Suc.IH) simp_all
  show ?case
  proof (cases "p_type ph = PT_LOAD")
    case False
    then have "elf_image buf (ph # rest) c = elf_image buf rest c" for c by (simp split: option.split)
    moreover have "segment_pages (ph # rest) = segment_pages rest" using False by (simp add: segment_pages_def)
    ultimately have "loaded buf (ph # rest) s r = loaded buf rest s r" for r by (simp only: loaded_def)
    then show ?thesis unfolding phs using IH [OF Suc.prems(1)] ph(1) False by simp
  next
    case True
    note ok = ph(2) [OF True]
    have a: "user_half (p_vaddr ph)" using ok by (simp add: segment_ok_def)
    from SetupPageMaps_run [OF Suc.prems(1) user_half_address(1) [OF a], of "num_4kpages ph"] obtain s1 r err where
      run: "SetupPageMaps (p_vaddr ph) (num_4kpages ph) s = Some (s1, err)"
      and m: "mapped 4 256 (pml4 s) (\<lambda>_. True) (page_number 4 (p_vaddr ph)) (num_4kpages ph) (512 ^ 4 - page_number 4 (p_vaddr ph)) s (s1, r, err)" by blast
    have e: "extends 4 256 (pml4 s) {page_number 4 (p_vaddr ph)..<page_number 4 (p_vaddr ph) + num_4kpages ph} s s1"
      using m by (simp add: mapped_def)
    note U = extends_user_space [OF Suc.prems(1) e]
    have sp: "segment_pages (ph # rest) = num_4kpages ph + segment_pages rest" using True by (simp add: segment_pages_def)
    have g1: "grows (4 * num_4kpages ph) s s1" by (rule mapped_grows [OF m])
    show ?thesis
    proof (cases "err = kSuccess")
      case False
      with m U grows_mono [OF g1, of "4 * segment_pages (ph # rest)"] sp have "loaded buf (ph # rest) s (s1, err)" by (simp add: loaded_def mapped_def)
      with phs run False True ph(1) show ?thesis by simp
    next
      case ok1: True
      have b: "user_block s1 (p_vaddr ph) (unat (p_memsz ph))"
        using setup_block [OF Suc.prems(1) m [unfolded ok1] a] ok by (simp add: segment_ok_def)
      from copy_segment_run [OF ok _ b] U obtain s2 where s2: "copy_segment buf ph s1 = Some s2" "same_mapping s1 s2"
        and r2: "\<And>c. user_half c \<Longrightarrow> vread s2 c = (if covers ph c then Some (seg_byte buf ph c) else vread s1 c)" by blast
      from IH [of s2] s2(2) obtain t err2 where t: "copy_segments buf (Suc i) k s2 = Some (t, err2)" "loaded buf rest s2 (t, err2)"
        by (auto simp: same_mapping_def)
      have p2: "pml4 s2 = pml4 s" using s2(2) U by (simp add: same_mapping_def pml4_def)
      have "grows (4 * segment_pages (ph # rest)) s t"
        using grows_trans [OF grows_trans [OF g1 same_mapping_grows [OF s2(2)]], of "4 * segment_pages rest" t] t(2)
        by (simp add: loaded_def sp)
      note p2 = p2 this
      have "loaded buf (ph # rest) s (t, err2)"
      proof (cases "err2 = kSuccess")
        case False
        with t(2) p2 show ?thesis by (simp add: loaded_def)
      next
        case ok2: True
        have "case elf_image buf (ph # rest) c of Some b \<Rightarrow> vread t c = Some b
            | None \<Rightarrow> vread t c = vread s c \<or> vread s c = None \<and> vread t c = Some 0" if c: "user_half c" for c
        proof -
          from t(2) ok2 c have T: "case elf_image buf rest c of Some b \<Rightarrow> vread t c = Some b
              | None \<Rightarrow> vread t c = vread s2 c \<or> vread s2 c = None \<and> vread t c = Some 0" by (simp add: loaded_def)
          show ?thesis
            using T r2 [OF c] extends_vread [OF Suc.prems(1) e c] True by (cases "elf_image buf rest c") auto
        qed
        with t(2) p2 ok2 show ?thesis by (simp add: loaded_def del: elf_image.simps)
      qed
      with phs run ok1 True ph(1) s2(1) t(1) show ?thesis by simp
    qed
  qed
qed

text \<open>A file that the loader accepts: an executable whose first segment is in the user half.\<close>

definition elf_ok :: "u8 list \<Rightarrow> bool" where
  "elf_ok buf \<longleftrightarrow> kEhdrSize \<le> length buf \<and> e_type (read_Ehdr buf) = ET_EXEC
     \<and> unat (e_phoff (read_Ehdr buf)) + kPhdrSize * unat (e_phnum (read_Ehdr buf)) \<le> length buf
     \<and> (\<exists>ph\<in>set (headers buf). p_type ph = PT_LOAD) \<and> (\<forall>ph\<in>set (headers buf). p_type ph = PT_LOAD \<longrightarrow> segment_ok buf ph)"

lemma elf_headers:
  assumes "elf_ok buf" "j < unat (e_phnum (read_Ehdr buf))"
  shows "GetProgramHeader buf j = Some (headers buf ! j)"
proof -
  have "kPhdrSize * (j + 1) \<le> kPhdrSize * unat (e_phnum (read_Ehdr buf))" using assms(2) by (intro mult_le_mono2) simp
  with assms show ?thesis by (simp add: elf_ok_def GetProgramHeader_def headers_def Let_def)
qed

lemma length_headers: "length (headers buf) = unat (e_phnum (read_Ehdr buf))"
  by (simp add: headers_def)

lemma first_load_user_half:
  assumes ok: "elf_ok buf" and "i + k = unat (e_phnum (read_Ehdr buf))" and "\<exists>j\<ge>i. j < i + k \<and> p_type (headers buf ! j) = PT_LOAD"
  shows "\<exists>a. first_load buf i k = Some a \<and> user_half a"
  using assms(2,3)
proof (induction k arbitrary: i)
  case (Suc k)
  have i: "i < unat (e_phnum (read_Ehdr buf))" using Suc.prems(1) by simp
  note h = elf_headers [OF ok i]
  show ?case
  proof (cases "p_type (headers buf ! i) = PT_LOAD")
    case True
    have "headers buf ! i \<in> set (headers buf)" using i by (simp add: length_headers)
    with ok True have "segment_ok buf (headers buf ! i)" by (simp add: elf_ok_def)
    with h True show ?thesis by (simp add: segment_ok_def)
  next
    case False
    from Suc.prems(2) obtain j where j: "i \<le> j" "j < i + Suc k" "p_type (headers buf ! j) = PT_LOAD" by blast
    with False have "Suc i \<le> j" by (metis Suc_leI le_neq_implies_less)
    with j Suc.IH [of "Suc i"] Suc.prems(1) h False show ?thesis by auto
  qed
qed auto

lemma LoadELF_run:
  assumes ok: "elf_ok buf" and u: "user_space s"
  shows "\<exists>r. LoadELF buf s = Some r \<and> loaded buf (headers buf) s r"
proof -
  let ?n = "unat (e_phnum (read_Ehdr buf))"
  from ok obtain j where "j < ?n" "p_type (headers buf ! j) = PT_LOAD"
    by (auto simp: elf_ok_def in_set_conv_nth length_headers)
  with first_load_user_half [OF ok, of 0 ?n] obtain a where a: "GetFirstLoadAddress buf = Some a" "user_half a"
    by (auto simp: GetFirstLoadAddress_def)
  then have "\<not> a < 0xffff800000000000" by (simp add: user_half_def word_less_nat_alt)
  with ok a(1) have L: "LoadELF buf s = copy_segments buf 0 ?n s"
    by (simp add: LoadELF_def elf_ok_def CopyLoadSegments_def)
  have seg: "\<exists>ph. GetProgramHeader buf j = Some ph \<and> (p_type ph = PT_LOAD \<longrightarrow> segment_ok buf ph)" if "j < ?n" for j
  proof -
    have "headers buf ! j \<in> set (headers buf)" using that by (simp add: length_headers)
    with ok elf_headers [OF ok that] show ?thesis by (simp add: elf_ok_def)
  qed
  have H: "map (\<lambda>j. the (GetProgramHeader buf j)) [0..<0 + ?n] = headers buf"
    by (rule nth_equalityI) (simp_all add: length_headers elf_headers [OF ok])
  from copy_segments_run [OF u, of 0 ?n buf] seg show ?thesis unfolding H L by simp
qed

section \<open>Properties\<close>


definition sample_elf :: "u8 list" where
  "sample_elf =
     [0x7f, 0x45, 0x4c, 0x46, 2, 1, 1, 0, 0, 0, 0, 0, 0, 0, 0, 0, 2, 0, 0x3e, 0, 1, 0, 0, 0,
      0, 0, 0, 0, 0, 0x80, 0xff, 0xff, 64, 0, 0, 0, 0, 0, 0, 0, 0, 0, 0, 0, 0, 0, 0, 0,
      0, 0, 0, 0, 64, 0, 56, 0, 1, 0, 0, 0, 0, 0, 0, 0,
      1, 0, 0, 0, 5, 0, 0, 0, 120, 0, 0, 0, 0, 0, 0, 0, 0, 0, 0, 0, 0, 0x80, 0xff, 0xff,
      0, 0, 0, 0, 0, 0, 0, 0, 3, 0, 0, 0, 0, 0, 0, 0, 5, 0, 0, 0, 0, 0, 0, 0, 0, 0, 0, 0, 0, 0, 0, 0,
      11, 22, 33]"

lemma sample_elf_header:
  "length sample_elf = 123" "e_type (read_Ehdr sample_elf) = ET_EXEC" "e_phoff (read_Ehdr sample_elf) = 64" "e_phnum (read_Ehdr sample_elf) = 1"
  "read_Phdr sample_elf 64 = \<lparr>p_type = PT_LOAD, p_flags = 5, p_offset = 120, p_vaddr = 0xffff800000000000, p_paddr = 0, p_filesz = 3, p_memsz = 5, p_align = 0\<rparr>"
  by code_simp+

lemma sample_headers: "headers sample_elf = [read_Phdr sample_elf 64]"
  by (simp add: headers_def sample_elf_header(3,4))

lemma sample_elf_ok: "elf_ok sample_elf"
proof -
  let ?ph = "read_Phdr sample_elf 64"
  have "Part 0 (0xffff800000000000 :: u64) = 0" by (simp add: Part_div)
  then have "segment_ok sample_elf ?ph"
    by (simp add: segment_ok_def sample_elf_header(1,5) user_half_def num_4kpages_def)
  then show ?thesis
    by (simp add: elf_ok_def sample_elf_header(1-4) sample_headers layout) (simp add: sample_elf_header(5))
qed


section \<open>Segments that end behind their pages\<close>

lemma vmemcpy_fault:
  "user_space s \<Longrightarrow> user_half a \<Longrightarrow> unat a + length bs \<le> 2 ^ 64 \<Longrightarrow> block a (length bs) c \<Longrightarrow> user_walk s c = None
     \<Longrightarrow> vmemcpy a bs s = None"
proof (induction bs arbitrary: a s)
  case (Cons b bs)
  have uc: "user_address c" using user_half_address(1) [OF block_user_half [OF Cons.prems(2,4)]] .
  show ?case
  proof (cases "user_walk s a")
    case None
    then show ?thesis using translate_user [OF Cons.prems(1) user_half_address(1) [OF Cons.prems(2)]] by (simp add: vwrite_def)
  next
    case (Some q)
    then have "c \<noteq> a" using Cons.prems(5) by auto
    then have "unat c \<noteq> unat a" by (auto dest: unsigned_word_eqI)
    with Cons.prems(4) have n: "unat a < unat c" "bs \<noteq> []" by (auto simp: block_def)
    then have a1: "unat (a + 1) = unat a + 1" using unat_add_small [of a 1] Cons.prems(3) by (cases bs) simp_all
    from vwrite_user [OF Cons.prems(1,2), of b] Some obtain s1 where s1: "vwrite a b s = Some s1" "same_mapping s s1" by auto
    have "vmemcpy (a + 1) bs s1 = None"
    proof (rule Cons.IH)
      show "user_space s1" "user_walk s1 c = None" using s1(2) Cons.prems(5) uc by (simp_all add: same_mapping_def)
      show "user_half (a + 1)" "unat (a + 1) + length bs \<le> 2 ^ 64" "block (a + 1) (length bs) c"
        using a1 n Cons.prems(2-4) by (simp_all add: user_half_def block_def)
    qed
    with s1(1) show ?thesis by simp
  qed
qed (auto simp: block_def)

lemma copy_segment_fault:
  assumes u: "user_space s" and h: "user_half (p_vaddr ph)" "unat (p_vaddr ph) + unat (p_memsz ph) \<le> 2 ^ 64" "p_filesz ph \<le> p_memsz ph"
    and c: "covers ph c" "user_walk s c = None"
  shows "copy_segment buf ph s = None"
proof (cases "unat (p_offset ph) + unat (p_filesz ph) \<le> length buf")
  case True
  let ?a = "p_vaddr ph" and ?n = "unat (p_filesz ph)" and ?m = "unat (p_memsz ph)"
  let ?bs = "take ?n (drop (unat (p_offset ph)) buf)" and ?d = "p_vaddr ph + p_filesz ph"
  have len: "length ?bs = ?n" "?n \<le> ?m" using True h(3) by (simp_all add: word_le_nat_alt)
  have uc: "user_address c" using user_half_address(1) [OF block_user_half [OF h(1)]] c(1) by (auto simp: covers_def)
  show ?thesis
  proof (cases "vmemcpy ?a ?bs s")
    case None
    with True show ?thesis by (simp add: copy_segment_def Let_def)
  next
    case (Some s1)
    have nb: "\<not> block ?a ?n c" using vmemcpy_fault [OF u h(1), of ?bs c] len h(2) c(2) Some by auto
    have ub: "user_block s ?a (length ?bs)"
      using vmemcpy_fault [OF u h(1), of ?bs] len h(1,2) Some by (auto simp: user_block_def)
    from vmemcpy_user [OF u ub] Some have sm: "same_mapping s s1" by auto
    from nb c(1) have lt: "?n < ?m" "unat ?a + ?n \<le> unat c" by (auto simp: covers_def block_def)
    then have d: "unat ?d = unat ?a + ?n" using unat_add_small [of ?a ?n] h(2) by simp
    have k: "unat (p_memsz ph - p_filesz ph) = ?m - ?n" using h(3) by (simp add: unat_sub)
    have "vmemcpy ?d (replicate (?m - ?n) 0) s1 = None"
    proof (rule vmemcpy_fault)
      show "user_space s1" "user_walk s1 c = None" using sm c(2) uc by (simp_all add: same_mapping_def)
      show "user_half ?d" "unat ?d + length (replicate (?m - ?n) (0::u8)) \<le> 2 ^ 64" using d h lt len by (simp_all add: user_half_def)
      show "block ?d (length (replicate (?m - ?n) (0::u8))) c" using d lt c(1) by (simp add: covers_def block_def)
    qed
    with Some True show ?thesis by (simp add: copy_segment_def Let_def vmemset_memcpy k)
  qed
qed (simp add: copy_segment_def Let_def)

text \<open>
  The number of pages of a segment is computed from its size alone: a segment that does not start at the
  beginning of a page can end behind the pages that are set up for it.  When the page of its last byte is not
  mapped otherwise, the kernel faults while it copies the segment and \<open>LoadELF\<close> never returns.
\<close>

theorem LoadELF_unaligned_fault:
  assumes u: "user_space s" and e: "kEhdrSize \<le> length buf" "e_type (read_Ehdr buf) = ET_EXEC" "e_phnum (read_Ehdr buf) = 1"
    and ph: "GetProgramHeader buf 0 = Some ph" "p_type ph = PT_LOAD"
    and h: "user_half (p_vaddr ph)" "unat (p_vaddr ph) + unat (p_memsz ph) \<le> 2 ^ 64" "p_filesz ph \<le> p_memsz ph"
    and last: "4096 * num_4kpages ph < Part 0 (p_vaddr ph) + unat (p_memsz ph)" "0 < p_memsz ph"
      "user_walk s (p_vaddr ph + (p_memsz ph - 1)) = None"
    and free: "4 * num_4kpages ph < card (free_frames (frames s))"
  shows "LoadELF buf s = None"
proof -
  let ?a = "p_vaddr ph" and ?n = "num_4kpages ph" and ?c = "p_vaddr ph + (p_memsz ph - 1)"
  have m0: "0 < unat (p_memsz ph)" using last(2) by (simp add: word_less_nat_alt)
  then have m1: "unat (p_memsz ph - 1) = unat (p_memsz ph) - 1" by (simp add: unat_sub word_le_nat_alt)
  then have uc: "unat ?c = unat ?a + (unat (p_memsz ph) - 1)" using h(2) m0 by (simp add: unat_word_ariths(1))
  have cov: "covers ph ?c" using uc m0 by (simp add: covers_def block_def)
  have hc: "user_half ?c" using h(1) uc by (simp add: user_half_def)
  from SetupPageMaps_run [OF u user_half_address(1) [OF h(1)], of ?n] obtain s1 r err where
    run: "SetupPageMaps ?a ?n s = Some (s1, err)"
    and m: "mapped 4 256 (pml4 s) (\<lambda>_. True) (page_number 4 ?a) ?n (512 ^ 4 - page_number 4 ?a) s (s1, r, err)" by blast
  have ok: "err = kSuccess" using mapped_succeeds [OF m] free by simp
  from m have ex: "extends 4 256 (pml4 s) {page_number 4 ?a..<page_number 4 ?a + ?n} s s1" by (simp add: mapped_def)
  note U = extends_user_space [OF u ex]
  have out: "page_number 4 ?a + ?n \<le> page_number 4 ?c"
  proof -
    have "page_number 4 ?c * 4096 + 4096 > page_number 4 ?a * 4096 + 4096 * ?n"
      using user_half_address(2) [OF h(1)] user_half_address(2) [OF hc] uc last(1) m0 Part_div(1) [of ?c] by linarith
    then have "page_number 4 ?a + ?n < page_number 4 ?c + 1" by linarith
    then show ?thesis by simp
  qed
  have top: "256 \<le> top_index 4 (page_number 4 ?c)"
    using user_half_address(1) [OF hc] by (simp add: top_index_page_number user_address_def)
  have none: "user_walk s1 ?c = None"
  proof (rule ccontr)
    assume "user_walk s1 ?c \<noteq> None"
    then obtain q where "walk (phys s1) 4 (pml4 s) (page_number 4 ?c) = Some q" using U by (auto simp: user_walk_def)
    with ex top last(3) have "page_number 4 ?c mod 512 ^ 4 \<in> {page_number 4 ?a..<page_number 4 ?a + ?n}"
      unfolding extends_def user_walk_def by blast
    with out show False unfolding page_number_mod by simp
  qed
  have "copy_segment buf ph s1 = None" using copy_segment_fault [OF _ h cov none] U by blast
  moreover have "\<not> ?a < 0xffff800000000000" using h(1) by (simp add: user_half_def word_less_nat_alt)
  ultimately show ?thesis
    using e ph run ok by (simp add: LoadELF_def GetFirstLoadAddress_def CopyLoadSegments_def)
qed

definition unaligned_elf :: "u8 list" where
  "unaligned_elf = sample_elf[80 := 0xfe, 81 := 0x0f]"

lemma unaligned_elf_header:
  "length unaligned_elf = 123" "e_type (read_Ehdr unaligned_elf) = ET_EXEC" "e_phoff (read_Ehdr unaligned_elf) = 64" "e_phnum (read_Ehdr unaligned_elf) = 1"
  "read_Phdr unaligned_elf 64 = \<lparr>p_type = PT_LOAD, p_flags = 5, p_offset = 120, p_vaddr = 0xffff800000000ffe, p_paddr = 0, p_filesz = 3, p_memsz = 5, p_align = 0\<rparr>"
  by code_simp+

lemma demo_walk: "user_walk demo_paging a = None"
proof -
  have "map_entry (phys demo_paging) p j = 0" for p j
    unfolding map_entry_def by (rule le64_zero) (simp add: demo_paging_def)
  then show ?thesis by (simp add: user_walk_def walk_top)
qed

theorem LoadELF_unaligned_fault_witness: "LoadELF unaligned_elf demo_paging = None"
proof (rule LoadELF_unaligned_fault [where ph = "read_Phdr unaligned_elf 64"])
  note H = unaligned_elf_header
  have "Part 0 (0xffff800000000ffe :: u64) = 4094" by (simp add: Part_div)
  moreover have n: "num_4kpages (read_Phdr unaligned_elf 64) = 1" by (simp add: num_4kpages_def H(5))
  ultimately show "4096 * num_4kpages (read_Phdr unaligned_elf 64) < Part 0 (p_vaddr (read_Phdr unaligned_elf 64)) + unat (p_memsz (read_Phdr unaligned_elf 64))"
    by (simp add: H(5))
  show "4 * num_4kpages (read_Phdr unaligned_elf 64) < card (free_frames (frames demo_paging))" using demo_enough n by simp
  show "GetProgramHeader unaligned_elf 0 = Some (read_Phdr unaligned_elf 64)"
    by (simp add: GetProgramHeader_def H(1,3) layout)
qed (simp_all add: demo_user_space demo_walk unaligned_elf_header user_half_def layout)

end
