(* ===== verification/ArgVector.thy ===== *)
theory ArgVector
  imports ElfLoader
begin

text \<open>
  \<open>MakeArgVector\<close> of \<^verbatim>\<open>kernel/terminal.cpp\<close>: the arguments of a program, as an array of pointers and the
  strings they point to, in memory of the program.  Strings of the kernel are lists of their bytes before the
  end mark; the end marks that the function puts into \<open>first_arg\<close> end the arguments it copies.
\<close>

section \<open>Operations\<close>

definition isspace :: "u8 \<Rightarrow> bool" where
  "isspace c \<longleftrightarrow> c = 0x20 \<or> 0x09 \<le> c \<and> c \<le> 0x0d"

text \<open>The bytes of a pointer, and \<open>strcpy\<close>.\<close>

definition bytes64 :: "u64 \<Rightarrow> u8 list" where
  "bytes64 w = map (\<lambda>i. ucast (drop_bit (8 * i) w)) [0..<8]"

definition vstrcpy :: "LinearAddress4Level \<Rightarrow> u8 list \<Rightarrow> Paging \<Rightarrow> Paging option" where
  "vstrcpy dst src = vmemcpy dst (src @ [0])"

text \<open>The lambda \<open>push_to_argv\<close>; \<open>argc\<close> and \<open>argbuf_index\<close> are variables it captures.\<close>

definition push_to_argv ::
  "LinearAddress4Level \<Rightarrow> nat \<Rightarrow> LinearAddress4Level \<Rightarrow> nat \<Rightarrow> u8 list \<Rightarrow> nat \<times> nat \<times> Paging \<Rightarrow> ((nat \<times> nat \<times> Paging) \<times> Code) option" where
  "push_to_argv argv argv_len argbuf argbuf_len arg = (\<lambda>(argc, argbuf_index, s).
     if argc \<ge> argv_len \<or> argbuf_index \<ge> argbuf_len then Some ((argc, argbuf_index, s), kFull)
     else let p = argbuf + of_nat argbuf_index
          in Option.bind (vmemcpy (argv + of_nat (8 * argc)) (bytes64 p) s) (\<lambda>s1.
             map_option (\<lambda>s2. ((argc + 1, argbuf_index + (length arg + 1), s2), kSuccess)) (vstrcpy p arg s1)))"

function push_args ::
  "(u8 list \<Rightarrow> nat \<times> nat \<times> Paging \<Rightarrow> ((nat \<times> nat \<times> Paging) \<times> Code) option) \<Rightarrow> u8 list \<Rightarrow> nat \<times> nat \<times> Paging
    \<Rightarrow> ((nat \<times> nat \<times> Paging) \<times> Code) option" where
  "push_args push p0 st =
     (let p = dropWhile isspace p0
      in if p = [] then Some (st, kSuccess)
         else let arg = takeWhile (\<lambda>c. \<not> isspace c) p; p1 = dropWhile (\<lambda>c. \<not> isspace c) p
              in Option.bind (push arg st) (\<lambda>(st1, err).
                   if err \<noteq> kSuccess then Some (st1, err)
                   else if p1 = [] then Some (st1, kSuccess)
                   else push_args push (tl p1) st1))"
  by pat_completeness auto
termination
proof (relation "measure (\<lambda>(_, p, _). length p)", goal_cases)
  case (2 push p0 st p arg p1)
  have "length p1 \<le> length p" "length p \<le> length p0" using 2 by (simp_all add: length_dropWhile_le)
  moreover have "p1 \<noteq> []" using 2 by simp
  ultimately show ?case by (cases p1) auto
qed simp

declare push_args.simps [simp del]

definition MakeArgVector ::
  "u8 list \<Rightarrow> u8 list option \<Rightarrow> LinearAddress4Level \<Rightarrow> nat \<Rightarrow> LinearAddress4Level \<Rightarrow> nat \<Rightarrow> Paging \<Rightarrow> (Paging \<times> nat \<times> Code) option" where
  "MakeArgVector cmd first_arg argv argv_len argbuf argbuf_len s =
     (let push = push_to_argv argv argv_len argbuf argbuf_len
      in map_option (\<lambda>((argc, _, s'), err). (s', argc, err))
           (Option.bind (push cmd (0, 0, s)) (\<lambda>(st, err).
              if err \<noteq> kSuccess then Some (st, err)
              else case first_arg of None \<Rightarrow> Some (st, kSuccess) | Some p \<Rightarrow> push_args push p st)))"

section \<open>The words of a line\<close>

text \<open>The specification: cut at every white space and drop the empty pieces.\<close>

fun pieces :: "u8 list \<Rightarrow> u8 list list" where
  "pieces [] = [[]]"
| "pieces (c # cs) = (if isspace c then [] # pieces cs else (case pieces cs of [] \<Rightarrow> [[c]] | w # ws \<Rightarrow> (c # w) # ws))"

definition words :: "u8 list \<Rightarrow> u8 list list" where
  "words p = filter (\<lambda>w. w \<noteq> []) (pieces p)"

lemma words_dropWhile: "words (dropWhile isspace p) = words p"
  by (induction p) (simp_all add: words_def)

lemma pieces_word:
  "pieces p = takeWhile (\<lambda>c. \<not> isspace c) p #
     (let r = dropWhile (\<lambda>c. \<not> isspace c) p in if r = [] then [] else pieces (tl r))"
  by (induction p) (auto simp: Let_def)

lemma words_step:
  "words p0 = (let p = dropWhile isspace p0
     in if p = [] then []
        else takeWhile (\<lambda>c. \<not> isspace c) p # (let p1 = dropWhile (\<lambda>c. \<not> isspace c) p in if p1 = [] then [] else words (tl p1)))"
proof -
  define q where "q = dropWhile isspace p0"
  have w: "words p0 = words q" by (simp add: q_def words_dropWhile)
  have "\<not> isspace (hd q)" if "q \<noteq> []" using that unfolding q_def by (rule hd_dropWhile)
  then have "q \<noteq> [] \<Longrightarrow> takeWhile (\<lambda>c. \<not> isspace c) q \<noteq> []" by (cases q) auto
  moreover have "words [] = []" by (simp add: words_def)
  ultimately have "words q = (if q = [] then [] else takeWhile (\<lambda>c. \<not> isspace c) q #
      (let p1 = dropWhile (\<lambda>c. \<not> isspace c) q in if p1 = [] then [] else words (tl p1)))"
    using pieces_word [of q] by (simp add: words_def Let_def del: dropWhile_eq_Nil_conv takeWhile_eq_Nil_iff)
  then show ?thesis by (simp only: Let_def w q_def [symmetric])
qed

text \<open>Pushing the words one by one.\<close>

fun push_all ::
  "(u8 list \<Rightarrow> nat \<times> nat \<times> Paging \<Rightarrow> ((nat \<times> nat \<times> Paging) \<times> Code) option) \<Rightarrow> u8 list list \<Rightarrow> nat \<times> nat \<times> Paging
    \<Rightarrow> ((nat \<times> nat \<times> Paging) \<times> Code) option" where
  "push_all push [] st = Some (st, kSuccess)"
| "push_all push (w # ws) st =
     Option.bind (push w st) (\<lambda>(st1, err). if err \<noteq> kSuccess then Some (st1, err) else push_all push ws st1)"

lemma push_args_words: "push_args push p st = push_all push (words p) st"
proof (induction push p st rule: push_args.induct)
  case (1 push p0 st)
  define q where "q = dropWhile isspace p0"
  define p1 where "p1 = dropWhile (\<lambda>c. \<not> isspace c) q"
  have IH: "push_args push (tl p1) st1 = push_all push (words (tl p1)) st1" if "q \<noteq> []" "p1 \<noteq> []" "push (takeWhile (\<lambda>c. \<not> isspace c) q) st = Some (st1, kSuccess)" for st1
    using 1 [OF q_def _ refl p1_def, of "(st1, kSuccess)" st1 kSuccess] that by simp
  have w: "words p0 = (if q = [] then [] else takeWhile (\<lambda>c. \<not> isspace c) q # (if p1 = [] then [] else words (tl p1)))"
    using words_step [of p0] by (simp only: Let_def q_def p1_def)
  have e: "push_args push p0 st = (if q = [] then Some (st, kSuccess)
      else Option.bind (push (takeWhile (\<lambda>c. \<not> isspace c) q) st) (\<lambda>(st1, err).
             if err \<noteq> kSuccess then Some (st1, err) else if p1 = [] then Some (st1, kSuccess) else push_args push (tl p1) st1))"
    using push_args.simps [of push p0 st] by (simp only: Let_def q_def p1_def)
  show ?case unfolding e w using IH
    by (cases "push (takeWhile (\<lambda>c. \<not> isspace c) q) st") auto
qed

lemma MakeArgVector_words:
  "MakeArgVector cmd first_arg argv argv_len argbuf argbuf_len s =
     map_option (\<lambda>((argc, _, s'), err). (s', argc, err))
       (push_all (push_to_argv argv argv_len argbuf argbuf_len) (cmd # (case first_arg of None \<Rightarrow> [] | Some p \<Rightarrow> words p)) (0, 0, s))"
  by (auto simp: MakeArgVector_def Let_def push_args_words split: option.splits intro!: arg_cong [where f = "map_option _"] Option.bind_cong)

section \<open>Writing into one page\<close>

definition vstring :: "Paging \<Rightarrow> LinearAddress4Level \<Rightarrow> u8 list \<Rightarrow> bool" where
  "vstring s a bs \<longleftrightarrow> (\<forall>i<length bs. vread s (a + of_nat i) = Some (bs ! i))"

lemma page_address:
  assumes "user_block s a 4096" "k < 4096"
  shows "unat (a + of_nat k) = unat a + k" "user_half (a + of_nat k)"
  using assms unat_add_small [of a k] user_half_add [of a k] by (simp_all add: user_block_def)

lemma page_copy:
  assumes u: "user_space s" and b: "user_block s a 4096" and n: "off + length bs \<le> 4096" "off < 4096"
  shows "\<exists>s'. vmemcpy (a + of_nat off) bs s = Some s' \<and> same_mapping s s'
    \<and> (\<forall>k<4096. vread s' (a + of_nat k) = (if off \<le> k \<and> k < off + length bs then Some (bs ! (k - off)) else vread s (a + of_nat k)))"
proof -
  note addr = page_address [OF b]
  have "user_walk s c \<noteq> None" if "block (a + of_nat off) (length bs) c" for c
    using b that n addr(1) [OF n(2)] by (simp add: user_block_def block_def)
  then have "user_block s (a + of_nat off) (length bs)"
    using b n addr [OF n(2)] by (simp add: user_block_def)
  from vmemcpy_user [OF u this] obtain s' where
    s': "vmemcpy (a + of_nat off) bs s = Some s'" "same_mapping s s'"
    "\<And>c. user_half c \<Longrightarrow> vread s' c = (if block (a + of_nat off) (length bs) c then Some (bs ! (unat c - unat (a + of_nat off))) else vread s c)"
    by blast
  have "vread s' (a + of_nat k) = (if off \<le> k \<and> k < off + length bs then Some (bs ! (k - off)) else vread s (a + of_nat k))" if "k < 4096" for k
    using s'(3) [OF addr(2) [OF that]] addr(1) [OF that] addr(1) [OF n(2)] by (auto simp: block_def)
  with s'(1,2) show ?thesis by blast
qed

lemma vstringI:
  assumes "\<And>k. off \<le> k \<Longrightarrow> k < off + length bs \<Longrightarrow> vread s (a + of_nat k) = Some (bs ! (k - off))"
  shows "vstring s (a + of_nat off) bs"
  unfolding vstring_def
proof (intro allI impI)
  fix i assume "i < length bs"
  with assms [of "off + i"] show "vread s (a + of_nat off + of_nat i) = Some (bs ! i)" by (simp add: add.assoc)
qed

lemma vstring_keep:
  assumes "vstring s (a + of_nat off) bs" and "\<And>k. off \<le> k \<Longrightarrow> k < off + length bs \<Longrightarrow> vread s' (a + of_nat k) = vread s (a + of_nat k)"
  shows "vstring s' (a + of_nat off) bs"
  unfolding vstring_def
proof (intro allI impI)
  fix i assume "i < length bs"
  with assms(1) assms(2) [of "off + i"] show "vread s' (a + of_nat off + of_nat i) = Some (bs ! i)"
    by (simp add: vstring_def add.assoc)
qed

section \<open>The argument vector\<close>

definition arg_offset :: "u8 list list \<Rightarrow> nat" where
  "arg_offset ts = sum_list (map (\<lambda>t. length t + 1) ts)"

text \<open>Pointers to the strings \<open>ts\<close> at \<open>argv\<close>, and the strings, one behind the other, at \<open>argbuf\<close>.\<close>

definition args_at :: "Paging \<Rightarrow> LinearAddress4Level \<Rightarrow> LinearAddress4Level \<Rightarrow> u8 list list \<Rightarrow> bool" where
  "args_at s argv argbuf ts \<longleftrightarrow> (\<forall>i<length ts. let p = argbuf + of_nat (arg_offset (take i ts))
     in vstring s (argv + of_nat (8 * i)) (bytes64 p) \<and> vstring s p (ts ! i @ [0]))"

lemma arg_offset_append [simp]: "arg_offset (xs @ ys) = arg_offset xs + arg_offset ys" "arg_offset [] = 0" "arg_offset (t # ts) = length t + 1 + arg_offset ts"
  by (simp_all add: arg_offset_def)

lemma arg_offset_take: "i < length ts \<Longrightarrow> arg_offset (take i ts) + length (ts ! i) + 1 \<le> arg_offset ts"
proof -
  assume "i < length ts"
  then have "arg_offset ts = arg_offset (take i ts) + (length (ts ! i) + 1 + arg_offset (drop (Suc i) ts))"
    by (metis id_take_nth_drop arg_offset_append(1,3))
  then show ?thesis by simp
qed

lemma length_bytes64 [simp]: "length (bytes64 w) = 8"
  by (simp add: bytes64_def)

lemma push_run:
  assumes u: "user_space s" and b: "user_block s a 4096" and at: "args_at s a (a + 256) ts"
    and fit: "length ts < 32" "arg_offset (ts @ [t]) \<le> 3840"
  shows "\<exists>s'. push_to_argv a 32 (a + 256) 3840 t (length ts, arg_offset ts, s)
      = Some ((length (ts @ [t]), arg_offset (ts @ [t]), s'), kSuccess)
    \<and> same_mapping s s' \<and> args_at s' a (a + 256) (ts @ [t])"
proof -
  let ?o = "256 + arg_offset ts" and ?p = "a + 256 + of_nat (arg_offset ts)"
  have p: "?p = a + of_nat ?o" by simp
  from page_copy [OF u b, of "8 * length ts" "bytes64 ?p"] fit obtain s1 where
    s1: "vmemcpy (a + of_nat (8 * length ts)) (bytes64 ?p) s = Some s1" "same_mapping s s1"
    and r1: "\<And>k. k < 4096 \<Longrightarrow> vread s1 (a + of_nat k) = (if 8 * length ts \<le> k \<and> k < 8 * length ts + 8 then Some (bytes64 ?p ! (k - 8 * length ts)) else vread s (a + of_nat k))"
    by auto
  have "user_space s1" using s1(2) by (simp add: same_mapping_def)
  from page_copy [OF this user_block_same [OF s1(2) b], of ?o "t @ [0]"] fit obtain s2 where
    s2: "vmemcpy (a + of_nat ?o) (t @ [0]) s1 = Some s2" "same_mapping s1 s2"
    and r2: "\<And>k. k < 4096 \<Longrightarrow> vread s2 (a + of_nat k) = (if ?o \<le> k \<and> k < ?o + length (t @ [0]) then Some ((t @ [0]) ! (k - ?o)) else vread s1 (a + of_nat k))"
    by auto
  have run: "push_to_argv a 32 (a + 256) 3840 t (length ts, arg_offset ts, s)
      = Some ((length (ts @ [t]), arg_offset (ts @ [t]), s2), kSuccess)"
    using fit s1(1) s2(1) unfolding p by (simp add: push_to_argv_def vstrcpy_def Let_def p)
  have keep: "vread s2 (a + of_nat k) = vread s (a + of_nat k)" if "k < 8 * length ts \<or> 256 \<le> k \<and> k < ?o" for k
    using that fit r1 [of k] r2 [of k] by auto
  have "let p = a + 256 + of_nat (arg_offset (take i (ts @ [t])))
     in vstring s2 (a + of_nat (8 * i)) (bytes64 p) \<and> vstring s2 p ((ts @ [t]) ! i @ [0])" if i: "i < length (ts @ [t])" for i
  proof (cases "i < length ts")
    case True
    let ?q = "256 + arg_offset (take i ts)"
    have q: "a + 256 + of_nat (arg_offset (take i ts)) = a + of_nat ?q" by simp
    note off = arg_offset_take [OF True]
    from at True have old: "vstring s (a + of_nat (8 * i)) (bytes64 (a + of_nat ?q))" "vstring s (a + of_nat ?q) (ts ! i @ [0])"
      unfolding args_at_def by (simp_all add: Let_def add.assoc)
    have "vstring s2 (a + of_nat (8 * i)) (bytes64 (a + of_nat ?q))"
      using old(1) by (rule vstring_keep) (use True keep in simp)
    moreover have "vstring s2 (a + of_nat ?q) (ts ! i @ [0])"
      using old(2) by (rule vstring_keep) (use off keep in simp)
    ultimately show ?thesis using True by (simp add: Let_def q nth_append)
  next
    case False
    with i have i: "i = length ts" by simp
    have "vstring s2 (a + of_nat (8 * length ts)) (bytes64 (a + of_nat ?o))"
      by (rule vstringI) (use fit r1 r2 in \<open>simp add: add.assoc\<close>)
    moreover have "vstring s2 (a + of_nat ?o) (t @ [0])"
      by (rule vstringI) (use fit r2 in simp)
    ultimately show ?thesis using i by (simp add: Let_def p)
  qed
  then have "args_at s2 a (a + 256) (ts @ [t])" unfolding args_at_def by blast
  with run same_mapping_trans [OF s1(2) s2(2)] show ?thesis by blast
qed

lemma push_all_run:
  assumes "user_space s" and "user_block s a 4096" and "args_at s a (a + 256) ts"
    and "length (ts @ ws) \<le> 32" "arg_offset (ts @ ws) \<le> 3840"
  shows "\<exists>s'. push_all (push_to_argv a 32 (a + 256) 3840) ws (length ts, arg_offset ts, s)
      = Some ((length (ts @ ws), arg_offset (ts @ ws), s'), kSuccess)
    \<and> same_mapping s s' \<and> args_at s' a (a + 256) (ts @ ws)"
  using assms
proof (induction ws arbitrary: ts s)
  case (Cons w ws)
  from push_run [OF Cons.prems(1-3), of w] Cons.prems(4,5) obtain s1 where
    s1: "push_to_argv a 32 (a + 256) 3840 w (length ts, arg_offset ts, s) = Some ((length (ts @ [w]), arg_offset (ts @ [w]), s1), kSuccess)"
      "same_mapping s s1" "args_at s1 a (a + 256) (ts @ [w])" by auto
  from Cons.IH [OF _ user_block_same [OF s1(2) Cons.prems(2)] s1(3)] s1(2) Cons.prems(4,5) obtain s2 where
    "push_all (push_to_argv a 32 (a + 256) 3840) ws (length (ts @ [w]), arg_offset (ts @ [w]), s1)
       = Some ((length (ts @ w # ws), arg_offset (ts @ w # ws), s2), kSuccess)"
    "same_mapping s1 s2" "args_at s2 a (a + 256) (ts @ w # ws)" by (auto simp: same_mapping_def)
  with s1 same_mapping_trans [OF s1(2)] show ?case by auto
qed simp

section \<open>Properties\<close>

text \<open>
  The argument vector, with the sizes the kernel uses (32 pointers and 3840 bytes in one page): when the
  command and the words of the line fit, \<open>MakeArgVector\<close> returns their number, the pointers in \<open>argv\<close> lead to
  them in order, each with its end mark, and the mapping of the program is the same.
\<close>

theorem MakeArgVector_correct:
  assumes "user_space s" and "user_block s a 4096" and "ts = cmd # (case first_arg of None \<Rightarrow> [] | Some p \<Rightarrow> words p)"
    and "length ts \<le> 32" and "sum_list (map (\<lambda>t. length t + 1) ts) \<le> 3840"
  shows "\<exists>s'. MakeArgVector cmd first_arg a 32 (a + 256) 3840 s = Some (s', length ts, kSuccess)
    \<and> same_mapping s s' \<and> args_at s' a (a + 256) ts"
proof -
  have "args_at s a (a + 256) []" by (simp add: args_at_def)
  from push_all_run [OF assms(1,2) this, of ts] assms(3-5) show ?thesis
    unfolding MakeArgVector_words arg_offset_def by auto
qed

text \<open>The page that \<open>ExecuteFile\<close> sets up for the arguments; the line is \<open>cp a b\<close>.\<close>

lemma args_page:
  "\<exists>s. SetupPageMaps 0xfffffffffffff000 1 demo_paging = Some (s, kSuccess) \<and> user_space s \<and> user_block s 0xfffffffffffff000 4096"
proof -
  let ?a = "0xfffffffffffff000 :: u64"
  have h: "user_half ?a" "Part 0 ?a = 0" by (simp_all add: user_half_def Part_div)
  have "4 * 1 < card (free_frames (frames demo_paging))" using demo_enough by simp
  with SetupPageMaps_run [OF demo_user_space user_half_address(1) [OF h(1)], of 1] mapped_succeeds obtain s r where
    s: "SetupPageMaps ?a 1 demo_paging = Some (s, kSuccess)"
    "mapped 4 256 (pml4 demo_paging) (\<lambda>_. True) (page_number 4 ?a) 1 (512 ^ 4 - page_number 4 ?a) demo_paging (s, r, kSuccess)" by metis
  with setup_block [OF demo_user_space s(2) h(1), of 4096] h(2) show ?thesis by simp
qed

theorem MakeArgVector_correct_witness:
  "\<exists>s s'. SetupPageMaps 0xfffffffffffff000 1 demo_paging = Some (s, kSuccess)
     \<and> MakeArgVector [0x63, 0x70] (Some [0x20, 0x61, 0x20, 0x20, 0x62]) 0xfffffffffffff000 32 0xfffffffffffff100 3840 s = Some (s', 3, kSuccess)
     \<and> args_at s' 0xfffffffffffff000 0xfffffffffffff100 [[0x63, 0x70], [0x61], [0x62]]"
proof -
  from args_page obtain s where s: "SetupPageMaps 0xfffffffffffff000 1 demo_paging = Some (s, kSuccess)" "user_space s"
    "user_block s 0xfffffffffffff000 4096" by blast
  have "words [0x20, 0x61, 0x20, 0x20, 0x62] = [[0x61], [0x62]]" by code_simp
  with s MakeArgVector_correct [OF s(2,3) refl, of "[0x63, 0x70]" "Some [0x20, 0x61, 0x20, 0x20, 0x62]"] show ?thesis by auto
qed

text \<open>
  Only the start of an argument is checked against the buffer.  The page of the arguments is the last one of the
  address space: an argument that does not fit goes on at address 0, in the memory of the kernel, and the call
  still succeeds.
\<close>

lemma vmemcpy_append: "vmemcpy a (xs @ ys) s = Option.bind (vmemcpy a xs s) (vmemcpy (a + of_nat (length xs)) ys)"
  by (induction xs arbitrary: a s) (auto simp: add.assoc intro!: Option.bind_cong)

theorem MakeArgVector_overrun:
  assumes "3840 \<le> length cmd"
  shows "MakeArgVector cmd None 0xfffffffffffff000 32 0xfffffffffffff100 3840 s =
    Option.bind (vmemcpy 0xfffffffffffff000 (bytes64 0xfffffffffffff100) s) (\<lambda>s1.
    Option.bind (vmemcpy 0xfffffffffffff100 (take 3840 cmd) s1) (\<lambda>s2.
    map_option (\<lambda>s3. (s3, 1, kSuccess)) (vmemcpy 0 (drop 3840 cmd @ [0]) s2)))"
proof -
  have cut: "take 3840 cmd @ drop 3840 cmd @ [0] = cmd @ [0]" by (simp add: append_assoc [symmetric] del: append_assoc)
  moreover have "length (take 3840 cmd) = 3840" using assms by simp
  moreover have wrap: "(18446744073709551616 :: u64) = 0" by code_simp
  ultimately have "vstrcpy 0xfffffffffffff100 cmd s1
      = Option.bind (vmemcpy 0xfffffffffffff100 (take 3840 cmd) s1) (vmemcpy 0 (drop 3840 cmd @ [0]))" for s1
    unfolding vstrcpy_def using vmemcpy_append [of "0xfffffffffffff100" "take 3840 cmd" "drop 3840 cmd @ [0]" s1, unfolded cut] wrap by simp
  then show ?thesis by (simp add: MakeArgVector_def push_to_argv_def Let_def) (auto split: Option.bind_splits)
qed

end
