(* ===== verification/IdentityMap.thy ===== *)
theory IdentityMap
  imports VirtualMemory
begin

text \<open>
  \<open>SetupIdentityPageTable\<close> of \<^verbatim>\<open>kernel/paging.cpp\<close>: the mapping the kernel runs on.  The addresses of the three
  static arrays are arguments.
\<close>

section \<open>Operations\<close>

definition kPageDirectoryCount :: nat where [layout]: "kPageDirectoryCount = 64"
definition kPageSize4K :: u64 where [layout]: "kPageSize4K = 4096"
definition kPageSize2M :: u64 where [layout]: "kPageSize2M = 512 * kPageSize4K"
definition kPageSize1G :: u64 where [layout]: "kPageSize1G = 512 * kPageSize2M"

text \<open>One round of the outer loop: the entry of the directory, then the 512 entries in it.\<close>

definition directory_entry :: "nat \<Rightarrow> nat \<Rightarrow> u64" where
  "directory_entry i_pdpt i_pd = (of_nat i_pdpt * kPageSize1G + of_nat i_pd * kPageSize2M) OR 0x083"

definition setup_directory :: "nat \<Rightarrow> nat \<Rightarrow> nat \<Rightarrow> Paging \<Rightarrow> Paging" where
  "setup_directory pdp_table page_directory i_pdpt s =
     (let d = page_directory + 4096 * i_pdpt
      in fold (\<lambda>i_pd. set_map_entry d i_pd (directory_entry i_pdpt i_pd)) [0..<512]
           (set_map_entry pdp_table i_pdpt (of_nat d OR 0x003) s))"

definition SetupIdentityPageTable :: "nat \<Rightarrow> nat \<Rightarrow> nat \<Rightarrow> Paging \<Rightarrow> Paging" where
  "SetupIdentityPageTable pml4_table pdp_table page_directory s =
     (let s1 = set_map_entry pml4_table 0 (of_nat pdp_table OR 0x003) s;
          s2 = fold (setup_directory pdp_table page_directory) [0..<kPageDirectoryCount] s1
      in s2\<lparr>reg_cr3 := of_nat pml4_table\<rparr>)"

definition InitializePaging :: "nat \<Rightarrow> nat \<Rightarrow> nat \<Rightarrow> Paging \<Rightarrow> Paging" where
  "InitializePaging = SetupIdentityPageTable"

section \<open>Filling tables\<close>

text \<open>Tables are pages: two of them are apart when their addresses differ by a page at least.\<close>

definition apart :: "nat \<Rightarrow> nat \<Rightarrow> bool" where
  "apart p q \<longleftrightarrow> p + 4096 \<le> q \<or> q + 4096 \<le> p"

lemma map_entry_set_same:
  "map_entry (phys (set_map_entry p i e s)) p k = (if k = i then e else map_entry (phys s) p k)"
  by (cases "k < i") (auto simp: map_entry_def set_map_entry_def le64_put64_other)

lemma map_entry_set_apart:
  "apart p q \<Longrightarrow> i < 512 \<Longrightarrow> k < 512 \<Longrightarrow> map_entry (phys (set_map_entry p i e s)) q k = map_entry (phys s) q k"
  by (auto simp: map_entry_def set_map_entry_def apart_def intro!: le64_put64_other)

lemma fill_table:
  "map_entry (phys (fold (\<lambda>j. set_map_entry p j (f j)) [0..<n] s)) p k = (if k < n then f k else map_entry (phys s) p k)"
  by (induction n) (auto simp: map_entry_set_same)

lemma fill_table_apart:
  "apart p q \<Longrightarrow> n \<le> 512 \<Longrightarrow> k < 512 \<Longrightarrow> map_entry (phys (fold (\<lambda>j. set_map_entry p j (f j)) [0..<n] s)) q k = map_entry (phys s) q k"
  by (induction n) (auto simp: map_entry_set_apart)

lemma setup_directory_entries:
  assumes "\<forall>i<64. apart (pd + 4096 * i) pdp" and "i < 64" "k < 512"
  shows "map_entry (phys (setup_directory pdp pd i s)) pdp k = (if k = i then of_nat (pd + 4096 * i) OR 0x003 else map_entry (phys s) pdp k)"
    and "map_entry (phys (setup_directory pdp pd i s)) (pd + 4096 * i) k = directory_entry i k"
    and "apart (pd + 4096 * i) q \<Longrightarrow> apart pdp q \<Longrightarrow> map_entry (phys (setup_directory pdp pd i s)) q k = map_entry (phys s) q k"
  using assms by (simp_all add: setup_directory_def Let_def fill_table fill_table_apart map_entry_set_same map_entry_set_apart)

lemma setup_directories:
  assumes pdp: "\<forall>i<64. apart (pd + 4096 * i) pdp" and n: "n \<le> 64" and k: "k < 512"
  shows "map_entry (phys (fold (setup_directory pdp pd) [0..<n] s)) pdp k
           = (if k < n then of_nat (pd + 4096 * k) OR 0x003 else map_entry (phys s) pdp k)
       \<and> (\<forall>i<n. map_entry (phys (fold (setup_directory pdp pd) [0..<n] s)) (pd + 4096 * i) k = directory_entry i k)
       \<and> (\<forall>q. (\<forall>i<64. apart (pd + 4096 * i) q) \<longrightarrow> apart pdp q
            \<longrightarrow> map_entry (phys (fold (setup_directory pdp pd) [0..<n] s)) q k = map_entry (phys s) q k)"
  using n
proof (induction n)
  case (Suc n)
  let ?s = "fold (setup_directory pdp pd) [0..<n] s"
  have nn: "n < 64" using Suc.prems by simp
  note one = setup_directory_entries [OF pdp nn k, where s = ?s]
  have "map_entry (phys (setup_directory pdp pd n ?s)) (pd + 4096 * i) k = map_entry (phys ?s) (pd + 4096 * i) k" if "i < n" for i
  proof -
    have "apart (pd + 4096 * n) (pd + 4096 * i)" "apart pdp (pd + 4096 * i)"
      using that nn pdp [rule_format, of i] by (auto simp: apart_def)
    then show ?thesis by (rule one(3))
  qed
  with Suc one nn show ?case by (auto simp: less_Suc_eq)
qed simp

section \<open>Entries\<close>

lemma entry_number:
  assumes q: "q < 2 ^ 40" and f: "f < 4096"
  shows "unat ((of_nat (4096 * q) OR of_nat f) :: u64) = 4096 * q + f"
    and "ptr (of_nat (4096 * q) OR of_nat f) = 4096 * q"
proof -
  have "(4096 * q) OR f = 4096 * q + f"
  proof (rule disjunctive_add [symmetric])
    have "take_bit 12 f = f" using f by (simp add: take_bit_nat_eq_self)
    then have "\<not> bit f k" if "k \<ge> 12" for k using bit_take_bit_iff [of 12 f k] that by simp
    moreover have "bit (4096 * q) k \<Longrightarrow> k \<ge> 12" for k using bit_push_bit_iff_nat [of 12 q k] by (simp add: push_bit_eq_mult mult.commute)
    ultimately show "\<not> bit (4096 * q) k \<or> \<not> bit f k" for k by blast
  qed
  then have e: "(of_nat (4096 * q) OR of_nat f :: u64) = of_nat (4096 * q + f)" by (simp only: of_nat_or_eq [symmetric])
  have less: "4096 * q + f < 2 ^ 64" using q f by simp
  show u: "unat ((of_nat (4096 * q) OR of_nat f) :: u64) = 4096 * q + f"
    unfolding e by (rule unat_of_nat_u64 [OF less])
  have "unat (get_field 12 40 ((of_nat (4096 * q) OR of_nat f) :: u64)) = q"
    unfolding unat_get_field u using q f by simp
  then show "ptr (of_nat (4096 * q) OR of_nat f) = 4096 * q"
    using q by (simp add: Pointer_def push_bit_eq_mult unat_word_ariths(2) mult.commute)
qed

lemma present_number: "present e \<longleftrightarrow> odd (unat e)" and huge_page_number: "huge_page e \<longleftrightarrow> odd (unat e div 128)"
proof -
  have one: "(w = 1) = (unat w = 1)" for w :: u64 by (metis unsigned_1 unsigned_word_eqI)
  show "present e \<longleftrightarrow> odd (unat e)" "huge_page e \<longleftrightarrow> odd (unat e div 128)"
    unfolding present_def huge_page_def one unat_get_field by (simp_all add: odd_iff_mod_2_eq_one)
qed

lemma flag_bit: "(4096 * q + f) div 128 = 32 * q + f div (128 :: nat)"
  using div_mult_self3 [of 128 f "32 * q"] by (simp add: add.commute)

lemma table_entry:
  assumes "p mod 4096 = 0" "p < 2 ^ 52"
  shows "present (of_nat p OR 0x003)" "\<not> huge_page (of_nat p OR 0x003)" "ptr (of_nat p OR 0x003) = p"
proof -
  from assms obtain q where p: "p = 4096 * q" "q < 2 ^ 40" by auto
  have "(of_nat p OR 0x003 :: u64) = of_nat (4096 * q) OR of_nat 3" by (simp add: p)
  with entry_number [OF p(2), where f = 3] p(1)
  show "present (of_nat p OR 0x003)" "\<not> huge_page (of_nat p OR 0x003)" "ptr (of_nat p OR 0x003) = p"
    by (auto simp: present_number huge_page_number flag_bit)
qed

lemma large_page_entry:
  assumes "i < 64" "j < 512"
  shows "present (directory_entry i j)" "huge_page (directory_entry i j)"
    "ptr (directory_entry i j) div (4096 * 512) = 512 * i + j"
proof -
  define q where "q = 512 * (512 * i + j)"
  have q: "q < 2 ^ 40" using assms by (simp add: q_def)
  have "directory_entry i j = of_nat (4096 * q) OR of_nat 0x83"
    by (simp add: q_def directory_entry_def layout algebra_simps)
  with entry_number [OF q, where f = "0x83"]
  have e: "unat (directory_entry i j) = 4096 * q + 131" "ptr (directory_entry i j) = 4096 * q" by simp_all
  then show "present (directory_entry i j)" "huge_page (directory_entry i j)"
    by (simp_all add: present_number huge_page_number flag_bit)
  have "4096 * q div (4096 * 512) = q div 512" by (simp add: div_mult2_eq)
  with e show "ptr (directory_entry i j) div (4096 * 512) = 512 * i + j" by (simp add: q_def)
qed

section \<open>The identity mapping\<close>

text \<open>Three page-aligned static areas that do not overlap, zero before the start as static arrays are.\<close>

definition static_tables :: "nat \<Rightarrow> nat \<Rightarrow> nat \<Rightarrow> Paging \<Rightarrow> bool" where
  "static_tables p4 p3 pd s \<longleftrightarrow>
     p4 mod 4096 = 0 \<and> p3 mod 4096 = 0 \<and> pd mod 4096 = 0
     \<and> p4 + 4096 \<le> 2 ^ 52 \<and> p3 + 4096 \<le> 2 ^ 52 \<and> pd + 64 * 4096 \<le> 2 ^ 52
     \<and> apart p4 p3 \<and> (p4 + 4096 \<le> pd \<or> pd + 64 * 4096 \<le> p4) \<and> (p3 + 4096 \<le> pd \<or> pd + 64 * 4096 \<le> p3)
     \<and> (\<forall>k<512. map_entry (phys s) p4 k = 0 \<and> map_entry (phys s) p3 k = 0)"

lemma identity_tables:
  assumes st: "static_tables p4 p3 pd s" and k: "k < 512"
  defines "m \<equiv> phys (InitializePaging p4 p3 pd s)"
  shows "map_entry m p4 k = (if k = 0 then of_nat p3 OR 3 else 0)"
    and "map_entry m p3 k = (if k < 64 then of_nat (pd + 4096 * k) OR 3 else 0)"
    and "i < 64 \<Longrightarrow> map_entry m (pd + 4096 * i) k = directory_entry i k"
proof -
  have ap: "\<forall>i<64. apart (pd + 4096 * i) p3" "\<forall>i<64. apart (pd + 4096 * i) p4" "apart p3 p4" "apart p4 p3"
    using st by (auto simp: static_tables_def apart_def)
  let ?s = "set_map_entry p4 0 (of_nat p3 OR 3) s"
  have m: "m = phys (fold (setup_directory p3 pd) [0..<64] ?s)"
    by (simp add: m_def InitializePaging_def SetupIdentityPageTable_def Let_def layout)
  note all = setup_directories [OF ap(1) order.refl k, of ?s, folded m]
  have z: "map_entry (phys s) p4 k = 0" "map_entry (phys s) p3 k = 0" using st k by (simp_all add: static_tables_def)
  show "map_entry m p4 k = (if k = 0 then of_nat p3 OR 3 else 0)" using all ap z by (simp add: map_entry_set_same)
  show "map_entry m p3 k = (if k < 64 then of_nat (pd + 4096 * k) OR 3 else 0)"
    using all z k map_entry_set_apart [OF ap(4), of 0 k] by simp
  show "i < 64 \<Longrightarrow> map_entry m (pd + 4096 * i) k = directory_entry i k" using all by blast
qed

lemma linear_parts:
  "unat a mod 2 ^ 48 = ((Part 4 a * 512 + Part 3 a) * 512 + Part 2 a) * 2 ^ 21 + page_number 1 a * 4096 + Part 0 a"
proof -
  have "unat a mod (4096 * 512 ^ 4) = 4096 * (unat a div 4096 mod 512 ^ 4) + unat a mod 4096" by (rule mod_mult2_eq)
  also have "unat a div 4096 mod 512 ^ 4 = page_number 4 a" by (simp add: page_number_div)
  also have "page_number 4 a = ((Part 4 a * 512 + Part 3 a) * 512 + Part 2 a) * 512 + page_number 1 a"
  proof -
    have "page_number 2 a = Part 2 a * 512 + page_number 1 a" by (simp add: numeral_2_eq_2)
    then show ?thesis using page_number.simps(2) [of 3 a] page_number.simps(2) [of 2 a] by simp
  qed
  finally show ?thesis by (simp add: Part_div)
qed

lemma translate_table:
  "map_entry m p (Part (Suc l) a) = e \<Longrightarrow> present e \<Longrightarrow> \<not> huge_page e \<Longrightarrow> translate_from m (Suc l) p a = translate_from m l (ptr e) a"
  by (simp add: Let_def)

lemma translate_large:
  "map_entry m p (Part 2 a) = e \<Longrightarrow> present e \<Longrightarrow> huge_page e
    \<Longrightarrow> translate_from m 2 p a = Some (ptr e div (4096 * 512) * (4096 * 512) + page_number 1 a * 4096 + Part 0 a)"
  by (simp add: numeral_2_eq_2 Let_def)

lemma translate_absent: "map_entry m p (Part (Suc l) a) = 0 \<Longrightarrow> translate_from m (Suc l) p a = None"
  by (simp add: Let_def present_number)

section \<open>Properties\<close>

text \<open>
  After \<open>InitializePaging\<close> the processor maps every linear address below 64 GiB to the same physical
  address and no other canonical address at all.
\<close>

theorem identity_mapping:
  assumes st: "static_tables p4 p3 pd s"
  shows "translate (InitializePaging p4 p3 pd s) a = (if unat a mod 2 ^ 48 < 64 * 2 ^ 30 then Some (unat a mod 2 ^ 48) else None)"
proof -
  let ?s = "InitializePaging p4 p3 pd s"
  note tables = identity_tables [OF st]
  have parts: "Part 4 a < 512" "Part 3 a < 512" "Part 2 a < 512" "page_number 1 a < 512" "Part 0 a < 4096"
    using Part_less [of _ a] by (simp_all add: Part_div)
  have bounds: "p4 < 2 ^ 52" "p3 < 2 ^ 52" "p4 mod 4096 = 0" "p3 mod 4096 = 0" using st by (simp_all add: static_tables_def)
  have np: "\<not> present 0" by (simp add: present_number)
  have "pml4 ?s = p4" using bounds unfolding pml4_def
    by (simp add: InitializePaging_def SetupIdentityPageTable_def Let_def unat_of_nat_u64)
  then have t: "translate ?s a = translate_from (phys ?s) 4 p4 a" by (simp add: translate_def)
  have in4: "translate_from (phys ?s) 4 p4 a = translate_from (phys ?s) 3 p3 a" if "Part 4 a = 0"
    using translate_table [of "phys ?s" p4 3 a "of_nat p3 OR 3"] tables(1) [OF parts(1)] table_entry [OF bounds(4,2)] that by simp
  show ?thesis
  proof (cases "Part 4 a = 0 \<and> Part 3 a < 64")
    case True
    let ?d = "pd + 4096 * Part 3 a"
    have d: "?d mod 4096 = 0" "?d < 2 ^ 52" using st True by (auto simp: static_tables_def)
    have "translate_from (phys ?s) 3 p3 a = translate_from (phys ?s) 2 ?d a"
      using translate_table [of "phys ?s" p3 2 a "of_nat ?d OR 3"] tables(2) [OF parts(2)] table_entry [OF d] True by simp
    also have "\<dots> = Some ((512 * Part 3 a + Part 2 a) * (4096 * 512) + page_number 1 a * 4096 + Part 0 a)"
      using True parts(3) translate_large [OF tables(3) [OF parts(3)]] large_page_entry [of "Part 3 a" "Part 2 a"] by simp
    finally show ?thesis using True parts unfolding t linear_parts by (simp add: in4)
  next
    case False
    have none: "translate_from (phys ?s) 4 p4 a = None"
    proof (cases "Part 4 a = 0")
      case True
      with False show ?thesis
        using translate_absent [of "phys ?s" p3 2 a] tables(2) [OF parts(2)] by (simp add: in4)
    next
      case False
      then show ?thesis using translate_absent [of "phys ?s" p4 3 a] tables(1) [OF parts(1)] by simp
    qed
    have "64 * 2 ^ 30 \<le> unat a mod 2 ^ 48" unfolding linear_parts using False by (cases "Part 4 a = 0") simp_all
    with none show ?thesis unfolding t by simp
  qed
qed

text \<open>Tables at 0x100000, 0x101000 and 0x102000 of a zeroed memory.\<close>

theorem identity_mapping_witness:
  "let s = demo_paging\<lparr>phys := (\<lambda>_. 0)\<rparr>; s' = InitializePaging 0x100000 0x101000 0x102000 s
   in translate s' 0x123456789 = Some 0x123456789 \<and> translate s' 0x1000000000 = None"
proof -
  let ?s = "demo_paging\<lparr>phys := (\<lambda>_. 0)\<rparr>"
  have "static_tables 0x100000 0x101000 0x102000 ?s" by (simp add: static_tables_def apart_def map_entry_def le64_zero)
  from identity_mapping [OF this, of "0x123456789"] identity_mapping [OF this, of "0x1000000000"] show ?thesis by simp
qed

end
