(* ===== verification/Pipes.thy ===== *)
theory Pipes
  imports Scheduler
begin

text \<open>
  \<open>PipeDescriptor\<close> of \<^verbatim>\<open>kernel/terminal.hpp\<close> and \<^verbatim>\<open>kernel/terminal.cpp\<close>: a byte stream to the task of a
  subcommand.  The writer sends the bytes in messages of at most 16 bytes to the reader's task, an empty message
  marks the end; the reader keeps the rest of a message it did not use up.
\<close>

section \<open>Byte streams\<close>

text \<open>A client that writes a list of blocks, and one that reads until it gets nothing, at most \<open>k\<close> times.\<close>

fun write_blocks :: "('b list \<Rightarrow> 's \<Rightarrow> 's option) \<Rightarrow> 'b list list \<Rightarrow> 's \<Rightarrow> 's option" where
  "write_blocks push [] s = Some s"
| "write_blocks push (bs # bss) s = Option.bind (push bs s) (write_blocks push bss)"

fun drain :: "(nat \<Rightarrow> 's \<Rightarrow> ('s \<times> 'b list option) option) \<Rightarrow> nat \<Rightarrow> nat \<Rightarrow> 's \<Rightarrow> ('s \<times> 'b list) option" where
  "drain pull 0 n s = None"
| "drain pull (Suc k) n s =
     (case pull n s of
        Some (s', Some []) \<Rightarrow> Some (s', [])
      | Some (s', Some bs) \<Rightarrow> map_option (\<lambda>(s'', bs'). (s'', bs @ bs')) (drain pull k n s')
      | _ \<Rightarrow> None)"

text \<open>
  What the two ends of a pipe rely on.  A read may return fewer bytes than asked for, but none only at the end;
  the laws say nothing of a read from an empty stream that is still open, which waits.
\<close>

locale byte_stream =
  fixes push :: "'b list \<Rightarrow> 's \<Rightarrow> 's option"
    and finish :: "'s \<Rightarrow> 's option"
    and pull :: "nat \<Rightarrow> 's \<Rightarrow> ('s \<times> 'b list option) option"
    and content :: "'s \<Rightarrow> 'b list"
    and ended :: "'s \<Rightarrow> bool"
    and ok :: "'s \<Rightarrow> bool"
  assumes write_appends: "ok s \<Longrightarrow> \<not> ended s \<Longrightarrow>
      \<exists>s'. push bs s = Some s' \<and> ok s' \<and> \<not> ended s' \<and> content s' = content s @ bs"
    and finish_ends: "ok s \<Longrightarrow> \<not> ended s \<Longrightarrow> \<exists>s'. finish s = Some s' \<and> ok s' \<and> ended s' \<and> content s' = content s"
    and read_some: "ok s \<Longrightarrow> content s \<noteq> [] \<Longrightarrow> 0 < n \<Longrightarrow>
      \<exists>s' bs. pull n s = Some (s', Some bs) \<and> ok s' \<and> ended s' = ended s \<and> bs \<noteq> [] \<and> length bs \<le> n \<and> content s = bs @ content s'"
    and read_end: "ok s \<Longrightarrow> content s = [] \<Longrightarrow> ended s \<Longrightarrow> 0 < n \<Longrightarrow>
      \<exists>s'. pull n s = Some (s', Some []) \<and> ok s' \<and> ended s' \<and> content s' = []"
begin

lemma write_blocks_appends:
  "ok s \<Longrightarrow> \<not> ended s \<Longrightarrow>
     \<exists>s'. write_blocks push bss s = Some s' \<and> ok s' \<and> \<not> ended s' \<and> content s' = content s @ concat bss"
proof (induction bss arbitrary: s)
  case (Cons bs bss)
  from write_appends [OF Cons.prems] obtain s1 where s1: "push bs s = Some s1" "ok s1" "\<not> ended s1" "content s1 = content s @ bs" by blast
  from Cons.IH [OF s1(2,3)] s1 show ?case by auto
qed simp

lemma drain_all:
  "ok s \<Longrightarrow> ended s \<Longrightarrow> 0 < n \<Longrightarrow> length (content s) < k \<Longrightarrow>
     \<exists>s'. drain pull k n s = Some (s', content s) \<and> ok s' \<and> ended s' \<and> content s' = []"
proof (induction k arbitrary: s)
  case (Suc k)
  show ?case
  proof (cases "content s = []")
    case True
    from read_end [OF Suc.prems(1) this Suc.prems(2,3)] True show ?thesis by auto
  next
    case False
    from read_some [OF Suc.prems(1) False Suc.prems(3)] obtain s1 bs where
      s1: "pull n s = Some (s1, Some bs)" "ok s1" "ended s1 = ended s" "bs \<noteq> []" "content s = bs @ content s1" by blast
    then have "length (content s1) < k" using Suc.prems(4) by (cases bs) auto
    with Suc.IH [OF s1(2)] s1 Suc.prems(2,3) obtain s2 where "drain pull k n s1 = Some (s2, content s1)" "ok s2" "ended s2" "content s2 = []" by auto
    with s1 show ?thesis by (cases bs) auto
  qed
qed simp

lemma write_finish_drain:
  assumes "ok s" "\<not> ended s" "0 < n"
  shows "\<exists>s1 s2 s3. write_blocks push bss s = Some s1 \<and> finish s1 = Some s2
    \<and> drain pull (Suc (length (content s @ concat bss))) n s2 = Some (s3, content s @ concat bss) \<and> ended s3 \<and> content s3 = []"
proof -
  from write_blocks_appends [OF assms(1,2)] obtain s1 where
    s1: "write_blocks push bss s = Some s1" "ok s1" "\<not> ended s1" "content s1 = content s @ concat bss" by blast
  from finish_ends [OF s1(2,3)] obtain s2 where s2: "finish s1 = Some s2" "ok s2" "ended s2" "content s2 = content s1" by blast
  from drain_all [OF s2(2,3) assms(3), of "Suc (length (content s2))"] s1 s2 show ?thesis by auto
qed

end

section \<open>The descriptor\<close>

record PipeDescriptor =
  pipe_task :: nat
  pdata :: "u8 list"
  plen :: nat
  closed :: bool

definition new_PipeDescriptor :: "nat \<Rightarrow> PipeDescriptor" where
  "new_PipeDescriptor task = \<lparr>pipe_task = task, pdata = replicate kPipeDataBytes 0, plen = 0, closed = False\<rparr>"

text \<open>\<open>memcpy\<close> of the bytes \<open>bs\<close> to the start of an array.\<close>

definition copy_in :: "u8 list \<Rightarrow> u8 list \<Rightarrow> u8 list" where
  "copy_in bs arr = bs @ drop (length bs) arr"

text \<open>\<open>data\<close> is the array of the message, which keeps what an earlier round left behind the copied bytes.\<close>

function pipe_write_loop :: "nat \<Rightarrow> u8 list \<Rightarrow> u8 list \<Rightarrow> nat \<Rightarrow> TaskManager \<Rightarrow> TaskManager option" where
  "pipe_write_loop task bufc data sent_bytes tm =
     (if sent_bytes < length bufc
      then let n = min (length bufc - sent_bytes) kPipeDataBytes;
               data' = copy_in (take n (drop sent_bytes bufc)) data
           in Option.bind (Task_SendMessage task (kPipe data' (of_nat n)) tm)
                (pipe_write_loop task bufc data' (sent_bytes + n))
      else Some tm)"
  by pat_completeness auto
termination
  by (relation "measure (\<lambda>(_, bufc, _, sent, _). length bufc - sent)") (auto simp: layout)

declare pipe_write_loop.simps [simp del]

definition Pipe_Write :: "PipeDescriptor \<Rightarrow> u8 list \<Rightarrow> TaskManager \<Rightarrow> (TaskManager \<times> nat) option" where
  "Pipe_Write fd buf tm =
     map_option (\<lambda>tm'. (tm', length buf)) (pipe_write_loop (pipe_task fd) buf (replicate kPipeDataBytes 0) 0 tm)"

definition FinishWrite :: "PipeDescriptor \<Rightarrow> TaskManager \<Rightarrow> TaskManager option" where
  "FinishWrite fd tm = Task_SendMessage (pipe_task fd) (kPipe (replicate kPipeDataBytes 0) 0) tm"

text \<open>
  The loop of \<open>Read\<close>: without a message the task goes to sleep, and the call goes on when it is scheduled
  again; the result \<open>None\<close> for the bytes marks this.
\<close>

partial_function (option) pipe_read_loop ::
  "nat \<Rightarrow> PipeDescriptor \<Rightarrow> TaskManager \<Rightarrow> TaskContext \<Rightarrow> (PipeDescriptor \<times> (TaskManager \<times> TaskContext) \<times> u8 list option) option" where
  "pipe_read_loop len fd tm cpu =
     (case ReceiveMessage (pipe_task fd) tm of
        None \<Rightarrow> None
      | Some (tm1, None) \<Rightarrow> map_option (\<lambda>s. (fd, s, None)) (Sleep (pipe_task fd) (tm1, cpu))
      | Some (tm1, Some (kPipe data n)) \<Rightarrow>
          if n = 0 then Some (fd\<lparr>closed := True\<rparr>, (tm1, cpu), Some [])
          else let copy_bytes = min (unat n) len;
                   rest = unat n - copy_bytes
               in Some (fd\<lparr>plen := rest, pdata := copy_in (take rest (drop copy_bytes data)) (pdata fd)\<rparr>,
                        (tm1, cpu), Some (take copy_bytes data))
      | Some (tm1, Some _) \<Rightarrow> pipe_read_loop len fd tm1 cpu)"

definition Pipe_Read ::
  "nat \<Rightarrow> PipeDescriptor \<Rightarrow> TaskManager \<times> TaskContext \<Rightarrow> (PipeDescriptor \<times> (TaskManager \<times> TaskContext) \<times> u8 list option) option" where
  "Pipe_Read len fd = (\<lambda>(tm, cpu).
     if 0 < plen fd
     then let copy_bytes = min (plen fd) len;
              rest = plen fd - copy_bytes
          in Some (fd\<lparr>plen := rest, pdata := copy_in (take rest (drop copy_bytes (pdata fd))) (pdata fd)\<rparr>,
                   (tm, cpu), Some (take copy_bytes (pdata fd)))
     else if closed fd then Some (fd, (tm, cpu), Some [])
     else pipe_read_loop len fd tm cpu)"

section \<open>The stream in the message queue\<close>

fun queue_bytes :: "Message list \<Rightarrow> u8 list" where
  "queue_bytes [] = []"
| "queue_bytes (kPipe data n # ms) = (if n = 0 then [] else take (unat n) data @ queue_bytes ms)"
| "queue_bytes (_ # ms) = queue_bytes ms"

fun queue_ended :: "Message list \<Rightarrow> bool" where
  "queue_ended [] = False"
| "queue_ended (kPipe data n # ms) = (n = 0 \<or> queue_ended ms)"
| "queue_ended (_ # ms) = queue_ended ms"

fun message_ok :: "Message \<Rightarrow> bool" where
  "message_ok (kPipe data n) = (length data = kPipeDataBytes \<and> unat n \<le> kPipeDataBytes)"
| "message_ok _ = True"

type_synonym pipe_state = "PipeDescriptor \<times> TaskManager \<times> TaskContext"

definition reader_queue :: "pipe_state \<Rightarrow> Message list" where
  "reader_queue = (\<lambda>(fd, tm, cpu). case find_task tm (pipe_task fd) of None \<Rightarrow> [] | Some t \<Rightarrow> msgs t)"

definition pipe_content :: "pipe_state \<Rightarrow> u8 list" where
  "pipe_content s = (case s of (fd, tm, cpu) \<Rightarrow> take (plen fd) (pdata fd) @ (if closed fd then [] else queue_bytes (reader_queue s)))"

definition pipe_ended :: "pipe_state \<Rightarrow> bool" where
  "pipe_ended s \<longleftrightarrow> closed (fst s) \<or> queue_ended (reader_queue s)"

definition pipe_ok :: "pipe_state \<Rightarrow> bool" where
  "pipe_ok s \<longleftrightarrow> (case s of (fd, tm, cpu) \<Rightarrow>
     sched_inv tm \<and> find_task tm (pipe_task fd) \<noteq> None \<and> length (pdata fd) = kPipeDataBytes \<and> plen fd \<le> kPipeDataBytes
     \<and> list_all message_ok (reader_queue s))"

definition pipe_write :: "u8 list \<Rightarrow> pipe_state \<Rightarrow> pipe_state option" where
  "pipe_write bs = (\<lambda>(fd, tm, cpu). map_option (\<lambda>(tm', _). (fd, tm', cpu)) (Pipe_Write fd bs tm))"

definition pipe_finish :: "pipe_state \<Rightarrow> pipe_state option" where
  "pipe_finish = (\<lambda>(fd, tm, cpu). map_option (\<lambda>tm'. (fd, tm', cpu)) (FinishWrite fd tm))"

definition pipe_read :: "nat \<Rightarrow> pipe_state \<Rightarrow> (pipe_state \<times> u8 list option) option" where
  "pipe_read n = (\<lambda>(fd, tm, cpu). map_option (\<lambda>(fd', (tm', cpu'), r). ((fd', tm', cpu'), r)) (Pipe_Read n fd (tm, cpu)))"

lemma queue_append:
  "\<not> queue_ended ms \<Longrightarrow> queue_bytes (ms @ ms') = queue_bytes ms @ queue_bytes ms' \<and> queue_ended (ms @ ms') = queue_ended ms'"
  by (induction ms rule: queue_bytes.induct) auto

lemma pipe_SendMessage_run:
  assumes "sched_inv tm" "find_task tm i = Some t"
  shows "\<exists>tm'. Task_SendMessage i m tm = Some tm' \<and> sched_inv tm' \<and> find_task tm' i = Some (t\<lparr>msgs := msgs t @ [m], running := True\<rparr>)"
  using SendMessage_run [OF assms, of m] assms(2) by (auto simp: SendMessage_def)

lemma small_u8: "0 < k \<Longrightarrow> k \<le> 16 \<Longrightarrow> unat (of_nat k :: u8) = k \<and> (of_nat k :: u8) \<noteq> 0"
proof -
  assume k: "0 < k" "k \<le> 16"
  then have "unat (of_nat k :: u8) = k" by (simp add: unat_of_nat take_bit_nat_eq_self)
  with k(1) show ?thesis by auto
qed

text \<open>What a loop of writes leaves in the queue of the reader.\<close>

lemma pipe_write_loop_run:
  assumes "sched_inv tm" "find_task tm i = Some t" "length data = kPipeDataBytes"
  shows "\<exists>tm' t' ms. pipe_write_loop i bs data sent tm = Some tm' \<and> sched_inv tm' \<and> find_task tm' i = Some t'
    \<and> msgs t' = msgs t @ ms \<and> list_all message_ok ms \<and> queue_bytes ms = drop sent bs \<and> \<not> queue_ended ms"
  using assms
proof (induction "length bs - sent" arbitrary: sent data tm t rule: less_induct)
  case less
  show ?case
  proof (cases "sent < length bs")
    case False
    then show ?thesis using less.prems by (simp add: pipe_write_loop.simps)
  next
    case True
    let ?n = "min (length bs - sent) kPipeDataBytes"
    let ?data = "copy_in (take ?n (drop sent bs)) data"
    have n: "0 < ?n" "?n \<le> 16" "?n \<le> length bs - sent" using True by (simp_all add: layout)
    then have u: "unat (of_nat ?n :: u8) = ?n" "(of_nat ?n :: u8) \<noteq> 0" using small_u8 by blast+
    have d: "length ?data = kPipeDataBytes" "take ?n ?data = take ?n (drop sent bs)"
      using less.prems(3) by (simp_all add: copy_in_def)
    from pipe_SendMessage_run [OF less.prems(1,2), of "kPipe ?data (of_nat ?n)"] obtain tm1 where
      s1: "Task_SendMessage i (kPipe ?data (of_nat ?n)) tm = Some tm1" "sched_inv tm1"
        "find_task tm1 i = Some (t\<lparr>msgs := msgs t @ [kPipe ?data (of_nat ?n)], running := True\<rparr>)" by blast
    have "\<And>k. 0 < k \<Longrightarrow> length bs - (sent + k) < length bs - sent" using True by simp
    from less.hyps [OF this [OF n(1)] s1(2,3) d(1)] obtain tm' t' ms where
      r: "pipe_write_loop i bs ?data (sent + ?n) tm1 = Some tm'" "sched_inv tm'" "find_task tm' i = Some t'"
        "msgs t' = msgs t @ kPipe ?data (of_nat ?n) # ms" "list_all message_ok ms" "queue_bytes ms = drop (sent + ?n) bs" "\<not> queue_ended ms"
      by auto
    have "pipe_write_loop i bs data sent tm = Some tm'"
      using True s1(1) r(1) by (simp add: pipe_write_loop.simps [of i bs data] Let_def)
    moreover have "take ?n (drop sent bs) @ drop (sent + ?n) bs = drop sent bs" by (metis append_take_drop_id drop_drop add.commute)
    ultimately show ?thesis
      using r u d n(2) by (intro exI [of _ tm'] exI [of _ t'] exI [of _ "kPipe ?data (of_nat ?n) # ms"]) (simp add: layout)
  qed
qed

text \<open>A read takes its bytes from the front of the stream.\<close>

definition read_outcome :: "nat \<Rightarrow> pipe_state \<Rightarrow> pipe_state \<times> u8 list \<Rightarrow> bool" where
  "read_outcome n s = (\<lambda>(s', bs). pipe_ok s' \<and> pipe_ended s' = pipe_ended s \<and> pipe_content s = bs @ pipe_content s'
     \<and> length bs \<le> n \<and> (bs = [] \<longrightarrow> pipe_content s = []))"

lemma take_copy_in: "length bs = n \<Longrightarrow> take n (copy_in bs arr) = bs"
  by (simp add: copy_in_def)

lemma length_copy_in: "length bs \<le> length arr \<Longrightarrow> length (copy_in bs arr) = length arr"
  by (simp add: copy_in_def)

lemma message_outcome:
  assumes inv: "sched_inv tm" "find_task tm (pipe_task fd) = Some t" and q: "msgs t = kPipe data k # ms" "list_all message_ok (msgs t)"
    and fd: "plen fd = 0" "\<not> closed fd" "length (pdata fd) = kPipeDataBytes" and k: "k \<noteq> 0" and n: "0 < n"
    and tm1: "sched_inv tm1" "find_task tm1 (pipe_task fd) = Some (t\<lparr>msgs := ms\<rparr>)"
  shows "read_outcome n (fd, tm, cpu)
    ((fd\<lparr>plen := unat k - min (unat k) n,
         pdata := copy_in (take (unat k - min (unat k) n) (drop (min (unat k) n) data)) (pdata fd)\<rparr>, tm1, cpu), take (min (unat k) n) data)"
proof -
  define c where "c = min (unat k) n"
  from q have d: "length data = kPipeDataBytes" "unat k \<le> kPipeDataBytes" "list_all message_ok ms" by auto
  have k0: "0 < unat k" using k by (simp add: word_gt_0_no unat_gt_0)
  with n have c: "0 < c" "c \<le> unat k" "c \<le> n" by (simp_all add: c_def)
  have "take (unat k) data = take c data @ take (unat k - c) (drop c data)" using c(2) by (metis le_add_diff_inverse take_add)
  then show ?thesis
    unfolding c_def [symmetric] using inv tm1 q fd k d c
    by (auto simp: read_outcome_def pipe_ok_def pipe_ended_def pipe_content_def reader_queue_def take_copy_in length_copy_in layout)
qed

lemma pipe_read_loop_run:
  assumes "sched_inv tm" "find_task tm (pipe_task fd) = Some t" "list_all message_ok (msgs t)"
    and fd: "plen fd = 0" "\<not> closed fd" "length (pdata fd) = kPipeDataBytes" and n: "0 < n"
    and "queue_bytes (msgs t) \<noteq> [] \<or> queue_ended (msgs t)"
  shows "\<exists>fd' tm' bs. pipe_read_loop n fd tm cpu = Some (fd', (tm', cpu), Some bs) \<and> read_outcome n (fd, tm, cpu) ((fd', tm', cpu), bs)"
  using assms(1-3,8)
proof (induction "msgs t" arbitrary: tm t)
  case (Cons m ms)
  note ms = Cons.hyps(2) [symmetric]
  from ReceiveMessage_run [OF Cons.prems(1,2)] ms obtain tm1 where
    r: "ReceiveMessage (pipe_task fd) tm = Some (tm1, Some m)" "sched_inv tm1" "find_task tm1 (pipe_task fd) = Some (t\<lparr>msgs := ms\<rparr>)" by auto
  have skip: ?case if m: "\<And>data k. m \<noteq> kPipe data k"
  proof -
    have q: "queue_bytes (msgs t) = queue_bytes ms" "queue_ended (msgs t) = queue_ended ms" using ms m by (cases m; simp)+
    have "pipe_read_loop n fd tm cpu = pipe_read_loop n fd tm1 cpu"
      using r(1) m [of "pipe_data m" "pipe_len m"] by (subst pipe_read_loop.simps) (cases m; simp)
    moreover have "read_outcome n (fd, tm, cpu) = read_outcome n (fd, tm1, cpu)"
      using q r(3) Cons.prems(2) by (simp add: read_outcome_def pipe_content_def pipe_ended_def reader_queue_def fun_eq_iff)
    ultimately show ?case
      using Cons.hyps(1) [of "t\<lparr>msgs := ms\<rparr>" tm1] r Cons.prems(3,4) ms q by simp
  qed
  show ?case
  proof (cases m)
    case (kPipe data k)
    show ?thesis
    proof (cases "k = 0")
      case True
      have "pipe_read_loop n fd tm cpu = Some (fd\<lparr>closed := True\<rparr>, (tm1, cpu), Some [])"
        using r(1) kPipe True by (simp add: pipe_read_loop.simps)
      moreover have "read_outcome n (fd, tm, cpu) ((fd\<lparr>closed := True\<rparr>, tm1, cpu), [])"
        using r Cons.prems ms kPipe True fd by (simp add: read_outcome_def pipe_ok_def pipe_content_def pipe_ended_def reader_queue_def)
      ultimately show ?thesis by blast
    next
      case False
      have "pipe_read_loop n fd tm cpu = Some (fd\<lparr>plen := unat k - min (unat k) n,
         pdata := copy_in (take (unat k - min (unat k) n) (drop (min (unat k) n) data)) (pdata fd)\<rparr>, (tm1, cpu), Some (take (min (unat k) n) data))"
        using r(1) kPipe False by (subst pipe_read_loop.simps) (simp add: Let_def)
      with message_outcome [OF Cons.prems(1,2) ms [unfolded kPipe] Cons.prems(3) fd False n r(2,3), of cpu] show ?thesis by blast
    qed
  qed (use skip in simp_all)
qed simp

lemma Pipe_Read_run:
  assumes ok: "pipe_ok (fd, tm, cpu)" and n: "0 < n"
    and c: "pipe_content (fd, tm, cpu) \<noteq> [] \<or> pipe_ended (fd, tm, cpu)"
  shows "\<exists>fd' tm' bs. Pipe_Read n fd (tm, cpu) = Some (fd', (tm', cpu), Some bs) \<and> read_outcome n (fd, tm, cpu) ((fd', tm', cpu), bs)"
proof -
  from ok obtain t where t: "sched_inv tm" "find_task tm (pipe_task fd) = Some t" "list_all message_ok (msgs t)"
    and fd: "length (pdata fd) = kPipeDataBytes" "plen fd \<le> kPipeDataBytes"
    by (auto simp: pipe_ok_def reader_queue_def)
  have q: "reader_queue (fd, tm, cpu) = msgs t" using t(2) by (simp add: reader_queue_def)
  consider "0 < plen fd" | "plen fd = 0" "closed fd" | "plen fd = 0" "\<not> closed fd" by blast
  then show ?thesis
  proof cases
    case 1
    define c where "c = min (plen fd) n"
    with 1 n have c: "0 < c" "c \<le> plen fd" "c \<le> n" by simp_all
    have "take (plen fd) (pdata fd) = take c (pdata fd) @ take (plen fd - c) (drop c (pdata fd))" using c(2) by (metis le_add_diff_inverse take_add)
    then have "read_outcome n (fd, tm, cpu)
        ((fd\<lparr>plen := plen fd - c, pdata := copy_in (take (plen fd - c) (drop c (pdata fd))) (pdata fd)\<rparr>, tm, cpu), take c (pdata fd))"
      using ok fd c by (auto simp: read_outcome_def pipe_ok_def pipe_content_def pipe_ended_def reader_queue_def take_copy_in length_copy_in layout)
    then have ?thesis if "Pipe_Read n fd (tm, cpu) = Some (fd\<lparr>plen := plen fd - c, pdata := copy_in (take (plen fd - c) (drop c (pdata fd))) (pdata fd)\<rparr>, (tm, cpu), Some (take c (pdata fd)))"
      using that by blast
    with 1 c_def show ?thesis by (simp add: Pipe_Read_def Let_def)
  next
    case 2
    then have "Pipe_Read n fd (tm, cpu) = Some (fd, (tm, cpu), Some [])" by (simp add: Pipe_Read_def)
    moreover have "read_outcome n (fd, tm, cpu) ((fd, tm, cpu), [])" using ok 2 by (simp add: read_outcome_def pipe_content_def)
    ultimately show ?thesis by blast
  next
    case 3
    with c q have "queue_bytes (msgs t) \<noteq> [] \<or> queue_ended (msgs t)" by (simp add: pipe_content_def pipe_ended_def)
    from pipe_read_loop_run [OF t 3 fd(1) n this] 3 show ?thesis by (simp add: Pipe_Read_def)
  qed
qed

section \<open>Pipes are byte streams\<close>

lemma pipe_send_run:
  assumes ok: "pipe_ok (fd, tm, cpu)" and e: "\<not> pipe_ended (fd, tm, cpu)"
    and tm': "sched_inv tm'" "find_task tm' (pipe_task fd) = Some t'" "msgs t' = reader_queue (fd, tm, cpu) @ ms" "list_all message_ok ms"
  shows "pipe_ok (fd, tm', cpu)" "pipe_ended (fd, tm', cpu) = queue_ended ms" "pipe_content (fd, tm', cpu) = pipe_content (fd, tm, cpu) @ queue_bytes ms"
proof -
  have q: "reader_queue (fd, tm', cpu) = reader_queue (fd, tm, cpu) @ ms" using tm'(2,3) by (simp add: reader_queue_def)
  from e have n: "\<not> closed fd" "\<not> queue_ended (reader_queue (fd, tm, cpu))" by (simp_all add: pipe_ended_def)
  note A = queue_append [OF n(2), of ms]
  show "pipe_ok (fd, tm', cpu)" using ok tm' q by (simp add: pipe_ok_def)
  show "pipe_ended (fd, tm', cpu) = queue_ended ms" using n A q by (simp add: pipe_ended_def)
  show "pipe_content (fd, tm', cpu) = pipe_content (fd, tm, cpu) @ queue_bytes ms" using n A q by (simp add: pipe_content_def)
qed

interpretation pipe: byte_stream pipe_write pipe_finish pipe_read pipe_content pipe_ended pipe_ok
proof
  fix s :: pipe_state and bs :: "u8 list"
  assume ok: "pipe_ok s" and e: "\<not> pipe_ended s"
  obtain fd tm cpu where s: "s = (fd, tm, cpu)" by (cases s) auto
  from ok s obtain t where t: "sched_inv tm" "find_task tm (pipe_task fd) = Some t" by (auto simp: pipe_ok_def)
  then have q: "msgs t = reader_queue (fd, tm, cpu)" by (simp add: reader_queue_def)
  show "\<exists>s'. pipe_write bs s = Some s' \<and> pipe_ok s' \<and> \<not> pipe_ended s' \<and> pipe_content s' = pipe_content s @ bs"
  proof -
    from pipe_write_loop_run [OF t, of "replicate kPipeDataBytes 0" bs 0] obtain tm' t' ms where
      w: "pipe_write_loop (pipe_task fd) bs (replicate kPipeDataBytes 0) 0 tm = Some tm'"
      and r: "sched_inv tm'" "find_task tm' (pipe_task fd) = Some t'" "msgs t' = reader_queue (fd, tm, cpu) @ ms" "list_all message_ok ms"
        "queue_bytes ms = bs" "\<not> queue_ended ms" unfolding q by auto
    from pipe_send_run [OF ok [unfolded s] e [unfolded s] r(1-4)] w r(5,6) show ?thesis
      by (simp add: s pipe_write_def Pipe_Write_def)
  qed
  show "\<exists>s'. pipe_finish s = Some s' \<and> pipe_ok s' \<and> pipe_ended s' \<and> pipe_content s' = pipe_content s"
  proof -
    let ?m = "kPipe (replicate kPipeDataBytes 0) 0"
    from pipe_SendMessage_run [OF t, of ?m] obtain tm' where
      w: "Task_SendMessage (pipe_task fd) ?m tm = Some tm'" "sched_inv tm'"
        "find_task tm' (pipe_task fd) = Some (t\<lparr>msgs := msgs t @ [?m], running := True\<rparr>)" by blast
    from pipe_send_run [OF ok [unfolded s] e [unfolded s] w(2,3), of "[?m]"] w(1) q show ?thesis
      by (simp add: s pipe_finish_def FinishWrite_def)
  qed
next
  fix s :: pipe_state and n :: nat
  obtain fd tm cpu where s: "s = (fd, tm, cpu)" by (cases s) auto
  assume ok: "pipe_ok s" and c: "pipe_content s \<noteq> []" and n: "0 < n"
  with Pipe_Read_run [of fd tm cpu n] s show
    "\<exists>s' bs. pipe_read n s = Some (s', Some bs) \<and> pipe_ok s' \<and> pipe_ended s' = pipe_ended s \<and> bs \<noteq> [] \<and> length bs \<le> n
       \<and> pipe_content s = bs @ pipe_content s'"
    by (fastforce simp: pipe_read_def read_outcome_def)
next
  fix s :: pipe_state and n :: nat
  obtain fd tm cpu where s: "s = (fd, tm, cpu)" by (cases s) auto
  assume ok: "pipe_ok s" and c: "pipe_content s = []" and e: "pipe_ended s" and n: "0 < n"
  with Pipe_Read_run [of fd tm cpu n] s show "\<exists>s'. pipe_read n s = Some (s', Some []) \<and> pipe_ok s' \<and> pipe_ended s' \<and> pipe_content s' = []"
    by (fastforce simp: pipe_read_def read_outcome_def)
qed

section \<open>Properties\<close>

text \<open>
  C19. A pipe is a byte stream: whatever the writer writes, in blocks of any size, and then finishes, the reader
  gets byte by byte in the same order behind what was still in the pipe, with reads of any positive size, and
  then the end of the stream; other messages of the reader's queue are passed over.
\<close>

theorem pipe_stream:
  assumes "pipe_ok s" and "\<not> pipe_ended s" and "0 < n"
  shows "\<exists>s1 s2 s3. write_blocks pipe_write bss s = Some s1 \<and> pipe_finish s1 = Some s2
    \<and> drain pipe_read (Suc (length (pipe_content s @ concat bss))) n s2 = Some (s3, pipe_content s @ concat bss)
    \<and> pipe_ended s3 \<and> pipe_content s3 = []"
  using assms by (rule pipe.write_finish_drain)

theorem pipe_stream_witness:
  "\<exists>s1 s2 s3. write_blocks pipe_write [map of_nat [0..<40], [7, 8]] (new_PipeDescriptor 3, terminal_manager, blank_context) = Some s1
     \<and> pipe_finish s1 = Some s2 \<and> drain pipe_read 43 5 s2 = Some (s3, map of_nat [0..<40] @ [7, 8])"
proof -
  let ?s = "(new_PipeDescriptor 3, terminal_manager, blank_context)"
  obtain t where t: "find_task terminal_manager 3 = Some t" "msgs t = []"
    using terminal_manager_facts(2) by (auto simp: new_Task_def InitContext_def)
  have "sched_inv terminal_manager" using reachable_sched_inv [OF terminal_manager_reachable] by simp
  then have ok: "pipe_ok ?s" "\<not> pipe_ended ?s" "pipe_content ?s = []"
    using t by (simp_all add: pipe_ok_def pipe_ended_def pipe_content_def reader_queue_def new_PipeDescriptor_def)
  from pipe_stream [OF ok(1,2), of 5 "[map of_nat [0..<40], [7, 8]]"] ok(3) show ?thesis
    by (simp del: upt_rec_numeral write_blocks.simps drain.simps) blast
qed

end
