(* ===== verification/Ports.thy ===== *)
theory Ports
  imports Prelude
begin

text \<open>
  \<^verbatim>\<open>kernel/pic.cpp\<close> and the port instructions of \<^verbatim>\<open>kernel/asmfunc.asm\<close>: the interrupt controllers.  The
  model keeps the sequence of all port writes; what a port read returns is up to the device, so
  \<open>inb\<close> is a parameter that may depend on everything written before.
\<close>

section \<open>Port input and output\<close>

type_synonym io_trace = "(u16 \<times> u8) list"
type_synonym device = "io_trace \<Rightarrow> u16 \<Rightarrow> u8"

definition Outb :: "u16 \<Rightarrow> u8 \<Rightarrow> io_trace \<Rightarrow> io_trace" where
  "Outb port v io = io @ [(port, v)]"

definition Inb :: "device \<Rightarrow> u16 \<Rightarrow> io_trace \<Rightarrow> u8" where
  "Inb inb port io = inb io port"

section \<open>Interrupt controllers\<close>

definition kPic1Cmd :: u16 where [layout]: "kPic1Cmd = 0x20"
definition kPic1Data :: u16 where [layout]: "kPic1Data = 0x21"
definition kPic2Cmd :: u16 where [layout]: "kPic2Cmd = 0xA0"
definition kPic2Data :: u16 where [layout]: "kPic2Data = 0xA1"

definition NotifyEOI :: "u8 \<Rightarrow> io_trace \<Rightarrow> io_trace" where
  "NotifyEOI intno io =
     (let io1 = (if intno \<ge> 0x28 then Outb kPic2Cmd 0x20 io else io) in Outb kPic1Cmd 0x20 io1)"

definition DisablePIC :: "io_trace \<Rightarrow> io_trace" where
  "DisablePIC io = Outb kPic2Data 0xFF (Outb kPic1Data 0xFF io)"

text \<open>
  The port of an interrupt and its number there.  The shift \<open>1 << irqno\<close> is on \<open>int\<close>: 32 bits or more
  have no defined result.
\<close>

definition irq_line :: "u8 \<Rightarrow> u16 \<times> u8" where
  "irq_line intno =
     (let irqno = intno - 0x20 in if irqno < 8 then (kPic1Data, irqno) else (kPic2Data, irqno - 8))"

definition shift_int :: "u8 \<Rightarrow> u32 option" where
  "shift_int n = (if unat n < 32 then Some (push_bit (unat n) 1) else None)"

definition PICSetMask :: "device \<Rightarrow> u8 \<Rightarrow> io_trace \<Rightarrow> io_trace option" where
  "PICSetMask inb intno io =
     (let (port, irqno) = irq_line intno
      in map_option (\<lambda>b. Outb port (ucast (ucast (Inb inb port io) OR b)) io) (shift_int irqno))"

definition PICClearMask :: "device \<Rightarrow> u8 \<Rightarrow> io_trace \<Rightarrow> io_trace option" where
  "PICClearMask inb intno io =
     (let (port, irqno) = irq_line intno
      in map_option (\<lambda>b. Outb port (ucast (ucast (Inb inb port io) AND NOT b)) io) (shift_int irqno))"

definition InitializePIC :: "io_trace \<Rightarrow> io_trace" where
  "InitializePIC io = io @
     [(kPic1Cmd, 0x11), (kPic2Cmd, 0x11), (kPic1Data, 0x20), (kPic2Data, 0x28), (kPic1Data, 0x4), (kPic2Data, 0x2),
      (kPic1Data, 0x1), (kPic2Data, 0x1), (kPic1Data, 0x0), (kPic2Data, 0x0)]"

section \<open>What the controller documents\<close>

text \<open>
  The 8259A takes a byte with bit 4 set at its command port as the start of an initialisation; the next three
  bytes at its data port are the vector offset, the wiring and the mode.  Every later byte at the data
  port replaces the mask, and reading the data port returns the mask.
\<close>

fun data_since :: "u16 \<Rightarrow> u16 \<Rightarrow> io_trace \<Rightarrow> u8 list \<Rightarrow> u8 list" where
  "data_since cmd data [] acc = acc"
| "data_since cmd data ((p, v) # io) acc =
     data_since cmd data io (if p = cmd \<and> bit v 4 then [] else if p = data then acc @ [v] else acc)"

definition vector_offset :: "u16 \<Rightarrow> u16 \<Rightarrow> io_trace \<Rightarrow> u8 option" where
  "vector_offset cmd data io = (case data_since cmd data io [] of [] \<Rightarrow> None | v # _ \<Rightarrow> Some v)"

definition mask_register :: "u16 \<Rightarrow> u16 \<Rightarrow> io_trace \<Rightarrow> u8 option" where
  "mask_register cmd data io =
     (let ws = drop 3 (data_since cmd data io []) in if ws = [] then None else Some (last ws))"

definition reads_back_mask :: "device \<Rightarrow> bool" where
  "reads_back_mask inb \<longleftrightarrow>
     (\<forall>io v. (mask_register kPic1Cmd kPic1Data io = Some v \<longrightarrow> inb io kPic1Data = v)
           \<and> (mask_register kPic2Cmd kPic2Data io = Some v \<longrightarrow> inb io kPic2Data = v))"

lemma data_since_append: "data_since c d (xs @ ys) acc = data_since c d ys (data_since c d xs acc)"
  by (induction c d xs acc rule: data_since.induct) simp_all

lemmas mask_eval = mask_register_def vector_offset_def data_since_append layout

text \<open>A line of one of the controllers has a vector from 0x20 to 0x2f.\<close>

lemma irq_line_eq:
  assumes "n < 16"
  shows "irq_line (of_nat (0x20 + n)) = (if n < 8 then (kPic1Data, of_nat n) else (kPic2Data, of_nat (n - 8)))"
proof -
  have "of_nat (0x20 + n) - 0x20 = (of_nat n :: u8)" by simp
  moreover have "((of_nat n :: u8) < 8) = (n < 8)" using assms by (simp add: word_less_nat_alt unat_of_nat)
  moreover have "n \<ge> 8 \<Longrightarrow> of_nat n - 8 = (of_nat (n - 8) :: u8)" by (simp add: of_nat_diff)
  ultimately show ?thesis by (simp add: irq_line_def Let_def)
qed

lemma clear_mask_bit: "n < 8 \<Longrightarrow> bit (ucast (ucast (m :: u8) AND NOT (2 ^ n :: u32)) :: u8) k \<longleftrightarrow> k \<noteq> n \<and> bit m k"
  by (auto simp: bit_simps dest: bit_imp_le_length)

lemma set_mask_bit: "n < 8 \<Longrightarrow> bit (ucast (ucast (m :: u8) OR (2 ^ n :: u32)) :: u8) k \<longleftrightarrow> k = n \<or> bit m k"
  by (auto simp: bit_simps dest: bit_imp_le_length)

lemma shift_int_small: "n < 8 \<Longrightarrow> shift_int (of_nat n) = Some (2 ^ n)"
  by (simp add: shift_int_def unat_of_nat)

text \<open>The mask bit of a line, the lines of the second controller counted from 8.\<close>

definition masked :: "io_trace \<Rightarrow> nat \<Rightarrow> bool option" where
  "masked io n =
     (if n < 8 then map_option (\<lambda>m. bit m n) (mask_register kPic1Cmd kPic1Data io)
      else map_option (\<lambda>m. bit m (n - 8)) (mask_register kPic2Cmd kPic2Data io))"

lemma mask_register_Outb:
  "mask_register kPic1Cmd kPic1Data io = Some m \<Longrightarrow> mask_register kPic1Cmd kPic1Data (Outb kPic1Data v io) = Some v"
  "mask_register kPic2Cmd kPic2Data io = Some m \<Longrightarrow> mask_register kPic2Cmd kPic2Data (Outb kPic2Data v io) = Some v"
  "mask_register kPic1Cmd kPic1Data (Outb kPic2Data v io) = mask_register kPic1Cmd kPic1Data io"
  "mask_register kPic2Cmd kPic2Data (Outb kPic1Data v io) = mask_register kPic2Cmd kPic2Data io"
  by (auto simp: Outb_def mask_eval Let_def split: if_splits)

lemma mask_line_run:
  assumes dev: "reads_back_mask inb" and n: "n < 16"
    and m: "mask_register kPic1Cmd kPic1Data io = Some m1" "mask_register kPic2Cmd kPic2Data io = Some m2"
  shows "\<exists>io'. PICSetMask inb (of_nat (0x20 + n)) io = Some io' \<and> (\<forall>k<16. masked io' k = (if k = n then Some True else masked io k))"
    and "\<exists>io'. PICClearMask inb (of_nat (0x20 + n)) io = Some io' \<and> (\<forall>k<16. masked io' k = (if k = n then Some False else masked io k))"
proof -
  have r: "inb io kPic1Data = m1" "inb io kPic2Data = m2" using dev m unfolding reads_back_mask_def by blast+
  define port where "port = (if n < 8 then kPic1Data else kPic2Data)"
  define old where "old = (if n < 8 then m1 else m2)"
  define line where "line = (if n < 8 then n else n - 8)"
  have line: "irq_line (of_nat (0x20 + n)) = (port, of_nat line)" "line < 8" "inb io port = old"
    using n r unfolding irq_line_eq [OF n] by (auto simp: port_def line_def old_def)
  have upd: "masked (Outb port v io) k = (if k = n then Some b else masked io k)"
    if "\<And>j. bit v j \<longleftrightarrow> (if j = line then b else bit old j)" "k < 16" for v b k
    using that m n by (auto simp: masked_def mask_register_Outb port_def line_def old_def)
  show "\<exists>io'. PICSetMask inb (of_nat (0x20 + n)) io = Some io' \<and> (\<forall>k<16. masked io' k = (if k = n then Some True else masked io k))"
    using line upd unfolding PICSetMask_def line(1)
    by (intro exI [of _ "Outb port (ucast (ucast old OR (2 ^ line :: u32))) io"]) (simp add: shift_int_small Inb_def set_mask_bit)
  show "\<exists>io'. PICClearMask inb (of_nat (0x20 + n)) io = Some io' \<and> (\<forall>k<16. masked io' k = (if k = n then Some False else masked io k))"
    using line upd unfolding PICClearMask_def line(1)
    by (intro exI [of _ "Outb port (ucast (ucast old AND NOT (2 ^ line :: u32))) io"]) (simp add: shift_int_small Inb_def clear_mask_bit)
qed

section \<open>Properties\<close>

text \<open>
  With a controller that returns its mask, the boot sequence (initialise, mask everything, unmask the
  keyboard) cannot fail and leaves line 1, the keyboard, as the only one that interrupts; the vectors of the
  lines start at 0x20 and 0x28, so the keyboard has the vector 0x21 whose gate the interrupt table holds.
\<close>

theorem boot_enables_keyboard_only:
  assumes dev: "reads_back_mask inb"
  shows "\<exists>io'. PICClearMask inb 0x21 (DisablePIC (InitializePIC io)) = Some io'
    \<and> (\<forall>n<16. masked io' n = Some (n \<noteq> 1))
    \<and> vector_offset kPic1Cmd kPic1Data io' = Some 0x20 \<and> vector_offset kPic2Cmd kPic2Data io' = Some 0x28"
proof -
  let ?io = "DisablePIC (InitializePIC io)"
  have m: "mask_register kPic1Cmd kPic1Data ?io = Some 0xff" "mask_register kPic2Cmd kPic2Data ?io = Some 0xff"
    by (simp_all add: DisablePIC_def InitializePIC_def Outb_def mask_eval)
  have all: "masked ?io k = Some True" if "k < 16" for k
  proof -
    have "bit (0xff :: u8) j" if "j < 8" for j using that by (auto simp: less_Suc_eq numeral_eq_Suc)
    with that m show ?thesis by (auto simp: masked_def)
  qed
  from mask_line_run(2) [OF dev _ m, of 1] obtain io' where
    io': "PICClearMask inb 0x21 ?io = Some io'" "\<forall>k<16. masked io' k = (if k = 1 then Some False else masked ?io k)" by auto
  then obtain v where "io' = ?io @ [(kPic1Data, v)]" by (auto simp: PICClearMask_def irq_line_def Outb_def)
  then have "vector_offset kPic1Cmd kPic1Data io' = Some 0x20" "vector_offset kPic2Cmd kPic2Data io' = Some 0x28"
    by (simp_all add: Outb_def DisablePIC_def InitializePIC_def mask_eval)
  with io' all show ?thesis by auto
qed

text \<open>A device that keeps the mask registers shows that the hypothesis can hold.\<close>

definition pic_device :: device where
  "pic_device io port =
     (if port = kPic1Data then (case mask_register kPic1Cmd kPic1Data io of Some v \<Rightarrow> v | None \<Rightarrow> 0)
      else if port = kPic2Data then (case mask_register kPic2Cmd kPic2Data io of Some v \<Rightarrow> v | None \<Rightarrow> 0) else 0)"

lemma pic_device_ok: "reads_back_mask pic_device"
  by (simp add: reads_back_mask_def pic_device_def layout)

theorem boot_enables_keyboard_only_witness:
  "\<exists>io'. PICClearMask pic_device 0x21 (DisablePIC (InitializePIC [])) = Some io'
    \<and> (\<forall>n<16. masked io' n = Some (n \<noteq> 1)) \<and> vector_offset kPic1Cmd kPic1Data io' = Some 0x20"
  using boot_enables_keyboard_only [OF pic_device_ok, of "[]"] by blast

end
