(* ===== verification/Keyboard.thy ===== *)
theory Keyboard
  imports Ports Scheduler
begin

text \<open>
  \<^verbatim>\<open>kernel/keyboard.cpp\<close> and \<^verbatim>\<open>kernel/keyboard.hpp\<close>: the keyboard interrupt.  It decodes scancodes with the
  state of the modifier keys and sends each key to task 1.
\<close>

section \<open>Key maps\<close>

definition ascii :: "string \<Rightarrow> u8 list" where "ascii = map of_char"

definition kPortKeyboardData :: u16 where [layout]: "kPortKeyboardData = 0x60"
definition kBreakMask :: u8 where [layout]: "kBreakMask = 0x80"
definition kKeyLShift :: u8 where [layout]: "kKeyLShift = 0x2a"
definition kKeyRShift :: u8 where [layout]: "kKeyRShift = 0x36"
definition kKeyCtrl :: u8 where [layout]: "kKeyCtrl = 0x1d"
definition kKeyAlt :: u8 where [layout]: "kKeyAlt = 0x38"
definition kKeyCharMask :: u16 where [layout]: "kKeyCharMask = 0x00ff"
definition kKeyShiftMask :: u16 where [layout]: "kKeyShiftMask = 0x0100"
definition kKeyCtrlMask :: u16 where [layout]: "kKeyCtrlMask = 0x0200"
definition kKeyAltMask :: u16 where [layout]: "kKeyAltMask = 0x0400"

text \<open>The arrays have 128 elements; those without an initialiser are 0.\<close>

definition kKeymapLower :: "u8 list" where
  "kKeymapLower =
     [0, 27] @ ascii ''1234567890-='' @ [8]
     @ [9] @ ascii ''qwertyuiop[]'' @ [10]
     @ [0] @ ascii ''asdfghjkl;'' @ [39, 96, 0, 92]
     @ ascii ''zxcvbnm,./'' @ [0] @ ascii ''*'' @ [0] @ ascii '' ''
     @ replicate 16 0 @ ascii ''-'' @ replicate 3 0 @ ascii ''+'' @ replicate 49 0"

definition kKeymapUpper :: "u8 list" where
  "kKeymapUpper =
     [0, 27] @ ascii ''!@#$%^&*()_+'' @ [8]
     @ [9] @ ascii ''QWERTYUIOP{}'' @ [10]
     @ [0] @ ascii ''ASDFGHJKL:'' @ [34, 126, 0, 124]
     @ ascii ''ZXCVBNM<>?'' @ [0] @ ascii ''*'' @ [0] @ ascii '' ''
     @ replicate 16 0 @ ascii ''-'' @ replicate 3 0 @ ascii ''+'' @ replicate 49 0"

section \<open>The interrupt\<close>

record Keyboard =
  keyShiftPressed :: u8
  keyCtrlPressed :: bool
  keyAltPressed :: bool

definition reset_keyboard :: Keyboard where
  "reset_keyboard = \<lparr>keyShiftPressed = 0, keyCtrlPressed = False, keyAltPressed = False\<rparr>"

text \<open>
  The source writes the shift bits as \<open>0xb10\<close> and \<open>0xb01\<close>; the operands are \<open>int\<close> and the result is cut to
  eight bits.
\<close>

definition key_pressed :: "u8 \<Rightarrow> Keyboard \<Rightarrow> Keyboard" where
  "key_pressed scancode kb =
     (if scancode = kKeyLShift then kb\<lparr>keyShiftPressed := ucast (ucast (keyShiftPressed kb) OR (0xb10 :: u32))\<rparr>
      else if scancode = kKeyRShift then kb\<lparr>keyShiftPressed := ucast (ucast (keyShiftPressed kb) OR (0xb01 :: u32))\<rparr>
      else if scancode = kKeyCtrl then kb\<lparr>keyCtrlPressed := True\<rparr>
      else if scancode = kKeyAlt then kb\<lparr>keyAltPressed := True\<rparr>
      else kb)"

definition key_released :: "u8 \<Rightarrow> Keyboard \<Rightarrow> Keyboard" where
  "key_released key kb =
     (if key = kKeyLShift then kb\<lparr>keyShiftPressed := ucast (ucast (keyShiftPressed kb) AND NOT (0xb10 :: u32))\<rparr>
      else if key = kKeyRShift then kb\<lparr>keyShiftPressed := ucast (ucast (keyShiftPressed kb) AND NOT (0xb01 :: u32))\<rparr>
      else if key = kKeyCtrl then kb\<lparr>keyCtrlPressed := False\<rparr>
      else if key = kKeyAlt then kb\<lparr>keyAltPressed := False\<rparr>
      else kb)"

definition make_keycode :: "u8 \<Rightarrow> Keyboard \<Rightarrow> u16" where
  "make_keycode scancode kb =
     (let keycode = (if keyShiftPressed kb \<noteq> 0 then ucast (kKeymapUpper ! unat scancode) OR kKeyShiftMask
                     else ucast (kKeymapLower ! unat scancode));
          keycode1 = (if keyCtrlPressed kb then keycode OR kKeyCtrlMask else keycode)
      in if keyAltPressed kb then keycode1 OR kKeyAltMask else keycode1)"

definition KeyboardOnInterrupt :: "device \<Rightarrow> Keyboard \<times> TaskManager \<times> io_trace \<Rightarrow> (Keyboard \<times> TaskManager \<times> io_trace) option" where
  "KeyboardOnInterrupt inb = (\<lambda>(kb, tm, io).
     let scancode = Inb inb kPortKeyboardData io; io' = NotifyEOI 0x21 io
     in if scancode AND kBreakMask = 0
        then if scancode \<in> {kKeyLShift, kKeyRShift, kKeyCtrl, kKeyAlt} then Some (key_pressed scancode kb, tm, io')
             else map_option (\<lambda>r. case r of Inl _ \<Rightarrow> (kb, tm, io') | Inr tm' \<Rightarrow> (kb, tm', io'))
                    (SendMessage 1 (kKeyboardPush (make_keycode scancode kb)) tm)
        else Some (key_released (scancode AND NOT kBreakMask) kb, tm, io'))"

text \<open>A sequence of keyboard interrupts.\<close>

fun keyboard_interrupts :: "device \<Rightarrow> nat \<Rightarrow> Keyboard \<times> TaskManager \<times> io_trace \<Rightarrow> (Keyboard \<times> TaskManager \<times> io_trace) option" where
  "keyboard_interrupts inb 0 s = Some s"
| "keyboard_interrupts inb (Suc n) s = Option.bind (KeyboardOnInterrupt inb s) (keyboard_interrupts inb n)"

section \<open>The keyboard as the set of keys held down\<close>

definition held_after :: "u8 \<Rightarrow> u8 set \<Rightarrow> u8 set" where
  "held_after code H = (if bit code 7 then H - {code AND 0x7f} else insert code H)"

definition modifier :: "u8 \<Rightarrow> bool" where
  "modifier key \<longleftrightarrow> key \<in> {0x2a, 0x36, 0x1d, 0x38}"

definition key_char :: "u8 set \<Rightarrow> u8 \<Rightarrow> u16" where
  "key_char H key =
     (let shift = (0x2a \<in> H \<or> 0x36 \<in> H)
      in ucast ((if shift then kKeymapUpper else kKeymapLower) ! unat key)
         OR (if shift then 0x100 else 0) OR (if 0x1d \<in> H then 0x200 else 0) OR (if 0x38 \<in> H then 0x400 else 0))"

fun keys_typed :: "u8 set \<Rightarrow> u8 list \<Rightarrow> u16 list" where
  "keys_typed H [] = []"
| "keys_typed H (code # codes) =
     (if bit code 7 \<or> modifier code then [] else [key_char H code]) @ keys_typed (held_after code H) codes"

definition keyboard_shows :: "Keyboard \<Rightarrow> u8 set \<Rightarrow> bool" where
  "keyboard_shows kb H \<longleftrightarrow>
     keyShiftPressed kb = (if 0x2a \<in> H then 0x10 else 0) OR (if 0x36 \<in> H then 0x01 else 0)
     \<and> keyCtrlPressed kb = (0x1d \<in> H) \<and> keyAltPressed kb = (0x38 \<in> H)"

lemma break_bit: "scancode AND kBreakMask = 0 \<longleftrightarrow> \<not> bit scancode 7"
  using and_single_bit_nonzero [of scancode 7] by (auto simp: layout)

lemma break_clear: "scancode AND NOT kBreakMask = scancode AND 0x7f"
proof -
  have "NOT (0x80 :: u8) = 0x7f" by code_simp
  then show ?thesis unfolding kBreakMask_def by (rule arg_cong)
qed

lemma shift_shown: "keyboard_shows kb H \<Longrightarrow> keyShiftPressed kb \<noteq> 0 \<longleftrightarrow> 0x2a \<in> H \<or> 0x36 \<in> H"
proof -
  have "(0x10 :: u8) \<noteq> 0" "(0x11 :: u8) \<noteq> 0" by code_simp+
  then show "keyboard_shows kb H \<Longrightarrow> keyShiftPressed kb \<noteq> 0 \<longleftrightarrow> 0x2a \<in> H \<or> 0x36 \<in> H"
    by (auto simp: keyboard_shows_def split: if_splits)
qed

lemma keyboard_shows_pressed: "keyboard_shows kb H \<Longrightarrow> keyboard_shows (key_pressed k kb) (insert k H)"
  by (auto simp: keyboard_shows_def key_pressed_def layout)

lemma keyboard_shows_released: "keyboard_shows kb H \<Longrightarrow> keyboard_shows (key_released k kb) (H - {k})"
  by (auto simp: keyboard_shows_def key_released_def layout)

lemma keyboard_shows_other: "keyboard_shows kb H \<Longrightarrow> \<not> modifier k \<Longrightarrow> keyboard_shows kb (insert k H)"
  by (auto simp: keyboard_shows_def modifier_def)

lemma make_keycode_eq: "keyboard_shows kb H \<Longrightarrow> make_keycode k kb = key_char H k"
  unfolding make_keycode_def key_char_def by (simp add: shift_shown) (simp add: keyboard_shows_def Let_def layout ac_simps)

section \<open>Interrupts refine the keys held down\<close>

definition scancodes :: "device \<Rightarrow> io_trace \<Rightarrow> nat \<Rightarrow> u8 list" where
  "scancodes inb io n = map (\<lambda>i. inb (io @ replicate i (kPic1Cmd, 0x20)) kPortKeyboardData) [0..<n]"

lemma scancodes_Suc: "scancodes inb io (Suc n) = inb io kPortKeyboardData # scancodes inb (io @ [(kPic1Cmd, 0x20)]) n"
  by (simp add: scancodes_def map_Suc_upt [symmetric] upt_conv_Cons del: upt_Suc)

definition got_keys :: "TaskManager \<Rightarrow> TaskManager \<Rightarrow> u16 list \<Rightarrow> bool" where
  "got_keys tm tm' ks \<longleftrightarrow> sched_inv tm' \<and> CurrentTask tm' = CurrentTask tm
     \<and> (\<exists>t t'. find_task tm 1 = Some t \<and> find_task tm' 1 = Some t' \<and> msgs t' = msgs t @ map kKeyboardPush ks)
     \<and> (\<forall>j. j \<noteq> 1 \<longrightarrow> find_task tm' j = find_task tm j)"

lemma got_keys_trans: "got_keys tm tm1 ks \<Longrightarrow> got_keys tm1 tm2 ks' \<Longrightarrow> got_keys tm tm2 (ks @ ks')"
  by (auto simp: got_keys_def)

lemma KeyboardOnInterrupt_run:
  assumes inv: "sched_inv tm" and t: "find_task tm 1 = Some t" and kb: "keyboard_shows kb H"
  shows "\<exists>kb' tm'. KeyboardOnInterrupt inb (kb, tm, io) = Some (kb', tm', io @ [(kPic1Cmd, 0x20)])
    \<and> keyboard_shows kb' (held_after (inb io kPortKeyboardData) H) \<and> got_keys tm tm' (keys_typed H [inb io kPortKeyboardData])"
proof -
  let ?c = "inb io kPortKeyboardData"
  have io: "NotifyEOI 0x21 io = io @ [(kPic1Cmd, 0x20)]" by (simp add: NotifyEOI_def Outb_def)
  have same: "got_keys tm tm []" using inv t by (simp add: got_keys_def)
  consider "bit ?c 7" | "\<not> bit ?c 7" "modifier ?c" | "\<not> bit ?c 7" "\<not> modifier ?c" by blast
  then show ?thesis
  proof cases
    case 1
    with kb same show ?thesis
      by (simp add: KeyboardOnInterrupt_def Inb_def break_bit break_clear io held_after_def keyboard_shows_released)
  next
    case 2
    then have "?c \<in> {kKeyLShift, kKeyRShift, kKeyCtrl, kKeyAlt}" by (simp add: modifier_def layout)
    with 2 kb same show ?thesis
      by (simp add: KeyboardOnInterrupt_def Inb_def break_bit io held_after_def keyboard_shows_pressed)
  next
    case 3
    then have "?c \<notin> {kKeyLShift, kKeyRShift, kKeyCtrl, kKeyAlt}" by (simp add: modifier_def layout)
    moreover from SendMessage_run [OF inv t, of "kKeyboardPush (make_keycode ?c kb)"] obtain tm' where
      "SendMessage 1 (kKeyboardPush (make_keycode ?c kb)) tm = Some (Inr tm')" "got_keys tm tm' [make_keycode ?c kb]"
      using t by (auto simp: got_keys_def)
    ultimately show ?thesis using 3 kb
      by (simp add: KeyboardOnInterrupt_def Inb_def break_bit io held_after_def keyboard_shows_other make_keycode_eq)
  qed
qed

lemma keyboard_interrupts_run:
  assumes "sched_inv tm" and "find_task tm 1 = Some t" and "keyboard_shows kb H"
  shows "\<exists>kb' tm'. keyboard_interrupts inb n (kb, tm, io) = Some (kb', tm', io @ replicate n (kPic1Cmd, 0x20))
    \<and> keyboard_shows kb' (fold held_after (scancodes inb io n) H) \<and> got_keys tm tm' (keys_typed H (scancodes inb io n))"
  using assms
proof (induction n arbitrary: tm t kb H io)
  case 0
  then show ?case by (simp add: scancodes_def got_keys_def)
next
  case (Suc n)
  let ?c = "inb io kPortKeyboardData"
  from KeyboardOnInterrupt_run [OF Suc.prems, of inb io] obtain kb1 tm1 where
    one: "KeyboardOnInterrupt inb (kb, tm, io) = Some (kb1, tm1, io @ [(kPic1Cmd, 0x20)])"
      "keyboard_shows kb1 (held_after ?c H)" "got_keys tm tm1 (keys_typed H [?c])" by blast
  then obtain t1 where "sched_inv tm1" "find_task tm1 1 = Some t1" by (auto simp: got_keys_def)
  from Suc.IH [OF this one(2), of "io @ [(kPic1Cmd, 0x20)]"] one show ?case
    using got_keys_trans [OF one(3)] by (fastforce simp: scancodes_Suc)
qed

section \<open>Properties\<close>

text \<open>
  C24. The keyboard interrupt refines a keyboard given by the set of keys held down: after any number of
  interrupts, whatever scancodes the controller returns, task 1 has received exactly the typed keys in order,
  each with the character of the map that the held shift keys select and the bits of the held modifiers;
  the kernel's flags show the held modifiers, every interrupt was acknowledged once, and no other task changed.
\<close>

theorem keyboard_refines_held_keys:
  assumes "reachable (tm, cpu)" and "find_task tm 1 = Some t"
  shows "\<exists>kb' tm' t'. keyboard_interrupts inb n (reset_keyboard, tm, io) = Some (kb', tm', io @ replicate n (kPic1Cmd, 0x20))
    \<and> keyboard_shows kb' (fold held_after (scancodes inb io n) {})
    \<and> find_task tm' 1 = Some t' \<and> msgs t' = msgs t @ map kKeyboardPush (keys_typed {} (scancodes inb io n))
    \<and> (\<forall>j. j \<noteq> 1 \<longrightarrow> find_task tm' j = find_task tm j)"
proof -
  from assms(1) have "sched_inv tm" by (auto dest: reachable_sched_inv)
  moreover have "keyboard_shows reset_keyboard {}" by (simp add: keyboard_shows_def reset_keyboard_def)
  ultimately show ?thesis
    using keyboard_interrupts_run [OF _ assms(2), of reset_keyboard "{}" inb n io] assms(2) by (auto simp: got_keys_def)
qed

text \<open>Left shift, \<open>h\<close>, shift released, \<open>i\<close>: the keys are \<open>H\<close> and \<open>i\<close>.\<close>

definition sample_device :: device where
  "sample_device io port = (if length io < 4 then [0x2a, 0x23, 0xaa, 0x17] ! length io else 0)"

lemma sample_scancodes: "scancodes sample_device [] 4 = [0x2a, 0x23, 0xaa, 0x17]"
  by (simp add: scancodes_def sample_device_def upt_rec numeral_eq_Suc)

lemma sample_keys: "keys_typed {} [0x2a, 0x23, 0xaa, 0x17] = [0x148, 0x69]"
  by code_simp

theorem keyboard_refines_held_keys_witness:
  "\<exists>kb' tm' t'. keyboard_interrupts sample_device 4 (reset_keyboard, boot_manager, []) = Some (kb', tm', replicate 4 (kPic1Cmd, 0x20))
    \<and> find_task tm' 1 = Some t' \<and> msgs t' = [kKeyboardPush 0x148, kKeyboardPush 0x69]"
proof -
  from boot_find obtain t where t: "find_task boot_manager 1 = Some t" "msgs t = []" by (auto simp: new_Task_def)
  from keyboard_refines_held_keys [OF boot_reachable t(1), of sample_device 4 "[]"] t(2) show ?thesis
    by (auto simp: sample_scancodes sample_keys simp del: keys_typed.simps)
qed

end
