(* ===== verification/Display.thy ===== *)
theory Display
  imports ByteMemory
begin

text \<open>
  \<^verbatim>\<open>kernel/frame_buffer_config.hpp\<close>, \<^verbatim>\<open>kernel/graphics.hpp\<close>, \<^verbatim>\<open>kernel/graphics.cpp\<close> and \<^verbatim>\<open>kernel/fonts.cpp\<close>:
  pixels in the frame buffer and glyphs.  The frame buffer is memory from its start on.  The font
  (\<open>hankaku.bin\<close>, linked in as data) is a parameter: its bytes and its size.
\<close>

section \<open>Pixels\<close>

datatype PixelFormat = kPixelRGBResv8BitPerColor | kPixelBGRResv8BitPerColor

record FrameBufferConfig =
  pixels_per_scan_line :: u32
  horizontal_resolution :: u32
  vertical_resolution :: u32
  pixel_format :: PixelFormat

record PixelColor =
  red :: u8
  green :: u8
  blue :: u8

text \<open>The coordinates of every call are nonnegative; the offset is computed in 32 bits.\<close>

definition PixelAt :: "FrameBufferConfig \<Rightarrow> nat \<Rightarrow> nat \<Rightarrow> nat" where
  "PixelAt config x y = unat (4 * (pixels_per_scan_line config * of_nat y + of_nat x))"

text \<open>The two overriding \<open>Write\<close> methods, chosen by \<open>InitializeGraphics\<close>.\<close>

definition RGB_Write :: "FrameBufferConfig \<Rightarrow> nat \<Rightarrow> nat \<Rightarrow> PixelColor \<Rightarrow> memory \<Rightarrow> memory" where
  "RGB_Write config x y c fb = (let p = PixelAt config x y in fb(p := red c, p + 1 := green c, p + 2 := blue c))"

definition BGR_Write :: "FrameBufferConfig \<Rightarrow> nat \<Rightarrow> nat \<Rightarrow> PixelColor \<Rightarrow> memory \<Rightarrow> memory" where
  "BGR_Write config x y c fb = (let p = PixelAt config x y in fb(p := blue c, p + 1 := green c, p + 2 := red c))"

definition PixelWrite :: "FrameBufferConfig \<Rightarrow> nat \<Rightarrow> nat \<Rightarrow> PixelColor \<Rightarrow> memory \<Rightarrow> memory" where
  "PixelWrite config =
     (case pixel_format config of kPixelRGBResv8BitPerColor \<Rightarrow> RGB_Write config | kPixelBGRResv8BitPerColor \<Rightarrow> BGR_Write config)"

text \<open>A nested loop over \<open>h\<close> rows of \<open>w\<close> pixels from a corner, with the colour of each pixel.\<close>

definition fill :: "FrameBufferConfig \<Rightarrow> nat \<Rightarrow> nat \<Rightarrow> nat \<Rightarrow> nat \<Rightarrow> (nat \<Rightarrow> nat \<Rightarrow> PixelColor) \<Rightarrow> memory \<Rightarrow> memory" where
  "fill config x y w h col fb =
     fold (\<lambda>dy. fold (\<lambda>dx. PixelWrite config (x + dx) (y + dy) (col dx dy)) [0..<w]) [0..<h] fb"

definition PixelWriter_Clear :: "FrameBufferConfig \<Rightarrow> PixelColor \<Rightarrow> memory \<Rightarrow> memory" where
  "PixelWriter_Clear config c fb =
     fill config 0 0 (unat (horizontal_resolution config)) (unat (vertical_resolution config)) (\<lambda>_ _. c) fb"

section \<open>Glyphs\<close>

record Font =
  font_bytes :: "nat \<Rightarrow> u8"
  font_size :: nat

text \<open>\<open>static_cast<unsigned int>(c)\<close> extends the sign of \<open>c\<close>.\<close>

definition GetFont :: "Font \<Rightarrow> u8 \<Rightarrow> nat option" where
  "GetFont font c =
     (let index = 16 * (scast c :: u32) in if font_size font \<le> unat index then None else Some (unat index))"

definition WriteAscii :: "Font \<Rightarrow> FrameBufferConfig \<Rightarrow> nat \<Rightarrow> nat \<Rightarrow> u8 \<Rightarrow> PixelColor \<Rightarrow> PixelColor \<Rightarrow> memory \<Rightarrow> memory" where
  "WriteAscii font config x y c fg_color bg_color fb =
     (case GetFont font c of
        None \<Rightarrow> fb
      | Some p \<Rightarrow>
          fill config x y 16 16
            (\<lambda>dx dy. if (push_bit dx (ucast (font_bytes font (p + dy))) :: u32) AND 0x80 \<noteq> 0 then fg_color else bg_color) fb)"

fun WriteString :: "Font \<Rightarrow> FrameBufferConfig \<Rightarrow> nat \<Rightarrow> nat \<Rightarrow> u8 list \<Rightarrow> PixelColor \<Rightarrow> PixelColor \<Rightarrow> memory \<Rightarrow> memory" where
  "WriteString font config x y [] fg bg fb = fb"
| "WriteString font config x y (c # s) fg bg fb =
     (if c = 0 then fb else WriteString font config (x + 8) y s fg bg (WriteAscii font config x y c fg bg fb))"

section \<open>Reading pixels back\<close>

definition pixel :: "FrameBufferConfig \<Rightarrow> memory \<Rightarrow> nat \<Rightarrow> nat \<Rightarrow> PixelColor" where
  "pixel config fb x y =
     (let p = PixelAt config x y
      in case pixel_format config of
           kPixelRGBResv8BitPerColor \<Rightarrow> \<lparr>red = fb p, green = fb (p + 1), blue = fb (p + 2)\<rparr>
         | kPixelBGRResv8BitPerColor \<Rightarrow> \<lparr>red = fb (p + 2), green = fb (p + 1), blue = fb p\<rparr>)"

text \<open>A frame buffer whose offsets fit into 32 bits, with \<open>h\<close> rows of at least \<open>w\<close> pixels.\<close>

definition screen_ok :: "FrameBufferConfig \<Rightarrow> nat \<Rightarrow> nat \<Rightarrow> bool" where
  "screen_ok config w h \<longleftrightarrow> w \<le> unat (pixels_per_scan_line config) \<and> 4 * (unat (pixels_per_scan_line config) * h) \<le> 2 ^ 32"

lemma PixelAt_eq:
  assumes "screen_ok config w h" "x < w" "y < h"
  shows "PixelAt config x y = 4 * (unat (pixels_per_scan_line config) * y + x)"
proof -
  let ?l = "unat (pixels_per_scan_line config)"
  have "?l * y + x < ?l * (y + 1)" using assms by (simp add: screen_ok_def)
  also have "\<dots> \<le> ?l * h" using assms(3) by (intro mult_le_mono2) simp
  finally have "4 * (?l * y + x) < 4 * (?l * h)" by simp
  then have b: "4 * (?l * y + x) < 2 ^ 32" using assms(1) unfolding screen_ok_def by linarith
  have "4 * (pixels_per_scan_line config * of_nat y + of_nat x) = of_nat (4 * (?l * y + x))" by simp
  then show ?thesis unfolding PixelAt_def using b by (simp only: unat_of_nat) (simp add: take_bit_nat_eq_self)
qed

lemma PixelAt_inj:
  assumes s: "screen_ok config w h" and "x < w" "y < h" "x' < w" "y' < h" "(x, y) \<noteq> (x', y')"
  shows "PixelAt config x y + 4 \<le> PixelAt config x' y' \<or> PixelAt config x' y' + 4 \<le> PixelAt config x y"
proof -
  let ?l = "unat (pixels_per_scan_line config)"
  have l: "w \<le> ?l" using s by (simp add: screen_ok_def)
  have row: "?l * a + b + 1 \<le> ?l * a' + b'" if "a < a'" "b < w" for a a' b b'
  proof -
    have "?l * (a + 1) \<le> ?l * a'" using that(1) by (intro mult_le_mono2) simp
    then show ?thesis using that(2) l by (simp add: algebra_simps)
  qed
  consider "y < y'" | "y' < y" | "y = y'" "x < x'" | "y = y'" "x' < x" using assms(6) by fastforce
  then show ?thesis
    using row [of y y' x x'] row [of y' y x' x] assms(2-5) by cases (simp_all add: PixelAt_eq [OF s])
qed

lemma pixel_PixelWrite:
  assumes s: "screen_ok config w h" and xy: "x < w" "y < h" "x' < w" "y' < h"
  shows "pixel config (PixelWrite config x' y' c fb) x y = (if x = x' \<and> y = y' then c else pixel config fb x y)"
proof (cases "x = x' \<and> y = y'")
  case True
  then show ?thesis by (cases c) (simp add: pixel_def PixelWrite_def RGB_Write_def BGR_Write_def Let_def split: PixelFormat.split)
next
  case False
  with PixelAt_inj [OF s xy(1,2) xy(3,4)] have "PixelAt config x y + 4 \<le> PixelAt config x' y' \<or> PixelAt config x' y' + 4 \<le> PixelAt config x y"
    by auto
  with False show ?thesis by (auto simp: pixel_def PixelWrite_def RGB_Write_def BGR_Write_def Let_def split: PixelFormat.split)
qed

lemma pixel_fold_row:
  assumes s: "screen_ok config w h" and xy: "x < w" "y < h" and y': "y' < h" and n: "x0 + n \<le> w"
  shows "pixel config (fold (\<lambda>dx. PixelWrite config (x0 + dx) y' (col dx)) [0..<n] fb) x y
    = (if y = y' \<and> x0 \<le> x \<and> x < x0 + n then col (x - x0) else pixel config fb x y)"
  using n
proof (induction n)
  case (Suc n)
  then show ?case using pixel_PixelWrite [OF s xy _ y', of "x0 + n"] by (auto simp: less_Suc_eq)
qed auto

lemma pixel_fill:
  assumes s: "screen_ok config w h" and xy: "x < w" "y < h" and n: "x0 + n \<le> w" "y0 + m \<le> h"
  shows "pixel config (fill config x0 y0 n m col fb) x y
    = (if x0 \<le> x \<and> x < x0 + n \<and> y0 \<le> y \<and> y < y0 + m then col (x - x0) (y - y0) else pixel config fb x y)"
  using n(2)
proof (induction m)
  case 0
  then show ?case by (auto simp: fill_def)
next
  case (Suc m)
  have "fill config x0 y0 n (Suc m) col fb =
      fold (\<lambda>dx. PixelWrite config (x0 + dx) (y0 + m) (col dx m)) [0..<n] (fill config x0 y0 n m col fb)"
    by (simp add: fill_def)
  then show ?case using Suc pixel_fold_row [OF s xy, of "y0 + m" x0 n "\<lambda>dx. col dx m"] n(1) by (auto simp: less_Suc_eq)
qed

text \<open>The glyph of a character: eight columns of the font, then eight columns of the background.\<close>

lemma glyph_bit: "(push_bit dx (ucast (b :: u8)) :: u32) AND 0x80 \<noteq> 0 \<longleftrightarrow> dx < 8 \<and> bit b (7 - dx)"
proof -
  have "(0x80 :: u32) = 2 ^ 7" by simp
  then have "(push_bit dx (ucast b) :: u32) AND 0x80 \<noteq> 0 \<longleftrightarrow> bit (push_bit dx (ucast b) :: u32) 7"
    by (simp only: and_single_bit_nonzero)
  also have "\<dots> \<longleftrightarrow> dx < 8 \<and> bit b (7 - dx)" by (auto simp: bit_simps)
  finally show ?thesis .
qed

lemma bit_7_u8: "bit (c :: u8) 7 \<longleftrightarrow> \<not> c < 128"
proof -
  have "unat c < 256" using unsigned_less [of c] by simp
  moreover have "bit c 7 \<longleftrightarrow> odd (unat c div 128)"
    using bit_unsigned_iff [of c 7, where ?'a = nat] by (simp add: bit_iff_odd)
  moreover have "unat c div 128 = (if unat c < 128 then 0 else 1)" if "unat c < 256"
    using that by (auto intro: div_nat_eqI)
  ultimately show ?thesis by (simp add: word_less_nat_alt)
qed

lemma bit_imp_le_unat: "bit w n \<Longrightarrow> 2 ^ n \<le> unat w" for w :: "'a::len word"
proof (rule ccontr)
  assume b: "bit w n" and "\<not> 2 ^ n \<le> unat w"
  then have "unat w div 2 ^ n = 0" by simp
  then have "\<not> bit (unat w) n" by (simp add: bit_iff_odd)
  with b show False by (simp add: bit_unsigned_iff)
qed

lemma GetFont_glyph:
  assumes "font_size font = 4096"
  shows "GetFont font c = (if c < 128 then Some (16 * unat c) else None)"
proof -
  have p: "16 * (scast c :: u32) = push_bit 4 (scast c)" by (simp add: push_bit_eq_mult)
  show ?thesis
  proof (cases "c < 128")
    case True
    then have u: "unat c < 128" by (simp add: word_less_nat_alt)
    have "(scast c :: u32) = ucast c"
    proof (rule bit_word_eqI)
      fix n assume "n < LENGTH(32)"
      then show "bit (scast c :: u32) n = bit (ucast c :: u32) n"
        using True bit_7_u8 [of c] by (cases "n \<le> 7") (auto simp: bit_simps min_def dest: bit_imp_le_length)
    qed
    then have "16 * (scast c :: u32) = of_nat (16 * unat c)" by simp
    then have "unat (16 * (scast c :: u32)) = 16 * unat c" using u by (simp only: unat_of_nat) (simp add: take_bit_nat_eq_self)
    with assms True u show ?thesis by (simp add: GetFont_def Let_def)
  next
    case False
    then have "bit c 7" by (simp add: bit_7_u8)
    then have "bit (push_bit 4 (scast c) :: u32) 31" by (simp add: bit_simps)
    then have "2 ^ 31 \<le> unat (16 * (scast c :: u32))" unfolding p by (rule bit_imp_le_unat)
    with assms False show ?thesis by (simp add: GetFont_def Let_def)
  qed
qed

section \<open>Properties\<close>

text \<open>
  C40. \<open>WriteAscii\<close> draws a glyph of the font: within the screen, the pixels of the cell are the bits of the
  font's rows, foreground for 1 and background for 0, for both pixel formats; the next cell to the right is
  overwritten with the background, and no other pixel changes.  A character of 128 or more has no glyph and
  changes nothing.
\<close>

theorem WriteAscii_glyph:
  assumes "screen_ok config w h" and "x + 16 \<le> w" and "y + 16 \<le> h" and "px < w" and "py < h" and "font_size font = 4096"
  shows "pixel config (WriteAscii font config x y c fg bg fb) px py =
    (if c < 128 \<and> x \<le> px \<and> px < x + 16 \<and> y \<le> py \<and> py < y + 16
     then if px < x + 8 \<and> bit (font_bytes font (16 * unat c + (py - y))) (7 - (px - x)) then fg else bg
     else pixel config fb px py)"
  unfolding WriteAscii_def GetFont_glyph [OF assms(6)]
  using pixel_fill [OF assms(1,4,5,2,3)] by (auto simp: glyph_bit)

definition vga_config :: FrameBufferConfig where
  "vga_config = \<lparr>pixels_per_scan_line = 640, horizontal_resolution = 640, vertical_resolution = 400, pixel_format = kPixelBGRResv8BitPerColor\<rparr>"

definition bar_font :: Font where
  "bar_font = \<lparr>font_bytes = (\<lambda>i. if i div 16 = 65 then 0x80 else 0), font_size = 4096\<rparr>"

theorem WriteAscii_glyph_witness:
  "pixel vga_config (WriteAscii bar_font vga_config 8 16 65 \<lparr>red = 255, green = 255, blue = 255\<rparr> \<lparr>red = 0, green = 0, blue = 0\<rparr> (\<lambda>_. 7)) 8 20
     = \<lparr>red = 255, green = 255, blue = 255\<rparr>"
proof -
  have s: "screen_ok vga_config 640 400" by (simp add: screen_ok_def vga_config_def)
  have "font_bytes bar_font (16 * unat (65 :: u8) + 4) = 0x80" by (simp add: bar_font_def)
  moreover have "bit (0x80 :: u8) 7" by code_simp
  ultimately show ?thesis
    using WriteAscii_glyph [OF s, of 8 16 8 20 bar_font 65] by (simp add: bar_font_def)
qed

end
