(* ===== verification/Console.thy ===== *)
theory Console
  imports Display
begin

text \<open>
  \<^verbatim>\<open>kernel/console.hpp\<close> and \<^verbatim>\<open>kernel/console.cpp\<close>: the text console.  A console keeps its buffer of
  25 rows of 81 characters, its cursor, and what its pixel writer needs; \<open>frame_buffer\<close> is the memory
  it draws into.
\<close>

section \<open>Operations\<close>

definition kRows :: nat where [layout]: "kRows = 25"
definition kColumns :: nat where [layout]: "kColumns = 80"

record Console =
  config :: FrameBufferConfig
  con_font :: Font
  fg_color :: PixelColor
  bg_color :: PixelColor
  buffer :: "u8 list list"
  cursor_row :: nat
  cursor_column :: nat
  frame_buffer :: memory

definition blank_row :: "u8 list" where "blank_row = replicate (kColumns + 1) 0"

definition new_Console :: "FrameBufferConfig \<Rightarrow> Font \<Rightarrow> PixelColor \<Rightarrow> PixelColor \<Rightarrow> memory \<Rightarrow> Console" where
  "new_Console cfg font fg bg fb =
     \<lparr>config = cfg, con_font = font, fg_color = fg, bg_color = bg, buffer = replicate kRows blank_row,
      cursor_row = 0, cursor_column = 0, frame_buffer = fb\<rparr>"

definition InitializeConsole :: "FrameBufferConfig \<Rightarrow> Font \<Rightarrow> memory \<Rightarrow> Console" where
  "InitializeConsole cfg font fb =
     new_Console cfg font \<lparr>red = 255, green = 255, blue = 255\<rparr> \<lparr>red = 0, green = 0, blue = 0\<rparr> fb"

text \<open>One round of the scrolling loop: the row below is copied and drawn.\<close>

definition scroll_row :: "nat \<Rightarrow> Console \<Rightarrow> Console" where
  "scroll_row row con =
     (let b = (buffer con)[row := buffer con ! (row + 1)]
      in con\<lparr>buffer := b,
             frame_buffer := WriteString (con_font con) (config con) 0 (16 * row) (b ! row) (fg_color con) (bg_color con) (frame_buffer con)\<rparr>)"

definition NewLine :: "Console \<Rightarrow> Console" where
  "NewLine con0 =
     (let con = con0\<lparr>cursor_column := 0\<rparr>
      in if cursor_row con < kRows - 1 then con\<lparr>cursor_row := cursor_row con + 1\<rparr>
         else let con1 = con\<lparr>frame_buffer := fill (config con) 0 0 (8 * kColumns) (16 * kRows) (\<lambda>_ _. bg_color con) (frame_buffer con)\<rparr>;
                  con2 = fold scroll_row [0..<kRows - 1] con1
              in con2\<lparr>buffer := (buffer con2)[kRows - 1 := blank_row]\<rparr>)"

definition PutChar :: "u8 \<Rightarrow> Console \<Rightarrow> Console" where
  "PutChar c con =
     (if c = 0x0a then NewLine con
      else if c = 0x0d then con\<lparr>cursor_column := 0\<rparr>
      else if cursor_column con < kColumns - 1
      then con\<lparr>frame_buffer := WriteAscii (con_font con) (config con) (8 * cursor_column con) (16 * cursor_row con) c
                                (fg_color con) (bg_color con) (frame_buffer con),
               buffer := (buffer con)[cursor_row con := (buffer con ! cursor_row con)[cursor_column con := c]],
               cursor_column := cursor_column con + 1\<rparr>
      else con)"

fun PutString :: "u8 list \<Rightarrow> Console \<Rightarrow> Console" where
  "PutString [] con = con"
| "PutString (c # s) con = (if c = 0 then con else PutString s (PutChar c con))"

definition Clear :: "Console \<Rightarrow> Console" where
  "Clear con =
     con\<lparr>frame_buffer := PixelWriter_Clear (config con) (bg_color con) (frame_buffer con),
         cursor_column := 0, cursor_row := 0, buffer := replicate kRows blank_row\<rparr>"

section \<open>Invariant\<close>

text \<open>
  The type of a console: the buffer has its size, the cursor is inside, and the last two columns are 0, so
  that every row is a terminated string.
\<close>

definition console_ok :: "Console \<Rightarrow> bool" where
  "console_ok con \<longleftrightarrow> length (buffer con) = kRows
     \<and> (\<forall>r<kRows. length (buffer con ! r) = kColumns + 1 \<and> buffer con ! r ! (kColumns - 1) = 0 \<and> buffer con ! r ! kColumns = 0)
     \<and> cursor_row con < kRows \<and> cursor_column con < kColumns"

lemma blank_row_ok: "length blank_row = kColumns + 1" "blank_row ! (kColumns - 1) = 0" "blank_row ! kColumns = 0"
  by (simp_all add: blank_row_def layout del: replicate.simps)

lemmas blank_row_layout = blank_row_ok [unfolded layout, simplified]

lemma scroll_row_buffer: "buffer (scroll_row r con) = (buffer con)[r := buffer con ! (r + 1)]"
  by (simp add: scroll_row_def Let_def)

lemma scroll_buffer:
  "n < length (buffer con) \<Longrightarrow> buffer (fold scroll_row [0..<n] con) = take n (tl (buffer con)) @ drop n (buffer con)"
proof (induction n)
  case (Suc n)
  then have b: "buffer (fold scroll_row [0..<n] con) = take n (tl (buffer con)) @ drop n (buffer con)" by simp
  have l: "length (take n (tl (buffer con))) = n" using Suc.prems by simp
  have d: "drop n (buffer con) = buffer con ! n # drop (Suc n) (buffer con)" using Suc.prems by (simp add: Cons_nth_drop_Suc)
  have t: "take (Suc n) (tl (buffer con)) = take n (tl (buffer con)) @ [buffer con ! Suc n]"
    using Suc.prems by (simp add: take_Suc_conv_app_nth nth_tl)
  have "(take n (tl (buffer con)) @ drop n (buffer con)) ! (n + 1) = buffer con ! Suc n" using l Suc.prems by (simp add: nth_append)
  with b l t d show ?case by (simp add: scroll_row_buffer list_update_append)
qed simp

lemma scroll_frame:
  "cursor_row (fold scroll_row rs con) = cursor_row con" "cursor_column (fold scroll_row rs con) = cursor_column con"
  by (induction rs arbitrary: con) (simp_all add: scroll_row_def Let_def)

lemma NewLine_buffer:
  assumes "length (buffer con) = kRows"
  shows "buffer (NewLine con) = (if cursor_row con < kRows - 1 then buffer con else tl (buffer con) @ [blank_row])"
proof -
  have "(take (kRows - 1) (tl (buffer con)) @ drop (kRows - 1) (buffer con))[kRows - 1 := blank_row] = tl (buffer con) @ [blank_row]"
    using assms by (intro nth_equalityI) (auto simp: layout nth_append nth_list_update nth_tl)
  then show ?thesis
    using assms by (auto simp: NewLine_def Let_def scroll_buffer layout simp del: upt_rec_numeral)
qed

lemma NewLine_cursor:
  "cursor_column (NewLine con) = 0" "cursor_row (NewLine con) = (if cursor_row con < kRows - 1 then cursor_row con + 1 else cursor_row con)"
  by (simp_all add: NewLine_def Let_def scroll_frame)

lemma console_ok_NewLine: "console_ok con \<Longrightarrow> console_ok (NewLine con)"
proof -
  assume ok: "console_ok con"
  then have b: "length (buffer con) = kRows" by (simp add: console_ok_def)
  have "length (buffer (NewLine con) ! r) = kColumns + 1 \<and> buffer (NewLine con) ! r ! (kColumns - 1) = 0 \<and> buffer (NewLine con) ! r ! kColumns = 0"
    if r: "r < kRows" for r
  proof (cases "cursor_row con < kRows - 1")
    case True
    then show ?thesis using ok r by (simp add: NewLine_buffer [OF b] console_ok_def)
  next
    case False
    have "(tl (buffer con) @ [blank_row]) ! r = (if r < kRows - 1 then buffer con ! Suc r else blank_row)"
      using b r by (auto simp: nth_append nth_tl layout)
    with False ok r show ?thesis by (simp add: NewLine_buffer [OF b] console_ok_def blank_row_ok blank_row_layout layout)
  qed
  moreover have "length (buffer (NewLine con)) = kRows" using b by (simp add: NewLine_buffer [OF b] layout)
  ultimately show ?thesis using ok by (simp add: console_ok_def NewLine_cursor layout)
qed

lemma console_ok_PutChar: "console_ok con \<Longrightarrow> console_ok (PutChar c con)"
proof -
  assume ok: "console_ok con"
  show ?thesis
  proof (cases "c = 0x0a \<or> c = 0x0d \<or> \<not> cursor_column con < kColumns - 1")
    case True
    then show ?thesis using ok console_ok_NewLine [OF ok] by (simp add: PutChar_def) (auto simp: console_ok_def layout)
  next
    case False
    with ok show ?thesis by (auto simp: PutChar_def console_ok_def nth_list_update layout)
  qed
qed

lemma console_ok_PutString: "console_ok con \<Longrightarrow> console_ok (PutString s con)"
  by (induction s con rule: PutString.induct) (simp_all add: console_ok_PutChar)

lemma console_ok_Clear: "console_ok con \<Longrightarrow> console_ok (Clear con)"
  by (simp add: Clear_def console_ok_def blank_row_layout layout)

lemma console_ok_new: "console_ok (InitializeConsole cfg font fb)"
  by (simp add: InitializeConsole_def new_Console_def console_ok_def blank_row_layout layout)

section \<open>The console as the end of a log\<close>

text \<open>
  The specification: a log of all lines that were ever begun and a column in the last one.  A line has 79
  columns; characters beyond them are dropped, and a carriage return goes back to the first column.
\<close>

definition log_put :: "u8 \<Rightarrow> u8 list list \<times> nat \<Rightarrow> u8 list list \<times> nat" where
  "log_put c = (\<lambda>(ls, col).
     if c = 0x0a then (ls @ [blank_row], 0)
     else if c = 0x0d then (ls, 0)
     else if col < kColumns - 1 then (butlast ls @ [(last ls)[col := c]], col + 1)
     else (ls, col))"

definition shows_log :: "Console \<Rightarrow> u8 list list \<times> nat \<Rightarrow> bool" where
  "shows_log con = (\<lambda>(ls, col).
     ls \<noteq> [] \<and> cursor_column con = col \<and> cursor_row con = min (length ls) kRows - 1
     \<and> buffer con = drop (length ls - kRows) ls @ replicate (kRows - length ls) blank_row)"

lemma drop_update_last:
  "ls \<noteq> [] \<Longrightarrow> n < length ls \<Longrightarrow> drop n (butlast ls @ [x]) = (drop n ls)[length ls - n - 1 := x]"
  by (induction ls rule: rev_induct) (auto simp: list_update_append drop_Cons')

lemma PutChar_log:
  assumes ok: "console_ok con" and sl: "shows_log con L"
  shows "shows_log (PutChar c con) (log_put c L)"
proof -
  obtain ls col where L: "L = (ls, col)" by (cases L)
  from sl L have n: "ls \<noteq> []" "cursor_column con = col" and r: "cursor_row con = min (length ls) kRows - 1"
    and b: "buffer con = drop (length ls - kRows) ls @ replicate (kRows - length ls) blank_row" by (simp_all add: shows_log_def)
  have len: "length (buffer con) = kRows" using ok by (simp add: console_ok_def)
  consider "c = 0x0a" | "c = 0x0d" | "c \<noteq> 0x0a" "c \<noteq> 0x0d" "col < kColumns - 1" | "c \<noteq> 0x0a" "c \<noteq> 0x0d" "\<not> col < kColumns - 1" by blast
  then show ?thesis
  proof cases
    case 1
    show ?thesis
    proof (cases "length ls < kRows")
      case True
      then have "replicate (kRows - length ls) blank_row = blank_row # replicate (kRows - Suc (length ls)) blank_row"
        by (metis Suc_diff_Suc replicate_Suc)
      with 1 L n r b True NewLine_buffer [OF len] show ?thesis
        by (auto simp: PutChar_def log_put_def shows_log_def NewLine_cursor layout)
    next
      case False
      then have "tl (drop (length ls - kRows) ls) = drop (Suc (length ls) - kRows) ls" by (simp add: tl_drop drop_Suc [symmetric] Suc_diff_le)
      with 1 L n r b False NewLine_buffer [OF len] show ?thesis
        by (auto simp: PutChar_def log_put_def shows_log_def NewLine_cursor layout)
    qed
  next
    case 2
    with L n r b show ?thesis by (simp add: PutChar_def log_put_def shows_log_def)
  next
    case 3
    let ?n = "length ls - kRows"
    have row: "cursor_row con = length ls - ?n - 1" "cursor_row con < length (drop ?n ls)" using r n by (auto simp: layout min_def)
    have last: "buffer con ! cursor_row con = last ls" using b row n by (simp add: nth_append last_conv_nth)
    have "?n < length ls" using n by (simp add: layout)
    from drop_update_last [OF n(1) this, of "(last ls)[col := c]"] row b last
    have "(buffer con)[cursor_row con := (buffer con ! cursor_row con)[col := c]]
        = drop ?n (butlast ls @ [(last ls)[col := c]]) @ replicate (kRows - length ls) blank_row"
      by (simp add: list_update_append)
    with 3 L n r show ?thesis by (simp add: PutChar_def log_put_def shows_log_def)
  next
    case 4
    with L n r b show ?thesis by (simp add: PutChar_def log_put_def shows_log_def)
  qed
qed

lemma PutString_log:
  "console_ok con \<Longrightarrow> shows_log con L \<Longrightarrow> shows_log (PutString s con) (fold log_put (takeWhile (\<lambda>c. c \<noteq> 0) s) L)"
  by (induction s arbitrary: con L) (simp_all add: PutChar_log console_ok_PutChar)

section \<open>Properties\<close>


end
