(* ===== verification/KernelMain.thy ===== *)
theory KernelMain
  imports Keyboard Timers Console
begin

text \<open>
  \<^verbatim>\<open>kernel/printk.cpp\<close> and the loop of \<open>KernelMainNewStack\<close> in \<^verbatim>\<open>kernel/Main.cpp\<close>: formatted printing on the
  console, and the main task that hands keys to the terminal and rearms timers.
\<close>

section \<open>Formatted printing\<close>

text \<open>Decimal numbers as \<open>%lu\<close> and \<open>%d\<close> print them.\<close>

fun dec :: "nat \<Rightarrow> u8 list" where
  "dec n = (if n < 10 then [of_nat (48 + n)] else dec (n div 10) @ [of_nat (48 + n mod 10)])"

declare dec.simps [simp del]

definition fmt_d :: "int \<Rightarrow> u8 list" where
  "fmt_d i = (if i < 0 then 45 # dec (nat (- i)) else dec (nat i))"

text \<open>\<open>vsprintf\<close> does not know the size of the array: a text that does not fit, with its end mark, runs over it.\<close>

definition kPrintkBytes :: nat where [layout]: "kPrintkBytes = 1024"

definition printk :: "u8 list \<Rightarrow> Console \<Rightarrow> Console option" where
  "printk s con = (if length s < kPrintkBytes then Some (PutString s con) else None)"

section \<open>The main task\<close>

type_synonym main_state = "TimerManager \<times> TaskManager \<times> TaskContext \<times> Console"

text \<open>
  One round of the loop: without a message the task sleeps.  The result of \<open>SendMessage\<close> is ignored, and
  messages of other types have no case.
\<close>

definition main_round :: "nat \<Rightarrow> nat \<Rightarrow> main_state \<Rightarrow> main_state option" where
  "main_round main_task terminal_task = (\<lambda>(m, tm, cpu, con).
     case ReceiveMessage main_task tm of
       None \<Rightarrow> None
     | Some (tm1, None) \<Rightarrow> map_option (\<lambda>(tm2, cpu'). (m, tm2, cpu', con)) (Sleep main_task (tm1, cpu))
     | Some (tm1, Some (kTimerTimeout to v)) \<Rightarrow>
         map_option (\<lambda>con'. (if v > 0 then AddTimer \<lparr>timeout = to + 100, tvalue = v\<rparr> m else m, tm1, cpu, con'))
           (printk (ascii ''Timer: timeout = '' @ dec (unat to) @ ascii '', value = '' @ fmt_d v @ [10]) con)
     | Some (tm1, Some (kKeyboardPush k)) \<Rightarrow>
         map_option (\<lambda>r. case r of Inl _ \<Rightarrow> (m, tm1, cpu, con) | Inr tm2 \<Rightarrow> (m, tm2, cpu, con))
           (SendMessage terminal_task (kKeyboardPush k) tm1)
     | Some (tm1, Some _) \<Rightarrow> Some (m, tm1, cpu, con))"

fun main_rounds :: "nat \<Rightarrow> nat \<Rightarrow> nat \<Rightarrow> main_state \<Rightarrow> main_state option" where
  "main_rounds a b 0 s = Some s"
| "main_rounds a b (Suc n) s = Option.bind (main_round a b s) (main_rounds a b n)"

section \<open>Lengths of printed numbers\<close>

lemma length_dec: "n < 10 ^ Suc k \<Longrightarrow> length (dec n) \<le> Suc k"
proof (induction k arbitrary: n)
  case 0
  then show ?case by (simp add: dec.simps)
next
  case (Suc k)
  then have "n div 10 < 10 ^ Suc k" by (simp add: less_mult_imp_div_less)
  from Suc.IH [OF this] show ?case by (simp add: dec.simps [of n])
qed

lemma length_dec_u64: "length (dec (unat (w :: u64))) \<le> 20"
proof -
  have "unat w < 10 ^ Suc 19" using unsigned_less [of w, where 'a = nat] by simp
  from length_dec [OF this] show ?thesis by simp
qed

section \<open>Messages through the main task\<close>

text \<open>The terminal gets the keys at the front of the queue of the main task; timer messages are handled by the way.\<close>

fun keys_of :: "Message list \<Rightarrow> Message list" where
  "keys_of [] = []"
| "keys_of (kKeyboardPush k # ms) = kKeyboardPush k # keys_of ms"
| "keys_of (m # ms) = keys_of ms"

lemma keys_of_append: "keys_of (xs @ ys) = keys_of xs @ keys_of ys"
  by (induction xs rule: keys_of.induct) simp_all

lemma keys_of_keys [simp]: "keys_of (map kKeyboardPush ks) = map kKeyboardPush ks"
  by (induction ks) simp_all

text \<open>Timer values are \<open>int\<close>s, so their text fits.\<close>

definition int_values :: "Message list \<Rightarrow> bool" where
  "int_values ms \<longleftrightarrow> (\<forall>to v. kTimerTimeout to v \<in> set ms \<longrightarrow> - (2 ^ 31) \<le> v \<and> v < 2 ^ 31)"

lemma length_fmt_d: "- (2 ^ 31) \<le> v \<Longrightarrow> v < 2 ^ 31 \<Longrightarrow> length (fmt_d v) \<le> 11"
proof -
  assume "- (2 ^ 31) \<le> v" "v < 2 ^ 31"
  then have "nat v < 10 ^ Suc 9" "nat (- v) < 10 ^ Suc 9" by (simp_all add: nat_less_iff)
  from this [THEN length_dec] show ?thesis by (simp add: fmt_d_def)
qed

lemma main_round_run:
  assumes inv: "sched_inv tm" and t: "find_task tm i = Some t" "msgs t = x # xs" and u: "find_task tm j = Some u" "i \<noteq> j"
    and vals: "int_values (msgs t)"
  shows "\<exists>m' tm' con' u'. main_round i j (m, tm, cpu, con) = Some (m', tm', cpu, con') \<and> sched_inv tm'
    \<and> CurrentTask tm' = CurrentTask tm
    \<and> find_task tm' i = Some (t\<lparr>msgs := xs\<rparr>) \<and> find_task tm' j = Some u' \<and> msgs u' = msgs u @ keys_of [x]"
proof -
  from ReceiveMessage_run [OF inv t(1)] t(2) obtain tm1 where
    r: "ReceiveMessage i tm = Some (tm1, Some x)" "sched_inv tm1" "CurrentTask tm1 = CurrentTask tm"
      "\<And>k. find_task tm1 k = (if k = i then Some (t\<lparr>msgs := xs\<rparr>) else find_task tm k)" by auto
  show ?thesis
  proof (cases x)
    case (kTimerTimeout to v)
    let ?s = "ascii ''Timer: timeout = '' @ dec (unat to) @ ascii '', value = '' @ fmt_d v @ [10]"
    have "length (fmt_d v) \<le> 11" using vals t(2) kTimerTimeout by (auto simp: int_values_def intro: length_fmt_d)
    then have "length ?s < kPrintkBytes" using length_dec_u64 [of to] by (simp add: ascii_def layout)
    then have "printk ?s con = Some (PutString ?s con)" by (simp add: printk_def)
    with r u kTimerTimeout show ?thesis by (simp add: main_round_def)
  next
    case (kKeyboardPush k)
    have "find_task tm1 j = Some u" using r(4) u by simp
    from SendMessage_run [OF r(2) this, of "kKeyboardPush k"] r u kKeyboardPush show ?thesis
      by (auto simp: main_round_def)
  next
    case (kPipe d n)
    with r u show ?thesis by (simp add: main_round_def)
  qed
qed

lemma main_rounds_run:
  assumes "sched_inv tm" and "find_task tm i = Some t" and "find_task tm j = Some u" "i \<noteq> j" and "int_values (msgs t)"
  shows "\<exists>m' tm' con' t' u'. main_rounds i j (length (msgs t)) (m, tm, cpu, con) = Some (m', tm', cpu, con') \<and> sched_inv tm'
    \<and> CurrentTask tm' = CurrentTask tm
    \<and> find_task tm' i = Some t' \<and> msgs t' = [] \<and> find_task tm' j = Some u' \<and> msgs u' = msgs u @ keys_of (msgs t)"
  using assms
proof (induction "msgs t" arbitrary: m tm con t u)
  case Nil
  then show ?case by (metis append_Nil2 keys_of.simps(1) length_0_conv main_rounds.simps(1))
next
  case (Cons x xs)
  from main_round_run [OF Cons.prems(1,2) Cons.hyps(2) [symmetric] Cons.prems(3-5), of m cpu con] obtain m1 tm1 con1 u1 where
    one: "main_round i j (m, tm, cpu, con) = Some (m1, tm1, cpu, con1)" "sched_inv tm1" "CurrentTask tm1 = CurrentTask tm"
      "find_task tm1 i = Some (t\<lparr>msgs := xs\<rparr>)" "find_task tm1 j = Some u1" "msgs u1 = msgs u @ keys_of [x]" by blast
  have "int_values (msgs (t\<lparr>msgs := xs\<rparr>))" using Cons.prems(5) by (auto simp: int_values_def simp flip: Cons.hyps(2))
  from Cons.hyps(1) [OF _ one(2,4,5) Cons.prems(4) this, of m1 con1] one Cons.hyps(2)
    keys_of_append [of "[x]" xs] show ?case by (cases "msgs t") auto
qed

end
