(* ===== verification/FileDescriptors.thy ===== *)
theory FileDescriptors
  imports Pipes FatFiles KernelMain IdentityMap
begin

text \<open>
  \<^verbatim>\<open>kernel/file.hpp\<close>, \<^verbatim>\<open>kernel/file.cpp\<close> and \<open>TerminalFileDescriptor\<close> of \<^verbatim>\<open>kernel/terminal.cpp\<close>: the kinds
  of file descriptors, and the state of the whole kernel that their operations change.

  A \<open>shared_ptr<FileDescriptor>\<close> is the number of its object in \<open>objects\<close>; objects are not removed.  \<open>stack_garbage\<close>
  is what memory holds that the source has not initialised.
\<close>

section \<open>The state of the kernel\<close>

datatype FileDescriptor =
    TerminalFD nat
  | PipeFD PipeDescriptor
  | FatFD FatFileDescriptor

record Kernel =
  task_mgr :: TaskManager
  cpu :: TaskContext
  objects :: "FileDescriptor list"
  disk :: Volume
  screen :: Console
  paging :: Paging
  last_exit_code :: int
  stack_garbage :: memory

definition new_object :: "FileDescriptor \<Rightarrow> Kernel \<Rightarrow> Kernel \<times> nat" where
  "new_object fd k = (k\<lparr>objects := objects k @ [fd]\<rparr>, length (objects k))"

section \<open>The terminal\<close>

definition key_byte :: "u16 \<Rightarrow> u8" where
  "key_byte code = ucast (code AND kKeyCharMask)"

text \<open>
  The loop of \<open>TerminalFileDescriptor::Read\<close>.  Without a message it goes round until an interrupt brings one; the
  result \<open>None\<close> for the bytes marks this.  The length of the buffer is not looked at.
\<close>

partial_function (option) terminal_read :: "nat \<Rightarrow> TaskManager \<Rightarrow> Console \<Rightarrow> (TaskManager \<times> Console \<times> u8 list option) option" where
  "terminal_read task tm con =
     (case ReceiveMessage task tm of
        None \<Rightarrow> None
      | Some (tm1, None) \<Rightarrow> Some (tm1, con, None)
      | Some (tm1, Some (kKeyboardPush code)) \<Rightarrow>
          let c = key_byte code
          in if code AND kKeyCtrlMask \<noteq> 0
             then let con1 = PutString [0x5e, toupper c] con
                  in if c = 0x64 then Some (tm1, con1, Some []) else terminal_read task tm1 con1
             else Some (tm1, PutChar c con, Some [c])
      | Some (tm1, Some _) \<Rightarrow> terminal_read task tm1 con)"

definition terminal_write :: "u8 list \<Rightarrow> Console \<Rightarrow> Console" where
  "terminal_write buf con = fold PutChar buf con"

section \<open>Virtual functions\<close>

text \<open>
  \<open>fd->Read(buf, len)\<close>: the bytes that it stores at \<open>buf\<close>, or nothing while the call waits.
\<close>

definition FD_Read :: "nat \<Rightarrow> nat \<Rightarrow> Kernel \<Rightarrow> (Kernel \<times> u8 list option) option" where
  "FD_Read i len k =
     (if i < length (objects k)
      then case objects k ! i of
        TerminalFD task \<Rightarrow>
          map_option (\<lambda>(tm, con, bs). (k\<lparr>task_mgr := tm, screen := con\<rparr>, bs)) (terminal_read task (task_mgr k) (screen k))
      | PipeFD fd \<Rightarrow>
          map_option (\<lambda>(fd', (tm, c), bs). (k\<lparr>task_mgr := tm, cpu := c, objects := (objects k)[i := PipeFD fd']\<rparr>, bs))
            (Pipe_Read len fd (task_mgr k, cpu k))
      | FatFD fd \<Rightarrow>
          map_option (\<lambda>(bs, fd'). (k\<lparr>objects := (objects k)[i := FatFD fd']\<rparr>, Some bs)) (Read len fd (disk k))
      else None)"

definition FD_Write :: "nat \<Rightarrow> memory \<Rightarrow> nat \<Rightarrow> Kernel \<Rightarrow> (Kernel \<times> nat) option" where
  "FD_Write i buf len k =
     (if i < length (objects k)
      then case objects k ! i of
        TerminalFD _ \<Rightarrow> Some (k\<lparr>screen := terminal_write (bytes buf 0 len) (screen k)\<rparr>, len)
      | PipeFD fd \<Rightarrow> map_option (\<lambda>(tm, n). (k\<lparr>task_mgr := tm\<rparr>, n)) (Pipe_Write fd (bytes buf 0 len) (task_mgr k))
      | FatFD fd \<Rightarrow>
          map_option (\<lambda>(n, fd', v). (k\<lparr>disk := v, objects := (objects k)[i := FatFD fd']\<rparr>, n)) (Write buf len fd (disk k))
      else None)"

text \<open>\<open>PrintToFD\<close>: the text is formatted into an array of 128 characters, whatever its length.\<close>

definition kPrintToFDBytes :: nat where [layout]: "kPrintToFDBytes = 128"

definition PrintToFD :: "nat \<Rightarrow> u8 list \<Rightarrow> Kernel \<Rightarrow> (Kernel \<times> nat) option" where
  "PrintToFD i s k =
     (if length s < kPrintToFDBytes
      then map_option (\<lambda>(k', _). (k', length s)) (FD_Write i (put_bytes 0 (s @ [0]) (stack_garbage k)) (length s) k)
      else None)"

definition printk_k :: "u8 list \<Rightarrow> Kernel \<Rightarrow> Kernel option" where
  "printk_k s k = map_option (\<lambda>con. k\<lparr>screen := con\<rparr>) (printk s (screen k))"

section \<open>The line discipline of the terminal\<close>

text \<open>
  What a read takes from the queue: it consumes control keys, which are echoed, and everything that is not a key,
  up to a plain key or the end mark; it returns what remains, what it echoes, and the bytes.
\<close>

fun line_input :: "Message list \<Rightarrow> Message list \<times> u8 list \<times> u8 list option" where
  "line_input [] = ([], [], None)"
| "line_input (kKeyboardPush code # ms) =
     (let c = ucast code :: u8
      in if bit code 9
         then let e = (if c = 0 then [0x5e] else [0x5e, toupper c])
              in if c = 0x64 then (ms, e, Some []) else (case line_input ms of (r, es, b) \<Rightarrow> (r, e @ es, b))
         else (ms, [c], Some [c]))"
| "line_input (m # ms) = line_input ms"

lemma key_byte_eq: "key_byte k = ucast k"
proof -
  have "bit (0xff :: u16) n" if "n < 8" for n using that by (auto simp: less_Suc_eq numeral_eq_Suc)
  then show ?thesis unfolding key_byte_def kKeyCharMask_def by (intro bit_word_eqI) (simp add: bit_simps)
qed

lemma ctrl_bit: "k AND kKeyCtrlMask \<noteq> 0 \<longleftrightarrow> bit k 9"
  using and_single_bit_nonzero [of k 9] by (simp add: layout)

lemma PutString_nonzero: "0 \<notin> set s \<Longrightarrow> PutString s con = fold PutChar s con"
  by (induction s arbitrary: con) auto

lemma echo_ctrl: "PutString [0x5e, toupper c] con = fold PutChar (if c = 0 then [0x5e] else [0x5e, toupper c]) con"
proof -
  have "toupper c = 0 \<longleftrightarrow> c = 0"
  proof (cases "0x61 \<le> c \<and> c \<le> 0x7a")
    case True
    then have "c - 0x20 \<noteq> 0" "c \<noteq> 0" by (auto simp: word_le_nat_alt)
    with True show ?thesis by (simp add: toupper_def)
  qed (auto simp: toupper_def)
  then show ?thesis by simp
qed

lemma terminal_read_run:
  assumes "sched_inv tm" and "find_task tm i = Some t" and "line_input (msgs t) = (rest, echo, bs)"
  shows "\<exists>tm'. terminal_read i tm con = Some (tm', fold PutChar echo con, bs) \<and> sched_inv tm' \<and> CurrentTask tm' = CurrentTask tm
    \<and> (\<forall>j. find_task tm' j = (if j = i then Some (t\<lparr>msgs := rest\<rparr>) else find_task tm j))"
  using assms
proof (induction "msgs t" arbitrary: tm t con echo)
  case Nil
  from Nil.hyps [symmetric] Nil.prems(3) have l: "rest = []" "echo = []" "bs = None" by simp_all
  from ReceiveMessage_run [OF Nil.prems(1,2)] Nil.hyps [symmetric] obtain tm1 where
    "ReceiveMessage i tm = Some (tm1, None)" "sched_inv tm1" "CurrentTask tm1 = CurrentTask tm"
    "\<forall>j. find_task tm1 j = (if j = i then Some (t\<lparr>msgs := []\<rparr>) else find_task tm j)" by auto
  with l show ?case by (subst terminal_read.simps) simp
next
  case (Cons x xs)
  note ms = Cons.hyps(2) [symmetric]
  let ?t = "t\<lparr>msgs := xs\<rparr>"
  from ReceiveMessage_run [OF Cons.prems(1,2)] ms obtain tm1 where
    r: "ReceiveMessage i tm = Some (tm1, Some x)" "sched_inv tm1" "CurrentTask tm1 = CurrentTask tm"
      "\<forall>j. find_task tm1 j = (if j = i then Some ?t else find_task tm j)" by auto
  have again: "\<exists>tm'. terminal_read i tm1 con1 = Some (tm', fold PutChar es con1, bs) \<and> sched_inv tm' \<and> CurrentTask tm' = CurrentTask tm
      \<and> (\<forall>j. find_task tm' j = (if j = i then Some (t\<lparr>msgs := rest\<rparr>) else find_task tm j))"
    if "line_input xs = (rest, es, bs)" for con1 es
  proof -
    from Cons.hyps(1) [of ?t tm1 es con1] r that obtain tm' where
      "terminal_read i tm1 con1 = Some (tm', fold PutChar es con1, bs)" "sched_inv tm'" "CurrentTask tm' = CurrentTask tm"
      "\<forall>j. find_task tm' j = (if j = i then Some (?t\<lparr>msgs := rest\<rparr>) else find_task tm1 j)" by auto
    with r(4) show ?thesis by (intro exI [of _ tm']) simp
  qed
  show ?case
  proof (cases "\<exists>code. x = kKeyboardPush code")
    case True
    then obtain code where x: "x = kKeyboardPush code" by blast
    let ?c = "ucast code :: u8"
    have step: "terminal_read i tm con = (if bit code 9
        then if ?c = 0x64 then Some (tm1, PutString [0x5e, toupper ?c] con, Some [])
             else terminal_read i tm1 (PutString [0x5e, toupper ?c] con)
        else Some (tm1, PutChar ?c con, Some [?c]))"
      by (subst terminal_read.simps) (simp add: r(1) x Let_def ctrl_bit key_byte_eq)
    obtain r1 e1 b1 where li: "line_input xs = (r1, e1, b1)" by (cases "line_input xs")
    consider "\<not> bit code 9" | "bit code 9" "?c = 0x64" | "bit code 9" "?c \<noteq> 0x64" by blast
    then show ?thesis
    proof cases
      case 1
      with Cons.prems(3) ms x have "rest = xs" "echo = [?c]" "bs = Some [?c]" by (auto simp: Let_def)
      with 1 step r show ?thesis by simp
    next
      case 2
      with Cons.prems(3) ms x have "rest = xs" "echo = [0x5e, toupper ?c]" "bs = Some []" by (auto simp: Let_def)
      with 2 step r echo_ctrl [of ?c con] show ?thesis by simp
    next
      case 3
      with Cons.prems(3) ms x li have l: "rest = r1" "bs = b1" "echo = (if ?c = 0 then [0x5e] else [0x5e, toupper ?c]) @ e1"
        by (auto simp: Let_def split: if_splits)
      have e: "fold PutChar e1 (PutString [0x5e, toupper ?c] con) = fold PutChar echo con"
        unfolding l(3) echo_ctrl by (simp only: fold_append comp_apply)
      have "terminal_read i tm con = terminal_read i tm1 (PutString [0x5e, toupper ?c] con)"
        unfolding step using 3 by (simp only: if_True if_False)
      with again [of e1 "PutString [0x5e, toupper ?c] con"] li show ?thesis unfolding e l(1,2) by (simp only:)
    qed
  next
    case False
    then have "line_input (x # xs) = line_input xs" "terminal_read i tm con = terminal_read i tm1 con"
      using r(1) by (cases x; simp; subst terminal_read.simps; simp)+
    with again Cons.prems(3) ms show ?thesis by simp
  qed
qed

section \<open>Properties\<close>

text \<open>
  C22. Reading from the terminal follows its line discipline: for any queue of messages the call takes exactly what the
  specification takes, echoes it on the console, and returns the byte of the next plain key, nothing at
  Ctrl-D, and waits when the queue ends first; other tasks and descriptors do not change.
\<close>

theorem terminal_line_discipline:
  assumes "reachable (task_mgr k, cpu k)" and "i < length (objects k)" "objects k ! i = TerminalFD j"
    and "find_task (task_mgr k) j = Some t" and "line_input (msgs t) = (rest, echo, bs)"
  shows "\<exists>tm'. FD_Read i len k = Some (k\<lparr>task_mgr := tm', screen := fold PutChar echo (screen k)\<rparr>, bs) \<and> sched_inv tm'
    \<and> find_task tm' j = Some (t\<lparr>msgs := rest\<rparr>) \<and> (\<forall>m. m \<noteq> j \<longrightarrow> find_task tm' m = find_task (task_mgr k) m)"
proof -
  have "sched_inv (task_mgr k)" using reachable_sched_inv [OF assms(1)] by simp
  from terminal_read_run [OF this assms(4,5), of "screen k"] assms(2,3) show ?thesis by (auto simp: FD_Read_def)
qed

lemma reachable_send:
  assumes "reachable (tm, c)" and "find_task tm i = Some t"
  shows "\<exists>tm'. reachable (tm', c) \<and> find_task tm' i = Some (t\<lparr>msgs := msgs t @ [m], running := True\<rparr>)
    \<and> CurrentTask tm' = CurrentTask tm \<and> (\<forall>j. j \<noteq> i \<longrightarrow> find_task tm' j = find_task tm j)"
proof -
  have "sched_inv tm" using reachable_sched_inv [OF assms(1)] by simp
  from SendMessage_run [OF this assms(2), of m] obtain tm' where
    "SendMessage i m tm = Some (Inr tm')" "CurrentTask tm' = CurrentTask tm"
    "\<forall>j. find_task tm' j = (if j = i then Some (t\<lparr>msgs := msgs t @ [m], running := True\<rparr>) else find_task tm j)" by blast
  then show ?thesis using reachable.step [OF assms(1) sched_step.send] by (intro exI [of _ tm']) auto
qed

text \<open>A kernel with a terminal on the descriptor of object 0.\<close>

definition sample_kernel :: "TaskManager \<Rightarrow> Kernel" where
  "sample_kernel tm =
     \<lparr>task_mgr = tm, cpu = blank_context, objects = [TerminalFD 3], disk = sample_volume,
      screen = InitializeConsole vga_config bar_font (\<lambda>_. 0), paging = demo_paging, last_exit_code = 0,
      stack_garbage = (\<lambda>_. 0xcc)\<rparr>"

text \<open>Ctrl-A, which is echoed, and then \<open>x\<close> are typed.\<close>

theorem terminal_line_discipline_witness:
  "\<exists>tm tm' t. FD_Read 0 10 (sample_kernel tm)
      = Some ((sample_kernel tm)\<lparr>task_mgr := tm', screen := fold PutChar [0x5e, 0x41, 0x78] (screen (sample_kernel tm))\<rparr>, Some [0x78])
    \<and> find_task tm' 3 = Some t \<and> msgs t = []"
proof -
  obtain t where t: "find_task terminal_manager 3 = Some t" "msgs t = []"
    using terminal_manager_facts by (auto simp: new_Task_def InitContext_def)
  from reachable_send [OF terminal_manager_reachable t(1), of "kKeyboardPush 0x261"] obtain tm1 where
    "reachable (tm1, blank_context)" "find_task tm1 3 = Some (t\<lparr>msgs := msgs t @ [kKeyboardPush 0x261], running := True\<rparr>)" by blast
  from reachable_send [OF this, of "kKeyboardPush 0x78"] t(2) obtain tm where
    tm: "reachable (tm, blank_context)" "find_task tm 3 = Some (t\<lparr>msgs := [kKeyboardPush 0x261, kKeyboardPush 0x78], running := True\<rparr>)" by auto
  let ?u = "t\<lparr>msgs := [kKeyboardPush 0x261, kKeyboardPush 0x78], running := True\<rparr>"
  let ?k = "sample_kernel tm"
  have l: "line_input (msgs ?u) = ([], [0x5e, 0x41, 0x78], Some [0x78])"
  proof -
    have "line_input [kKeyboardPush 0x261, kKeyboardPush 0x78] = ([], [0x5e, 0x41, 0x78], Some [0x78])" by code_simp
    then show ?thesis by simp
  qed
  have k: "reachable (task_mgr ?k, cpu ?k)" "0 < length (objects ?k)" "objects ?k ! 0 = TerminalFD 3" "find_task (task_mgr ?k) 3 = Some ?u"
    using tm by (simp_all add: sample_kernel_def)
  from terminal_line_discipline [OF k l, of 10] obtain tm' where
    "FD_Read 0 10 ?k = Some (?k\<lparr>task_mgr := tm', screen := fold PutChar [0x5e, 0x41, 0x78] (screen ?k)\<rparr>, Some [0x78])"
    "find_task tm' 3 = Some (?u\<lparr>msgs := []\<rparr>)" by blast
  then show ?thesis by (intro exI [of _ tm] exI [of _ tm'] exI [of _ "?u\<lparr>msgs := []\<rparr>"] conjI) simp_all
qed

end
