(* ===== verification/Syscalls.thy ===== *)
theory Syscalls
  imports FileDescriptors ArgVector
begin

text \<open>
  \<^verbatim>\<open>kernel/syscall.cpp\<close>: the system calls.  They use the pointers of the program as they are, so an access to an
  address that is not mapped is a page fault in the kernel (\<open>None\<close>).  A call that waits for input has no
  result yet.
\<close>

section \<open>Results\<close>

record Result =
  result_value :: u64
  result_error :: int

definition EBADF :: int where "EBADF = 9"
definition E2BIG :: int where "E2BIG = 7"
definition ENOENT :: int where "ENOENT = 2"
definition EISDIR :: int where "EISDIR = 21"
definition ENOSPC :: int where "ENOSPC = 28"
definition O_ACCMODE :: u32 where "O_ACCMODE = 3"

lemmas errnos = EBADF_def E2BIG_def ENOENT_def EISDIR_def ENOSPC_def

abbreviation answer :: "Kernel \<Rightarrow> u64 \<Rightarrow> int \<Rightarrow> (Kernel \<times> Result option) option" where
  "answer k v e \<equiv> Some (k, Some \<lparr>result_value = v, result_error = e\<rparr>)"

section \<open>Memory of the program\<close>

text \<open>A string of the program, up to its end mark.\<close>

partial_function (option) vcstring :: "Paging \<Rightarrow> LinearAddress4Level \<Rightarrow> u8 list option" where
  "vcstring p a =
     (case vread p a of
        None \<Rightarrow> None
      | Some b \<Rightarrow> if b = 0 then Some [] else Option.bind (vcstring p (a + 1)) (\<lambda>s. Some (b # s)))"

text \<open>
  The buffer of a write as memory.  Its \<open>n\<close> bytes must be mapped; a byte behind them that is not mapped reads as 0
  here.
\<close>

definition user_buffer :: "Paging \<Rightarrow> LinearAddress4Level \<Rightarrow> nat \<Rightarrow> memory option" where
  "user_buffer p a n =
     (if \<forall>i\<in>set [0..<n]. vread p (a + of_nat i) \<noteq> None
      then Some (\<lambda>i. case vread p (a + of_nat i) of Some b \<Rightarrow> b | None \<Rightarrow> 0)
      else None)"

section \<open>System calls\<close>

text \<open>The open file \<open>fd\<close> of the current task.\<close>

definition open_file :: "Task \<Rightarrow> nat \<Rightarrow> nat option" where
  "open_file t fd = (if length (files t) \<le> fd then None else files t ! fd)"

definition current_task :: "Kernel \<Rightarrow> Task option" where
  "current_task k = Option.bind (CurrentTask (task_mgr k)) (find_task (task_mgr k))"

definition sys_read :: "u64 \<Rightarrow> u64 \<Rightarrow> u64 \<Rightarrow> Kernel \<Rightarrow> (Kernel \<times> Result option) option" where
  "sys_read arg1 arg2 arg3 k =
     (let fd = sint (ucast arg1 :: u32); count = unat arg3
      in Option.bind (current_task k) (\<lambda>task.
           if fd < 0 then answer k 0 EBADF
           else case open_file task (nat fd) of
             None \<Rightarrow> answer k 0 EBADF
           | Some f \<Rightarrow>
               Option.bind (FD_Read f count k) (\<lambda>(k1, r).
                 case r of
                   None \<Rightarrow> Some (k1, None)
                 | Some bs \<Rightarrow>
                     Option.bind (vmemcpy arg2 bs (paging k1)) (\<lambda>p.
                       answer (k1\<lparr>paging := p\<rparr>) (of_nat (length bs)) 0))))"

definition sys_write :: "u64 \<Rightarrow> u64 \<Rightarrow> u64 \<Rightarrow> Kernel \<Rightarrow> (Kernel \<times> Result option) option" where
  "sys_write arg1 arg2 arg3 k =
     (if arg3 > 1024 then answer k 0 E2BIG
      else Option.bind (current_task k) (\<lambda>task.
             case open_file task (unat arg1) of
               None \<Rightarrow> answer k 0 EBADF
             | Some f \<Rightarrow>
                 Option.bind (user_buffer (paging k) arg2 (unat arg3)) (\<lambda>buf.
                 Option.bind (FD_Write f buf (unat arg3) k) (\<lambda>(k1, n). answer k1 (of_nat n) 0))))"

text \<open>The last two statements of \<open>open\<close>.\<close>

definition open_entry :: "nat \<Rightarrow> Kernel \<Rightarrow> (Kernel \<times> Result option) option" where
  "open_entry a k =
     Option.bind (current_task k) (\<lambda>task.
       let (task1, fd) = AllocateFD task;
           (k1, obj) = new_object (FatFD (new_FatFileDescriptor a)) k
       in answer (k1\<lparr>task_mgr := update_task (task_id task) (\<lambda>t. t\<lparr>files := (files task1)[fd := Some obj]\<rparr>) (task_mgr k1)\<rparr>)
            (of_nat fd) 0)"

definition at_stdin :: "u8 list" where
  "at_stdin = ascii ''@stdin''"

definition sys_open :: "u64 \<Rightarrow> u64 \<Rightarrow> Kernel \<Rightarrow> (Kernel \<times> Result option) option" where
  "sys_open arg1 arg2 k =
     (let flags = ucast arg2 :: u32
      in Option.bind (current_task k) (\<lambda>task.
         Option.bind (vcstring (paging k) arg1) (\<lambda>path.
           if path = at_stdin then answer k 0 0
           else Option.bind (FindFile path 0 (disk k)) (\<lambda>(file, post_slash).
             case file of
               None \<Rightarrow>
                 if flags AND O_ACCMODE = 0 then answer k 0 ENOENT
                 else (case CreateFile path (disk k) of
                     None \<Rightarrow> None
                   | Some (Inl kIsDirectory) \<Rightarrow> answer k 0 EISDIR
                   | Some (Inl kNoSuchDirectory) \<Rightarrow> answer k 0 ENOENT
                   | Some (Inl kNoEnoughMemory) \<Rightarrow> answer k 0 ENOSPC
                   | Some (Inl _) \<Rightarrow> None
                   | Some (Inr (a, v)) \<Rightarrow> open_entry a (k\<lparr>disk := v\<rparr>))
             | Some a \<Rightarrow>
                 if attr (entry (disk k) a) \<noteq> kDirectory \<and> post_slash then answer k 0 ENOENT
                 else open_entry a k))))"

definition sys_exit :: "u64 \<Rightarrow> Kernel \<Rightarrow> (Kernel \<times> Result option) option" where
  "sys_exit arg1 k = Option.bind (current_task k) (\<lambda>task. answer k (os_stack_ptr task) (sint (ucast arg1 :: u32)))"

text \<open>
  \<open>syscall_table\<close> and the call through it in \<open>SyscallEntry\<close>, which takes the low 31 bits of the number as the
  index and does not check it.
\<close>

definition syscall_table :: "(u64 \<Rightarrow> u64 \<Rightarrow> u64 \<Rightarrow> Kernel \<Rightarrow> (Kernel \<times> Result option) option) list" where
  "syscall_table = [sys_read, sys_write, (\<lambda>a b _. sys_open a b), (\<lambda>a _ _. sys_exit a)]"

definition SyscallEntry :: "u64 \<Rightarrow> u64 \<Rightarrow> u64 \<Rightarrow> u64 \<Rightarrow> Kernel \<Rightarrow> (Kernel \<times> Result option) option" where
  "SyscallEntry rax arg1 arg2 arg3 k =
     (let i = unat (rax AND 0x7fffffff)
      in if i < length syscall_table then (syscall_table ! i) arg1 arg2 arg3 k else None)"

section \<open>Strings and buffers of the program\<close>

lemma vstring_Cons: "vstring p a (b # bs) \<Longrightarrow> vread p a = Some b \<and> vstring p (a + 1) bs"
proof -
  assume v: "vstring p a (b # bs)"
  have "vread p (a + 1 + of_nat i) = Some (bs ! i)" if "i < length bs" for i
    using v that unfolding vstring_def by (auto dest!: spec [of _ "Suc i"] simp: ac_simps)
  moreover have "vread p a = Some b" using v unfolding vstring_def by (auto dest: spec [of _ 0])
  ultimately show ?thesis by (simp add: vstring_def)
qed

lemma vcstring_run: "vstring p a (s @ [0]) \<Longrightarrow> 0 \<notin> set s \<Longrightarrow> vcstring p a = Some s"
proof (induction s arbitrary: a)
  case Nil
  then show ?case using vstring_Cons [of p a 0 "[]"] by (subst vcstring.simps) simp
next
  case (Cons b s)
  then show ?case using vstring_Cons [of p a b "s @ [0]"] by (subst vcstring.simps) simp
qed

lemma user_buffer_run:
  "vstring p a bs \<Longrightarrow> \<exists>buf. user_buffer p a (length bs) = Some buf \<and> bytes buf 0 (length bs) = bs"
  unfolding user_buffer_def vstring_def bytes_def by (auto intro!: nth_equalityI)

lemma vmemcpy_vstring:
  assumes "user_space p" and "user_block p a n" and "length bs \<le> n"
  shows "\<exists>p'. vmemcpy a bs p = Some p' \<and> user_space p' \<and> vstring p' a bs"
proof -
  have b: "user_half a" "unat a + length bs \<le> 2 ^ 64" and "user_block p a (length bs)"
    using assms(2,3) by (auto simp: user_block_def block_def)
  from vmemcpy_user [OF assms(1) this(3)] obtain p' where
    p': "vmemcpy a bs p = Some p'" "same_mapping p p'"
    "\<And>c. user_half c \<Longrightarrow> vread p' c = (if block a (length bs) c then Some (bs ! (unat c - unat a)) else vread p c)" by blast
  have "vread p' (a + of_nat i) = Some (bs ! i)" if i: "i < length bs" for i
  proof -
    have "unat (a + of_nat i) = unat a + i" using unat_add_small [of a i] b(2) i by simp
    with p'(3) [OF user_half_add [OF b(1)], of i] b(2) i show ?thesis by (simp add: block_def)
  qed
  with p' show ?thesis by (auto simp: vstring_def same_mapping_def)
qed

section \<open>Opening a file\<close>

text \<open>The lowest free number of a list of open files.\<close>

definition lowest_free :: "nat option list \<Rightarrow> nat \<Rightarrow> bool" where
  "lowest_free fs fd \<longleftrightarrow> fd \<le> length fs \<and> (fd < length fs \<longrightarrow> fs ! fd = None) \<and> (\<forall>j<fd. fs ! j \<noteq> None)"

lemma AllocateFD_run:
  "\<exists>fd. AllocateFD t = (t\<lparr>files := (if fd = length (files t) then files t @ [None] else files t)\<rparr>, fd) \<and> lowest_free (files t) fd"
proof (cases "first_null 0 (files t)")
  case None
  with first_null_None [OF None] show ?thesis by (simp add: AllocateFD_def lowest_free_def)
next
  case (Some i)
  with first_null_Some [OF Some] show ?thesis by (intro exI [of _ i]) (auto simp: AllocateFD_def lowest_free_def)
qed

lemma open_entry_run:
  assumes t: "current_task k = Some t"
  shows "\<exists>fd k1 t1. open_entry a k = answer k1 (of_nat fd) 0 \<and> lowest_free (files t) fd
    \<and> current_task k1 = Some t1 \<and> open_file t1 fd = Some (length (objects k))
    \<and> (\<forall>j. j \<noteq> fd \<longrightarrow> open_file t1 j = open_file t j)
    \<and> objects k1 = objects k @ [FatFD (new_FatFileDescriptor a)] \<and> disk k1 = disk k \<and> paging k1 = paging k \<and> screen k1 = screen k
    \<and> (sched_inv (task_mgr k) \<longrightarrow> sched_inv (task_mgr k1))
    \<and> CurrentTask (task_mgr k1) = CurrentTask (task_mgr k)
    \<and> (\<forall>j. CurrentTask (task_mgr k) \<noteq> Some j \<longrightarrow> find_task (task_mgr k1) j = find_task (task_mgr k) j)"
proof -
  from t obtain i where i: "CurrentTask (task_mgr k) = Some i" "find_task (task_mgr k) i = Some t"
    by (auto simp: current_task_def bind_Some_iff)
  have id: "task_id t = i" by (rule find_task_id [OF i(2)])
  from AllocateFD_run [of t] obtain fd where
    fd: "AllocateFD t = (t\<lparr>files := (if fd = length (files t) then files t @ [None] else files t)\<rparr>, fd)" "lowest_free (files t) fd" by blast
  let ?fs = "(if fd = length (files t) then files t @ [None] else files t)[fd := Some (length (objects k))]"
  let ?tm = "update_task i (\<lambda>t. t\<lparr>files := ?fs\<rparr>) (task_mgr k)"
  let ?k = "k\<lparr>objects := objects k @ [FatFD (new_FatFileDescriptor a)], task_mgr := ?tm\<rparr>"
  have "open_entry a k = answer ?k (of_nat fd) 0"
    by (simp add: open_entry_def t fd(1) new_object_def id Let_def)
  moreover have "current_task ?k = Some (t\<lparr>files := ?fs\<rparr>)"
    using i by (simp add: current_task_def find_task_update)
  moreover have "open_file (t\<lparr>files := ?fs\<rparr>) fd = Some (length (objects k))"
    using fd(2) by (auto simp: open_file_def lowest_free_def)
  moreover have "open_file (t\<lparr>files := ?fs\<rparr>) j = open_file t j" if "j \<noteq> fd" for j
    using fd(2) that by (auto simp: open_file_def lowest_free_def nth_append)
  moreover have "sched_inv (task_mgr k) \<longrightarrow> sched_inv ?tm" by (auto intro: sched_inv_update)
  moreover have "\<forall>j. CurrentTask (task_mgr k) \<noteq> Some j \<longrightarrow> find_task ?tm j = find_task (task_mgr k) j"
    using i(1) by (auto simp: find_task_update)
  ultimately show ?thesis using fd(2)
    by (intro exI [of _ fd] exI [of _ ?k] exI [of _ "t\<lparr>files := ?fs\<rparr>"]) simp
qed

lemma sys_open_existing:
  assumes "current_task k = Some t" and "vstring (paging k) arg1 (path @ [0])" "0 \<notin> set path" "path \<noteq> at_stdin"
    and "FindFile path 0 (disk k) = Some (Some a, False)"
  shows "sys_open arg1 arg2 k = open_entry a k"
  using assms vcstring_run [OF assms(2,3)] by (simp add: sys_open_def)

section \<open>Reading and writing files\<close>

lemma sint_small: "n < 2 ^ 31 \<Longrightarrow> sint (ucast (of_nat n :: u64) :: u32) = int n"
proof -
  assume n: "n < 2 ^ 31"
  then have "unat (ucast (of_nat n :: u64) :: u32) = n"
    by (simp add: unsigned_ucast_eq unat_of_nat take_bit_nat_eq_self)
  then have "uint (ucast (of_nat n :: u64) :: u32) = int n" by (metis of_nat_unat)
  with n show ?thesis by (simp add: sint_uint signed_take_bit_int_eq_self)
qed

lemma sys_read_file:
  assumes t: "current_task k = Some t" and f: "open_file t fd = Some obj" "fd < 2 ^ 31"
    and o: "obj < length (objects k)" "objects k ! obj = FatFD f" and n: "n < 2 ^ 64"
    and r: "Read n f (disk k) = Some (bs, f')" and len: "length bs \<le> n"
    and p: "user_space (paging k)" "user_block (paging k) dst n"
  shows "\<exists>p'. sys_read (of_nat fd) dst (of_nat n) k
      = answer (k\<lparr>objects := (objects k)[obj := FatFD f'], paging := p'\<rparr>) (of_nat (length bs)) 0
    \<and> user_space p' \<and> vstring p' dst bs"
proof -
  from vmemcpy_vstring [OF p len] obtain p' where "vmemcpy dst bs (paging k) = Some p'" "user_space p'" "vstring p' dst bs" by blast
  with assms show ?thesis by (intro exI [of _ p']) (simp add: sys_read_def sint_small FD_Read_def unat_of_nat_u64)
qed

lemma sys_write_file:
  assumes t: "current_task k = Some t" and f: "open_file t fd = Some obj" "fd < 2 ^ 64"
    and o: "obj < length (objects k)" "objects k ! obj = FatFD f" and n: "length bs \<le> 1024"
    and s: "vstring (paging k) src bs"
    and w: "\<And>buf. bytes buf 0 (length bs) = bs \<Longrightarrow> \<exists>f' v'. Write buf (length bs) f (disk k) = Some (length bs, f', v') \<and> P f' v'"
  shows "\<exists>f' v'. sys_write (of_nat fd) src (of_nat (length bs)) k
      = answer (k\<lparr>disk := v', objects := (objects k)[obj := FatFD f']\<rparr>) (of_nat (length bs)) 0 \<and> P f' v'"
proof -
  from user_buffer_run [OF s] obtain buf where b: "user_buffer (paging k) src (length bs) = Some buf" "bytes buf 0 (length bs) = bs" by blast
  from w [OF b(2)] obtain f' v' where "Write buf (length bs) f (disk k) = Some (length bs, f', v')" "P f' v'" by blast
  moreover have "unat (of_nat (length bs) :: u64) = length bs" using n by (intro unat_of_nat_u64) simp
  moreover from this n have "\<not> (of_nat (length bs) :: u64) > 1024" by (simp add: word_less_nat_alt)
  ultimately show ?thesis using assms(1-6) b
    by (intro exI [of _ f'] exI [of _ v']) (simp add: sys_write_def FD_Write_def unat_of_nat_u64)
qed

lemma Write_keeps_reader:
  "Write buf n fd v = Some (r, fd', v') \<Longrightarrow> rd_off fd' = rd_off fd \<and> rd_cluster fd' = rd_cluster fd \<and> rd_cluster_off fd' = rd_cluster_off fd"
  by (auto simp: Write_def bind_Some_iff)

lemma new_block_run:
  assumes "file_home N v a d []" and "0 < n" "n \<le> cluster_size v" "n \<le> length (free_clusters 2 N v) * cluster_size v" "n < 2 ^ 32"
  shows "\<exists>f' v' cs'. Write buf n (new_FatFileDescriptor a) v = Some (n, f', v') \<and> file_home N v' a d cs' \<and> fat_entry f' = a
    \<and> unat (file_size (entry v' a)) = n \<and> n \<le> length cs' * cluster_size v'
    \<and> take n (volume.content v' cs') = bytes buf 0 n"
proof -
  let ?f = "new_FatFileDescriptor a"
  note new = fresh_descriptor(3,5,6) [of a]
  have h: "file_home N v (fat_entry ?f) d []" using assms(1) new by simp
  have fits: "n \<le> (if wr_cluster_off ?f = cluster_size v then cluster_size v else cluster_size v - wr_cluster_off ?f)"
    using assms(3) new by simp
  have room: "wr_off ?f + n \<le> (length [] + length (free_clusters 2 N v)) * cluster_size v" using assms(4) new by simp
  have size: "wr_off ?f + n < 2 ^ 32" using assms(5) new by simp
  show ?thesis
    using Write_run [OF h fresh_descriptor(2) assms(2) fits room size, of buf] unfolding new by (elim exE conjE) force
qed

section \<open>Properties\<close>


text \<open>
  A program with one page at the end of its address space, which holds the path \<open>file.txt\<close> and, behind it, three
  bytes to write; the file is empty.
\<close>

lemma program_page:
  "\<exists>p. user_space p \<and> user_block p 0xfffffffffffff000 4096
     \<and> vstring p 0xfffffffffffff000 (file_txt @ [0]) \<and> vstring p 0xfffffffffffff100 [7, 8, 9]"
proof -
  let ?a = "0xfffffffffffff000 :: u64"
  from args_page obtain s where s: "user_space s" "user_block s ?a 4096" by blast
  from page_copy [OF s, of 0 "file_txt @ [0]"] obtain s1 where
    s1: "same_mapping s s1" "\<forall>k<4096. vread s1 (?a + of_nat k) = (if k < 9 then Some ((file_txt @ [0]) ! k) else vread s (?a + of_nat k))"
    by (auto simp: file_txt_def)
  from s1(1) have "user_space s1" by (simp add: same_mapping_def)
  from page_copy [OF this user_block_same [OF s1(1) s(2)], of 256 "[7, 8, 9]"] obtain s2 where
    s2: "same_mapping s1 s2"
    "\<forall>k<4096. vread s2 (?a + of_nat k) = (if 256 \<le> k \<and> k < 259 then Some ([7, 8, 9] ! (k - 256)) else vread s1 (?a + of_nat k))"
    by auto
  have "vstring s2 (?a + of_nat 0) (file_txt @ [0])" by (rule vstringI) (use s1(2) s2(2) in \<open>simp add: file_txt_def\<close>)
  moreover have "vstring s2 (?a + of_nat 256) [7, 8, 9]" by (rule vstringI) (use s2(2) in simp)
  ultimately show ?thesis
    using s2(1) user_block_same [OF s2(1) user_block_same [OF s1(1) s(2)]] by (auto simp: same_mapping_def)
qed

lemma empty_file_found: "FindFile file_txt 0 empty_file_volume = Some (Some 128, False)"
proof -
  note sh = same_header_eqs [OF empty_header]
  have root: "file_chain 8 empty_file_volume [2]" "hd [2] = root_cluster (boot_volume_image empty_file_volume)"
    using empty_header by (simp_all add: file_chain_def valid_cluster_def empty_fat sh sample_geometry sample_BPB same_header_def)
  have ok: "volume_ok empty_file_volume 8" using empty_home by (simp add: file_home_def)
  have comp: "component file_txt" by (simp add: component_def file_txt_def dot_def slash_def layout)
  have "dir_entries empty_file_volume [2] = [128]"
    using sample_dir dir_entries_header [OF empty_header, of "[2]"] by simp
  moreover have "dname (entry empty_file_volume 128) = dname (entry sample_volume 128)" "image empty_file_volume 128 = 70"
    by (simp_all add: entry_def read_entry_def bytes_def empty_file_volume_def sample_geometry sample_memory_def upt_conv_Cons)
  moreover have "NameIsEqual [70, 73, 76, 69, 32, 32, 32, 32, 84, 88, 84] file_txt" by code_simp
  ultimately have "lookup empty_file_volume [2] file_txt = Some 128" by (simp add: lookup_def sample_name)
  with FindFile_single [OF ok root comp] show ?thesis by simp
qed


end
