(* ===== verification/KernelInvariant.thy ===== *)
theory KernelInvariant
  imports Syscalls
begin

text \<open>
  The well-formedness of the kernel's state, kept by every system call, whatever its arguments are, and by the
  interrupts: the type of the state, in the sense in which no operation can take it to a value its C++ type
  does not have.
\<close>

section \<open>Well-formed tasks\<close>

text \<open>
  The run queues agree with the tasks, every open file is an object of the kernel (there are \<open>n\<close>), and the messages
  in the queues have the form their senders give them.
\<close>

definition tasks_ok :: "nat \<Rightarrow> TaskManager \<Rightarrow> bool" where
  "tasks_ok n tm \<longleftrightarrow> sched_inv tm \<and> (\<forall>j t. find_task tm j = Some t \<longrightarrow>
     (\<forall>obj. Some obj \<in> set (files t) \<longrightarrow> obj < n) \<and> list_all message_ok (msgs t))"

lemma tasks_okI:
  assumes "tasks_ok n tm" and "sched_inv tm'"
    and "\<And>j t'. find_task tm' j = Some t' \<Longrightarrow> \<exists>t. find_task tm j = Some t \<and> files t' = files t \<and> (\<forall>m\<in>set (msgs t'). m \<in> set (msgs t) \<or> message_ok m)"
  shows "tasks_ok n tm'"
  using assms unfolding tasks_ok_def list_all_iff by metis

lemma tasks_ok_mono: "tasks_ok n tm \<Longrightarrow> n \<le> n' \<Longrightarrow> tasks_ok n' tm"
  unfolding tasks_ok_def by (meson order_less_le_trans)

lemma in_set_tl: "x \<in> set (tl xs) \<Longrightarrow> x \<in> set xs"
  by (cases xs) simp_all

lemma tasks_ok_receive:
  assumes "tasks_ok n tm" and "ReceiveMessage i tm = Some (tm', m)"
  shows "tasks_ok n tm' \<and> (\<forall>x. m = Some x \<longrightarrow> message_ok x)"
proof -
  from assms(2) obtain t where t: "find_task tm i = Some t" by (auto simp: ReceiveMessage_def split: option.splits)
  from assms(1) have inv: "sched_inv tm" by (simp add: tasks_ok_def)
  from ReceiveMessage_run [OF inv t] assms(2) have r: "sched_inv tm'" "m = (case msgs t of [] \<Rightarrow> None | m # _ \<Rightarrow> Some m)"
    "\<And>j. find_task tm' j = (if j = i then Some (t\<lparr>msgs := tl (msgs t)\<rparr>) else find_task tm j)" by auto
  have "tasks_ok n tm'"
    by (rule tasks_okI [OF assms(1) r(1)]) (use r(3) t in \<open>auto split: if_splits dest: in_set_tl\<close>)
  moreover have "\<forall>x. m = Some x \<longrightarrow> message_ok x"
    using assms(1) t r(2) by (auto simp: tasks_ok_def split: list.splits) (metis list.pred_inject(2))
  ultimately show ?thesis by blast
qed

lemma tasks_ok_send:
  assumes "tasks_ok n tm" and "message_ok m" and "Task_SendMessage i m tm = Some tm'"
  shows "tasks_ok n tm'"
proof -
  have inv: "sched_inv tm" using assms(1) by (simp add: tasks_ok_def)
  from assms(3) obtain t where t: "find_task tm i = Some t"
    by (auto simp: Task_SendMessage_def Wakeup_def bind_Some_iff find_task_update split: if_splits)
  from Task_SendMessage_run [OF inv t, of m] assms(3) have r: "sched_inv tm'"
    "\<And>j. find_task tm' j = (if j = i then Some (t\<lparr>msgs := msgs t @ [m], running := True\<rparr>) else find_task tm j)" by auto
  show ?thesis by (rule tasks_okI [OF assms(1) r(1)]) (use r(2) t assms(2) in \<open>auto split: if_splits\<close>)
qed

lemma tasks_ok_sleep:
  assumes "tasks_ok n tm" and "i \<noteq> kIdleTask" and "Sleep i (tm, c) = Some (tm', c')"
  shows "tasks_ok n tm'"
proof -
  have inv: "sched_inv tm" using assms(1) by (simp add: tasks_ok_def)
  from assms(3) obtain t where t: "find_task tm i = Some t" by (auto simp: Sleep_def bind_Some_iff)
  consider "\<not> running t" | "running t" "CurrentTask tm = Some i" | "running t" "CurrentTask tm \<noteq> Some i" by blast
  then show ?thesis
  proof cases
    case 1
    with Sleep_stopped [OF t] assms show ?thesis by simp
  next
    case 2
    from Sleep_current [OF inv 2(2) assms(2), of c] assms(3) t have r: "sched_inv tm'"
      "\<And>j. find_task tm' j = (if j = i then Some (t\<lparr>running := False, ctx := c\<rparr>) else find_task tm j)" by auto
    show ?thesis by (rule tasks_okI [OF assms(1) r(1)]) (use r(2) t in \<open>auto split: if_splits\<close>)
  next
    case 3
    from Sleep_other [OF inv t 3(1) assms(2) 3(2), of c] assms(3) have r: "sched_inv tm'"
      "\<And>j. find_task tm' j = (if j = i then Some (t\<lparr>running := False\<rparr>) else find_task tm j)" by auto
    show ?thesis by (rule tasks_okI [OF assms(1) r(1)]) (use r(2) t in \<open>auto split: if_splits\<close>)
  qed
qed

lemma tasks_ok_switch:
  assumes "tasks_ok n tm" and "SwitchTask c tm = Some (tm', c')"
  shows "tasks_ok n tm'"
proof -
  have inv: "sched_inv tm" using assms(1) by (simp add: tasks_ok_def)
  from SwitchTask_run [OF inv, of c] assms(2) obtain cur where
    r: "RotateCurrentRunQueue False (set_context cur c tm) = Some (tm', cur)" "sched_inv tm'" by auto
  from r(1) have "find_task tm' = find_task (set_context cur c tm)" by simp
  with assms(1) r(2) show ?thesis
    by (intro tasks_okI [OF assms(1)]) (auto simp: find_set_context split: if_splits)
qed

lemma tasks_ok_new:
  assumes "tasks_ok n tm" and "NewTask tm = (tm', i)"
  shows "tasks_ok n (update_task i (InitContext cr3 se f d) tm')"
proof -
  have inv: "sched_inv tm" using assms(1) by (simp add: tasks_ok_def)
  from NewTask_run [OF inv] assms(2) have r: "sched_inv tm'" "\<And>j. find_task tm' j = (if j = i then Some (new_Task j) else find_task tm j)"
    by (metis fst_conv snd_conv)+
  from r(1) have "sched_inv (update_task i (InitContext cr3 se f d) tm')" by (simp add: sched_inv_InitContext)
  with assms(1) r(2) show ?thesis
    by (auto simp: tasks_ok_def find_task_update InitContext_def new_Task_def split: if_splits)
qed

lemma tasks_ok_boot: "tasks_ok n (new_TaskManager cr3 se idle_entry)"
  by (auto simp: tasks_ok_def sched_inv_new) (auto simp: new_TaskManager_eq find_task_def new_Task_def InitContext_def split: if_splits)

section \<open>Pipes and the terminal\<close>

definition pipe_desc_ok :: "PipeDescriptor \<Rightarrow> bool" where
  "pipe_desc_ok fd \<longleftrightarrow> length (pdata fd) = kPipeDataBytes \<and> plen fd \<le> kPipeDataBytes \<and> pipe_task fd \<noteq> kIdleTask"

lemma tasks_ok_pipe_write:
  "tasks_ok n tm \<Longrightarrow> length data = kPipeDataBytes \<Longrightarrow> pipe_write_loop i bufc data sent tm = Some tm' \<Longrightarrow> tasks_ok n tm'"
proof (induction i bufc data sent tm rule: pipe_write_loop.induct)
  case (1 task bufc data sent tm)
  show ?case
  proof (cases "sent < length bufc")
    case True
    let ?n = "min (length bufc - sent) kPipeDataBytes"
    let ?d = "copy_in (take ?n (drop sent bufc)) data"
    have d: "length ?d = kPipeDataBytes" using 1(3) by (simp add: copy_in_def)
    from 1(4) True obtain tm1 where s: "Task_SendMessage task (kPipe ?d (of_nat ?n)) tm = Some tm1"
      "pipe_write_loop task bufc ?d (sent + ?n) tm1 = Some tm'"
      by (auto simp: pipe_write_loop.simps [of task bufc data] Let_def bind_Some_iff)
    have "message_ok (kPipe ?d (of_nat ?n))"
      using d by (simp add: layout unat_of_nat take_bit_nat_eq_self)
    with tasks_ok_send [OF 1(2) _ s(1)] have "tasks_ok n tm1" by blast
    from "1.IH" [OF True refl refl s(1) this d s(2)] show ?thesis .
  next
    case False
    with 1(2,4) show ?thesis by (simp add: pipe_write_loop.simps)
  qed
qed

lemma message_queue_induct [consumes 1, case_names none empty step]:
  assumes "tasks_ok n tm"
    and none: "\<And>tm. find_task tm i = None \<Longrightarrow> P tm"
    and empty: "\<And>tm. tasks_ok n tm \<Longrightarrow> ReceiveMessage i tm = Some (tm, None) \<Longrightarrow> P tm"
    and step: "\<And>tm tm1 m. tasks_ok n tm \<Longrightarrow> tasks_ok n tm1 \<Longrightarrow> message_ok m \<Longrightarrow> ReceiveMessage i tm = Some (tm1, Some m) \<Longrightarrow> P tm1 \<Longrightarrow> P tm"
  shows "P tm"
  using assms(1)
proof (induction "case find_task tm i of None \<Rightarrow> 0 | Some t \<Rightarrow> length (msgs t)" arbitrary: tm rule: less_induct)
  case less
  show ?case
  proof (cases "find_task tm i")
    case None
    then show ?thesis by (rule none)
  next
    case (Some t)
    have inv: "sched_inv tm" using less.prems by (simp add: tasks_ok_def)
    show ?thesis
    proof (cases "msgs t")
      case Nil
      then show ?thesis using Some less.prems by (intro empty) (simp_all add: ReceiveMessage_def)
    next
      case (Cons m ms)
      from ReceiveMessage_run [OF inv Some] Cons obtain tm1 where
        r: "ReceiveMessage i tm = Some (tm1, Some m)" "find_task tm1 i = Some (t\<lparr>msgs := ms\<rparr>)" by auto
      from tasks_ok_receive [OF less.prems r(1)] have ok: "tasks_ok n tm1" "message_ok m" by simp_all
      have "P tm1" by (rule less.hyps) (use Some Cons r ok in simp_all)
      with step less.prems ok r(1) show ?thesis by blast
    qed
  qed
qed

lemma pipe_read_keeps:
  assumes "tasks_ok n tm" and "pipe_desc_ok fd" and "pipe_read_loop len fd tm c = Some (fd', (tm', c'), r)"
  shows "tasks_ok n tm' \<and> pipe_desc_ok fd'"
  using assms(1,3)
proof (induction tm rule: message_queue_induct [where i = "pipe_task fd"])
  case (none tm)
  then show ?case by (subst (asm) pipe_read_loop.simps) (simp add: ReceiveMessage_def)
next
  case (empty tm)
  have "pipe_read_loop len fd tm c = map_option (\<lambda>s. (fd, s, None)) (Sleep (pipe_task fd) (tm, c))"
    by (subst pipe_read_loop.simps) (simp add: empty(2))
  with empty(3) have "Sleep (pipe_task fd) (tm, c) = Some (tm', c')" "fd' = fd" by auto
  with tasks_ok_sleep [OF empty(1)] assms(2) show ?case by (auto simp: pipe_desc_ok_def)
next
  case (step tm tm1 m)
  show ?case
  proof (cases "\<exists>data k. m = kPipe data k")
    case False
    then have "pipe_read_loop len fd tm c = pipe_read_loop len fd tm1 c"
      using step(4) by (cases m) (subst pipe_read_loop.simps; simp)+
    with step show ?thesis by simp
  next
    case True
    then obtain data k where m: "m = kPipe data k" by blast
    let ?c = "min (unat k) len"
    have "tm' = tm1 \<and> (fd' = fd\<lparr>closed := True\<rparr>
      \<or> fd' = fd\<lparr>plen := unat k - ?c, pdata := copy_in (take (unat k - ?c) (drop ?c data)) (pdata fd)\<rparr>)"
      using step(4,6) m by (subst (asm) pipe_read_loop.simps) (auto simp: Let_def split: if_splits)
    with step(2,3) m assms(2) show ?thesis by (auto simp: pipe_desc_ok_def copy_in_def)
  qed
qed

lemma terminal_read_keeps:
  assumes "tasks_ok n tm" and "console_ok con" and "terminal_read i tm con = Some (tm', con', r)"
  shows "tasks_ok n tm' \<and> console_ok con'"
  using assms(1,2,3)
proof (induction tm arbitrary: con rule: message_queue_induct [where i = i])
  case (none tm)
  then show ?case by (subst (asm) terminal_read.simps) (simp add: ReceiveMessage_def)
next
  case (empty tm)
  then show ?case by (subst (asm) terminal_read.simps) auto
next
  case (step tm tm1 m)
  have ok: "console_ok (PutString s con)" "console_ok (PutChar b con)" for s b
    using step(6) by (simp_all add: console_ok_PutString console_ok_PutChar)
  show ?case
  proof (cases "\<exists>code. m = kKeyboardPush code")
    case False
    then have "terminal_read i tm con = terminal_read i tm1 con"
      using step(4) by (cases m) (subst terminal_read.simps; simp)+
    with step show ?thesis by simp
  next
    case True
    then obtain code where m: "m = kKeyboardPush code" by blast
    show ?thesis
      using step(7) m step(2,4) ok step(5) [OF ok(1)]
      by (subst (asm) terminal_read.simps) (auto simp del: PutString.simps simp: Let_def split: if_splits)
  qed
qed


section \<open>The kernel\<close>

definition object_ok :: "FileDescriptor \<Rightarrow> bool" where
  "object_ok fd \<longleftrightarrow> (case fd of PipeFD p \<Rightarrow> pipe_desc_ok p | _ \<Rightarrow> True)"

definition kernel_ok :: "Kernel \<Rightarrow> bool" where
  "kernel_ok k \<longleftrightarrow> tasks_ok (length (objects k)) (task_mgr k) \<and> console_ok (screen k) \<and> list_all object_ok (objects k)"

lemma kernel_ok_parts:
  "kernel_ok k \<Longrightarrow> tasks_ok (length (objects k)) (task_mgr k)"
  "kernel_ok k \<Longrightarrow> console_ok (screen k)"
  "kernel_ok k \<Longrightarrow> i < length (objects k) \<Longrightarrow> object_ok (objects k ! i)"
  "kernel_ok k \<Longrightarrow> list_all object_ok (objects k)"
  by (simp_all add: kernel_ok_def list_all_length)

lemma list_all_update: "list_all P xs \<Longrightarrow> P y \<Longrightarrow> list_all P (xs[i := y])"
  using set_update_subset_insert [of xs i y] by (auto simp: list_all_iff)

lemma pipe_read_ok:
  assumes "tasks_ok n tm" and "pipe_desc_ok fd" and "Pipe_Read len fd (tm, c) = Some (fd', (tm', c'), r)"
  shows "tasks_ok n tm' \<and> pipe_desc_ok fd'"
proof (cases "0 < plen fd \<or> closed fd")
  case True
  with assms show ?thesis by (auto simp: Pipe_Read_def Let_def pipe_desc_ok_def copy_in_def split: if_splits)
next
  case False
  with assms(3) have "pipe_read_loop len fd tm c = Some (fd', (tm', c'), r)" by (simp add: Pipe_Read_def)
  from pipe_read_keeps [OF assms(1,2) this] show ?thesis .
qed

lemma FD_Read_ok: "kernel_ok k \<Longrightarrow> FD_Read i len k = Some (k', r) \<Longrightarrow> kernel_ok k' \<and> length (objects k') = length (objects k)"
proof -
  assume ok: "kernel_ok k" and r: "FD_Read i len k = Some (k', r)"
  then have i: "i < length (objects k)" by (simp add: FD_Read_def split: if_splits)
  note parts = kernel_ok_parts(1,2,4) [OF ok] kernel_ok_parts(3) [OF ok i]
  show ?thesis
  proof (cases "objects k ! i")
    case (TerminalFD task)
    with r i obtain tm con where "terminal_read task (task_mgr k) (screen k) = Some (tm, con, r)" "k' = k\<lparr>task_mgr := tm, screen := con\<rparr>"
      by (auto simp: FD_Read_def)
    with terminal_read_keeps [OF parts(1,2)] parts(3) show ?thesis by (auto simp: kernel_ok_def)
  next
    case (PipeFD fd)
    with r i obtain fd' tm c where p: "Pipe_Read len fd (task_mgr k, cpu k) = Some (fd', (tm, c), r)"
      "k' = k\<lparr>task_mgr := tm, cpu := c, objects := (objects k)[i := PipeFD fd']\<rparr>" by (auto simp: FD_Read_def)
    with pipe_read_ok [OF parts(1) _ p(1)] parts PipeFD show ?thesis
      by (auto simp: kernel_ok_def object_ok_def intro!: list_all_update)
  next
    case (FatFD fd)
    with r i parts show ?thesis by (auto simp: FD_Read_def kernel_ok_def object_ok_def intro!: list_all_update)
  qed
qed

lemma console_ok_write: "console_ok con \<Longrightarrow> console_ok (terminal_write bs con)"
  unfolding terminal_write_def by (induction bs arbitrary: con) (simp_all add: console_ok_PutChar)

lemma FD_Write_ok: "kernel_ok k \<Longrightarrow> FD_Write i buf len k = Some (k', r) \<Longrightarrow> kernel_ok k' \<and> length (objects k') = length (objects k)"
proof -
  assume ok: "kernel_ok k" and r: "FD_Write i buf len k = Some (k', r)"
  then have i: "i < length (objects k)" by (simp add: FD_Write_def split: if_splits)
  note parts = kernel_ok_parts(1,2,4) [OF ok] kernel_ok_parts(3) [OF ok i]
  show ?thesis
  proof (cases "objects k ! i")
    case (TerminalFD task)
    with r i parts show ?thesis by (auto simp: FD_Write_def kernel_ok_def console_ok_write)
  next
    case (PipeFD fd)
    with r i obtain tm where p: "Pipe_Write fd (bytes buf 0 len) (task_mgr k) = Some (tm, r)" "k' = k\<lparr>task_mgr := tm\<rparr>"
      by (auto simp: FD_Write_def)
    then have "pipe_write_loop (pipe_task fd) (bytes buf 0 len) (replicate kPipeDataBytes 0) 0 (task_mgr k) = Some tm"
      by (auto simp: Pipe_Write_def)
    from tasks_ok_pipe_write [OF parts(1) _ this] p(2) parts show ?thesis by (auto simp: kernel_ok_def)
  next
    case (FatFD fd)
    with r i parts show ?thesis by (auto simp: FD_Write_def kernel_ok_def object_ok_def intro!: list_all_update)
  qed
qed

lemma sys_read_ok: "kernel_ok k \<Longrightarrow> sys_read a b c k = Some (k', r) \<Longrightarrow> kernel_ok k'"
proof -
  assume ok: "kernel_ok k" and r: "sys_read a b c k = Some (k', r)"
  have *: "kernel_ok (k1\<lparr>paging := p\<rparr>)" if "FD_Read i n k = Some (k1, x)" for i n k1 x p
    using FD_Read_ok [OF ok that] by (auto simp: kernel_ok_def)
  from r ok show ?thesis
    by (auto simp: sys_read_def Let_def bind_Some_iff split: if_splits option.splits dest: FD_Read_ok [OF ok] intro: *)
qed

lemma sys_write_ok: "kernel_ok k \<Longrightarrow> sys_write a b c k = Some (k', r) \<Longrightarrow> kernel_ok k'"
  by (auto simp: sys_write_def bind_Some_iff split: if_splits option.splits dest: FD_Write_ok)

lemma open_entry_ok: "kernel_ok k \<Longrightarrow> open_entry a k = Some (k', r) \<Longrightarrow> kernel_ok k'"
proof -
  assume ok: "kernel_ok k" and r: "open_entry a k = Some (k', r)"
  from r obtain t where t: "current_task k = Some t" by (auto simp: open_entry_def bind_Some_iff)
  then have inv: "sched_inv (task_mgr k)" "find_task (task_mgr k) (task_id t) = Some t"
    using ok by (auto simp: kernel_ok_def tasks_ok_def current_task_def bind_Some_iff dest: find_task_id)
  from AllocateFD_run [of t] obtain fd where
    fd: "AllocateFD t = (t\<lparr>files := (if fd = length (files t) then files t @ [None] else files t)\<rparr>, fd)" by blast
  let ?fs = "(if fd = length (files t) then files t @ [None] else files t)[fd := Some (length (objects k))]"
  from r have k': "k' = k\<lparr>objects := objects k @ [FatFD (new_FatFileDescriptor a)],
      task_mgr := update_task (task_id t) (\<lambda>t. t\<lparr>files := ?fs\<rparr>) (task_mgr k)\<rparr>"
    by (auto simp: open_entry_def t fd new_object_def)
  have "set ?fs \<subseteq> insert None (insert (Some (length (objects k))) (set (files t)))"
    using set_update_subset_insert [of "files t @ [None]" fd] set_update_subset_insert [of "files t" fd] by auto
  then have "\<forall>obj. Some obj \<in> set ?fs \<longrightarrow> obj < Suc (length (objects k))"
    using kernel_ok_parts(1) [OF ok] inv(2) unfolding tasks_ok_def by fastforce
  with tasks_ok_mono [OF kernel_ok_parts(1) [OF ok], of "Suc (length (objects k))"] inv sched_inv_update [of "task_mgr k"]
  have "tasks_ok (Suc (length (objects k))) (task_mgr k')"
    unfolding k' tasks_ok_def by (auto simp: find_task_update split: if_splits)
  with ok show ?thesis unfolding k' by (simp add: kernel_ok_def object_ok_def)
qed

lemma sys_open_ok: "kernel_ok k \<Longrightarrow> sys_open a b k = Some (k', r) \<Longrightarrow> kernel_ok k'"
proof -
  assume ok: "kernel_ok k" and r: "sys_open a b k = Some (k', r)"
  have *: "kernel_ok (k\<lparr>disk := v\<rparr>)" for v using ok by (simp add: kernel_ok_def)
  from r ok show ?thesis
    by (auto simp: sys_open_def Let_def bind_Some_iff split: if_splits option.splits sum.splits Code.splits dest: open_entry_ok [OF ok] open_entry_ok [OF *])
qed


text \<open>Every system call, with any arguments, keeps the kernel well-formed.\<close>

lemma syscall_ok: "kernel_ok k \<Longrightarrow> SyscallEntry rax a b c k = Some (k', r) \<Longrightarrow> kernel_ok k'"
proof -
  assume ok: "kernel_ok k" and r: "SyscallEntry rax a b c k = Some (k', r)"
  let ?i = "unat (rax AND 0x7fffffff)"
  from r have "?i < length syscall_table" "(syscall_table ! ?i) a b c k = Some (k', r)" by (auto simp: SyscallEntry_def Let_def split: if_splits)
  then consider "sys_read a b c k = Some (k', r)" | "sys_write a b c k = Some (k', r)" | "sys_open a b k = Some (k', r)" | "sys_exit a k = Some (k', r)"
    by (auto simp: syscall_table_def less_Suc_eq nth_Cons' split: if_splits)
  then show ?thesis using ok
    by cases (auto simp: sys_exit_def bind_Some_iff dest: sys_read_ok sys_write_ok sys_open_ok)
qed


section \<open>Steps of the kernel\<close>

text \<open>
  What can happen to the state: a system call of the current program, the timer interrupt, messages of interrupt
  handlers and of the main task, tasks that take messages, sleep or are created, descriptors that the
  terminal creates, and text that the kernel prints.
\<close>

inductive kernel_step :: "Kernel \<Rightarrow> Kernel \<Rightarrow> bool" where
  syscall: "SyscallEntry rax a b c k = Some (k', r) \<Longrightarrow> kernel_step k k'"
| tick: "SwitchTask c (task_mgr k) = Some (tm, c') \<Longrightarrow> kernel_step k (k\<lparr>task_mgr := tm, cpu := c'\<rparr>)"
| key: "SendMessage i (kKeyboardPush code) (task_mgr k) = Some (Inr tm) \<Longrightarrow> kernel_step k (k\<lparr>task_mgr := tm\<rparr>)"
| timer: "SendMessage i (kTimerTimeout to v) (task_mgr k) = Some (Inr tm) \<Longrightarrow> kernel_step k (k\<lparr>task_mgr := tm\<rparr>)"
| receive: "ReceiveMessage i (task_mgr k) = Some (tm, m) \<Longrightarrow> kernel_step k (k\<lparr>task_mgr := tm\<rparr>)"
| sleep: "i \<noteq> kIdleTask \<Longrightarrow> Sleep i (task_mgr k, c) = Some (tm, c') \<Longrightarrow> kernel_step k (k\<lparr>task_mgr := tm, cpu := c'\<rparr>)"
| new_task: "NewTask (task_mgr k) = (tm, i) \<Longrightarrow>
     kernel_step k (k\<lparr>task_mgr := update_task i (InitContext cr3 se f d) tm\<rparr>)"
| open_terminal: "new_object (TerminalFD i) k = (k', obj) \<Longrightarrow> kernel_step k k'"
| open_pipe: "i \<noteq> kIdleTask \<Longrightarrow> new_object (PipeFD (new_PipeDescriptor i)) k = (k', obj) \<Longrightarrow> kernel_step k k'"
| open_file: "new_object (FatFD (new_FatFileDescriptor a)) k = (k', obj) \<Longrightarrow> kernel_step k k'"
| print: "printk_k s k = Some k' \<Longrightarrow> kernel_step k k'"

inductive kernel_reachable :: "Kernel \<Rightarrow> bool" where
  boot: "task_mgr k = new_TaskManager pml se idle_entry \<Longrightarrow> objects k = [] \<Longrightarrow> screen k = InitializeConsole cfg font fb \<Longrightarrow> kernel_reachable k"
| step: "kernel_reachable k \<Longrightarrow> kernel_step k k' \<Longrightarrow> kernel_reachable k'"

lemma kernel_step_ok: "kernel_step k k' \<Longrightarrow> kernel_ok k \<Longrightarrow> kernel_ok k'"
proof (induction rule: kernel_step.induct)
  case (syscall rax a b c k k' r)
  then show ?case by (blast intro: syscall_ok)
next
  case (tick c k tm c')
  with tasks_ok_switch [of _ "task_mgr k"] show ?case by (auto simp: kernel_ok_def)
next
  case (key i code k tm)
  with tasks_ok_send [of _ "task_mgr k" "kKeyboardPush code"] show ?case
    by (auto simp: kernel_ok_def SendMessage_def split: option.splits)
next
  case (timer i to v k tm)
  with tasks_ok_send [of _ "task_mgr k" "kTimerTimeout to v"] show ?case
    by (auto simp: kernel_ok_def SendMessage_def split: option.splits)
next
  case (receive i k tm m)
  with tasks_ok_receive [of _ "task_mgr k"] show ?case by (auto simp: kernel_ok_def)
next
  case (sleep i k c tm c')
  with tasks_ok_sleep [of _ "task_mgr k"] show ?case by (auto simp: kernel_ok_def)
next
  case (new_task k tm i cr3 se f d)
  with tasks_ok_new [of _ "task_mgr k"] show ?case by (simp add: kernel_ok_def)
next
  case (open_terminal i k k' obj)
  then show ?case by (auto simp: kernel_ok_def new_object_def object_ok_def intro: tasks_ok_mono)
next
  case (open_pipe i k k' obj)
  then show ?case
    by (auto simp: kernel_ok_def new_object_def object_ok_def pipe_desc_ok_def new_PipeDescriptor_def intro: tasks_ok_mono)
next
  case (open_file a k k' obj)
  then show ?case by (auto simp: kernel_ok_def new_object_def object_ok_def intro: tasks_ok_mono)
next
  case (print s k k')
  then show ?case by (auto simp: kernel_ok_def printk_k_def printk_def console_ok_PutString split: if_splits)
qed




end
