(* ===== verification/Shell.thy ===== *)
theory Shell
  imports KernelInvariant ElfLoader
begin

text \<open>
  The shell of \<^verbatim>\<open>kernel/terminal.cpp\<close>: \<open>ListAllEntries\<close>, \<open>ExecuteFile\<close>, \<open>ExecuteCommand\<close> and \<open>TaskTerminal\<close>.

  A command that waits for its subcommand, and a terminal without a message, leave the processor to other tasks;
  each is a state of the terminal between two rounds.  The command line is an array of characters into which the
  source writes end marks; a \<open>char *\<close> is an offset.
\<close>

section \<open>What the source does not determine\<close>

text \<open>
  The addresses of functions and objects, and the program that \<open>CallApp\<close> enters: its result is the state when the
  program has left through \<open>exit\<close> or a fault, and the exit code.
\<close>

record Env =
  kernel_pml4 :: u64
  terminal_entry :: u64
  stack_end :: "nat \<Rightarrow> u64"
  descriptor_address :: "nat \<Rightarrow> u64"
  CallApp :: "nat \<Rightarrow> u64 \<Rightarrow> u64 \<Rightarrow> u64 \<Rightarrow> Kernel \<Rightarrow> (Kernel \<times> int) option"

record TerminalDescriptor =
  command_line :: "u8 list"
  desc_files :: "nat list"

section \<open>Characters and strings\<close>

text \<open>The string at an offset of an array, and the loops \<open>while (isspace(*p)) ++p\<close>.\<close>

definition string_at :: "u8 list \<Rightarrow> nat \<Rightarrow> u8 list" where
  "string_at buf p = c_string (drop p buf)"

definition skip_spaces :: "u8 list \<Rightarrow> nat \<Rightarrow> nat" where
  "skip_spaces buf p = p + length (takeWhile isspace (drop p buf))"

text \<open>The assignment of an end mark through a pointer that may be null.\<close>

definition cut_at :: "nat option \<Rightarrow> u8 list \<Rightarrow> u8 list" where
  "cut_at p buf = (case p of None \<Rightarrow> buf | Some i \<Rightarrow> buf[i := 0])"

text \<open>The string an argument points to; the null pointer is address 0.\<close>

definition arg_string :: "Kernel \<Rightarrow> u8 list option \<Rightarrow> u8 list option" where
  "arg_string k arg = (case arg of Some s \<Rightarrow> Some s | None \<Rightarrow> vcstring (paging k) 0)"

section \<open>Listing a directory\<close>

text \<open>The entries of one cluster; the result tells whether the end mark was found.\<close>

fun list_slots :: "nat \<Rightarrow> nat \<Rightarrow> Kernel \<Rightarrow> (Kernel \<times> bool) option" where
  "list_slots a 0 k = Some (k, False)"
| "list_slots a (Suc n) k =
     (let e = entry (disk k) a
      in if image (disk k) a = 0 then Some (k, True)
         else if image (disk k) a = 0xe5 then list_slots (a + kEntrySize) n k
         else if attr e = kLongName then list_slots (a + kEntrySize) n k
         else Option.bind (printk_k (FormatName (dname e) @ [10]) k) (list_slots (a + kEntrySize) n))"

partial_function (option) ListAllEntries :: "u32 \<Rightarrow> Kernel \<Rightarrow> Kernel option" where
  "ListAllEntries dir_cluster k =
     (if dir_cluster \<noteq> kEndOfClusterchain
      then Option.bind (list_slots (GetSectorByCluster (disk k) dir_cluster) (entries_per_cluster (disk k)) k) (\<lambda>(k', stop).
             if stop then Some k' else ListAllEntries (NextCluster (disk k') dir_cluster) k')
      else Some k)"

section \<open>Running a program\<close>

definition args_frame :: LinearAddress4Level where "args_frame = 0xfffffffffffff000"
definition stack_frame :: LinearAddress4Level where "stack_frame = 0xffffffffffffe000"
definition kArgvLen :: nat where [layout]: "kArgvLen = 32"
definition elf_magic :: "u8 list" where "elf_magic = [0x7f, 0x45, 0x4c, 0x46]"

abbreviation set_files :: "nat \<Rightarrow> (nat option list \<Rightarrow> nat option list) \<Rightarrow> Kernel \<Rightarrow> Kernel" where
  "set_files i f k \<equiv> k\<lparr>task_mgr := update_task i (\<lambda>t. t\<lparr>files := f (files t)\<rparr>) (task_mgr k)\<rparr>"

abbreviation set_cr3 :: "nat \<Rightarrow> u64 \<Rightarrow> Kernel \<Rightarrow> Kernel" where
  "set_cr3 i a k \<equiv> k\<lparr>task_mgr := update_task i (\<lambda>t. t\<lparr>ctx := (ctx t)\<lparr>ctx_cr3 := a\<rparr>\<rparr>) (task_mgr k)\<rparr>"

text \<open>The memory of the program: its own page maps, its segments, its arguments and its stack.\<close>

definition prepare_program ::
  "u8 list \<Rightarrow> u8 list \<Rightarrow> u8 list option \<Rightarrow> nat \<Rightarrow> Kernel \<Rightarrow> (Kernel \<times> nat \<times> Code) option" where
  "prepare_program file_buf cmd first_arg task k =
     (case SetupPML4 (paging k) of
        None \<Rightarrow> None
      | Some (Inl err) \<Rightarrow> Some (k, 0, err)
      | Some (Inr (p1, cr3)) \<Rightarrow>
          let k1 = set_cr3 task cr3 (k\<lparr>paging := p1\<rparr>);
              argbuf = args_frame + of_nat (8 * kArgvLen)
          in Option.bind (LoadELF file_buf p1) (\<lambda>(p2, err).
               if err \<noteq> kSuccess then Some (k1\<lparr>paging := p2\<rparr>, 0, err)
               else Option.bind (SetupPageMaps args_frame 1 p2) (\<lambda>(p3, err).
               if err \<noteq> kSuccess then Some (k1\<lparr>paging := p3\<rparr>, 0, err)
               else Option.bind (MakeArgVector cmd first_arg args_frame kArgvLen argbuf (4096 - 8 * kArgvLen) p3) (\<lambda>(p4, argc, err).
               if err \<noteq> kSuccess then Some (k1\<lparr>paging := p4\<rparr>, 0, err)
               else map_option (\<lambda>(p5, err). (k1\<lparr>paging := p5\<rparr>, argc, err)) (SetupPageMaps stack_frame 1 p4)))))"

text \<open>The end of \<open>ExecuteFile\<close>: the files and the memory of the program are given back.\<close>

definition clean_program :: "Env \<Rightarrow> u8 list \<Rightarrow> nat \<Rightarrow> Kernel \<Rightarrow> (Kernel \<times> Code) option" where
  "clean_program env file_buf task k0 =
     (let k = set_files task (\<lambda>_. []) k0
      in Option.bind (GetFirstLoadAddress file_buf) (\<lambda>addr_first.
         Option.bind (CleanPageMaps addr_first (paging k)) (\<lambda>(p1, err).
         if err \<noteq> kSuccess then Some (k\<lparr>paging := p1\<rparr>, err)
         else Option.bind (find_task (task_mgr k) task) (\<lambda>t.
              map_option (\<lambda>(p2, err). (set_cr3 task 0 (k\<lparr>paging := p2\<rparr>), err))
                (FreePML4 (kernel_pml4 env) (ctx_cr3 (ctx t)) p1)))))"

text \<open>A file of less than four bytes is read beyond its buffer.\<close>

definition ExecuteFile ::
  "Env \<Rightarrow> nat \<Rightarrow> u8 list \<Rightarrow> u8 list option \<Rightarrow> nat list \<Rightarrow> Kernel \<Rightarrow> (Kernel \<times> int \<times> Code) option" where
  "ExecuteFile env file_entry cmd first_arg fds k =
     (let e = entry (disk k) file_entry; size = unat (file_size e)
      in Option.bind (LoadFile size (disk k) e) (\<lambda>(loaded, _).
         let file_buf = loaded @ replicate (size - length loaded) 0
         in if size < 4 then None
            else if take 4 file_buf \<noteq> elf_magic then Some (k, 0, kInvalidFormat)
            else Option.bind (CurrentTask (task_mgr k)) (\<lambda>task.
                 Option.bind (prepare_program file_buf cmd first_arg task k) (\<lambda>(k1, argc, err).
                 if err \<noteq> kSuccess then Some (k1, 0, err)
                 else Option.bind (CallApp env argc args_frame (e_entry (read_Ehdr file_buf)) (stack_frame + 4096 - 8)
                        (set_files task (\<lambda>fs. fs @ map Some fds) k1)) (\<lambda>(k2, ret).
                      map_option (\<lambda>(k3, err). (k3, if err = kSuccess then ret else 0, err)) (clean_program env file_buf task k2))))))"

section \<open>The commands\<close>

definition error_text :: "Code \<Rightarrow> u8 list option" where
  "error_text err = map_option ascii (error_name err)"

definition print_to :: "nat \<Rightarrow> u8 list \<Rightarrow> Kernel \<Rightarrow> Kernel option" where
  "print_to fd s k = map_option fst (PrintToFD fd s k)"

text \<open>\<open>%s\<close> of the null pointer has no defined result.\<close>

definition cmd_echo :: "u8 list option \<Rightarrow> nat list \<Rightarrow> Kernel \<Rightarrow> (Kernel \<times> int) option" where
  "cmd_echo arg fds k =
     Option.bind arg (\<lambda>s.
     Option.bind (print_to (fds ! 1) (if take 2 s = ascii ''$?'' then fmt_d (last_exit_code k) else s) k) (\<lambda>k1.
     map_option (\<lambda>k2. (k2, 0)) (print_to (fds ! 1) [10] k1)))"

definition cmd_ls :: "u8 list option \<Rightarrow> nat list \<Rightarrow> Kernel \<Rightarrow> (Kernel \<times> int) option" where
  "cmd_ls arg fds k =
     Option.bind (arg_string k arg) (\<lambda>s.
       if s = [] then map_option (\<lambda>k'. (k', 0)) (ListAllEntries (root_cluster (boot_volume_image (disk k))) k)
       else Option.bind (FindFile s 0 (disk k)) (\<lambda>(dir, post_slash).
         case dir of
           None \<Rightarrow>
             Option.bind arg (\<lambda>s. map_option (\<lambda>k'. (k', 1)) (print_to (fds ! 2) (ascii ''Not such file or directory: '' @ s @ [10]) k))
         | Some a \<Rightarrow>
             if attr (entry (disk k) a) = kDirectory
             then map_option (\<lambda>k'. (k', 0)) (ListAllEntries (FirstCluster (entry (disk k) a)) k)
             else if post_slash
             then map_option (\<lambda>k'. (k', 1)) (print_to (fds ! 2) (FormatName (dname (entry (disk k) a)) @ ascii '' is not a directory'' @ [10]) k)
             else None))"

text \<open>The loops of \<open>cat\<close>.  Every character is one write.\<close>

fun cat_bytes :: "nat \<Rightarrow> nat \<Rightarrow> nat \<Rightarrow> Kernel \<Rightarrow> Kernel option" where
  "cat_bytes fd p 0 k = Some k"
| "cat_bytes fd p (Suc n) k = Option.bind (print_to fd [image (disk k) p] k) (cat_bytes fd (p + 1) n)"

partial_function (option) cat_loop :: "nat \<Rightarrow> u32 \<Rightarrow> nat \<Rightarrow> Kernel \<Rightarrow> Kernel option" where
  "cat_loop fd cluster remain_bytes k =
     (if cluster \<noteq> 0 \<and> cluster \<noteq> kEndOfClusterchain
      then let i = min (unat (bytes_per_cluster (disk k))) remain_bytes
           in Option.bind (cat_bytes fd (GetSectorByCluster (disk k) cluster) i k) (\<lambda>k'.
                cat_loop fd (NextCluster (disk k') cluster) (remain_bytes - i) k')
      else Some k)"

definition cmd_cat :: "u8 list option \<Rightarrow> nat list \<Rightarrow> Kernel \<Rightarrow> (Kernel \<times> int) option" where
  "cmd_cat arg fds k =
     Option.bind (arg_string k arg) (\<lambda>s.
     Option.bind (FindFile s 0 (disk k)) (\<lambda>(file_entry, _).
       case file_entry of
         None \<Rightarrow> Option.bind arg (\<lambda>s. map_option (\<lambda>k'. (k', 1)) (print_to (fds ! 2) (ascii ''no such file: '' @ s @ [10]) k))
       | Some a \<Rightarrow>
           let e = entry (disk k) a
           in map_option (\<lambda>k'. (k', 0)) (cat_loop (fds ! 1) (FirstCluster e) (unat (file_size e)) k)))"

definition cmd_exec :: "Env \<Rightarrow> u8 list \<Rightarrow> u8 list option \<Rightarrow> nat list \<Rightarrow> Kernel \<Rightarrow> (Kernel \<times> int) option" where
  "cmd_exec env cmd arg fds k =
     Option.bind (FindFile cmd 0 (disk k)) (\<lambda>(file_entry, post_slash).
       case file_entry of
         None \<Rightarrow> map_option (\<lambda>k'. (k', 0)) (printk_k (ascii ''command not found: '' @ cmd @ [10]) k)
       | Some a \<Rightarrow>
           if attr (entry (disk k) a) \<noteq> kDirectory \<and> post_slash
           then map_option (\<lambda>k'. (k', 0)) (printk_k (FormatName (dname (entry (disk k) a)) @ ascii '' is not a directory'' @ [10]) k)
           else Option.bind (ExecuteFile env a cmd arg fds k) (\<lambda>(k1, ec, err).
                  if err \<noteq> kSuccess
                  then Option.bind (error_text err) (\<lambda>name.
                         map_option (\<lambda>k2. (k2, 0)) (printk_k (ascii ''failed to exec file: '' @ name @ [10]) k1))
                  else Some (k1, ec)))"

definition run_command :: "Env \<Rightarrow> u8 list \<Rightarrow> u8 list option \<Rightarrow> nat list \<Rightarrow> Kernel \<Rightarrow> (Kernel \<times> int) option" where
  "run_command env cmd arg fds k =
     (if cmd = ascii ''echo'' then cmd_echo arg fds k
      else if cmd = ascii ''clear'' then Some (k\<lparr>screen := Clear (screen k)\<rparr>, 0)
      else if cmd = ascii ''ls'' then cmd_ls arg fds k
      else if cmd = ascii ''cat'' then cmd_cat arg fds k
      else cmd_exec env cmd arg fds k)"

section \<open>Pipes and redirections\<close>

text \<open>
  The subcommand behind a pipe: a task that will run \<open>TaskTerminal\<close> on its descriptor, with the pipe as its first file.
  The result holds the new files, the task and the pipe.
\<close>

definition start_subtask ::
  "Env \<Rightarrow> u8 list \<Rightarrow> nat list \<Rightarrow> Kernel \<Rightarrow> (Kernel \<times> nat list \<times> nat \<times> nat \<times> TerminalDescriptor) option" where
  "start_subtask env subcommand fds k =
     (let (tm1, subtask) = NewTask (task_mgr k);
          (k1, pipe_fd) = new_object (PipeFD (new_PipeDescriptor subtask)) (k\<lparr>task_mgr := tm1\<rparr>);
          term_desc = \<lparr>command_line = subcommand, desc_files = [pipe_fd, fds ! 1, fds ! 2]\<rparr>;
          tm2 = update_task subtask
                  (InitContext (reg_cr3 (paging k)) (stack_end env subtask) (terminal_entry env) (descriptor_address env subtask)) tm1
      in map_option (\<lambda>tm3. (k1\<lparr>task_mgr := tm3\<rparr>, fds[1 := pipe_fd], subtask, pipe_fd, term_desc)) (Wakeup subtask (- 1) tm2))"

text \<open>The redirection of the output; without files as the result, \<open>ExecuteCommand\<close> returns.\<close>

definition redirect_to :: "nat \<Rightarrow> nat list \<Rightarrow> Kernel \<Rightarrow> Kernel \<times> nat list option" where
  "redirect_to a fds k = (let (k1, obj) = new_object (FatFD (new_FatFileDescriptor a)) k in (k1, Some (fds[1 := obj])))"

definition redirect :: "u8 list \<Rightarrow> nat list \<Rightarrow> Kernel \<Rightarrow> (Kernel \<times> nat list option) option" where
  "redirect redir_dest fds k =
     Option.bind (FindFile redir_dest 0 (disk k)) (\<lambda>(file, post_slash).
       case file of
         None \<Rightarrow>
           (case CreateFile redir_dest (disk k) of
              None \<Rightarrow> None
            | Some (Inl err) \<Rightarrow>
                Option.bind (error_text err) (\<lambda>name.
                  map_option (\<lambda>k'. (k', None)) (print_to (fds ! 2) (ascii ''failed to create a redirect file: '' @ name @ [10]) k))
            | Some (Inr (a, v)) \<Rightarrow> Some (redirect_to a fds (k\<lparr>disk := v\<rparr>)))
       | Some a \<Rightarrow>
           if attr (entry (disk k) a) = kDirectory \<or> post_slash
           then map_option (\<lambda>k'. (k', None)) (print_to (fds ! 2) (ascii ''cannot redirect to a directory'' @ [10]) k)
           else Some (redirect_to a fds k))"

definition finish_pipe :: "nat \<Rightarrow> Kernel \<Rightarrow> Kernel option" where
  "finish_pipe obj k =
     (case objects k ! obj of
        PipeFD fd \<Rightarrow> map_option (\<lambda>tm. k\<lparr>task_mgr := tm\<rparr>) (FinishWrite fd (task_mgr k))
      | _ \<Rightarrow> None)"

text \<open>
  \<open>ExecuteCommand\<close> up to \<open>WaitFinish\<close>: the new task with its descriptor, and the task to wait for.
\<close>

record Started =
  spawned :: "(nat \<times> TerminalDescriptor) option"
  waits_for :: "nat option"

definition ExecuteCommand :: "Env \<Rightarrow> u8 list \<Rightarrow> nat list \<Rightarrow> Kernel \<Rightarrow> (Kernel \<times> Started) option" where
  "ExecuteCommand env line fds k =
     (let buf0 = line @ [0];
          arg = strchr (c_string buf0) 0x20;
          redir_char = strchr (c_string buf0) 0x3e;
          pipe_char = strchr (c_string buf0) 0x7c;
          buf2 = cut_at pipe_char (cut_at arg buf0);
          buf = cut_at redir_char buf2;
          cmd = string_at buf 0;
          argument = map_option (\<lambda>i. string_at buf (i + 1)) arg;
          started = (case pipe_char of
              None \<Rightarrow> Some (k, fds, None)
            | Some i \<Rightarrow>
                map_option (\<lambda>(k', fds', subtask, pipe_fd, term_desc). (k', fds', Some (subtask, pipe_fd, term_desc)))
                  (start_subtask env (string_at buf2 (skip_spaces buf2 (i + 1))) fds k))
      in Option.bind started (\<lambda>(k1, fds1, sub).
         Option.bind (case redir_char of
              None \<Rightarrow> Some (k1, Some fds1)
            | Some i \<Rightarrow> redirect (string_at buf (skip_spaces buf (i + 1))) fds1 k1) (\<lambda>(k2, fds2).
         let task = map_option (\<lambda>(subtask, _, term_desc). (subtask, term_desc)) sub
         in case fds2 of
              None \<Rightarrow> Some (k2, \<lparr>spawned = task, waits_for = None\<rparr>)
            | Some fs \<Rightarrow>
                Option.bind (run_command env cmd argument fs k2) (\<lambda>(k3, exit_code).
                  case sub of
                    None \<Rightarrow> Some (k3\<lparr>last_exit_code := exit_code\<rparr>, \<lparr>spawned = None, waits_for = None\<rparr>)
                  | Some (subtask, pipe_fd, _) \<Rightarrow>
                      map_option (\<lambda>k4. (k4, \<lparr>spawned = task, waits_for = Some subtask\<rparr>)) (finish_pipe pipe_fd k3)))))"

section \<open>The task of a terminal\<close>

record Terminal =
  tty_task :: nat
  tty_files :: "nat list"
  one_shot :: bool
  line_buf :: "u8 list"
  waiting :: "nat option"

definition prompt :: "u8 list" where "prompt = ascii ''> ''"

text \<open>
  What follows a command: a terminal that was started for one command finishes its task, an interactive one
  prompts for the next line.  The terminal is gone (\<open>None\<close>) once its task has finished.
\<close>

definition command_done :: "Terminal \<Rightarrow> Kernel \<Rightarrow> (Kernel \<times> Terminal option) option" where
  "command_done T k =
     (if one_shot T
      then map_option (\<lambda>(tm, c). (k\<lparr>task_mgr := tm, cpu := c\<rparr>, None)) (Finish (last_exit_code k) (task_mgr k))
      else Some (k\<lparr>screen := PutString prompt (screen k)\<rparr>, Some (T\<lparr>line_buf := []\<rparr>)))"

definition run_line :: "Env \<Rightarrow> u8 list \<Rightarrow> Terminal \<Rightarrow> Kernel \<Rightarrow> (Kernel \<times> Terminal option \<times> (nat \<times> TerminalDescriptor) option) option" where
  "run_line env line T k =
     Option.bind (ExecuteCommand env line (tty_files T) k) (\<lambda>(k1, started).
       case waits_for started of
         Some subtask \<Rightarrow> Some (k1, Some (T\<lparr>waiting := Some subtask\<rparr>), spawned started)
       | None \<Rightarrow> map_option (\<lambda>(k2, T'). (k2, T', spawned started)) (command_done T k1))"

text \<open>\<open>TaskTerminal\<close> up to its loop.\<close>

definition TaskTerminal_start ::
  "Env \<Rightarrow> nat \<Rightarrow> TerminalDescriptor option \<Rightarrow> Kernel \<Rightarrow> (Kernel \<times> Terminal option \<times> (nat \<times> TerminalDescriptor) option) option" where
  "TaskTerminal_start env task term_desc k =
     (let terminal = (\<lambda>fds. \<lparr>tty_task = task, tty_files = fds, one_shot = False, line_buf = [], waiting = None\<rparr>);
          interactive = (\<lambda>fds k. Some (k\<lparr>screen := PutString prompt (screen k)\<rparr>, Some (terminal fds), None))
      in case term_desc of
           None \<Rightarrow>
             let (k1, f0) = new_object (TerminalFD task) k; (k2, f1) = new_object (TerminalFD task) k1;
                 (k3, f2) = new_object (TerminalFD task) k2
             in interactive [f0, f1, f2] k3
         | Some d \<Rightarrow>
             if command_line d \<noteq> [] then run_line env (command_line d) ((terminal (desc_files d))\<lparr>one_shot := True\<rparr>) k
             else interactive (desc_files d) k)"

text \<open>One round of a terminal: the loop of \<open>WaitFinish\<close> while it waits, otherwise its own loop.\<close>

definition TaskTerminal_round ::
  "Env \<Rightarrow> Terminal \<Rightarrow> Kernel \<Rightarrow> (Kernel \<times> Terminal option \<times> (nat \<times> TerminalDescriptor) option) option" where
  "TaskTerminal_round env T k =
     (case waiting T of
        Some subtask \<Rightarrow>
          Option.bind (WaitFinish_round subtask (tty_task T) (task_mgr k, cpu k)) (\<lambda>((tm, c), r).
            case r of
              None \<Rightarrow> Some (k\<lparr>task_mgr := tm, cpu := c\<rparr>, Some T, None)
            | Some ec \<Rightarrow> map_option (\<lambda>(k', T'). (k', T', None))
                (command_done (T\<lparr>waiting := None\<rparr>) (k\<lparr>task_mgr := tm, cpu := c, last_exit_code := ec\<rparr>)))
      | None \<Rightarrow>
          (case ReceiveMessage (tty_task T) (task_mgr k) of
             None \<Rightarrow> None
           | Some (tm, None) \<Rightarrow>
               map_option (\<lambda>(tm', c). (k\<lparr>task_mgr := tm', cpu := c\<rparr>, Some T, None)) (Sleep (tty_task T) (tm, cpu k))
           | Some (tm, Some (kKeyboardPush code)) \<Rightarrow>
               let c = key_byte code;
                   k1 = k\<lparr>task_mgr := tm, screen := PutChar c (screen k)\<rparr>
               in if c = 10 then run_line env (line_buf T) T k1
                  else Some (k1, Some (T\<lparr>line_buf := line_buf T @ [c]\<rparr>), None)
           | Some (tm, Some _) \<Rightarrow> Some (k\<lparr>task_mgr := tm\<rparr>, Some T, None)))"

end
