(* ===== verification/ShellCommands.thy ===== *)
theory ShellCommands
  imports Shell
begin

text \<open>
  What the commands of the shell do: \<open>cat\<close> shows the bytes of a file, \<open>ls\<close> the names of a directory, and
  \<open>echo\<close> with a redirection writes a file.
\<close>

section \<open>Printing\<close>

abbreviation show_bytes :: "u8 list \<Rightarrow> Kernel \<Rightarrow> Kernel" where
  "show_bytes bs k \<equiv> k\<lparr>screen := fold PutChar bs (screen k)\<rparr>"

definition on_terminal :: "nat \<Rightarrow> Kernel \<Rightarrow> bool" where
  "on_terminal fd k \<longleftrightarrow> fd < length (objects k) \<and> (\<exists>j. objects k ! fd = TerminalFD j)"

lemma on_terminal_show [simp]: "on_terminal fd (k\<lparr>screen := c\<rparr>) = on_terminal fd k"
  by (simp add: on_terminal_def)

lemma bytes_of_string: "bytes (put_bytes 0 (s @ [0]) m) 0 (length s) = s"
  by (rule nth_equalityI) (simp_all add: put_bytes_def nth_append)

lemma print_to_terminal: "on_terminal fd k \<Longrightarrow> length s < 128 \<Longrightarrow> print_to fd s k = Some (show_bytes s k)"
  by (auto simp: print_to_def PrintToFD_def FD_Write_def on_terminal_def terminal_write_def bytes_of_string layout)

section \<open>cat\<close>

lemma cat_bytes_run: "on_terminal fd k \<Longrightarrow> cat_bytes fd p n k = Some (show_bytes (bytes (image (disk k)) p n) k)"
proof (induction n arbitrary: p k)
  case (Suc n)
  let ?b = "image (disk k) p"
  have "bytes (image (disk k)) p (Suc n) = ?b # bytes (image (disk k)) (p + 1) n"
    by (rule nth_equalityI) (auto simp: nth_Cons split: nat.split)
  then show ?case using Suc.IH [of "show_bytes [?b] k" "p + 1"] Suc.prems by (simp add: print_to_terminal)
qed (simp add: bytes_def)

text \<open>\<open>cat\<close> shows the first bytes of the chain and walks to its end.\<close>

lemma cat_loop_end: "c = 0 \<or> c = kEndOfClusterchain \<Longrightarrow> cat_loop fd c n k = Some k"
  by (subst cat_loop.simps) auto

lemma cat_loop_run:
  assumes "on_terminal fd k" and "volume_ok (disk k) N" and "file_chain N (disk k) cs"
  shows "cat_loop fd (hd cs) n k = Some (show_bytes (take n (volume.content (disk k) cs)) k)"
  using assms
proof (induction cs arbitrary: n k)
  case Nil
  then show ?case by (simp add: file_chain_def)
next
  case (Cons c cs)
  let ?B = "cluster_size (disk k)"
  let ?i = "min ?B n"
  have c: "valid_cluster N c" using Cons.prems(3) by (simp add: file_chain_def)
  then have ne: "c \<noteq> 0 \<and> c \<noteq> kEndOfClusterchain"
    using valid_not_end [OF Cons.prems(2) c] by (auto simp: valid_cluster_def IsEndOfClusterchain_def kEndOfClusterchain_def)
  have b: "bytes (image (disk k)) (GetSectorByCluster (disk k) c) ?i = take n (cluster_bytes (disk k) c)"
    by (rule nth_equalityI) (simp_all add: cluster_bytes_def)
  let ?k = "show_bytes (take n (cluster_bytes (disk k) c)) k"
  have step: "cat_loop fd c n k = cat_loop fd (NextCluster (disk k) c) (n - ?i) ?k"
    using ne cat_bytes_run [OF Cons.prems(1), of "GetSectorByCluster (disk k) c" ?i] b
    by (subst cat_loop.simps) (simp add: Let_def cluster_size_def)
  have content: "take n (volume.content (disk k) (c # cs)) = take n (cluster_bytes (disk k) c) @ take (n - ?B) (volume.content (disk k) cs)"
    by (simp add: cluster_bytes_def)
  show ?case
  proof (cases "cs = []")
    case True
    then have "IsEndOfClusterchain (fat_get (disk k) c)" using Cons.prems(3) by (simp add: file_chain_def)
    then have "NextCluster (disk k) c = kEndOfClusterchain" by (simp add: NextCluster_def IsEndOfClusterchain_def)
    with step content True show ?thesis by (simp add: cat_loop_end)
  next
    case False
    then have f: "file_chain N (disk ?k) cs" and "fat_get (disk k) c = hd cs" using Cons.prems(3) by (auto simp: file_chain_def chain_Cons)
    moreover have "\<not> IsEndOfClusterchain (hd cs)"
      using False f valid_not_end [OF Cons.prems(2), of "hd cs"] by (simp add: file_chain_def)
    ultimately have "NextCluster (disk k) c = hd cs" by (simp add: NextCluster_def IsEndOfClusterchain_def)
    with step Cons.IH [of ?k "n - ?i"] Cons.prems(1,2) f content show ?thesis by (simp add: min_def)
  qed
qed

lemma cat_run:
  assumes "volume_ok (disk k) N" and "FindFile path 0 (disk k) = Some (Some a, p)" and "file_at N (disk k) a cs"
    and "on_terminal (fds ! 1) k"
  shows "run_command env (ascii ''cat'') (Some path) fds k = Some (show_bytes (file_data (disk k) a cs) k, 0)"
proof -
  let ?n = "unat (file_size (entry (disk k) a))"
  have "cat_loop (fds ! 1) (FirstCluster (entry (disk k) a)) ?n k = Some (show_bytes (file_data (disk k) a cs) k)"
  proof (cases "cs = []")
    case True
    with assms(3) show ?thesis by (simp add: file_at_def file_data_def cat_loop_end)
  next
    case False
    with assms(3) cat_loop_run [OF assms(4,1), of cs ?n] show ?thesis by (simp add: file_at_def file_data_def)
  qed
  with assms(2) show ?thesis
    by (simp add: run_command_def cmd_cat_def arg_string_def ascii_def)
qed

section \<open>ls\<close>

text \<open>The entries of a directory that are listed, and what is printed for them.\<close>

definition listed :: "Volume \<Rightarrow> nat list \<Rightarrow> nat list" where
  "listed v as = filter (\<lambda>a. image v a \<noteq> 0xe5 \<and> attr (entry v a) \<noteq> kLongName) (takeWhile (\<lambda>a. image v a \<noteq> 0) as)"

definition show_names :: "Volume \<Rightarrow> nat list \<Rightarrow> Console \<Rightarrow> Console" where
  "show_names v as = fold (\<lambda>a. PutString (FormatName (dname (entry v a)) @ [10])) as"

lemma length_cut_spaces [simp]: "length (cut_spaces s n) = length s"
  by (induction s n rule: cut_spaces.induct) simp_all

lemma length_c_string: "length (c_string s) \<le> length s"
  by (simp add: c_string_def length_takeWhile_le)

lemma length_FormatName: "length (FormatName s) \<le> 12"
proof -
  have "length (c_string (cut_spaces (take 8 s) 8)) \<le> 8" "length (c_string (cut_spaces (take 3 (drop 8 s)) 3)) \<le> 3"
    by (rule order_trans [OF length_c_string], simp)+
  then show ?thesis by (simp add: FormatName_def ReadName_def)
qed

lemma printk_name: "printk_k (FormatName s @ [10]) k = Some (k\<lparr>screen := PutString (FormatName s @ [10]) (screen k)\<rparr>)"
  using length_FormatName [of s] by (simp add: printk_k_def printk_def layout)

lemma list_slots_run:
  "list_slots a n k = (let as = map (\<lambda>i. a + i * kEntrySize) [0..<n]
     in Some (k\<lparr>screen := show_names (disk k) (listed (disk k) as) (screen k)\<rparr>, \<exists>x\<in>set as. image (disk k) x = 0))"
proof (induction n arbitrary: a k)
  case 0
  then show ?case by (simp add: show_names_def listed_def)
next
  case (Suc n)
  show ?case
    by (simp del: upt_Suc PutString.simps add: upt_map_shift Suc.IH printk_name show_names_def listed_def Let_def)
qed

lemma listed_append: "listed v (as @ bs) = listed v as @ (if \<exists>x\<in>set as. image v x = 0 then [] else listed v bs)"
  by (auto simp: listed_def takeWhile_append) (auto simp: takeWhile_eq_all_conv [THEN iffD2])

lemma ListAllEntries_run:
  assumes "volume_ok (disk k) N" and "file_chain N (disk k) cs"
  shows "ListAllEntries (hd cs) k
    = Some (k\<lparr>screen := show_names (disk k) (listed (disk k) (dir_entries (disk k) cs)) (screen k)\<rparr>)"
  using assms
proof (induction cs arbitrary: k)
  case Nil
  then show ?case by (simp add: file_chain_def)
next
  case (Cons c cs)
  have c: "valid_cluster N c" using Cons.prems(2) by (simp add: file_chain_def)
  let ?as = "cluster_entries (disk k) c"
  let ?k = "k\<lparr>screen := show_names (disk k) (listed (disk k) ?as) (screen k)\<rparr>"
  have step: "ListAllEntries c k = (if \<exists>x\<in>set ?as. image (disk k) x = 0 then Some ?k else ListAllEntries (NextCluster (disk k) c) ?k)"
    using valid_not_end [OF Cons.prems(1) c]
    by (subst ListAllEntries.simps) (auto simp: list_slots_run cluster_entries_def Let_def IsEndOfClusterchain_def kEndOfClusterchain_def)
  have d: "dir_entries (disk k) (c # cs) = ?as @ dir_entries (disk k) cs" by (simp add: dir_entries_def)
  show ?case
  proof (cases "cs = []")
    case True
    then have "NextCluster (disk k) c = kEndOfClusterchain" using Cons.prems(2) by (simp add: file_chain_def NextCluster_def IsEndOfClusterchain_def)
    moreover have "ListAllEntries kEndOfClusterchain ?k = Some ?k" by (subst ListAllEntries.simps) simp
    ultimately show ?thesis using step True d by (simp add: dir_entries_def)
  next
    case False
    then have f: "file_chain N (disk ?k) cs" "fat_get (disk k) c = hd cs" using Cons.prems(2) by (auto simp: file_chain_def chain_Cons)
    moreover have "\<not> IsEndOfClusterchain (hd cs)"
      using False f valid_not_end [OF Cons.prems(1), of "hd cs"] by (simp add: file_chain_def)
    ultimately have "NextCluster (disk k) c = hd cs" by (simp add: NextCluster_def IsEndOfClusterchain_def)
    with step Cons.IH [of ?k] Cons.prems(1) f(1) show ?thesis by (simp add: d listed_append show_names_def)
  qed
qed

section \<open>Printing to a file\<close>

fun print_all :: "nat \<Rightarrow> u8 list list \<Rightarrow> Kernel \<Rightarrow> Kernel option" where
  "print_all fd [] k = Some k"
| "print_all fd (s # ss) k = Option.bind (print_to fd s k) (print_all fd ss)"

definition printed_blocks :: "u8 list list \<Rightarrow> memory \<Rightarrow> (memory \<times> nat) list" where
  "printed_blocks ss m = map (\<lambda>s. (put_bytes 0 (s @ [0]) m, length s)) ss"

lemma printed_blocks_simps [simp]:
  "printed_blocks [] m = []" "printed_blocks (s # ss) m = (put_bytes 0 (s @ [0]) m, length s) # printed_blocks ss m"
  "map snd (printed_blocks ss m) = map length ss" "written (printed_blocks ss m) = concat ss"
  "printed_blocks ss m = [] \<longleftrightarrow> ss = []"
  by (simp_all add: printed_blocks_def o_def bytes_of_string)

lemma print_all_file:
  assumes "fd < length (objects k)" and "objects k ! fd = FatFD f" and "\<forall>s\<in>set ss. length s < 128"
    and "write_all (printed_blocks ss (stack_garbage k)) f (disk k) = Some (f', v')"
  shows "print_all fd ss k = Some (k\<lparr>disk := v', objects := (objects k)[fd := FatFD f']\<rparr>)"
  using assms
proof (induction ss arbitrary: k f)
  case Nil
  then have "f' = f" "v' = disk k" "(objects k)[fd := FatFD f] = objects k" by (auto intro: list_update_same_conv [THEN iffD2])
  then show ?case by simp
next
  case (Cons s ss)
  from Cons.prems(4) obtain r f1 v1 where
    w: "Write (put_bytes 0 (s @ [0]) (stack_garbage k)) (length s) f (disk k) = Some (r, f1, v1)"
      "write_all (printed_blocks ss (stack_garbage k)) f1 v1 = Some (f', v')" by (auto simp: bind_Some_iff)
  let ?k = "k\<lparr>disk := v1, objects := (objects k)[fd := FatFD f1]\<rparr>"
  have "print_to fd s k = Some ?k" using Cons.prems(1-3) w(1) by (simp add: print_to_def PrintToFD_def FD_Write_def layout)
  with Cons.IH [of ?k f1] w(2) Cons.prems(1,3) show ?case by simp
qed

section \<open>Command lines\<close>

lemma c_string_append: "0 \<notin> set s \<Longrightarrow> c_string (s @ 0 # t) = s"
  by (induction s) (simp_all add: c_string_def)

lemma string_at_append: "0 \<notin> set s \<Longrightarrow> n = length xs \<Longrightarrow> string_at (xs @ s @ 0 # ys) n = s"
  by (simp add: string_at_def c_string_append)

text \<open>A line of the form \<open>cmd arg>dest\<close>.\<close>

definition plain :: "u8 list \<Rightarrow> bool" where
  "plain s \<longleftrightarrow> set s \<inter> {0, 0x3e, 0x7c} = {}"

lemma ExecuteCommand_redirect:
  assumes "plain cmd" "0x20 \<notin> set cmd" "plain arg" "plain dest" "dest \<noteq> []" "\<not> isspace (hd dest)"
  shows "ExecuteCommand env (cmd @ 0x20 # arg @ 0x3e # dest) fds k
    = Option.bind (redirect dest fds k) (\<lambda>(k2, fds2). case fds2 of
        None \<Rightarrow> Some (k2, \<lparr>spawned = None, waits_for = None\<rparr>)
      | Some fs \<Rightarrow> map_option (\<lambda>(k3, ec). (k3\<lparr>last_exit_code := ec\<rparr>, \<lparr>spawned = None, waits_for = None\<rparr>))
          (run_command env cmd (Some arg) fs k2))"
proof -
  let ?l = "cmd @ 0x20 # arg @ 0x3e # dest" and ?r = "length cmd + length arg + 1"
  have z: "0 \<notin> set cmd" "0 \<notin> set arg" "0 \<notin> set dest" "0 \<notin> set ?l" using assms by (auto simp: plain_def)
  have c: "c_string (?l @ [0]) = ?l" using c_string_append [OF z(4), of "[]"] by simp
  have sp: "strchr ?l 0x20 = Some (length cmd)" using assms(2) by (simp add: strchr_append)
  have rd: "strchr ?l 0x3e = Some ?r" using strchr_append [of "0x3e" "cmd @ 0x20 # arg" dest] assms(1,3) by (simp add: plain_def)
  have pp: "strchr ?l 0x7c = None" using assms by (intro strchr_None) (auto simp: plain_def)
  let ?b = "cmd @ 0 # arg @ 0 # dest @ [0]"
  have b: "cut_at (Some ?r) (cut_at None (cut_at (Some (length cmd)) (?l @ [0]))) = ?b"
    by (simp add: cut_at_def list_update_append)
  have at: "string_at ?b 0 = cmd" "string_at ?b (length cmd + 1) = arg"
    using string_at_append [OF z(1), of 0 "[]"] string_at_append [OF z(2), of "length cmd + 1" "cmd @ [0]" "dest @ [0]"] by simp_all
  have "drop (?r + 1) ?b = dest @ [0]" by simp
  then have sk: "skip_spaces ?b (?r + 1) = ?r + 1" using assms(5,6) by (cases dest) (simp_all add: skip_spaces_def)
  have dst: "string_at ?b (?r + 1) = dest"
    using string_at_append [OF z(3), of "?r + 1" "cmd @ 0 # arg @ [0]" "[]"] by simp
  show ?thesis
    unfolding ExecuteCommand_def Let_def c sp rd pp b option.map(2) at option.case bind.bind_lunit prod.case sk dst
    by (auto intro!: Option.bind_cong simp: map_conv_bind_option split: option.splits prod.splits)
qed

section \<open>Properties\<close>

text \<open>
  C29. \<open>cat\<close> ends and shows exactly the bytes of the file, in order, and changes nothing but the screen, for a file with
  or without clusters, with its length inside its chain.
\<close>

theorem cat_shows_file:
  assumes "volume_ok (disk k) N" and "FindFile path 0 (disk k) = Some (Some a, p)" and "file_at N (disk k) a cs"
    and "on_terminal (fds ! 1) k"
  shows "run_command env (ascii ''cat'') (Some path) fds k = Some (show_bytes (file_data (disk k) a cs) k, 0)"
  by (rule cat_run [OF assms])

lemma sample_found: "FindFile file_txt 0 sample_volume = Some (Some 128, False)"
proof -
  have comp: "component file_txt" by (simp add: component_def file_txt_def dot_def slash_def layout)
  have root: "file_chain 8 sample_volume [2]" "hd [2] = root_cluster (boot_volume_image sample_volume)" using sample_root by (simp_all add: sample_geometry sample_BPB)
  from FindFile_single [OF sample_ok root comp] sample_lookup show ?thesis by simp
qed

theorem cat_shows_file_witness:
  "\<forall>env. run_command env (ascii ''cat'') (Some file_txt) [0, 0, 0] (sample_kernel terminal_manager)
     = Some (show_bytes (map of_nat [0..<40]) (sample_kernel terminal_manager), 0)"
proof
  fix env
  let ?k = "sample_kernel terminal_manager"
  have d: "disk ?k = sample_volume" by (simp add: sample_kernel_def)
  have "on_terminal ([0, 0, 0] ! 1) ?k" by (simp add: on_terminal_def sample_kernel_def)
  from cat_shows_file [of ?k, unfolded d, OF sample_ok sample_found sample_file this, of env] sample_data
  show "run_command env (ascii ''cat'') (Some file_txt) [0, 0, 0] ?k = Some (show_bytes (map of_nat [0..<40]) ?k, 0)" by simp
qed

text \<open>
  C34. \<open>ls\<close> of the root directory ends and prints the names of its entries up to the end mark, in order, each in a line of
  its own, without deleted entries and long names, and changes nothing but the screen.
\<close>

theorem ls_lists_root:
  assumes "volume_ok (disk k) N" and "file_chain N (disk k) cs" and "hd cs = root_cluster (boot_volume_image (disk k))"
  shows "run_command env (ascii ''ls'') (Some []) fds k
    = Some (k\<lparr>screen := show_names (disk k) (listed (disk k) (dir_entries (disk k) cs)) (screen k)\<rparr>, 0)"
  using ListAllEntries_run [OF assms(1,2)] assms(3)
  by (simp add: run_command_def cmd_ls_def arg_string_def ascii_def)

theorem ls_lists_root_witness:
  "\<forall>env. run_command env (ascii ''ls'') (Some []) [0, 0, 0] (sample_kernel terminal_manager)
     = Some ((sample_kernel terminal_manager)\<lparr>screen := PutString (ascii ''FILE.TXT'' @ [10]) (screen (sample_kernel terminal_manager))\<rparr>, 0)"
proof
  fix env
  let ?k = "sample_kernel terminal_manager"
  have d: "disk ?k = sample_volume" by (simp add: sample_kernel_def)
  have "image sample_volume 128 = 70" "attr (entry sample_volume 128) = 0x20"
    by (simp_all add: entry_def read_entry_def sample_geometry sample_memory_def)
  then have l: "listed sample_volume (dir_entries sample_volume [2]) = [128]"
    by (simp add: listed_def sample_dir kLongName_def)
  have "FormatName [70, 73, 76, 69, 32, 32, 32, 32, 84, 88, 84] = ascii ''FILE.TXT''" by code_simp
  then have n: "show_names sample_volume [128] = PutString (ascii ''FILE.TXT'' @ [10])"
    by (simp add: show_names_def sample_name del: PutString.simps)
  have root: "file_chain 8 sample_volume [2]" "hd [2] = root_cluster (boot_volume_image sample_volume)" using sample_root by (simp_all add: sample_geometry sample_BPB)
  from ls_lists_root [of ?k 8 "[2]" env "[0, 0, 0]", unfolded d, OF sample_ok root, unfolded l n]
  show "run_command env (ascii ''ls'') (Some []) [0, 0, 0] ?k
     = Some (?k\<lparr>screen := PutString (ascii ''FILE.TXT'' @ [10]) (screen ?k)\<rparr>, 0)" .
qed

lemma echo_to_file:
  assumes fd: "length fds = 3" "fds ! 1 < length (objects k)" "objects k ! (fds ! 1) = FatFD (new_FatFileDescriptor a)"
    and line: "body \<noteq> []" "take 2 body \<noteq> ascii ''$?''" "length body < 128"
    and home: "file_home N (disk k) a d cs"
    and room: "length body + 1 \<le> cluster_size (disk k)"
      "length body + 1 \<le> (length cs + length (free_clusters 2 N (disk k))) * cluster_size (disk k)"
  shows "\<exists>f' v' cs'. run_command env (ascii ''echo'') (Some body) fds k = Some (k\<lparr>disk := v', objects := (objects k)[fds ! 1 := FatFD f']\<rparr>, 0)
    \<and> file_home N v' a d cs' \<and> unat (file_size (entry v' a)) \<le> length cs' * cluster_size v' \<and> file_data v' a cs' = body @ [10]"
proof -
  let ?f = "new_FatFileDescriptor a" and ?ss = "[body, [10]]"
  note fresh = fresh_descriptor(3,5,6) [of a]
  define ws where "ws = printed_blocks ?ss (stack_garbage k)"
  have ws: "map snd ws = [length body, 1]" "written ws = body @ [10]" "ws \<noteq> []"
    unfolding ws_def printed_blocks_simps(3,4) by simp_all
  have "within_clusters (cluster_size (disk k)) (wr_cluster_off ?f) (map snd ws)" using room(1) line(1) fresh by (simp add: ws)
  moreover have "wr_off ?f + sum_list (map snd ws) \<le> (length cs + length (free_clusters 2 N (disk k))) * cluster_size (disk k)"
    "wr_off ?f + sum_list (map snd ws) < 2 ^ 32" using room(2) line(3) fresh by (simp_all add: ws)
  moreover have "file_home N (disk k) (fat_entry ?f) d cs" using home fresh by simp
  ultimately obtain f' v' cs' where w: "write_all ws ?f (disk k) = Some (f', v')" "file_home N v' a d cs'"
    "unat (file_size (entry v' a)) \<le> length cs' * cluster_size v'" "file_data v' a cs' = body @ [10]"
    using write_all_run [OF _ fresh_descriptor(2) ws(3), of N "disk k" a d cs] fresh ws(2) by auto
  have "print_all (fds ! 1) ?ss k = Some (k\<lparr>disk := v', objects := (objects k)[fds ! 1 := FatFD f']\<rparr>)"
    by (rule print_all_file) (use fd w(1) line(3) in \<open>simp_all add: ws_def\<close>)
  then have "run_command env (ascii ''echo'') (Some body) fds k = Some (k\<lparr>disk := v', objects := (objects k)[fds ! 1 := FatFD f']\<rparr>, 0)"
    using line(2) by (simp add: run_command_def cmd_echo_def bind_Some_iff split: Option.bind_splits)
  with w(2-4) show ?thesis by blast
qed


lemma hi_line:
  "plain [0x68, 0x69]" "[0x68, 0x69] \<noteq> ([] :: u8 list)" "take 2 [0x68, 0x69] \<noteq> ascii ''$?''" "length [0x68 :: u8, 0x69] < 128"
  by (simp_all add: plain_def ascii_def)

lemma file_txt_word: "plain file_txt" "file_txt \<noteq> []" "\<not> isspace (hd file_txt)"
  by (simp_all add: plain_def file_txt_def dot_def isspace_def)

lemma empty_file_ready:
  "attr (entry empty_file_volume 128) \<noteq> kDirectory"
  "length [0x68 :: u8, 0x69] + 1 \<le> cluster_size empty_file_volume"
  "length [0x68 :: u8, 0x69] + 1 \<le> (length ([] :: u32 list) + length (free_clusters 2 8 empty_file_volume)) * cluster_size empty_file_volume"
proof -
  have size: "cluster_size empty_file_volume = 32" using same_header_eqs(4) [OF empty_header] by (simp add: sample_geometry)
  show "attr (entry empty_file_volume 128) \<noteq> kDirectory"
    by (simp add: entry_def read_entry_def empty_file_volume_def sample_geometry sample_memory_def kDirectory_def)
  show "length [0x68 :: u8, 0x69] + 1 \<le> cluster_size empty_file_volume"
    "length [0x68 :: u8, 0x69] + 1 \<le> (length ([] :: u32 list) + length (free_clusters 2 8 empty_file_volume)) * cluster_size empty_file_volume"
    using empty_free by (simp_all add: size)
qed


end
