(* ===== verification/ShellPipes.thy ===== *)
theory ShellPipes
  imports ShellCommands
begin

text \<open>
  Commands with a pipe: the new task behind it, what the pipe carries, and what becomes of a redirection.
\<close>

section \<open>The task behind a pipe\<close>

lemma start_subtask_run:
  assumes inv: "sched_inv (task_mgr k)"
  shows "\<exists>tm i t. start_subtask env sub fds k
      = Some (k\<lparr>task_mgr := tm, objects := objects k @ [PipeFD (new_PipeDescriptor i)]\<rparr>, fds[1 := length (objects k)], i,
          length (objects k), \<lparr>command_line = sub, desc_files = [length (objects k), fds ! 1, fds ! 2]\<rparr>)
    \<and> sched_inv tm \<and> CurrentTask tm = CurrentTask (task_mgr k) \<and> find_task (task_mgr k) i = None
    \<and> find_task tm i = Some t \<and> msgs t = [] \<and> running t \<and> (\<forall>j. j \<noteq> i \<longrightarrow> find_task tm j = find_task (task_mgr k) j)"
proof -
  let ?tm = "task_mgr k" and ?i = "latest_id (task_mgr k) + 1"
  obtain tm1 where n: "NewTask ?tm = (tm1, ?i)" using NewTask_run(2) [OF inv] by (cases "NewTask ?tm") simp
  have r: "sched_inv tm1" "CurrentTask tm1 = CurrentTask ?tm" "\<And>j. find_task tm1 j = (if j = ?i then Some (new_Task j) else find_task ?tm j)"
    "find_task ?tm ?i = None"
    using NewTask_run [OF inv] unfolding n by simp_all
  let ?f = "InitContext (reg_cr3 (paging k)) (stack_end env ?i) (terminal_entry env) (descriptor_address env ?i)"
  let ?tm2 = "update_task ?i ?f tm1"
  have inv2: "sched_inv ?tm2" using r(1) by (rule sched_inv_InitContext)
  have t2: "find_task ?tm2 ?i = Some (?f (new_Task ?i))" using r(3) by (simp add: find_task_update InitContext_def)
  have "\<not> running (?f (new_Task ?i))" "msgs (?f (new_Task ?i)) = []" by (simp_all add: InitContext_def new_Task_def)
  from Wakeup_sleeping [OF inv2 t2 this(1), of "- 1"] this(2) obtain tm3 l where
    w: "Wakeup ?i (- 1) ?tm2 = Some tm3" "sched_inv tm3" "CurrentTask tm3 = CurrentTask ?tm2"
      "\<forall>j. find_task tm3 j = (if j = ?i then Some ((?f (new_Task ?i))\<lparr>level := l, running := True\<rparr>) else find_task ?tm2 j)" by auto
  have "find_task tm3 j = find_task ?tm j" if "j \<noteq> ?i" for j
    using w(4) that r(3) by (simp add: find_task_update InitContext_def)
  then show ?thesis
    using n w r(2,4) \<open>msgs (?f (new_Task ?i)) = []\<close>
    by (intro exI [of _ tm3] exI [of _ ?i] exI [of _ "(?f (new_Task ?i))\<lparr>level := l, running := True\<rparr>"])
      (simp add: start_subtask_def new_object_def Let_def)
qed

section \<open>Writing into the pipe\<close>

text \<open>The pipe of object \<open>p\<close> with descriptor \<open>fd\<close> is open and holds \<open>bs\<close>, or has ended.\<close>

definition pipe_holds :: "nat \<Rightarrow> PipeDescriptor \<Rightarrow> u8 list \<Rightarrow> bool \<Rightarrow> Kernel \<Rightarrow> bool" where
  "pipe_holds p fd bs e k \<longleftrightarrow> p < length (objects k) \<and> objects k ! p = PipeFD fd \<and> pipe_ok (fd, task_mgr k, cpu k)
     \<and> pipe_content (fd, task_mgr k, cpu k) = bs \<and> pipe_ended (fd, task_mgr k, cpu k) = e"

lemma new_pipe_holds:
  assumes "sched_inv tm" "find_task tm i = Some t" "msgs t = []"
  shows "pipe_holds (length (objects k)) (new_PipeDescriptor i) [] False
    (k\<lparr>task_mgr := tm, objects := objects k @ [PipeFD (new_PipeDescriptor i)]\<rparr>)"
  using assms by (simp add: pipe_holds_def pipe_ok_def pipe_content_def pipe_ended_def reader_queue_def new_PipeDescriptor_def layout)

lemma print_to_pipe:
  assumes h: "pipe_holds p fd bs False k" and s: "length s < 128"
  shows "\<exists>tm. print_to p s k = Some (k\<lparr>task_mgr := tm\<rparr>) \<and> pipe_holds p fd (bs @ s) False (k\<lparr>task_mgr := tm\<rparr>)"
proof -
  from h have o: "p < length (objects k)" "objects k ! p = PipeFD fd"
    and ok: "pipe_ok (fd, task_mgr k, cpu k)" "\<not> pipe_ended (fd, task_mgr k, cpu k)" "pipe_content (fd, task_mgr k, cpu k) = bs"
    by (simp_all add: pipe_holds_def)
  from pipe.write_appends [OF ok(1,2), of s] obtain tm n where
    w: "Pipe_Write fd s (task_mgr k) = Some (tm, n)"
    and r: "pipe_ok (fd, tm, cpu k)" "\<not> pipe_ended (fd, tm, cpu k)" "pipe_content (fd, tm, cpu k) = bs @ s"
    using ok(3) by (auto simp: pipe_write_def)
  have "print_to p s k = Some (k\<lparr>task_mgr := tm\<rparr>)"
    using o w s by (simp add: print_to_def PrintToFD_def FD_Write_def bytes_of_string layout)
  with r o show ?thesis by (intro exI [of _ tm]) (simp add: pipe_holds_def)
qed

lemma print_all_pipe:
  "pipe_holds p fd bs False k \<Longrightarrow> \<forall>s\<in>set ss. length s < 128 \<Longrightarrow>
   \<exists>tm. print_all p ss k = Some (k\<lparr>task_mgr := tm\<rparr>) \<and> pipe_holds p fd (bs @ concat ss) False (k\<lparr>task_mgr := tm\<rparr>)"
proof (induction ss arbitrary: bs k)
  case Nil
  then show ?case by (intro exI [of _ "task_mgr k"]) simp
next
  case (Cons s ss)
  from print_to_pipe [OF Cons.prems(1), of s] Cons.prems(2) obtain tm1 where
    s1: "print_to p s k = Some (k\<lparr>task_mgr := tm1\<rparr>)" "pipe_holds p fd (bs @ s) False (k\<lparr>task_mgr := tm1\<rparr>)" by auto
  from Cons.IH [OF s1(2)] Cons.prems(2) s1(1) show ?case by auto
qed

lemma finish_pipe_run:
  assumes h: "pipe_holds p fd bs False k"
  shows "\<exists>tm. finish_pipe p k = Some (k\<lparr>task_mgr := tm\<rparr>) \<and> pipe_holds p fd bs True (k\<lparr>task_mgr := tm\<rparr>)"
proof -
  from h have ok: "pipe_ok (fd, task_mgr k, cpu k)" "\<not> pipe_ended (fd, task_mgr k, cpu k)" and o: "objects k ! p = PipeFD fd"
    by (simp_all add: pipe_holds_def)
  from pipe.finish_ends [OF ok] obtain tm where "FinishWrite fd (task_mgr k) = Some tm"
    "pipe_ok (fd, tm, cpu k)" "pipe_ended (fd, tm, cpu k)" "pipe_content (fd, tm, cpu k) = pipe_content (fd, task_mgr k, cpu k)"
    by (auto simp: pipe_finish_def)
  with h o show ?thesis by (intro exI [of _ tm]) (simp add: finish_pipe_def pipe_holds_def)
qed

section \<open>Command lines with a pipe\<close>

lemma ExecuteCommand_pipe:
  assumes "plain cmd" "0x20 \<notin> set cmd" "plain arg" "0 \<notin> set sub" "0x3e \<notin> set sub" "sub \<noteq> []" "\<not> isspace (hd sub)"
  shows "ExecuteCommand env (cmd @ 0x20 # arg @ 0x7c # sub) fds k
    = Option.bind (start_subtask env sub fds k) (\<lambda>(k1, fs, i, p, d).
      Option.bind (run_command env cmd (Some arg) fs k1) (\<lambda>(k3, _).
        map_option (\<lambda>k4. (k4, \<lparr>spawned = Some (i, d), waits_for = Some i\<rparr>)) (finish_pipe p k3)))"
proof -
  let ?l = "cmd @ 0x20 # arg @ 0x7c # sub" and ?r = "length cmd + length arg + 1"
  have z: "0 \<notin> set cmd" "0 \<notin> set arg" "0 \<notin> set ?l" using assms by (auto simp: plain_def)
  have c: "c_string (?l @ [0]) = ?l" using c_string_append [OF z(3), of "[]"] by simp
  have sp: "strchr ?l 0x20 = Some (length cmd)" using assms(2) by (simp add: strchr_append)
  have pp: "strchr ?l 0x7c = Some ?r" using strchr_append [of "0x7c" "cmd @ 0x20 # arg" sub] assms(1,3) by (simp add: plain_def)
  have rd: "strchr ?l 0x3e = None" using assms by (intro strchr_None) (auto simp: plain_def)
  let ?b = "cmd @ 0 # arg @ 0 # sub @ [0]"
  have b: "cut_at (Some ?r) (cut_at (Some (length cmd)) (?l @ [0])) = ?b" by (simp add: cut_at_def list_update_append)
  have at: "string_at ?b 0 = cmd" "string_at ?b (length cmd + 1) = arg"
    using string_at_append [OF z(1), of 0 "[]"] string_at_append [OF z(2), of "length cmd + 1" "cmd @ [0]" "sub @ [0]"] by simp_all
  have "drop (?r + 1) ?b = sub @ [0]" by simp
  then have sk: "skip_spaces ?b (?r + 1) = ?r + 1" using assms(6,7) by (cases sub) (simp_all add: skip_spaces_def)
  have dst: "string_at ?b (?r + 1) = sub"
    using string_at_append [OF assms(4), of "?r + 1" "cmd @ 0 # arg @ [0]" "[]"] by simp
  have nocut: "cut_at None ?b = ?b" by (simp add: cut_at_def)
  show ?thesis
    unfolding ExecuteCommand_def Let_def c sp rd pp b nocut option.map(2) at option.case bind.bind_lunit prod.case sk dst
    by (auto intro!: Option.bind_cong simp: map_conv_bind_option split: option.splits prod.splits)
qed

lemma ExecuteCommand_pipe_redirect:
  assumes "plain cmd" "0x20 \<notin> set cmd" "plain arg" "plain sub" "sub \<noteq> []" "\<not> isspace (hd sub)" "plain dest" "dest \<noteq> []" "\<not> isspace (hd dest)"
  shows "ExecuteCommand env (cmd @ 0x20 # arg @ 0x7c # sub @ 0x3e # dest) fds k
    = Option.bind (start_subtask env (sub @ 0x3e # dest) fds k) (\<lambda>(k1, fds1, i, p, d).
      Option.bind (redirect dest fds1 k1) (\<lambda>(k2, fds2). case fds2 of
        None \<Rightarrow> Some (k2, \<lparr>spawned = Some (i, d), waits_for = None\<rparr>)
      | Some fs \<Rightarrow> Option.bind (run_command env cmd (Some arg) fs k2) (\<lambda>(k3, _).
          map_option (\<lambda>k4. (k4, \<lparr>spawned = Some (i, d), waits_for = Some i\<rparr>)) (finish_pipe p k3))))"
proof -
  let ?l = "cmd @ 0x20 # arg @ 0x7c # sub @ 0x3e # dest" and ?r = "length cmd + length arg + 1"
  let ?q = "?r + length sub + 1"
  have z: "0 \<notin> set cmd" "0 \<notin> set arg" "0 \<notin> set dest" "0 \<notin> set (sub @ 0x3e # dest)" "0 \<notin> set ?l" using assms by (auto simp: plain_def)
  have c: "c_string (?l @ [0]) = ?l" using c_string_append [OF z(5), of "[]"] by simp
  have sp: "strchr ?l 0x20 = Some (length cmd)" using assms(2) by (simp add: strchr_append)
  have pp: "strchr ?l 0x7c = Some ?r"
    using strchr_append [of "0x7c" "cmd @ 0x20 # arg" "sub @ 0x3e # dest"] assms(1,3) by (simp add: plain_def)
  have rd: "strchr ?l 0x3e = Some ?q"
    using strchr_append [of "0x3e" "cmd @ 0x20 # arg @ 0x7c # sub" dest] assms(1,3,4) by (simp add: plain_def)
  let ?b = "cmd @ 0 # arg @ 0 # (sub @ 0x3e # dest) @ [0]" and ?e = "cmd @ 0 # arg @ 0 # sub @ 0 # dest @ [0]"
  have b: "cut_at (Some ?r) (cut_at (Some (length cmd)) (?l @ [0])) = ?b" by (simp add: cut_at_def list_update_append)
  have e: "cut_at (Some ?q) ?b = ?e" by (simp add: cut_at_def list_update_append)
  have at: "string_at ?e 0 = cmd" "string_at ?e (length cmd + 1) = arg"
    using string_at_append [OF z(1), of 0 "[]"] string_at_append [OF z(2), of "length cmd + 1" "cmd @ [0]" "sub @ 0 # dest @ [0]"] by simp_all
  have "drop (length xs) (xs @ ys) = ys" for xs ys :: "u8 list" by simp
  from this [of "cmd @ 0 # arg @ 0 # sub @ [0]" "dest @ [0]"] have "drop (?r + 1) ?b = (sub @ 0x3e # dest) @ [0]" "drop (?q + 1) ?e = dest @ [0]" by simp_all
  then have sk: "skip_spaces ?b (?r + 1) = ?r + 1" "skip_spaces ?e (?q + 1) = ?q + 1"
    using assms(5,6,8,9) by (cases sub; cases dest; simp_all add: skip_spaces_def)+
  have dst: "string_at ?b (?r + 1) = sub @ 0x3e # dest" "string_at ?e (?q + 1) = dest"
    using string_at_append [OF z(4), of "?r + 1" "cmd @ 0 # arg @ [0]" "[]"]
      string_at_append [OF z(3), of "?q + 1" "cmd @ 0 # arg @ 0 # sub @ [0]" "[]"] by simp_all
  show ?thesis
    unfolding ExecuteCommand_def Let_def c sp rd pp b e option.map(2) at option.case bind.bind_lunit prod.case sk dst
    by (auto intro!: Option.bind_cong simp: map_conv_bind_option split: option.splits prod.splits)
qed

section \<open>Properties\<close>

text \<open>
  C14. A pipe carries the output: \<open>echo text|sub\<close> creates one task, whose first file is the reading end of a new pipe and
  whose others are those of the shell, and waits for it; a reader of the pipe gets exactly the text and a line
  end, with reads of any positive size, and then the end of the stream.
\<close>

theorem pipe_carries_output:
  assumes r: "reachable (task_mgr k, regs)" and fds: "length fds = 3"
    and line: "plain body" "take 2 body \<noteq> ascii ''$?''" "length body < 128" "0 \<notin> set sub" "0x3e \<notin> set sub" "sub \<noteq> []" "\<not> isspace (hd sub)"
    and n: "0 < n"
  shows "\<exists>k' i p fd s. ExecuteCommand env (ascii ''echo'' @ 0x20 # body @ 0x7c # sub) fds k
      = Some (k', \<lparr>spawned = Some (i, \<lparr>command_line = sub, desc_files = [p, fds ! 1, fds ! 2]\<rparr>), waits_for = Some i\<rparr>)
    \<and> find_task (task_mgr k) i = None \<and> objects k' = objects k @ [PipeFD fd] \<and> p = length (objects k) \<and> pipe_task fd = i
    \<and> drain pipe_read (length body + 2) n (fd, task_mgr k', cpu k') = Some (s, body @ [10]) \<and> pipe_ended s \<and> pipe_content s = []
    \<and> screen k' = screen k \<and> disk k' = disk k"
proof -
  have inv: "sched_inv (task_mgr k)" using reachable_sched_inv [OF r] by simp
  let ?p = "length (objects k)"
  from start_subtask_run [OF inv, of env sub fds] obtain tm i t where
    st: "start_subtask env sub fds k
      = Some (k\<lparr>task_mgr := tm, objects := objects k @ [PipeFD (new_PipeDescriptor i)]\<rparr>, fds[1 := ?p], i,
          ?p, \<lparr>command_line = sub, desc_files = [?p, fds ! 1, fds ! 2]\<rparr>)"
    and t: "sched_inv tm" "find_task (task_mgr k) i = None" "find_task tm i = Some t" "msgs t = []" by blast
  let ?k = "k\<lparr>task_mgr := tm, objects := objects k @ [PipeFD (new_PipeDescriptor i)]\<rparr>" and ?fd = "new_PipeDescriptor i"
  from print_all_pipe [OF new_pipe_holds [OF t(1,3,4), of k], of "[body, [10]]"] line(3) obtain tm2 where
    p2: "print_all ?p [body, [10]] ?k = Some (?k\<lparr>task_mgr := tm2\<rparr>)" "pipe_holds ?p ?fd (body @ [10]) False (?k\<lparr>task_mgr := tm2\<rparr>)" by auto
  then have "run_command env (ascii ''echo'') (Some body) (fds[1 := ?p]) ?k = Some (?k\<lparr>task_mgr := tm2\<rparr>, 0)"
    using line(2) fds by (simp add: run_command_def cmd_echo_def bind_Some_iff split: Option.bind_splits)
  moreover from finish_pipe_run [OF p2(2)] obtain tm3 where
    p3: "finish_pipe ?p (?k\<lparr>task_mgr := tm2\<rparr>) = Some (?k\<lparr>task_mgr := tm3\<rparr>)" "pipe_holds ?p ?fd (body @ [10]) True (?k\<lparr>task_mgr := tm3\<rparr>)"
    by auto
  moreover have "ExecuteCommand env (ascii ''echo'' @ 0x20 # body @ 0x7c # sub) fds k
    = Option.bind (start_subtask env sub fds k) (\<lambda>(k1, fs, i, p, d).
      Option.bind (run_command env (ascii ''echo'') (Some body) fs k1) (\<lambda>(k3, _).
        map_option (\<lambda>k4. (k4, \<lparr>spawned = Some (i, d), waits_for = Some i\<rparr>)) (finish_pipe p k3)))"
    by (rule ExecuteCommand_pipe) (use line in \<open>simp_all add: plain_def ascii_def\<close>)
  ultimately have run: "ExecuteCommand env (ascii ''echo'' @ 0x20 # body @ 0x7c # sub) fds k
      = Some (?k\<lparr>task_mgr := tm3\<rparr>, \<lparr>spawned = Some (i, \<lparr>command_line = sub, desc_files = [?p, fds ! 1, fds ! 2]\<rparr>), waits_for = Some i\<rparr>)"
    using st by simp
  have "pipe_ok (?fd, tm3, cpu k)" "pipe_ended (?fd, tm3, cpu k)" "pipe_content (?fd, tm3, cpu k) = body @ [10]"
    using p3(2) by (simp_all add: pipe_holds_def)
  from pipe.drain_all [OF this(1,2) n, of "length body + 2"] this(3) obtain s where
    "drain pipe_read (length body + 2) n (?fd, tm3, cpu k) = Some (s, body @ [10])" "pipe_ended s" "pipe_content s = []" by auto
  with run t(2) show ?thesis
    by (intro exI [of _ "?k\<lparr>task_mgr := tm3\<rparr>"] exI [of _ i] exI [of _ ?p] exI [of _ ?fd] exI [of _ s]) (simp add: new_PipeDescriptor_def)
qed

text \<open>The terminal runs \<open>echo hi|rpn\<close> as its first command.\<close>

theorem pipe_carries_output_witness:
  "\<forall>env. \<exists>k' i fd s. ExecuteCommand env (ascii ''echo'' @ 0x20 # [0x68, 0x69] @ 0x7c # ascii ''rpn'') [0, 0, 0] (sample_kernel terminal_manager)
      = Some (k', \<lparr>spawned = Some (i, \<lparr>command_line = ascii ''rpn'', desc_files = [1, 0, 0]\<rparr>), waits_for = Some i\<rparr>)
    \<and> drain pipe_read 4 5 (fd, task_mgr k', cpu k') = Some (s, [0x68, 0x69, 10])"
proof
  fix env
  let ?k = "sample_kernel terminal_manager"
  have r: "reachable (task_mgr ?k, blank_context)" using terminal_manager_reachable by (simp add: sample_kernel_def)
  have l: "plain [0x68, 0x69]" "take 2 [0x68, 0x69] \<noteq> ascii ''$?''" "length [0x68 :: u8, 0x69] < 128" "0 \<notin> set (ascii ''rpn'')"
    "0x3e \<notin> set (ascii ''rpn'')" "ascii ''rpn'' \<noteq> []" "\<not> isspace (hd (ascii ''rpn''))"
    by (simp_all add: plain_def ascii_def isspace_def)
  have four: "length [0x68 :: u8, 0x69] + 2 = 4" by simp
  from pipe_carries_output [OF r _ l, of "[0, 0, 0]" 5 env, unfolded four]
  show "\<exists>k' i fd s. ExecuteCommand env (ascii ''echo'' @ 0x20 # [0x68, 0x69] @ 0x7c # ascii ''rpn'') [0, 0, 0] ?k
      = Some (k', \<lparr>spawned = Some (i, \<lparr>command_line = ascii ''rpn'', desc_files = [1, 0, 0]\<rparr>), waits_for = Some i\<rparr>)
    \<and> drain pipe_read 4 5 (fd, task_mgr k', cpu k') = Some (s, [0x68, 0x69, 10])"
    by (simp add: sample_kernel_def del: drain.simps) blast
qed

text \<open>
  A redirection behind a pipe also takes the output of the command in front of it: of \<open>echo text|sub>dest\<close> the text
  goes to the file, nothing goes into the pipe but its end, and the task behind it gets the redirection once more.
\<close>

theorem redirect_bypasses_pipe:
  assumes r: "reachable (task_mgr k, regs)" and fds: "length fds = 3"
    and line: "plain body" "body \<noteq> []" "take 2 body \<noteq> ascii ''$?''" "length body < 128"
      "plain sub" "sub \<noteq> []" "\<not> isspace (hd sub)" "plain dest" "dest \<noteq> []" "\<not> isspace (hd dest)"
    and find: "FindFile dest 0 (disk k) = Some (Some a, False)" "attr (entry (disk k) a) \<noteq> kDirectory"
    and home: "file_home N (disk k) a d cs"
    and room: "length body + 1 \<le> cluster_size (disk k)"
      "length body + 1 \<le> (length cs + length (free_clusters 2 N (disk k))) * cluster_size (disk k)"
  shows "\<exists>k' i p fd cs'. ExecuteCommand env (ascii ''echo'' @ 0x20 # body @ 0x7c # sub @ 0x3e # dest) fds k
      = Some (k', \<lparr>spawned = Some (i, \<lparr>command_line = sub @ 0x3e # dest, desc_files = [p, fds ! 1, fds ! 2]\<rparr>), waits_for = Some i\<rparr>)
    \<and> file_data (disk k') a cs' = body @ [10] \<and> file_home N (disk k') a d cs'
    \<and> pipe_task fd = i \<and> pipe_holds p fd [] True k'"
proof -
  have inv: "sched_inv (task_mgr k)" using reachable_sched_inv [OF r] by simp
  let ?p = "length (objects k)" and ?f = "new_FatFileDescriptor a"
  from start_subtask_run [OF inv, of env "sub @ 0x3e # dest" fds] obtain tm i t where
    st: "start_subtask env (sub @ 0x3e # dest) fds k
      = Some (k\<lparr>task_mgr := tm, objects := objects k @ [PipeFD (new_PipeDescriptor i)]\<rparr>, fds[1 := ?p], i,
          ?p, \<lparr>command_line = sub @ 0x3e # dest, desc_files = [?p, fds ! 1, fds ! 2]\<rparr>)"
    and t: "sched_inv tm" "find_task tm i = Some t" "msgs t = []" by blast
  let ?fd = "new_PipeDescriptor i"
  let ?k = "k\<lparr>task_mgr := tm, objects := objects k @ [PipeFD ?fd]\<rparr>"
  let ?m = "k\<lparr>task_mgr := tm, objects := (objects k @ [PipeFD ?fd]) @ [FatFD ?f]\<rparr>"
  have rd: "redirect dest (fds[1 := ?p]) ?k = Some (?m, Some (fds[1 := ?p + 1]))"
    using find by (simp add: redirect_def redirect_to_def new_object_def)
  from echo_to_file [of "fds[1 := ?p + 1]" ?m a body N d cs env] line(2-4) home room fds(1) obtain f' v' cs' where
    w: "run_command env (ascii ''echo'') (Some body) (fds[1 := ?p + 1]) ?m = Some (?m\<lparr>disk := v', objects := (objects ?m)[?p + 1 := FatFD f']\<rparr>, 0)"
      "file_home N v' a d cs'" "file_data v' a cs' = body @ [10]"
    by (auto simp: nth_append)
  let ?l = "?m\<lparr>disk := v', objects := (objects ?m)[?p + 1 := FatFD f']\<rparr>"
  have "pipe_holds ?p ?fd [] False ?l"
    using new_pipe_holds [OF t, of k] by (simp add: pipe_holds_def nth_append list_update_append)
  from finish_pipe_run [OF this] obtain tm3 where
    fin: "finish_pipe ?p ?l = Some (?l\<lparr>task_mgr := tm3\<rparr>)" "pipe_holds ?p ?fd [] True (?l\<lparr>task_mgr := tm3\<rparr>)" by blast
  have "ExecuteCommand env (ascii ''echo'' @ 0x20 # body @ 0x7c # sub @ 0x3e # dest) fds k
    = Option.bind (start_subtask env (sub @ 0x3e # dest) fds k) (\<lambda>(k1, fds1, i, p, d).
      Option.bind (redirect dest fds1 k1) (\<lambda>(k2, fds2). case fds2 of
        None \<Rightarrow> Some (k2, \<lparr>spawned = Some (i, d), waits_for = None\<rparr>)
      | Some fs \<Rightarrow> Option.bind (run_command env (ascii ''echo'') (Some body) fs k2) (\<lambda>(k3, _).
          map_option (\<lambda>k4. (k4, \<lparr>spawned = Some (i, d), waits_for = Some i\<rparr>)) (finish_pipe p k3))))"
    by (rule ExecuteCommand_pipe_redirect) (use line in \<open>simp_all add: plain_def ascii_def\<close>)
  with st rd w(1) fin(1) have "ExecuteCommand env (ascii ''echo'' @ 0x20 # body @ 0x7c # sub @ 0x3e # dest) fds k
      = Some (?l\<lparr>task_mgr := tm3\<rparr>, \<lparr>spawned = Some (i, \<lparr>command_line = sub @ 0x3e # dest, desc_files = [?p, fds ! 1, fds ! 2]\<rparr>), waits_for = Some i\<rparr>)"
    by simp
  with w(2,3) fin(2) show ?thesis
    by (intro exI [of _ "?l\<lparr>task_mgr := tm3\<rparr>"] exI [of _ i] exI [of _ ?p] exI [of _ ?fd] exI [of _ cs']) (simp add: new_PipeDescriptor_def)
qed

text \<open>The command is \<open>echo hi|cat>file.txt\<close>.\<close>

theorem redirect_bypasses_pipe_witness:
  "\<forall>env. \<exists>k' i p fd cs'. ExecuteCommand env (ascii ''echo'' @ 0x20 # [0x68, 0x69] @ 0x7c # ascii ''cat'' @ 0x3e # file_txt) [0, 0, 0]
        ((sample_kernel terminal_manager)\<lparr>disk := empty_file_volume\<rparr>)
      = Some (k', \<lparr>spawned = Some (i, \<lparr>command_line = ascii ''cat'' @ 0x3e # file_txt, desc_files = [p, 0, 0]\<rparr>), waits_for = Some i\<rparr>)
    \<and> file_data (disk k') 128 cs' = [0x68, 0x69, 10] \<and> pipe_holds p fd [] True k'"
proof
  fix env
  let ?k = "(sample_kernel terminal_manager)\<lparr>disk := empty_file_volume\<rparr>"
  have d: "disk ?k = empty_file_volume" by simp
  have r: "reachable (task_mgr ?k, blank_context)" using terminal_manager_reachable by (simp add: sample_kernel_def)
  have cat: "plain (ascii ''cat'')" "ascii ''cat'' \<noteq> []" "\<not> isspace (hd (ascii ''cat''))" by (simp_all add: plain_def ascii_def isspace_def)
  have fds: "length [0, 0, 0 :: nat] = 3" by simp
  from redirect_bypasses_pipe [OF r fds hi_line cat file_txt_word, unfolded d,
      OF empty_file_found empty_file_ready(1) empty_home empty_file_ready(2,3), of env]
  show "\<exists>k' i p fd cs'. ExecuteCommand env (ascii ''echo'' @ 0x20 # [0x68, 0x69] @ 0x7c # ascii ''cat'' @ 0x3e # file_txt) [0, 0, 0] ?k
      = Some (k', \<lparr>spawned = Some (i, \<lparr>command_line = ascii ''cat'' @ 0x3e # file_txt, desc_files = [p, 0, 0]\<rparr>), waits_for = Some i\<rparr>)
    \<and> file_data (disk k') 128 cs' = [0x68, 0x69, 10] \<and> pipe_holds p fd [] True k'"
    by (elim exE conjE) (intro exI, auto)
qed

end
