(* ===== verification/ShellTerminal.thy ===== *)
theory ShellTerminal
  imports Shell
begin

text \<open>
  The terminal between its rounds: keys are collected into a line, which is run at its end.
\<close>

section \<open>Rounds\<close>

fun terminal_rounds ::
  "Env \<Rightarrow> nat \<Rightarrow> Terminal \<Rightarrow> Kernel \<Rightarrow> (Kernel \<times> Terminal option \<times> (nat \<times> TerminalDescriptor) list) option" where
  "terminal_rounds env 0 T k = Some (k, Some T, [])"
| "terminal_rounds env (Suc n) T k =
     Option.bind (TaskTerminal_round env T k) (\<lambda>(k1, T1, new).
       let started = (case new of None \<Rightarrow> [] | Some s \<Rightarrow> [s])
       in case T1 of
            None \<Rightarrow> Some (k1, None, started)
          | Some T2 \<Rightarrow> map_option (\<lambda>(k2, T3, more). (k2, T3, started @ more)) (terminal_rounds env n T2 k1))"

text \<open>The messages that a terminal has not yet read.\<close>

definition unread :: "Terminal \<Rightarrow> TaskManager \<Rightarrow> Message list" where
  "unread T tm = (case find_task tm (tty_task T) of None \<Rightarrow> [] | Some t \<Rightarrow> msgs t)"

lemma receive_unread:
  assumes "sched_inv tm" and "unread T tm = m # ms"
  shows "\<exists>tm'. ReceiveMessage (tty_task T) tm = Some (tm', Some m) \<and> sched_inv tm' \<and> CurrentTask tm' = CurrentTask tm
    \<and> unread T tm' = ms \<and> (\<forall>j. j \<noteq> tty_task T \<longrightarrow> find_task tm' j = find_task tm j)"
proof -
  from assms(2) obtain t where t: "find_task tm (tty_task T) = Some t" "msgs t = m # ms"
    by (auto simp: unread_def split: option.splits)
  from ReceiveMessage_run [OF assms(1) t(1)] t(2) show ?thesis by (auto simp: unread_def)
qed

lemma key_round:
  assumes "waiting T = None" and "sched_inv (task_mgr k)" and "unread T (task_mgr k) = kKeyboardPush code # ms"
  shows "\<exists>tm'. sched_inv tm' \<and> CurrentTask tm' = CurrentTask (task_mgr k) \<and> unread T tm' = ms
    \<and> (\<forall>j. j \<noteq> tty_task T \<longrightarrow> find_task tm' j = find_task (task_mgr k) j)
    \<and> TaskTerminal_round env T k
        = (let k1 = k\<lparr>task_mgr := tm', screen := PutChar (key_byte code) (screen k)\<rparr>
           in if key_byte code = 10 then run_line env (line_buf T) T k1
              else Some (k1, Some (T\<lparr>line_buf := line_buf T @ [key_byte code]\<rparr>), None))"
  using receive_unread [OF assms(2,3)] assms(1) by (auto simp: TaskTerminal_round_def Let_def)

lemma keys_rounds:
  assumes "waiting T = None" and "sched_inv (task_mgr k)" and "unread T (task_mgr k) = map kKeyboardPush codes @ ms"
    and "10 \<notin> key_byte ` set codes"
  shows "\<exists>tm'. sched_inv tm' \<and> CurrentTask tm' = CurrentTask (task_mgr k) \<and> unread T tm' = ms
    \<and> (\<forall>j. j \<noteq> tty_task T \<longrightarrow> find_task tm' j = find_task (task_mgr k) j)
    \<and> terminal_rounds env (length codes) T k
        = Some (k\<lparr>task_mgr := tm', screen := fold PutChar (map key_byte codes) (screen k)\<rparr>,
                Some (T\<lparr>line_buf := line_buf T @ map key_byte codes\<rparr>), [])"
  using assms
proof (induction codes arbitrary: T k)
  case Nil
  then show ?case by (intro exI [of _ "task_mgr k"]) simp
next
  case (Cons code codes)
  from key_round [OF Cons.prems(1,2), of code "map kKeyboardPush codes @ ms" env] Cons.prems(3,4) obtain tm1 where
    r: "sched_inv tm1" "CurrentTask tm1 = CurrentTask (task_mgr k)" "unread T tm1 = map kKeyboardPush codes @ ms"
      "\<forall>j. j \<noteq> tty_task T \<longrightarrow> find_task tm1 j = find_task (task_mgr k) j"
    and e: "TaskTerminal_round env T k = Some (k\<lparr>task_mgr := tm1, screen := PutChar (key_byte code) (screen k)\<rparr>,
        Some (T\<lparr>line_buf := line_buf T @ [key_byte code]\<rparr>), None)"
    by (auto simp: Let_def)
  let ?T = "T\<lparr>line_buf := line_buf T @ [key_byte code]\<rparr>"
  let ?k = "k\<lparr>task_mgr := tm1, screen := PutChar (key_byte code) (screen k)\<rparr>"
  from Cons.IH [of ?T ?k] Cons.prems(1,4) r obtain tm2 where
    "sched_inv tm2" "CurrentTask tm2 = CurrentTask (task_mgr k)" "unread ?T tm2 = ms"
    "\<forall>j. j \<noteq> tty_task T \<longrightarrow> find_task tm2 j = find_task tm1 j"
    "terminal_rounds env (length codes) ?T ?k
        = Some (?k\<lparr>task_mgr := tm2, screen := fold PutChar (map key_byte codes) (screen ?k)\<rparr>,
                Some (?T\<lparr>line_buf := line_buf ?T @ map key_byte codes\<rparr>), [])"
    by (auto simp: unread_def)
  with e r(4) show ?case by (intro exI [of _ tm2]) (simp add: unread_def)
qed

text \<open>A line that is typed: its characters are echoed, and the whole line is run.\<close>

lemma line_rounds:
  assumes "waiting T = None" and "sched_inv (task_mgr k)" and "unread T (task_mgr k) = map kKeyboardPush (codes @ [nl]) @ ms"
    and "10 \<notin> key_byte ` set codes" and "key_byte nl = 10"
  shows "\<exists>tm1 tm2. let line = line_buf T @ map key_byte codes; T1 = T\<lparr>line_buf := line\<rparr>;
        k1 = k\<lparr>task_mgr := tm1, screen := fold PutChar (map key_byte codes) (screen k)\<rparr>;
        k2 = k\<lparr>task_mgr := tm2, screen := fold PutChar (map key_byte codes @ [10]) (screen k)\<rparr>
      in terminal_rounds env (length codes) T k = Some (k1, Some T1, [])
       \<and> TaskTerminal_round env T1 k1 = run_line env line T1 k2
       \<and> sched_inv tm2 \<and> CurrentTask tm2 = CurrentTask (task_mgr k) \<and> unread T tm2 = ms"
proof -
  from keys_rounds [OF assms(1,2), of codes "kKeyboardPush nl # ms" env] assms(3,4) obtain tm1 where
    a: "sched_inv tm1" "CurrentTask tm1 = CurrentTask (task_mgr k)" "unread T tm1 = kKeyboardPush nl # ms"
    and ra: "terminal_rounds env (length codes) T k
        = Some (k\<lparr>task_mgr := tm1, screen := fold PutChar (map key_byte codes) (screen k)\<rparr>,
                Some (T\<lparr>line_buf := line_buf T @ map key_byte codes\<rparr>), [])" by auto
  let ?T = "T\<lparr>line_buf := line_buf T @ map key_byte codes\<rparr>"
  let ?k = "k\<lparr>task_mgr := tm1, screen := fold PutChar (map key_byte codes) (screen k)\<rparr>"
  from key_round [of ?T ?k nl ms env] assms(1,5) a obtain tm2 where
    "sched_inv tm2" "CurrentTask tm2 = CurrentTask (task_mgr k)" "unread T tm2 = ms"
    "TaskTerminal_round env ?T ?k = run_line env (line_buf T @ map key_byte codes) ?T
       (k\<lparr>task_mgr := tm2, screen := fold PutChar (map key_byte codes @ [10]) (screen k)\<rparr>)"
    by (auto simp: unread_def Let_def)
  with ra show ?thesis by (intro exI [of _ tm1] exI [of _ tm2]) (simp add: Let_def)
qed

end
