(* ===== verification/ProgramStart.thy ===== *)
theory ProgramStart
  imports Shell
begin

text \<open>
  What a program finds when \<open>ExecuteFile\<close> enters it: a fresh page map with its segments, its argument vector and
  its stack.
\<close>

section \<open>A fresh page map\<close>

lemma NewPageMap_run:
  assumes "bounded (frames s)"
  shows "(\<exists>s1 c. NewPageMap s = Some (Inr (s1, c))) \<or> NewPageMap s = Some (Inl kNoEnoughMemory) \<and> memory_full (frames s)"
proof -
  from assms Allocate_from_total [of "frames s" 1 "range_begin (frames s)"] obtain r where r: "Allocate (frames s) 1 = Some r"
    by (auto simp: Allocate_def bounded_def)
  show ?thesis
  proof (cases r)
    case (Inl e)
    with r Allocate_one_fails [of "frames s" e] show ?thesis by (simp add: NewPageMap_def)
  next
    case (Inr p)
    with r show ?thesis by (cases p) (simp add: NewPageMap_def Let_def)
  qed
qed

text \<open>
  The new table holds the kernel's half of the current one, and nothing in the half of the program.
\<close>

lemma SetupPML4_run:
  assumes "bounded (frames s)"
  shows "(\<exists>s' a. SetupPML4 s = Some (Inr (s', a)) \<and> reg_cr3 s' = a \<and> user_space s' \<and> (\<forall>c. user_half c \<longrightarrow> user_walk s' c = None)
      \<and> \<not> used (frames s) (unat a div 4096) \<and> (\<forall>f. used (frames s') f \<longleftrightarrow> used (frames s) f \<or> f * 4096 = unat a)
      \<and> same_range (frames s) (frames s'))
    \<or> SetupPML4 s = Some (Inl kNoEnoughMemory) \<and> memory_full (frames s)"
proof (cases "\<exists>s1 c. NewPageMap s = Some (Inr (s1, c))")
  case False
  with NewPageMap_run [OF assms] show ?thesis by (auto simp: SetupPML4_def)
next
  case True
  then obtain s1 c where n: "NewPageMap s = Some (Inr (s1, c))" by blast
  note f = NewPageMap_fresh [OF n assms]
  let ?old = "bytes (phys s1) (unat (reg_cr3 s1)) (256 * 8)"
  let ?s = "s1\<lparr>phys := put_bytes c ?old (phys s1), reg_cr3 := of_nat c\<rparr>"
  from f(1) obtain g where g: "c = g * 4096" "g < kFrameCount" by (auto simp: page_addr_def dvd_def mult.commute)
  then have c: "unat (of_nat c :: u64) = c" by (intro unat_of_nat_u64) (simp add: layout)
  have run: "SetupPML4 s = Some (Inr (?s, of_nat c))" by (simp add: SetupPML4_def n Let_def)
  have z: "map_entry (phys ?s) c i = 0" if "256 \<le> i" "i < 512" for i
    unfolding map_entry_def
  proof (rule le64_zero)
    show "phys ?s (c + 8 * i + j) = 0" if "j < 8" for j
      using that \<open>256 \<le> i\<close> \<open>i < 512\<close> f(6) by (simp add: put_bytes_other zero_page_def page_def)
  qed
  have t: "tree (phys ?s) (Suc 3) 256 c = {c}" "tree_ok (phys ?s) (Suc 3) 256 c"
    unfolding tree_Suc tree_ok_Suc using z f(1) by auto
  have p: "pml4 ?s = c" by (simp add: pml4_def c)
  have four: "Suc 3 = 4" by simp
  have "used (frames ?s) (c div 4096)" using f(5) g by simp
  with t f(3) have u: "user_space ?s" unfolding user_space_def p owned_def four by simp
  have "user_walk ?s a = None" if "user_half a" for a
  proof -
    have "256 \<le> Part 4 a" using user_half_address(1) [OF that] by (simp add: user_address_def)
    moreover have "page_number 4 a div 512 ^ 3 mod 512 = Part 4 a" using page_number_parts [of 3 4 a] by simp
    ultimately have e: "map_entry (phys ?s) c (page_number 4 a div 512 ^ 3 mod 512) = 0" using z Part_less [of 4 a] by simp
    have "walk (phys ?s) (Suc 3) c (page_number 4 a) = None" by (simp only: walk.simps(2) Let_def e not_present_0 if_False)
    then show ?thesis unfolding user_walk_def p four .
  qed
  with run u f(2,5,8) c show ?thesis by auto
qed

section \<open>Memory below a page\<close>

text \<open>Writing arguments into their page keeps what lies below it.\<close>

definition keeps_below :: "LinearAddress4Level \<Rightarrow> Paging \<Rightarrow> Paging \<Rightarrow> bool" where
  "keeps_below a s s' \<longleftrightarrow> (\<forall>c. user_half c \<and> unat c < unat a \<longrightarrow> vread s' c = vread s c)"

lemma keeps_below_trans: "keeps_below a s s1 \<Longrightarrow> keeps_below a s1 s2 \<Longrightarrow> keeps_below a s s2"
  by (simp add: keeps_below_def)

lemma page_copy_keeps:
  assumes "user_space s" and b: "user_block s a 4096" and n: "off + length bs \<le> 4096" "off < 4096"
    and run: "vmemcpy (a + of_nat off) bs s = Some s'"
  shows "same_mapping s s'" "keeps_below a s s'"
proof -
  note addr = page_address [OF b n(2)]
  have "user_walk s c \<noteq> None" if "block (a + of_nat off) (length bs) c" for c
    using b that n addr(1) by (simp add: user_block_def block_def)
  then have "user_block s (a + of_nat off) (length bs)" using b n addr by (simp add: user_block_def)
  from vmemcpy_user [OF assms(1) this] run have r: "same_mapping s s'"
    "\<And>c. user_half c \<Longrightarrow> vread s' c = (if block (a + of_nat off) (length bs) c then Some (bs ! (unat c - unat (a + of_nat off))) else vread s c)"
    by auto
  show "same_mapping s s'" by (rule r(1))
  show "keeps_below a s s'" using r(2) addr(1) by (auto simp: keeps_below_def block_def)
qed

lemma push_keeps:
  assumes u: "user_space s" and b: "user_block s a 4096" and fit: "n < 32" "ofs + length t + 1 \<le> 3840"
    and run: "push_to_argv a 32 (a + 256) 3840 t (n, ofs, s) = Some ((n', o', s'), err)"
  shows "same_mapping s s' \<and> keeps_below a s s'"
proof -
  have p: "a + 256 + of_nat ofs = a + of_nat (256 + ofs)" by simp
  from run fit obtain s1 where "vmemcpy (a + of_nat (8 * n)) (bytes64 (a + 256 + of_nat ofs)) s = Some s1"
    "vmemcpy (a + 256 + of_nat ofs) (t @ [0]) s1 = Some s'"
    by (auto simp: push_to_argv_def Let_def vstrcpy_def bind_Some_iff split: if_splits)
  note r = this [unfolded p]
  note k1 = page_copy_keeps [OF u b _ _ r(1)]
  have f1: "8 * n + length (bytes64 (a + of_nat (256 + ofs))) \<le> 4096" "8 * n < 4096" using fit by simp_all
  have "user_space s1" using k1(1) [OF f1] by (simp add: same_mapping_def)
  from page_copy_keeps [OF this user_block_same [OF k1(1) [OF f1] b] _ _ r(2)] fit k1 [OF f1] show ?thesis
    using same_mapping_trans keeps_below_trans by auto
qed

lemma push_all_keeps:
  assumes "user_space s" and "user_block s a 4096" and "length (ts @ ws) \<le> 32" "arg_offset (ts @ ws) \<le> 3840"
    and "push_all (push_to_argv a 32 (a + 256) 3840) ws (length ts, arg_offset ts, s) = Some ((n', o', s'), err)"
  shows "keeps_below a s s'"
  using assms
proof (induction ws arbitrary: ts s)
  case Nil
  then show ?case by (simp add: keeps_below_def)
next
  case (Cons w ws)
  from Cons.prems(5) obtain n1 o1 s1 e1 where
    r: "push_to_argv a 32 (a + 256) 3840 w (length ts, arg_offset ts, s) = Some ((n1, o1, s1), e1)"
    and rest: "(if e1 \<noteq> kSuccess then Some ((n1, o1, s1), e1)
      else push_all (push_to_argv a 32 (a + 256) 3840) ws (n1, o1, s1)) = Some ((n', o', s'), err)"
    by (auto simp: bind_Some_iff)
  have fit: "length ts < 32" "arg_offset ts + length w + 1 \<le> 3840" using Cons.prems(3,4) by simp_all
  note k = push_keeps [OF Cons.prems(1,2) fit r]
  have n1: "n1 = length (ts @ [w])" "o1 = arg_offset (ts @ [w])"
    using r fit by (auto simp: push_to_argv_def Let_def bind_Some_iff split: if_splits)
  show ?case
  proof (cases "e1 = kSuccess")
    case False
    with rest k show ?thesis by simp
  next
    case True
    have "user_space s1" using k by (simp add: same_mapping_def)
    with Cons.IH [of s1 "ts @ [w]"] True rest k n1 Cons.prems(2-4) user_block_same have "keeps_below a s1 s'" by auto
    with k show ?thesis using keeps_below_trans by blast
  qed
qed

section \<open>The program at its start\<close>

definition program_ready :: "u8 list \<Rightarrow> u8 list list \<Rightarrow> Paging \<Rightarrow> bool" where
  "program_ready buf ts p \<longleftrightarrow> user_space p
     \<and> (\<forall>c b. user_half c \<and> unat c < unat args_frame \<and> elf_image buf (headers buf) c = Some b \<longrightarrow> vread p c = Some b)
     \<and> args_at p args_frame (args_frame + 256) ts \<and> user_block p stack_frame 4096"

text \<open>Setting up one page of the program keeps what can be read.\<close>

lemma setup_page:
  assumes u: "user_space s" and a: "user_half a" "Part 0 a = 0" "unat a + 4096 \<le> 2 ^ 64"
  shows "\<exists>s' err. SetupPageMaps a 1 s = Some (s', err) \<and> user_space s' \<and> reg_cr3 s' = reg_cr3 s
    \<and> (if err = kSuccess then user_block s' a 4096 else err = kNoEnoughMemory \<and> memory_full (frames s'))
    \<and> (\<forall>c b. user_half c \<and> vread s c = Some b \<longrightarrow> vread s' c = Some b) \<and> grows 4 s s'"
proof -
  from SetupPageMaps_run [OF u user_half_address(1) [OF a(1)], of 1] obtain s' r err where
    run: "SetupPageMaps a 1 s = Some (s', err)"
    and m: "mapped 4 256 (pml4 s) (\<lambda>_. True) (page_number 4 a) 1 (512 ^ 4 - page_number 4 a) s (s', r, err)" by blast
  have e: "extends 4 256 (pml4 s) {page_number 4 a..<page_number 4 a + 1} s s'" using m by (simp add: mapped_def)
  have "vread s' c = Some b" if "user_half c" "vread s c = Some b" for c b
    using extends_vread [OF u e that(1)] that(2) by auto
  moreover have "user_block s' a 4096" if "err = kSuccess"
    using setup_block [OF u m [unfolded that] a(1), of 4096] a by simp
  moreover have "err = kNoEnoughMemory \<and> memory_full (frames s')" if "err \<noteq> kSuccess"
    using m that by (simp add: mapped_def)
  moreover have "reg_cr3 s' = reg_cr3 s" using e by (simp add: extends_def)
  ultimately show ?thesis using run extends_user_space [OF u e] mapped_grows [OF m] by auto
qed

lemma args_at_keep:
  "args_at s argv argbuf ts \<Longrightarrow> (\<And>c b. vread s c = Some b \<Longrightarrow> user_half c \<Longrightarrow> vread s' c = Some b) \<Longrightarrow>
     (\<And>i k. i < length ts \<Longrightarrow> k < 8 \<Longrightarrow> user_half (argv + of_nat (8 * i) + of_nat k)) \<Longrightarrow>
     (\<And>i k. i < length ts \<Longrightarrow> k \<le> length (ts ! i) \<Longrightarrow> user_half (argbuf + of_nat (arg_offset (take i ts)) + of_nat k)) \<Longrightarrow>
   args_at s' argv argbuf ts"
  by (simp add: args_at_def vstring_def Let_def less_Suc_eq_le)

lemma args_at_keep_page:
  assumes at: "args_at s a (a + 256) ts" and b: "user_block s a 4096" and fit: "length ts \<le> 32" "arg_offset ts \<le> 3840"
    and keep: "\<And>c b. vread s c = Some b \<Longrightarrow> user_half c \<Longrightarrow> vread s' c = Some b"
  shows "args_at s' a (a + 256) ts"
proof (rule args_at_keep [OF at keep])
  fix i k :: nat
  have split: "a + of_nat (8 * i) + of_nat k = a + of_nat (8 * i + k)" by (simp add: add.assoc)
  show "user_half (a + of_nat (8 * i) + of_nat k)" if "i < length ts" "k < 8"
    unfolding split by (rule page_address(2) [OF b]) (use that fit in simp)
next
  fix i k :: nat
  let ?o = "arg_offset (take i ts)"
  have split: "a + 256 + of_nat ?o + of_nat k = a + of_nat (256 + ?o + k)" by (simp add: add.assoc)
  show "user_half (a + 256 + of_nat ?o + of_nat k)" if "i < length ts" "k \<le> length (ts ! i)"
    unfolding split by (rule page_address(2) [OF b]) (use that fit arg_offset_take [of i ts] in simp)
qed

lemma frames_half:
  "user_half args_frame" "Part 0 args_frame = 0" "unat args_frame + 4096 \<le> 2 ^ 64"
  "user_half stack_frame" "Part 0 stack_frame = 0" "unat stack_frame + 4096 \<le> 2 ^ 64"
  by (simp_all add: user_half_def Part_div args_frame_def stack_frame_def)

text \<open>The four steps on the memory, as \<open>prepare_program\<close> composes them.\<close>

definition memory_steps :: "u8 list \<Rightarrow> u8 list \<Rightarrow> u8 list option \<Rightarrow> Paging \<Rightarrow> (Paging \<times> nat \<times> Code) option" where
  "memory_steps buf cmd arg p1 =
     Option.bind (LoadELF buf p1) (\<lambda>(p2, err). if err \<noteq> kSuccess then Some (p2, 0, err)
     else Option.bind (SetupPageMaps args_frame 1 p2) (\<lambda>(p3, err). if err \<noteq> kSuccess then Some (p3, 0, err)
     else Option.bind (MakeArgVector cmd arg args_frame 32 (args_frame + 256) 3840 p3) (\<lambda>(p4, argc, err). if err \<noteq> kSuccess then Some (p4, 0, err)
     else map_option (\<lambda>(p5, err). (p5, argc, err)) (SetupPageMaps stack_frame 1 p4))))"

lemma memory_steps_run:
  assumes u: "user_space p1" and elf: "elf_ok buf" and ts: "ts = cmd # (case arg of None \<Rightarrow> [] | Some l \<Rightarrow> words l)"
    and fit: "length ts \<le> 32" "arg_offset ts \<le> 3840"
  shows "\<exists>p argc err. memory_steps buf cmd arg p1 = Some (p, argc, err) \<and> reg_cr3 p = reg_cr3 p1 \<and> grows (4 * (segment_pages (headers buf) + 2)) p1 p
    \<and> (if err = kSuccess then argc = length ts \<and> program_ready buf ts p else err = kNoEnoughMemory \<and> memory_full (frames p))"
proof -
  from LoadELF_run [OF elf u] obtain p2 e2 where l: "LoadELF buf p1 = Some (p2, e2)" "loaded buf (headers buf) p1 (p2, e2)" by auto
  then have c2: "reg_cr3 p2 = reg_cr3 p1" and g2: "grows (4 * segment_pages (headers buf)) p1 p2" by (simp_all add: loaded_def pml4_def word_unat_eq_iff)
  show ?thesis
  proof (cases "e2 = kSuccess")
    case False
    with l c2 grows_mono [OF g2, of "4 * (segment_pages (headers buf) + 2)"] show ?thesis by (simp add: memory_steps_def loaded_def)
  next
    case ok2: True
    with l(2) have u2: "user_space p2" and img: "\<And>c b. user_half c \<Longrightarrow> elf_image buf (headers buf) c = Some b \<Longrightarrow> vread p2 c = Some b"
      by (auto simp: loaded_def split: option.splits)
    from setup_page [OF u2 frames_half(1-3)] obtain p3 e3 where
      s3: "SetupPageMaps args_frame 1 p2 = Some (p3, e3)" "user_space p3" "reg_cr3 p3 = reg_cr3 p2"
        "if e3 = kSuccess then user_block p3 args_frame 4096 else e3 = kNoEnoughMemory \<and> memory_full (frames p3)" "grows 4 p2 p3"
      and keep3: "\<And>c b. user_half c \<Longrightarrow> vread p2 c = Some b \<Longrightarrow> vread p3 c = Some b" by blast
    show ?thesis
    proof (cases "e3 = kSuccess")
      case False
      with l ok2 s3 c2 grows_mono [OF grows_trans [OF g2 s3(5)], of "4 * (segment_pages (headers buf) + 2)"] show ?thesis
        by (simp add: memory_steps_def)
    next
      case ok3: True
      with s3(4) have b3: "user_block p3 args_frame 4096" by simp
      have "args_at p3 args_frame (args_frame + 256) []" by (simp add: args_at_def)
      from push_all_run [OF s3(2) b3 this, of ts] fit obtain p4 where
        s4: "push_all (push_to_argv args_frame 32 (args_frame + 256) 3840) ts (0, 0, p3) = Some ((length ts, arg_offset ts, p4), kSuccess)"
          "same_mapping p3 p4" "args_at p4 args_frame (args_frame + 256) ts" by auto
      have k4: "keeps_below args_frame p3 p4"
        using push_all_keeps [OF s3(2) b3, of "[]" ts] fit s4(1) by simp
      have mk: "MakeArgVector cmd arg args_frame 32 (args_frame + 256) 3840 p3 = Some (p4, length ts, kSuccess)"
        unfolding MakeArgVector_words ts [symmetric] using s4(1) by simp
      have u4: "user_space p4" and b4: "user_block p4 args_frame 4096"
        using s4(2) user_block_same [OF s4(2) b3] by (simp_all add: same_mapping_def)
      from setup_page [OF u4 frames_half(4-6)] obtain p5 e5 where
        s5: "SetupPageMaps stack_frame 1 p4 = Some (p5, e5)" "user_space p5" "reg_cr3 p5 = reg_cr3 p4"
          "if e5 = kSuccess then user_block p5 stack_frame 4096 else e5 = kNoEnoughMemory \<and> memory_full (frames p5)" "grows 4 p4 p5"
        and keep5: "\<And>c b. user_half c \<Longrightarrow> vread p4 c = Some b \<Longrightarrow> vread p5 c = Some b" by blast
      have "memory_steps buf cmd arg p1 = Some (p5, length ts, e5)"
        using l ok2 s3 ok3 mk s5 by (simp add: memory_steps_def)
      moreover have "reg_cr3 p5 = reg_cr3 p1" using s5(3) s4(2) s3(3) c2 by (simp add: same_mapping_def)
      moreover have "vread p5 c = Some b"
        if "user_half c" "unat c < unat args_frame" "elf_image buf (headers buf) c = Some b" for c b
        using keep5 keep3 img k4 that by (simp add: keeps_below_def)
      moreover have "args_at p5 args_frame (args_frame + 256) ts"
        by (rule args_at_keep_page [OF s4(3) b4 fit]) (use keep5 in blast)
      moreover have "grows (4 * (segment_pages (headers buf) + 2)) p1 p5"
        using grows_trans [OF grows_trans [OF grows_trans [OF g2 s3(5)] same_mapping_grows [OF s4(2)]] s5(5)] by simp
      ultimately show ?thesis using s5 by (auto simp: program_ready_def)
    qed
  qed
qed

lemma prepare_program_steps:
  "prepare_program buf cmd arg i k =
     (case SetupPML4 (paging k) of
        None \<Rightarrow> None
      | Some (Inl err) \<Rightarrow> Some (k, 0, err)
      | Some (Inr (p1, a)) \<Rightarrow>
          map_option (\<lambda>(p, argc, err). ((set_cr3 i a k)\<lparr>paging := p\<rparr>, argc, err)) (memory_steps buf cmd arg p1))"
  by (auto simp: prepare_program_def memory_steps_def Let_def layout map_option_case split: option.splits sum.splits Option.bind_splits)

lemma prepare_program_run:
  assumes "bounded (frames (paging k))" and "elf_ok buf" and "ts = cmd # (case arg of None \<Rightarrow> [] | Some l \<Rightarrow> words l)"
    and "length ts \<le> 32" "arg_offset ts \<le> 3840"
  shows "\<exists>k1 argc err. prepare_program buf cmd arg i k = Some (k1, argc, err)
    \<and> disk k1 = disk k \<and> screen k1 = screen k \<and> objects k1 = objects k
    \<and> (if err = kSuccess then argc = length ts \<and> program_ready buf ts (paging k1)
         \<and> task_mgr k1 = task_mgr (set_cr3 i (reg_cr3 (paging k1)) k)
         \<and> (\<exists>p1 a. SetupPML4 (paging k) = Some (Inr (p1, a)) \<and> user_space p1 \<and> grows (4 * (segment_pages (headers buf) + 2)) p1 (paging k1))
       else err = kNoEnoughMemory \<and> memory_full (frames (paging k1)))
    \<and> (4 * segment_pages (headers buf) + 9 < card (free_frames (frames (paging k))) \<longrightarrow> err = kSuccess)"
proof -
  from SetupPML4_run [OF assms(1)] consider
    p1 a where "SetupPML4 (paging k) = Some (Inr (p1, a))" "reg_cr3 p1 = a" "user_space p1"
      "same_range (frames (paging k)) (frames p1)" "\<forall>f. used (frames p1) f \<longleftrightarrow> used (frames (paging k)) f \<or> f * 4096 = unat a"
    | "SetupPML4 (paging k) = Some (Inl kNoEnoughMemory)" "memory_full (frames (paging k))" by blast
  then show ?thesis
  proof cases
    case 1
    from memory_steps_run [OF 1(3) assms(2-5)] obtain p argc err where
      "memory_steps buf cmd arg p1 = Some (p, argc, err)" "reg_cr3 p = reg_cr3 p1" and g: "grows (4 * (segment_pages (headers buf) + 2)) p1 p" and
      "if err = kSuccess then argc = length ts \<and> program_ready buf ts p else err = kNoEnoughMemory \<and> memory_full (frames p)" by blast
    moreover have "card (free_frames (frames (paging k))) \<le> 4 * segment_pages (headers buf) + 9" if "memory_full (frames p)"
    proof -
      let ?free = "free_frames (frames p1)"
      have "f \<in> insert (unat a div 4096) ?free" if f: "f \<in> free_frames (frames (paging k))" for f
      proof (cases "f * 4096 = unat a")
        case True
        then have "f = unat a div 4096" by (metis nonzero_mult_div_cancel_right zero_neq_numeral)
        then show ?thesis by simp
      next
        case False
        with 1(5) [rule_format, of f] f 1(4) show ?thesis by (simp add: free_frames_def same_range_def)
      qed
      then have "free_frames (frames (paging k)) \<subseteq> insert (unat a div 4096) ?free" by blast
      moreover have "finite ?free" by (rule finite_subset [of _ "{..<range_end (frames p1)}"]) (auto simp: free_frames_def)
      ultimately have "card (free_frames (frames (paging k))) \<le> Suc (card ?free)"
        using card_mono [of "insert (unat a div 4096) ?free" "free_frames (frames (paging k))"]
        by (auto simp: card_insert_if split: if_splits)
      with grows_full [OF g that] show ?thesis by simp
    qed
    ultimately show ?thesis using 1 g by (cases "err = kSuccess") (auto simp: prepare_program_steps)
  next
    case 2
    then have "free_frames (frames (paging k)) = {}" by (auto simp: memory_full_def free_frames_def)
    with 2 show ?thesis by (simp add: prepare_program_steps)
  qed
qed

lemma loaded_file:
  assumes "volume_ok v N" and "file_at N v a cs"
  shows "LoadFile (unat (file_size (entry v a))) v (entry v a) = Some (file_data v a cs, unat (file_size (entry v a)))"
    and "length (file_data v a cs) = unat (file_size (entry v a))"
  using LoadFile_run [OF assms] assms(2) volume.length_content [of v cs] by (simp_all add: file_data_def file_at_def min_def)

section \<open>Properties\<close>


text \<open>Volumes whose file holds 123 given bytes, here an executable of one segment; the command is its name, without arguments.\<close>

definition elf_volume :: "u8 list \<Rightarrow> Volume" where
  "elf_volume buf = sample_volume\<lparr>image := put_bytes 160 (buf @ replicate 5 0)
     (sample_memory(112 := 5, 113 := 0, 114 := 0, 115 := 0, 116 := 6, 120 := 0xff, 121 := 0xff, 122 := 0xff, 123 := 0x0f, 156 := 123))\<rparr>"

lemma elf_header: "same_header sample_volume (elf_volume buf)"
  by (rule same_header_image) (simp_all add: elf_volume_def sample_geometry layout put_bytes_def)

lemma elf_fat:
  "fat_get (elf_volume buf) 3 = 4" "fat_get (elf_volume buf) 4 = 5" "fat_get (elf_volume buf) 5 = 6" "fat_get (elf_volume buf) 6 = kEndOfClusterchain"
  unfolding fat_get_def same_header_eqs [OF elf_header] sample_geometry
  by (simp_all add: elf_volume_def le32_def le16_def put_bytes_def sample_memory_def kEndOfClusterchain_def)

lemma elf_entry: "FirstCluster (entry (elf_volume buf) 128) = 3" "file_size (entry (elf_volume buf) 128) = 123"
  by (simp_all add: FirstCluster_def entry_def read_entry_def elf_volume_def put_bytes_def le16_def le32_def sample_memory_def)

lemma elf_file: "volume_ok (elf_volume buf) 8" "file_at 8 (elf_volume buf) 128 [3, 4, 5, 6]"
  by (simp_all add: file_at_def file_chain_def valid_cluster_def elf_fat elf_entry same_header_eqs [OF elf_header] sample_geometry sample_ok)

lemma bytes_add: "bytes m a (n + j) = bytes m a n @ bytes m (a + n) j"
  by (rule nth_equalityI) (auto simp: nth_append)

lemma elf_data:
  assumes len: "length buf = 123"
  shows "file_data (elf_volume buf) 128 [3, 4, 5, 6] = buf"
proof -
  have sec: "GetSectorByCluster (elf_volume buf) 3 = 160" "GetSectorByCluster (elf_volume buf) 4 = 160 + 32"
    "GetSectorByCluster (elf_volume buf) 5 = 160 + 64" "GetSectorByCluster (elf_volume buf) 6 = 160 + 96"
    unfolding same_header_eqs [OF elf_header]
    by (simp_all add: GetSectorByCluster_def GetClusterAddr_def Let_def sample_geometry sample_BPB)
  have cb: "cluster_bytes (elf_volume buf) c = bytes (image (elf_volume buf)) (GetSectorByCluster (elf_volume buf) c) 32" for c
    by (simp add: cluster_bytes_def same_header_eqs [OF elf_header] sample_geometry)
  have "volume.content (elf_volume buf) [3, 4, 5, 6] = bytes (image (elf_volume buf)) 160 (32 + (32 + (32 + 32)))"
    unfolding list.map concat.simps cb sec bytes_add by (simp del: bytes_add)
  also have "\<dots> = bytes (image (elf_volume buf)) 160 128" by simp
  also have "\<dots> = buf @ replicate 5 0"
  proof -
    have b: "n = length bs \<Longrightarrow> bytes (put_bytes a bs m) a n = bs" for n a bs m by simp
    have "128 = length (buf @ replicate 5 (0 :: u8))" using len by simp
    from b [OF this] show ?thesis by (simp add: elf_volume_def)
  qed
  finally show ?thesis by (simp add: file_data_def elf_entry len)
qed

lemma demo_bounded: "bounded (frames (paging (sample_kernel tm\<lparr>disk := v\<rparr>)))"
  using demo_user_space by (simp add: sample_kernel_def user_space_def owned_def)

lemma sample_elf_room: "4 * segment_pages (headers sample_elf) + 9 < card (free_frames (frames demo_paging))"
proof -
  have "segment_pages (headers sample_elf) = 1" by code_simp
  then show ?thesis by (simp add: demo_free layout)
qed


text \<open>
  A file that is an ELF file but no executable is refused only after the task has got a page map for it: the call
  reports the format error, and the task stays on that page map, whose frame was free before and is not given back.
\<close>

theorem refused_file_keeps_page_map:
  assumes m: "bounded (frames (paging k))" "\<not> memory_full (frames (paging k))"
    and f: "volume_ok (disk k) N" "file_at N (disk k) a cs"
    and elf: "kEhdrSize \<le> length (file_data (disk k) a cs)" "take 4 (file_data (disk k) a cs) = elf_magic"
      "e_type (read_Ehdr (file_data (disk k) a cs)) \<noteq> ET_EXEC"
    and i: "CurrentTask (task_mgr k) = Some i"
  shows "\<exists>k1. ExecuteFile env a cmd arg fds k = Some (k1, 0, kInvalidFormat)
    \<and> task_mgr k1 = task_mgr (set_cr3 i (reg_cr3 (paging k1)) k)
    \<and> \<not> used (frames (paging k)) (pml4 (paging k1) div 4096) \<and> used (frames (paging k1)) (pml4 (paging k1) div 4096)"
proof -
  let ?buf = "file_data (disk k) a cs" and ?n = "unat (file_size (entry (disk k) a))"
  note load = loaded_file [OF f]
  have four: "\<not> ?n < 4" using elf(1) load(2) by (simp add: layout)
  from SetupPML4_run [OF m(1)] m(2) obtain p c where
    p: "SetupPML4 (paging k) = Some (Inr (p, c))" "reg_cr3 p = c" "user_space p" "\<not> used (frames (paging k)) (unat c div 4096)" by blast
  have "used (frames p) (pml4 p div 4096)" using p(3) by (auto simp: user_space_def owned_def)
  moreover have "LoadELF ?buf p = Some (p, kInvalidFormat)" using elf(1,3) by (simp add: LoadELF_def)
  then have "prepare_program ?buf cmd arg i k = Some ((set_cr3 i c k)\<lparr>paging := p\<rparr>, 0, kInvalidFormat)"
    using p(1) by (simp add: prepare_program_steps memory_steps_def)
  then have "ExecuteFile env a cmd arg fds k = Some ((set_cr3 i c k)\<lparr>paging := p\<rparr>, 0, kInvalidFormat)"
    using load four elf(2) i by (simp add: ExecuteFile_def Let_def)
  ultimately show ?thesis using p(2,4) by (simp add: pml4_def)
qed

theorem refused_file_keeps_page_map_witness:
  "\<forall>env. \<exists>k1. ExecuteFile env 128 file_txt None [0, 0, 0] ((sample_kernel terminal_manager)\<lparr>disk := elf_volume (sample_elf[16 := 3])\<rparr>)
     = Some (k1, 0, kInvalidFormat) \<and> used (frames (paging k1)) (pml4 (paging k1) div 4096)"
proof
  fix env
  let ?k = "(sample_kernel terminal_manager)\<lparr>disk := elf_volume (sample_elf[16 := 3])\<rparr>"
  have f: "volume_ok (disk ?k) 8" "file_at 8 (disk ?k) 128 [3, 4, 5, 6]" "file_data (disk ?k) 128 [3, 4, 5, 6] = sample_elf[16 := 3]"
    using elf_file elf_data [of "sample_elf[16 := 3]"] by (simp_all add: sample_elf_header(1))
  have e: "kEhdrSize \<le> length (sample_elf[16 := 3])" "take 4 (sample_elf[16 := 3]) = elf_magic" "e_type (read_Ehdr (sample_elf[16 := 3])) \<noteq> ET_EXEC"
    by code_simp+
  have full: "\<not> memory_full (frames (paging ?k))"
  proof
    assume "memory_full (frames (paging ?k))"
    then have "free_frames (frames demo_paging) = {}" by (auto simp: memory_full_def free_frames_def sample_kernel_def)
    with demo_enough show False by simp
  qed
  have i: "CurrentTask (task_mgr ?k) = Some 1" using terminal_manager_facts by (simp add: sample_kernel_def)
  from refused_file_keeps_page_map [OF demo_bounded full f(1,2), unfolded f(3), OF e i, of env file_txt None "[0, 0, 0]"]
  show "\<exists>k1. ExecuteFile env 128 file_txt None [0, 0, 0] ?k = Some (k1, 0, kInvalidFormat) \<and> used (frames (paging k1)) (pml4 (paging k1) div 4096)"
    by blast
qed

end
