(* ===== verification/KernelStart.thy ===== *)
theory KernelStart
  imports KernelInvariant IdentityMap Descriptors Ports MemoryInit KernelMain
begin

text \<open>
  The start of the kernel: \<open>KernelMainNewStack\<close> of \<^verbatim>\<open>kernel/Main.cpp\<close> up to its loop, with the parts that are not
  in another theory: the local APIC timer (\<^verbatim>\<open>timer.cpp\<close>), \<open>InitializeSyscall\<close> (\<^verbatim>\<open>syscall.cpp\<close>),
  \<open>InitializeSegmentation\<close> and the handlers of faults (\<^verbatim>\<open>interrupt.cpp\<close>).  The addresses of static objects and functions
  are arguments.
\<close>

section \<open>The local APIC timer\<close>

record LAPIC =
  lvt_timer :: u32
  initial_count :: u32
  divide_config :: u32

definition kCountMax :: u32 where [layout]: "kCountMax = 0xffffffff"

definition InitializeLAPICTimer :: "LAPIC \<Rightarrow> TimerManager \<times> LAPIC" where
  "InitializeLAPICTimer l =
     (new_TimerManager,
      l\<lparr>divide_config := 0b1011, lvt_timer := push_bit 16 0b010 OR of_nat kLAPICTimer, initial_count := 0x1000000\<rparr>)"

definition StartLAPICTimer :: "LAPIC \<Rightarrow> LAPIC" where
  "StartLAPICTimer l = l\<lparr>initial_count := kCountMax\<rparr>"

definition LAPICTimerElapsed :: "u32 \<Rightarrow> u32" where
  "LAPICTimerElapsed current_count = kCountMax - current_count"

definition StopLAPICTimer :: "LAPIC \<Rightarrow> LAPIC" where
  "StopLAPICTimer l = l\<lparr>initial_count := 0\<rparr>"

section \<open>The registers for system calls\<close>

type_synonym msr_file = "u32 \<Rightarrow> u64 option"

definition kIA32_EFER :: u32 where [layout]: "kIA32_EFER = 0xc0000080"
definition kIA32_STAR :: u32 where [layout]: "kIA32_STAR = 0xc0000081"
definition kIA32_LSTAR :: u32 where [layout]: "kIA32_LSTAR = 0xc0000082"
definition kIA32_FMASK :: u32 where [layout]: "kIA32_FMASK = 0xc0000084"

definition WriteMSR :: "u32 \<Rightarrow> u64 \<Rightarrow> msr_file \<Rightarrow> msr_file" where
  "WriteMSR msr x m = m(msr \<mapsto> x)"

definition InitializeSyscall :: "u64 \<Rightarrow> msr_file \<Rightarrow> msr_file" where
  "InitializeSyscall syscall_entry m =
     WriteMSR kIA32_FMASK 0
       (WriteMSR kIA32_STAR (push_bit 32 (ucast kKernelCS) OR push_bit 48 (ucast (kKernelSS OR 3)))
         (WriteMSR kIA32_LSTAR syscall_entry (WriteMSR kIA32_EFER 0x0501 m)))"

text \<open>
  What the processor takes from \<open>STAR\<close>: \<open>syscall\<close> loads the code segment from bits 32 to 47 and the stack segment
  behind it, \<open>sysret\<close> to 64-bit code the code segment 16 and the stack segment 8 above bits 48 to 63.
\<close>

definition syscall_selectors :: "u64 \<Rightarrow> u16 \<times> u16" where
  "syscall_selectors star = (ucast (drop_bit 32 star), ucast (drop_bit 32 star) + 8)"

definition sysret_selectors :: "u64 \<Rightarrow> u16 \<times> u16" where
  "sysret_selectors star = (ucast (drop_bit 48 star) + 16, ucast (drop_bit 48 star) + 8)"

section \<open>Faults\<close>

record InterruptFrame =
  fr_rip :: u64
  fr_cs :: u64
  fr_rflags :: u64
  fr_rsp :: u64
  fr_ss :: u64

text \<open>\<open>%x\<close> takes an \<open>unsigned int\<close>: of a 64-bit argument it prints the low half.\<close>

fun hex :: "nat \<Rightarrow> u8 list" where
  "hex n = (if n < 16 then [of_nat (if n < 10 then 48 + n else 87 + n)] else hex (n div 16) @ [of_nat (if n mod 16 < 10 then 48 + n mod 16 else 87 + n mod 16)])"

declare hex.simps [simp del]

definition fmt_x :: "u64 \<Rightarrow> u8 list" where
  "fmt_x x = hex (unat (ucast x :: u32))"

text \<open>A program is ended with the exit code for a segmentation fault, on the stack that \<open>CallApp\<close> saved; \<open>None\<close>: the fault is the kernel's.\<close>

definition KillApp :: "InterruptFrame \<Rightarrow> Kernel \<Rightarrow> (u64 \<times> int) option option" where
  "KillApp frame k =
     (if fr_cs frame AND 0x3 \<noteq> 3 then Some None
      else map_option (\<lambda>task. Some (os_stack_ptr task, 128 + 11)) (current_task k))"

definition PrintFrame :: "InterruptFrame \<Rightarrow> u8 list \<Rightarrow> Console \<Rightarrow> Console option" where
  "PrintFrame frame exp_name con =
     fold (\<lambda>line c. Option.bind c (printk (line @ [10])))
       [exp_name, ascii ''CS: '' @ fmt_x (fr_cs frame), ascii ''RIP: '' @ fmt_x (fr_rip frame),
        ascii ''RFLAGS: '' @ fmt_x (fr_rflags frame), ascii ''SS: '' @ fmt_x (fr_ss frame), ascii ''RSP: '' @ fmt_x (fr_rsp frame)]
       (Some con)"

text \<open>A handler leaves the program, or prints and halts for ever.\<close>

datatype FaultResult = ExitsApp u64 int | Halts Console

definition FaultHandler :: "u8 list \<Rightarrow> u64 option \<Rightarrow> InterruptFrame \<Rightarrow> Kernel \<Rightarrow> FaultResult option" where
  "FaultHandler fault_name error_code frame k =
     Option.bind (KillApp frame k) (\<lambda>r.
       case r of
         Some (os_stack, code) \<Rightarrow> Some (ExitsApp os_stack code)
       | None \<Rightarrow> map_option Halts (Option.bind (PrintFrame frame (35 # fault_name) (screen k)) (\<lambda>con.
             case error_code of None \<Rightarrow> Some con | Some e \<Rightarrow> printk (ascii ''[ERR] '' @ fmt_x e @ [10]) con)))"

section \<open>\<open>KernelMainNewStack\<close>\<close>

text \<open>\<open>SetDSAll\<close> and \<open>SetCSSS\<close> load the segment registers.\<close>

record SegmentRegisters =
  reg_cs :: u16
  reg_ss :: u16
  reg_ds :: u16

definition InitializeSegmentation :: "Segmentation \<Rightarrow> Segmentation \<times> SegmentRegisters" where
  "InitializeSegmentation s = (SetupSegments s, \<lparr>reg_cs = kKernelCS, reg_ss = kKernelSS, reg_ds = kKernelDS\<rparr>)"

definition InitializeInterrupt :: "device \<Rightarrow> (Handler \<Rightarrow> u64) \<Rightarrow> InterruptDescriptor list \<times> io_trace \<Rightarrow> (InterruptDescriptor list \<times> io_trace) option" where
  "InitializeInterrupt inb addr = (\<lambda>(idt, io).
     map_option (\<lambda>io'. (install_handlers addr idt, io')) (PICClearMask inb (of_nat kKeyboard) (DisablePIC io)))"

text \<open>The addresses the linker and the allocator of the library give.\<close>

record Statics =
  st_pml4 :: nat
  st_pdpt :: nat
  st_pd :: nat
  st_tss :: u64
  st_handlers :: "Handler \<Rightarrow> u64"
  st_SyscallEntry :: u64
  st_TaskIdle :: u64
  st_TaskTerminal :: u64
  st_idle_stack :: u64
  st_terminal_stack :: u64

record System =
  kernel :: Kernel
  timer_mgr :: TimerManager
  lapic :: LAPIC
  msrs :: msr_file
  segmentation :: Segmentation
  seg_regs :: SegmentRegisters
  idt :: "InterruptDescriptor list"
  heap :: Heap
  port_trace :: io_trace

text \<open>What the machine holds when the kernel is entered: all of it is arbitrary, but the descriptors and the volume of the loader.\<close>

record Machine_State =
  in_config :: FrameBufferConfig
  in_screen :: memory
  in_map :: "MemoryDescriptor list"
  in_volume :: memory
  in_paging :: Paging
  in_cpu :: TaskContext
  in_lapic :: LAPIC
  in_msrs :: msr_file
  in_garbage :: memory

text \<open>
  The initialisation in its order.  \<open>Inl\<close>: the heap could not be allocated, and the kernel prints this and ends.  The
  current task then is the main task.
\<close>

definition KernelMainNewStack :: "Statics \<Rightarrow> device \<Rightarrow> Font \<Rightarrow> Machine_State \<Rightarrow> (Code + System) option" where
  "KernelMainNewStack st inb font i =
     Option.bind (printk (ascii ''Hello, world!'' @ [10]) (InitializeConsole (in_config i) font (in_screen i))) (\<lambda>con.
       let (seg, regs) = InitializeSegmentation blank_segmentation;
           p = InitializePaging (st_pml4 st) (st_pdpt st) (st_pd st) (in_paging i)
       in case InitializeMemoryManager (in_map i) of
            None \<Rightarrow> None
          | Some (Inl err) \<Rightarrow> Some (Inl err)
          | Some (Inr (m, h)) \<Rightarrow>
              Option.bind (InitializeTSS (st_tss st) m seg) (\<lambda>(m', seg').
              Option.bind (InitializeInterrupt inb (st_handlers st) (replicate 256 blank_gate, InitializePIC [])) (\<lambda>(table, io).
                let volume = Initialize (in_volume i);
                    (timers, l) = InitializeLAPICTimer (in_lapic i);
                    regs' = InitializeSyscall (st_SyscallEntry st) (in_msrs i);
                    (timers', tm) = InitializeTask (reg_cr3 p) (st_idle_stack st) (st_TaskIdle st) timers;
                    (tm', task) = NewTask tm
                in map_option (\<lambda>tm''. Inr
                     \<lparr>kernel = \<lparr>task_mgr = tm'', cpu = in_cpu i, objects = [], disk = volume, screen = con,
                                paging = p\<lparr>frames := m'\<rparr>, last_exit_code = 0, stack_garbage = in_garbage i\<rparr>,
                      timer_mgr = timers', lapic = l, msrs = regs', segmentation = seg', seg_regs = regs, idt = table,
                      heap = h, port_trace = io\<rparr>)
                     (Wakeup task (- 1) (update_task task (InitContext (reg_cr3 p) (st_terminal_stack st) (st_TaskTerminal st) 0) tm')))))"

section \<open>The parts\<close>

text \<open>The tasks after the start: the main task runs, the idle task and the terminal wait.\<close>

lemma start_tasks:
  "\<exists>tm. Wakeup (snd (NewTask (new_TaskManager cr3 se e))) (- 1)
        (update_task (snd (NewTask (new_TaskManager cr3 se e))) (InitContext cr3 se' e' 0) (fst (NewTask (new_TaskManager cr3 se e)))) = Some tm
     \<and> tasks_ok 0 tm \<and> CurrentTask tm = Some 1 \<and> snd (NewTask (new_TaskManager cr3 se e)) = 3
     \<and> find_task tm 3 = Some ((InitContext cr3 se' e' 0 (new_Task 3))\<lparr>running := True\<rparr>)"
proof -
  let ?tm = "new_TaskManager cr3 se e" and ?f = "InitContext cr3 se' e' 0"
  have id: "snd (NewTask ?tm) = 3" by (simp add: NewTask_def Let_def new_TaskManager_eq)
  then have new: "NewTask ?tm = (fst (NewTask ?tm), 3)" by (metis prod.collapse)
  let ?tm2 = "update_task 3 ?f (fst (NewTask ?tm))"
  have ok: "tasks_ok 0 ?tm2" using tasks_ok_new [OF tasks_ok_boot new] .
  then have inv: "sched_inv ?tm2" by (simp add: tasks_ok_def)
  have find: "find_task (fst (NewTask ?tm)) j = (if j = 3 then Some (new_Task j) else find_task ?tm j)" for j
    using NewTask_run(4) [OF sched_inv_new] NewTask_run(2) [OF sched_inv_new, of cr3 se e] id by simp
  have t: "find_task ?tm2 3 = Some (?f (new_Task 3))" by (simp add: find_task_update find InitContext_def)
  have cur: "CurrentTask ?tm2 = Some 1"
    by (simp add: NewTask_def Let_def new_TaskManager_eq CurrentTask_def update_task_def)
  from Wakeup_run [OF inv t, of "- 1"] cur obtain tm where w: "Wakeup 3 (- 1) ?tm2 = Some tm" "sched_inv tm" "CurrentTask tm = Some 1"
    "\<And>j. find_task tm j = (if j = 3 then Some (?f (new_Task 3)\<lparr>level := level (?f (new_Task 3)), running := True\<rparr>) else find_task ?tm2 j)" by auto
  have lv: "(?f (new_Task 3))\<lparr>level := level (?f (new_Task 3)), running := True\<rparr> = (?f (new_Task 3))\<lparr>running := True\<rparr>" by simp
  have "tasks_ok 0 tm"
    by (rule tasks_okI [OF ok w(2)]) (use w(4) t in \<open>auto split: if_splits\<close>)
  with w lv id show ?thesis by simp
qed

text \<open>The descriptors of memory and the frames for the stacks.\<close>

lemma InitializeTSS_keeps_used:
  assumes "InitializeTSS tss_addr m s = Some (m', s')" "used m f"
  shows "used m' f"
proof -
  from assms(1) obtain m1 a b where "AllocateStackArea 8 m = Some (m1, a)" "AllocateStackArea 8 m1 = Some (m', b)"
    by (auto simp: InitializeTSS_def fallible Let_def)
  with AllocateStackArea_run obtain g g' where "Allocate m 8 = Some (Inr (m1, g))" "Allocate m1 8 = Some (Inr (m', g'))" by fastforce
  with Allocate_success(5) assms(2) show ?thesis by fastforce
qed

text \<open>Memory for the kernel: a run of available frames behind frame 0 for the heap and the two stacks.\<close>

definition enough_memory :: "MemoryDescriptor list \<Rightarrow> bool" where
  "enough_memory descs \<longleftrightarrow> (\<exists>t\<ge>1. \<forall>f. t \<le> f \<and> f < t + (kHeapFrames + 16) \<longrightarrow> available_at descs f)"

lemma start_memory:
  assumes wf: "wf_map 0 descs" and room: "enough_memory descs"
  shows "\<exists>m h m' s'. InitializeMemoryManager descs = Some (Inr (m, h)) \<and> InitializeTSS tss_addr m s = Some (m', s')
    \<and> (\<forall>f g. available_at descs g \<and> f \<le> g \<and> \<not> used m' f \<longrightarrow> available_at descs f \<and> \<not> heap_frame h f)"
proof -
  obtain m0 e where init: "InitializeMemoryManager descs = InitializeHeap (SetMemoryRange m0 1 (kBytesPerFrame * e))"
    and e: "e \<le> kFrameCount" and u: "\<And>f. f < e \<Longrightarrow> used m0 f \<longleftrightarrow> \<not> available_at descs f"
    and top: "\<And>f. available_at descs f \<Longrightarrow> f < e"
    using InitializeMemoryManager_run [OF wf] by metis
  from room obtain t where t: "1 \<le> t" and av: "\<And>f. t \<le> f \<Longrightarrow> f < t + (kHeapFrames + 16) \<Longrightarrow> available_at descs f"
    by (auto simp: enough_memory_def)
  have te: "t + (kHeapFrames + 16) \<le> e" using top [OF av, of "t + (kHeapFrames + 15)"] by (simp add: layout)
  let ?m0 = "SetMemoryRange m0 1 (kBytesPerFrame * e)"
  have big: "e \<le> kBytesPerFrame * e" by (simp add: layout)
  have free: "\<not> used m0 f" if "t \<le> f" "f < t + (kHeapFrames + 16)" for f
    using u [of f] av [OF that] that te by simp
  have bound: "t + (kHeapFrames + 16) \<le> kBytesPerFrame * e" using te big by (rule order_trans)
  have "fits ?m0 t kHeapFrames" using bound free by (simp add: fits_def)
  with Allocate_hits [of t kHeapFrames ?m0] t te e obtain m x where
    a: "Allocate ?m0 kHeapFrames = Some (Inr (m, x))" and x: "x \<le> t" and r: "range_begin m = 1" "range_end m = kBytesPerFrame * e"
    and used: "\<forall>f. used m f \<longleftrightarrow> used ?m0 f \<or> x \<le> f \<and> f < x + kHeapFrames" by (auto simp: layout)
  let ?h = "\<lparr>program_break = of_nat (x * kBytesPerFrame), program_break_end = of_nat (x * kBytesPerFrame) + of_nat (kHeapFrames * kBytesPerFrame)\<rparr>"
  have mm: "InitializeMemoryManager descs = Some (Inr (m, ?h))" using a by (simp add: init InitializeHeap_def Let_def)
  have "x + kHeapFrames \<le> kFrameCount" using x te e by simp
  from heap_frame_eq [OF this] have hf: "heap_frame ?h f \<longleftrightarrow> x \<le> f \<and> f < x + kHeapFrames" for f .
  have "fits m (t + kHeapFrames) 16" using bound free x used r by (simp add: fits_def)
  from InitializeTSS_returns [OF _ _ this] te e r t obtain m' s' where tss: "InitializeTSS tss_addr m s = Some (m', s')" by fastforce
  have "available_at descs f \<and> \<not> heap_frame ?h f" if "available_at descs g" "f \<le> g" "\<not> used m' f" for f g
  proof -
    have "\<not> used m f" using InitializeTSS_keeps_used [OF tss] that(3) by blast
    moreover have "f < e" using top [OF that(1)] that(2) by simp
    ultimately show ?thesis using used u hf by auto
  qed
  with mm tss show ?thesis by blast
qed

text \<open>The gates that lead to the handlers.\<close>

definition gates_set :: "(Handler \<Rightarrow> u64) \<Rightarrow> InterruptDescriptor list \<Rightarrow> bool" where
  "gates_set addr table \<longleftrightarrow> (\<forall>(k, h)\<in>set idt_entries. gate_present (table ! k) \<and> gate_target (table ! k) = addr h
     \<and> segment_selector (table ! k) = kKernelCS \<and> get_field 0 3 (idt_attr (table ! k)) = 1)"

lemma start_interrupts:
  assumes "reads_back_mask inb"
  shows "\<exists>table io. InitializeInterrupt inb addr (replicate 256 blank_gate, InitializePIC []) = Some (table, io)
    \<and> gates_set addr table \<and> (\<forall>n<16. masked io n = Some (n \<noteq> 1))"
proof -
  have key: "of_nat kKeyboard = (0x21 :: u8)" by (simp add: layout)
  from boot_enables_keyboard_only [OF assms, of "[]"] obtain io where
    io: "PICClearMask inb 0x21 (DisablePIC (InitializePIC [])) = Some io" "\<forall>n<16. masked io n = Some (n \<noteq> 1)" by blast
  have "gates_set addr (install_handlers addr (replicate 256 blank_gate))"
    unfolding gates_set_def using interrupt_gates [of "replicate 256 blank_gate" addr] by fastforce
  with io key show ?thesis by (simp add: InitializeInterrupt_def)
qed

lemma start_console: "\<exists>con. printk (ascii ''Hello, world!'' @ [10]) (InitializeConsole cfg font fb) = Some con \<and> console_ok con"
  by (simp add: printk_def layout ascii_def console_ok_PutString console_ok_new del: PutString.simps)

text \<open>The processor's view of \<open>STAR\<close>: the kernel's segments on a system call, the program's on the way back.\<close>

lemma start_msrs:
  "InitializeSyscall a m kIA32_LSTAR = Some a" "InitializeSyscall a m kIA32_FMASK = Some 0"
  "\<exists>star. InitializeSyscall a m kIA32_STAR = Some star \<and> syscall_selectors star = (kKernelCS, kKernelSS)
     \<and> sysret_selectors star = (kUserCS OR 3, kUserSS OR 3)"
  by (simp_all add: InitializeSyscall_def WriteMSR_def layout) (simp add: syscall_selectors_def sysret_selectors_def)


text \<open>The start on zeroed static tables, with 160 MiB of memory behind the first frame and a controller that keeps its mask.\<close>

definition sample_statics :: Statics where
  "sample_statics =
     \<lparr>st_pml4 = 0x100000, st_pdpt = 0x101000, st_pd = 0x102000, st_tss = 0x123000, st_handlers = (\<lambda>_. 0x110000),
      st_SyscallEntry = 0x111000, st_TaskIdle = 0x112000, st_TaskTerminal = 0x113000, st_idle_stack = 0x200000, st_terminal_stack = 0x300000\<rparr>"

definition sample_input :: Machine_State where
  "sample_input =
     \<lparr>in_config = vga_config, in_screen = (\<lambda>_. 0), in_map = demo_map, in_volume = (\<lambda>_. 0),
      in_paging = demo_paging\<lparr>phys := (\<lambda>_. 0)\<rparr>, in_cpu = blank_context,
      in_lapic = \<lparr>lvt_timer = 0, initial_count = 0, divide_config = 0\<rparr>, in_msrs = Map.empty, in_garbage = (\<lambda>_. 0)\<rparr>"


end
