(* ===== verification/Isolation.thy ===== *)
theory Isolation
  imports ProgramStart KernelStart
begin

text \<open>
  What protects the kernel from its programs: a program that \<open>ExecuteFile\<close> has entered runs with the privileges of
  ring 3, and the processor lets it use an address only when every entry on the way carries the user bit.  Also the
  program \<^verbatim>\<open>apps/fault/fault.cpp\<close>, which tries what is forbidden.
\<close>

section \<open>Accesses of a program\<close>

text \<open>The entries that an access with the privileges of a program needs; \<open>w\<close>: the access writes.\<close>

fun user_entries :: "bool \<Rightarrow> memory \<Rightarrow> nat \<Rightarrow> nat \<Rightarrow> LinearAddress4Level \<Rightarrow> bool" where
  "user_entries w m 0 p a = True"
| "user_entries w m (Suc l) p a =
     (let e = map_entry m p (Part (Suc l) a)
      in present e \<and> user e \<and> (w \<longrightarrow> writable e) \<and> (huge_page e \<and> (l = 1 \<or> l = 2) \<or> user_entries w m l (ptr e) a))"

declare user_entries.simps(2) [simp del]

text \<open>The halves of the address space; other addresses are not canonical, and the processor refuses them.\<close>

definition kernel_half :: "LinearAddress4Level \<Rightarrow> bool" where
  "kernel_half a \<longleftrightarrow> unat a < 2 ^ 47"

definition program_access :: "bool \<Rightarrow> Paging \<Rightarrow> LinearAddress4Level \<Rightarrow> nat option" where
  "program_access w s a =
     (if (kernel_half a \<or> user_half a) \<and> user_entries w (phys s) 4 (pml4 s) a then translate s a else None)"

fun program_writes :: "(LinearAddress4Level \<times> u8) list \<Rightarrow> Paging \<Rightarrow> Paging option" where
  "program_writes [] s = Some s"
| "program_writes ((a, b) # ws) s =
     (case program_access True s a of
        None \<Rightarrow> None
      | Some x \<Rightarrow> program_writes ws (s\<lparr>phys := (phys s)(x := b)\<rparr>))"

section \<open>The table of a program\<close>

definition kernel_closed :: "Paging \<Rightarrow> bool" where
  "kernel_closed s \<longleftrightarrow> (\<forall>j<256. \<not> user (map_entry (phys s) (pml4 s) j))"

lemma kernel_half_part: "kernel_half a \<Longrightarrow> Part 4 a < 256"
  by (simp add: kernel_half_def Part_div less_mult_imp_div_less)

lemma closed_access: "kernel_closed s \<Longrightarrow> kernel_half a \<Longrightarrow> program_access w s a = None"
  using kernel_half_part [of a] user_entries.simps(2) [of w "phys s" 3 "pml4 s" a]
  by (auto simp: program_access_def kernel_closed_def Let_def)

lemma tree_user_entries:
  assumes "tree_ok m l lo p" "l = 0 \<or> lo \<le> Part l a" "translate_from m l p a \<noteq> None"
  shows "user_entries w m l p a"
  using assms
proof (induction l arbitrary: lo p)
  case (Suc l)
  let ?e = "map_entry m p (Part (Suc l) a)"
  have i: "lo \<le> Part (Suc l) a" "Part (Suc l) a < 512" using Suc.prems(2) Part_less by simp_all
  have pr: "present ?e" using Suc.prems(3) by (auto simp: Let_def split: if_splits)
  note ok = tree_ok_entry [OF Suc.prems(1) i pr]
  have "user_entries w m l (ptr ?e) a"
    using ok(3) pr Suc.prems(3) by (intro Suc.IH [OF ok(4)]) (auto simp: Let_def)
  with ok pr show ?case by (simp add: user_entries.simps(2) Let_def)
qed simp

lemma user_access:
  assumes "user_space s" "user_half a"
  shows "program_access w s a = translate s a"
proof -
  have ua: "256 \<le> Part 4 a" using user_half_address(1) [OF assms(2)] by (simp add: user_address_def)
  have ok: "tree_ok (phys s) 4 256 (pml4 s)" using assms(1) by (simp add: user_space_def owned_def)
  have "translate s a \<noteq> None \<Longrightarrow> user_entries w (phys s) 4 (pml4 s) a"
    using tree_user_entries [OF ok, of a w] ua by (simp add: translate_def)
  then show ?thesis using assms(2) by (cases "translate s a = None") (simp_all add: program_access_def)
qed

lemma user_target:
  assumes "user_space s" "user_half a" "translate s a = Some x"
  shows "\<exists>q\<in>tree (phys s) 4 256 (pml4 s). x \<in> page q \<and> page_addr q"
proof -
  have ua: "user_address a" using user_half_address(1) [OF assms(2)] .
  from translate_user [OF assms(1) ua] assms(3) obtain q where q: "user_walk s a = Some q" "x = q + Part 0 a"
    by (cases "user_walk s a") auto
  have "256 \<le> top_index 4 (page_number 4 a)" using ua by (simp add: top_index_page_number user_address_def)
  from walk_in_tree [OF q(1) [unfolded user_walk_def] this] have t: "q \<in> tree (phys s) 4 256 (pml4 s)" .
  with tree_ok_page assms(1) have "page_addr q" by (auto simp: user_space_def owned_def)
  moreover have "x \<in> page q" using q(2) by (simp add: page_def Part_div)
  ultimately show ?thesis using t by blast
qed

lemma page_frame: "page_addr q \<Longrightarrow> x \<in> page q \<Longrightarrow> x div 4096 = q div 4096"
  by (auto simp: page_addr_def page_def dvd_def)

section \<open>A program at work\<close>

text \<open>What holds while a program runs that was started when the frames \<open>K\<close> were in use.\<close>

definition confined :: "(nat \<Rightarrow> bool) \<Rightarrow> Paging \<Rightarrow> bool" where
  "confined K s \<longleftrightarrow> user_space s \<and> kernel_closed s \<and> (\<forall>q\<in>tree (phys s) 4 256 (pml4 s). \<not> K (q div 4096))"

lemma confined_access:
  assumes "confined K s" "program_access w s a = Some x"
  shows "user_half a" "translate s a = Some x" "\<not> K (x div 4096)"
proof -
  have "\<not> kernel_half a" using closed_access [of s a w] assms by (auto simp: confined_def)
  with assms(2) show a: "user_half a" by (auto simp: program_access_def split: if_splits)
  then show t: "translate s a = Some x" using user_access [of s a w] assms by (simp add: confined_def)
  from user_target [OF _ a t] assms(1) page_frame show "\<not> K (x div 4096)" by (fastforce simp: confined_def)
qed

lemma confined_write:
  fixes b :: u8
  assumes c: "confined K s" and x: "program_access True s a = Some x"
  defines "s' \<equiv> s\<lparr>phys := (phys s)(x := b)\<rparr>"
  shows "confined K s'" "program_access w s' c = program_access w s c"
proof -
  note A = confined_access [OF c x]
  have u: "user_space s" using c by (simp add: confined_def)
  have "user_walk s a \<noteq> None" using translate_user [OF u user_half_address(1) [OF A(1)]] A(2) by (cases "user_walk s a") simp_all
  from vwrite_user [OF u A(1) this, of b] A(2) have sm: "same_mapping s s'" by (auto simp: vwrite_def s'_def)
  then have u': "user_space s'" and p: "pml4 s' = pml4 s" by (simp_all add: same_mapping_def pml4_def)
  with c sm show c': "confined K s'" by (simp add: confined_def same_mapping_def kernel_closed_def)
  show "program_access w s' c = program_access w s c"
  proof (cases "user_half c")
    case True
    note uc = user_half_address(1) [OF True]
    have "translate s' c = translate s c"
      using translate_user [OF u uc] translate_user [OF u' uc] sm uc by (simp add: same_mapping_def)
    then show ?thesis using user_access [OF u True] user_access [OF u' True] by simp
  next
    case False
    then show ?thesis using closed_access [of s c w] closed_access [of s' c w] c c'
      by (cases "kernel_half c") (simp_all add: confined_def program_access_def)
  qed
qed

lemma confined_writes:
  "confined K s \<Longrightarrow> program_writes ws s = Some s' \<Longrightarrow>
     (\<forall>w a. program_access w s' a = program_access w s a) \<and> (\<forall>x. K (x div 4096) \<longrightarrow> phys s' x = phys s x)"
proof (induction ws arbitrary: s)
  case (Cons wb ws)
  obtain a b where wb: "wb = (a, b)" by (cases wb)
  with Cons.prems(2) obtain x where x: "program_access True s a = Some x"
    "program_writes ws (s\<lparr>phys := (phys s)(x := b)\<rparr>) = Some s'" by (auto split: option.splits)
  note W = confined_write [OF Cons.prems(1) x(1), where b = b]
  from Cons.IH [OF W(1) x(2)] W(2) confined_access(3) [OF Cons.prems(1) x(1)] show ?case by auto
qed simp

section \<open>From the kernel to the program\<close>

lemma le64_shift: "le64 m (a + k) = le64 (\<lambda>i. m (a + i)) k"
  by (simp add: le16_def le32_def le64_def ac_simps)

text \<open>\<open>SetupPML4\<close> writes only the new table, and its lower half is that of the old one.\<close>

lemma SetupPML4_kernel:
  assumes b: "bounded (frames s)" and p: "page_addr (pml4 s)" "used (frames s) (pml4 s div 4096)"
    and run: "SetupPML4 s = Some (Inr (s', a))"
  shows "\<And>x. used (frames s) (x div 4096) \<Longrightarrow> phys s' x = phys s x"
    and "\<And>j. j < 256 \<Longrightarrow> map_entry (phys s') (pml4 s') j = map_entry (phys s) (pml4 s) j"
    and "\<And>f. used (frames s) f \<Longrightarrow> used (frames s') f"
    and "\<And>q. q \<in> tree (phys s') 4 256 (pml4 s') \<Longrightarrow> \<not> used (frames s) (q div 4096)"
proof -
  from run obtain s1 c where n: "NewPageMap s = Some (Inr (s1, c))"
    and s': "s' = s1\<lparr>phys := put_bytes c (bytes (phys s1) (unat (reg_cr3 s1)) (256 * 8)) (phys s1), reg_cr3 := of_nat c\<rparr>"
    by (auto simp: SetupPML4_def Let_def split: option.splits sum.splits)
  note f = NewPageMap_fresh [OF n b]
  let ?old = "bytes (phys s1) (unat (reg_cr3 s1)) (256 * 8)"
  from f(1) obtain g where g: "c = g * 4096" "g < kFrameCount" by (auto simp: page_addr_def dvd_def mult.commute)
  then have c: "unat (of_nat c :: u64) = c" by (intro unat_of_nat_u64) (simp add: layout)
  then have p': "pml4 s' = c" by (simp add: s' pml4_def)
  have outc: "x \<notin> page c" if "used (frames s) (x div 4096)" for x
    using that f(1,2) page_frame [of c x] by auto
  show keep: "phys s' x = phys s x" if "used (frames s) (x div 4096)" for x
    using outc [OF that] f(7) [of x] by (auto simp: s' put_bytes_def page_def)
  show "used (frames s) f \<Longrightarrow> used (frames s') f" for f using f(5) by (simp add: s')
  show "map_entry (phys s') (pml4 s') j = map_entry (phys s) (pml4 s) j" if j: "j < 256" for j
    unfolding map_entry_def p' le64_shift
  proof (rule le64_cong)
    fix k :: nat assume k: "k < 8"
    have i: "8 * j + k < 256 * 8" using j k by simp
    have "phys s' (c + 8 * j + k) = ?old ! (8 * j + k)" using i by (simp add: s' put_bytes_def add.assoc)
    also have "\<dots> = phys s1 (pml4 s + (8 * j + k))" using i f(4) by (simp add: pml4_def)
    also have "\<dots> = phys s (pml4 s + (8 * j + k))"
    proof (rule f(7) [OF outc])
      have "pml4 s + (8 * j + k) \<in> page (pml4 s)" using i by (simp add: page_def)
      from page_frame [OF p(1) this] p(2) show "used (frames s) ((pml4 s + (8 * j + k)) div 4096)" by simp
    qed
    finally show "phys s' (c + (8 * j + k)) = phys s (pml4 s + (8 * j + k))" by (simp add: add.assoc)
  qed
  have z: "map_entry (phys s') c i = 0" if "256 \<le> i" "i < 512" for i
    unfolding map_entry_def
  proof (rule le64_zero)
    show "phys s' (c + 8 * i + j) = 0" if "j < 8" for j
      using that \<open>256 \<le> i\<close> \<open>i < 512\<close> f(6) by (simp add: s' put_bytes_other zero_page_def page_def)
  qed
  have four: "4 = Suc 3" by simp
  have "tree (phys s') 4 256 c = {c}" unfolding four tree_Suc using z by auto
  then show "q \<in> tree (phys s') 4 256 (pml4 s') \<Longrightarrow> \<not> used (frames s) (q div 4096)" for q using f(2) p' by simp
qed

lemma grows_confined:
  assumes b: "bounded (frames s)" and p: "page_addr (pml4 s)" "used (frames s) (pml4 s div 4096)" and closed: "kernel_closed s"
    and run: "SetupPML4 s = Some (Inr (s1, a))" and g: "grows n s1 s2" and u: "user_space s2"
  shows "confined (used (frames s)) s2" "\<And>x. used (frames s) (x div 4096) \<Longrightarrow> phys s2 x = phys s x"
proof -
  note S = SetupPML4_kernel [OF b p run] and G = g [unfolded grows_def]
  have p2: "pml4 s2 = pml4 s1" using G by (simp add: pml4_def)
  have tree: "\<not> used (frames s) (q div 4096)" if "q \<in> tree (phys s2) 4 256 (pml4 s1)" for q
  proof (cases "q \<in> tree (phys s1) 4 256 (pml4 s1)")
    case False
    then have "q \<in> new_pages 4 256 (pml4 s1) s1 s2" using that by (simp add: new_pages_def)
    then have "\<not> used (frames s1) (q div 4096)" using g by (simp add: grows_def)
    then show ?thesis using S(3) by blast
  qed (rule S(4))
  have "kernel_closed s2" using closed S(2) G p2 by (simp add: kernel_closed_def)
  with u tree show "confined (used (frames s)) s2" by (simp add: confined_def p2)
  fix x assume x: "used (frames s) (x div 4096)"
  have "x \<notin> page q" if q: "q \<in> tree (phys s2) 4 256 (pml4 s1)" for q
  proof
    assume "x \<in> page q"
    moreover have "page_addr q" using tree_ok_page u q by (auto simp: user_space_def owned_def p2)
    ultimately show False using page_frame [of q x] tree [OF q] x by simp
  qed
  with G S(1) [OF x] show "phys s2 x = phys s x" by simp
qed

text \<open>The mapping the kernel starts with is closed to programs.\<close>

lemma user_number: "user e \<longleftrightarrow> odd (unat e div 4)"
proof -
  have one: "(w = 1) = (unat w = 1)" for w :: u64 by (metis unsigned_1 unsigned_word_eqI)
  show ?thesis unfolding user_def one unat_get_field by (simp add: odd_iff_mod_2_eq_one)
qed

lemma start_closed:
  assumes st: "static_tables p4 p3 pd s"
  shows "kernel_closed (InitializePaging p4 p3 pd s)"
proof -
  from st obtain q where q: "p3 = 4096 * q" "q < 2 ^ 40" "p4 < 2 ^ 52" by (auto simp: static_tables_def)
  have "unat ((of_nat p3 OR 3) :: u64) = 4096 * q + 3"
    using entry_number(1) [OF q(2), of 3] by (simp add: q(1))
  moreover have "(4096 * q + 3) div 4 = 1024 * q" by simp
  ultimately have e: "\<not> user (of_nat p3 OR 3)" by (simp add: user_number)
  have z: "\<not> user 0" by (simp add: user_number)
  have "pml4 (InitializePaging p4 p3 pd s) = p4"
    using q(3) by (simp add: pml4_def InitializePaging_def SetupIdentityPageTable_def Let_def unat_of_nat_u64)
  then show ?thesis using identity_tables(1) [OF st] e z by (simp add: kernel_closed_def)
qed

section \<open>\<open>apps/fault\<close>\<close>

text \<open>
  The program ends, or raises an exception of the processor; with it goes what it has printed.  \<open>hlt\<close> is refused to a
  program (vector 13), a division by zero raises vector 0, an address that the page maps refuse vector 14.
\<close>

datatype outcome = Exits "u8 list" | Raises nat "u8 list"

definition store_int :: "u8 list \<Rightarrow> LinearAddress4Level \<Rightarrow> u32 \<Rightarrow> Paging \<Rightarrow> outcome \<times> Paging" where
  "store_int out a x s =
     (case program_writes (zip [a, a + 1, a + 2, a + 3] (bytes32 x)) s of
        None \<Rightarrow> (Raises 14 out, s)
      | Some s' \<Rightarrow> (Exits out, s'))"

definition fault_main :: "u8 list list \<Rightarrow> Paging \<Rightarrow> outcome \<times> Paging" where
  "fault_main argv s =
     (let cmd = (if length argv \<ge> 2 then argv ! 1 else ascii ''hlt'');
          out = ascii ''cmd = '' @ cmd @ [10]
      in if cmd = ascii ''hlt'' then (Raises 13 out, s)
         else if cmd = ascii ''wr_kernel'' then store_int out 0x100 42 s
         else if cmd = ascii ''wr_app'' then store_int out 0xffff8000ffff0000 123 s
         else if cmd = ascii ''zero'' then (Raises 0 out, s)
         else (Exits out, s))"

section \<open>Properties\<close>


lemma demo_closed: "page_addr (pml4 demo_paging)" "used (frames demo_paging) (pml4 demo_paging div 4096)" "kernel_closed demo_paging"
  by (simp_all add: demo_used page_addr_def kernel_closed_def map_entry_def le64_zero user_number)
    (simp_all add: demo_paging_def pml4_def layout le64_zero user_number)




end
