(* ===== verification/BootImage.thy ===== *)
theory BootImage
  imports ElfLoader
begin

text \<open>
  The part of the UEFI loader (\<^verbatim>\<open>MoxiaLoaderPkg/Main.c\<close>) that puts the kernel in memory: \<open>CalcLoadAddressRange\<close> and
  \<open>CopyLoadSegments\<close>.  The loader runs on physical memory; the ELF file lies somewhere in it, and its headers
  are read where they lie, again in each round of the loops.  A copy that leaves the address space has no defined
  result.
\<close>

section \<open>The loops over the program headers\<close>

definition ehdr_at :: "memory \<Rightarrow> u64 \<Rightarrow> Elf64_Ehdr" where
  "ehdr_at m ehdr = read_Ehdr (bytes m (unat ehdr) kEhdrSize)"

text \<open>\<open>phdr[i]\<close> with \<open>phdr = (UINT64)ehdr + ehdr->e_phoff\<close>.\<close>

definition phdr_at :: "memory \<Rightarrow> u64 \<Rightarrow> nat \<Rightarrow> Elf64_Phdr" where
  "phdr_at m phdr i = read_Phdr (bytes m (unat phdr + kPhdrSize * i) kPhdrSize) 0"

definition phdrs_of :: "memory \<Rightarrow> u64 \<Rightarrow> u64" where
  "phdrs_of m ehdr = ehdr + e_phoff (ehdr_at m ehdr)"

lemma more_headers: "i < unat (e_phnum h) \<Longrightarrow> i < 65536"
proof -
  have "unat (e_phnum h) < 2 ^ LENGTH(16)" by (rule unsigned_less)
  then show "i < unat (e_phnum h) \<Longrightarrow> i < 65536" by simp
qed

fun load_range :: "memory \<Rightarrow> u64 \<Rightarrow> nat \<Rightarrow> nat \<Rightarrow> u64 \<times> u64 \<Rightarrow> u64 \<times> u64" where
  "load_range m phdr i 0 r = r"
| "load_range m phdr i (Suc k) (first_addr, last_addr) =
     (let ph = phdr_at m phdr i
      in load_range m phdr (Suc i) k
           (if p_type ph \<noteq> PT_LOAD then (first_addr, last_addr)
            else (min first_addr (p_vaddr ph), max last_addr (p_vaddr ph + p_memsz ph))))"

definition CalcLoadAddressRange :: "memory \<Rightarrow> u64 \<Rightarrow> u64 \<times> u64" where
  "CalcLoadAddressRange m ehdr =
     load_range m (phdrs_of m ehdr) 0 (unat (e_phnum (ehdr_at m ehdr))) (- 1, 0)"

text \<open>\<open>CopyMem\<close> and \<open>SetMem\<close> (buffer, length, value) of EDK II.\<close>

definition CopyMem :: "u64 \<Rightarrow> u64 \<Rightarrow> u64 \<Rightarrow> memory \<Rightarrow> memory option" where
  "CopyMem dst src n m =
     (if unat dst + unat n \<le> 2 ^ 64 \<and> unat src + unat n \<le> 2 ^ 64
      then Some (put_bytes (unat dst) (bytes m (unat src) (unat n)) m) else None)"

definition SetMem :: "u64 \<Rightarrow> u64 \<Rightarrow> u8 \<Rightarrow> memory \<Rightarrow> memory option" where
  "SetMem dst n b m = (if unat dst + unat n \<le> 2 ^ 64 then Some (memset (unat dst) b (unat n) m) else None)"

text \<open>The loop of \<open>CopyLoadSegments\<close> from header \<open>i\<close> on; the copies may change the number of headers it compares with.\<close>

function load_segments :: "u64 \<Rightarrow> u64 \<Rightarrow> nat \<Rightarrow> memory \<Rightarrow> memory option" where
  "load_segments ehdr phdr i m =
     (if i < unat (e_phnum (ehdr_at m ehdr))
      then let ph = phdr_at m phdr i
           in if p_type ph \<noteq> PT_LOAD then load_segments ehdr phdr (Suc i) m
              else (case Option.bind (CopyMem (p_vaddr ph) (ehdr + p_offset ph) (p_filesz ph) m)
                           (SetMem (p_vaddr ph + p_filesz ph) (p_memsz ph - p_filesz ph) 0) of
                      None \<Rightarrow> None
                    | Some m' \<Rightarrow> load_segments ehdr phdr (Suc i) m')
      else Some m)"
  by auto

termination
  by (relation "measure (\<lambda>(ehdr, phdr, i, m). 65536 - i)") (auto dest!: more_headers)

text \<open>The number of pages that \<open>UefiMain\<close> allocates for the range.\<close>

definition num_pages :: "u64 \<Rightarrow> u64 \<Rightarrow> nat" where
  "num_pages first_addr last_addr = unat ((last_addr - first_addr + 0xfff) div 0x1000)"

definition Boot_CopyLoadSegments :: "u64 \<Rightarrow> memory \<Rightarrow> memory option" where
  "Boot_CopyLoadSegments ehdr m = load_segments ehdr (phdrs_of m ehdr) 0 m"

declare load_segments.simps [simp del]

section \<open>The file in memory\<close>

definition in_memory :: "memory \<Rightarrow> u64 \<Rightarrow> u8 list \<Rightarrow> bool" where
  "in_memory m a buf \<longleftrightarrow> unat a + length buf < 2 ^ 64 \<and> (\<forall>k<length buf. m (unat a + k) = buf ! k)"

text \<open>What an executable for this loader is, apart from where its segments lie.\<close>

definition load_ok :: "u8 list \<Rightarrow> Elf64_Phdr \<Rightarrow> bool" where
  "load_ok buf ph \<longleftrightarrow>
     p_filesz ph \<le> p_memsz ph \<and> unat (p_offset ph) + unat (p_filesz ph) \<le> length buf \<and> unat (p_vaddr ph) + unat (p_memsz ph) + 4096 \<le> 2 ^ 64"

definition boot_elf :: "u8 list \<Rightarrow> bool" where
  "boot_elf buf \<longleftrightarrow>
     kEhdrSize \<le> length buf \<and> unat (e_phoff (read_Ehdr buf)) + kPhdrSize * unat (e_phnum (read_Ehdr buf)) \<le> length buf
     \<and> (\<forall>ph\<in>set (headers buf). p_type ph = PT_LOAD \<longrightarrow> load_ok buf ph)"

lemma le_shift:
  "le16 m (a + k) = le16 (\<lambda>i. m (a + i)) k" "le32 m (a + k) = le32 (\<lambda>i. m (a + i)) k" "le64 m (a + k) = le64 (\<lambda>i. m (a + i)) k"
  by (simp_all add: le16_def le32_def le64_def ac_simps)

lemma read_Phdr_cong:
  assumes "\<And>i. i < kPhdrSize \<Longrightarrow> mem_of b (x + i) = mem_of b' (y + i)"
  shows "read_Phdr b x = read_Phdr b' y"
proof -
  let ?f = "\<lambda>i. mem_of b (x + i)" and ?g = "\<lambda>i. mem_of b' (y + i)"
  have eq: "?f i = ?g i" if "i < 56" for i using assms that by (simp add: layout)
  have l32: "le32 ?f k = le32 ?g k" if "k < 5" for k by (rule le32_cong) (use eq that in simp)
  have l64: "le64 ?f k = le64 ?g k" if "k < 49" for k by (rule le64_cong) (use eq that in simp)
  from l32 [of 0] l32 [of 4] l64 show ?thesis
    using le_shift(2) [of "mem_of b" x 0] le_shift(2) [of "mem_of b'" y 0] by (simp add: read_Phdr_def Let_def le_shift(2,3))
qed

lemma read_Ehdr_cong:
  assumes "\<And>i. i < kEhdrSize \<Longrightarrow> mem_of b i = mem_of b' i"
  shows "read_Ehdr b = read_Ehdr b'"
proof -
  have eq: "mem_of b i = mem_of b' i" if "i < 64" for i using assms that by (simp add: layout)
  have l16: "le16 (mem_of b) k = le16 (mem_of b') k" if "k < 63" for k by (rule le16_cong) (use eq that in simp)
  have l32: "le32 (mem_of b) k = le32 (mem_of b') k" if "k < 60" for k by (rule le32_cong) (use eq that in simp)
  have l64: "le64 (mem_of b) k = le64 (mem_of b') k" if "k < 56" for k by (rule le64_cong) (use eq that in simp)
  have "bytes (mem_of b) 0 16 = bytes (mem_of b') 0 16" by (rule bytes_cong) (use eq in simp)
  with l16 l32 l64 show ?thesis by (simp add: read_Ehdr_def Let_def)
qed

lemma mem_of_bytes: "i < n \<Longrightarrow> mem_of (bytes m a n) i = m (a + i)"
  by (simp add: mem_of_def)

lemma ehdr_in_memory:
  assumes "in_memory m a buf" "kEhdrSize \<le> length buf"
  shows "ehdr_at m a = read_Ehdr buf"
  unfolding ehdr_at_def by (rule read_Ehdr_cong) (use assms in \<open>simp add: mem_of_bytes in_memory_def\<close>, simp add: mem_of_def)

lemma phdrs_in_memory:
  assumes "in_memory m a buf" "boot_elf buf"
  shows "unat (phdrs_of m a) = unat a + unat (e_phoff (read_Ehdr buf))"
  using assms ehdr_in_memory [OF assms(1)] by (simp add: phdrs_of_def boot_elf_def in_memory_def unat_word_ariths(1))

lemma phdr_in_memory:
  assumes mem: "in_memory m a buf" and b: "boot_elf buf" and i: "i < length (headers buf)"
  shows "phdr_at m (a + e_phoff (read_Ehdr buf)) i = headers buf ! i"
proof -
  have e: "ehdr_at m a = read_Ehdr buf" using ehdr_in_memory [OF mem] b by (simp add: boot_elf_def)
  have p: "unat (a + e_phoff (read_Ehdr buf)) = unat a + unat (e_phoff (read_Ehdr buf))"
    using phdrs_in_memory [OF mem b] by (simp add: phdrs_of_def e)
  have "kPhdrSize * Suc i \<le> kPhdrSize * unat (e_phnum (read_Ehdr buf))" using i by (intro mult_le_mono2) (simp add: headers_def)
  with b have "unat (e_phoff (read_Ehdr buf)) + kPhdrSize * i + kPhdrSize \<le> length buf" by (simp add: boot_elf_def)
  with mem have "phdr_at m (a + e_phoff (read_Ehdr buf)) i = read_Phdr buf (unat (e_phoff (read_Ehdr buf)) + kPhdrSize * i)"
    unfolding phdr_at_def p by (intro read_Phdr_cong) (simp add: mem_of_bytes in_memory_def add.assoc, simp add: mem_of_def)
  with i show ?thesis by (simp add: headers_def)
qed

section \<open>Copying the segments\<close>

lemma in_memory_word: "in_memory m a buf \<Longrightarrow> k < length buf \<Longrightarrow> m (unat (a + of_nat k)) = buf ! k"
  by (simp add: in_memory_def unat_add_small)

lemma in_memory_keep:
  assumes "in_memory m a buf" "\<And>c. block a (length buf) c \<Longrightarrow> m' (unat c) = m (unat c)"
  shows "in_memory m' a buf"
proof -
  have "m' (unat a + k) = buf ! k" if k: "k < length buf" for k
  proof -
    have u: "unat (a + of_nat k) = unat a + k" using assms(1) k by (simp add: in_memory_def unat_add_small)
    with k have "block a (length buf) (a + of_nat k)" by (simp add: block_def)
    from assms(2) [OF this] u assms(1) k show ?thesis by (simp add: in_memory_def)
  qed
  with assms(1) show ?thesis by (simp add: in_memory_def)
qed

lemma copy_one:
  assumes mem: "in_memory m a buf" and ok: "load_ok buf ph" and apart: "\<And>c. covers ph c \<Longrightarrow> \<not> block a (length buf) c"
  shows "\<exists>m'. Option.bind (CopyMem (p_vaddr ph) (a + p_offset ph) (p_filesz ph) m) (SetMem (p_vaddr ph + p_filesz ph) (p_memsz ph - p_filesz ph) 0) = Some m'
    \<and> (\<forall>c. m' (unat c) = (if covers ph c then seg_byte buf ph c else m (unat c)))"
proof -
  let ?v = "unat (p_vaddr ph)" and ?o = "unat (p_offset ph)" and ?f = "unat (p_filesz ph)" and ?n = "unat (p_memsz ph)"
  have le: "?f \<le> ?n" "?o + ?f \<le> length buf" "?v + ?n < 2 ^ 64" and A: "unat a + length buf < 2 ^ 64"
    using ok mem by (simp_all add: load_ok_def word_le_nat_alt in_memory_def)
  have src: "unat (a + p_offset ph) = unat a + ?o" using le A by (simp add: unat_word_ariths(1))
  have dst: "unat (p_vaddr ph + p_filesz ph) = ?v + ?f" using le by (simp add: unat_word_ariths(1))
  have rest: "unat (p_memsz ph - p_filesz ph) = ?n - ?f" using ok by (simp add: load_ok_def unat_sub)
  let ?m1 = "put_bytes ?v (bytes m (unat a + ?o) ?f) m"
  let ?m2 = "memset (?v + ?f) 0 (?n - ?f) ?m1"
  have run: "Option.bind (CopyMem (p_vaddr ph) (a + p_offset ph) (p_filesz ph) m) (SetMem (p_vaddr ph + p_filesz ph) (p_memsz ph - p_filesz ph) 0) = Some ?m2"
    using le A by (simp add: CopyMem_def SetMem_def src dst rest)
  have "?m2 (unat c) = (if covers ph c then seg_byte buf ph c else m (unat c))" for c
  proof (cases "?v \<le> unat c \<and> unat c < ?v + ?f")
    case True
    then obtain j where j: "unat c = ?v + j" "j < ?f" by (metis le_Suc_ex nat_add_left_cancel_less)
    then have "?m1 (unat c) = m (unat a + (?o + j))" by (simp add: put_bytes_def add.assoc)
    also have "\<dots> = buf ! (?o + j)" using mem j le by (simp add: in_memory_def)
    finally show ?thesis using j le by (auto simp: memset_def covers_def block_def seg_byte_def)
  next
    case False
    then show ?thesis using le by (auto simp: memset_def put_bytes_def covers_def block_def seg_byte_def Let_def)
  qed
  with run show ?thesis by blast
qed

lemma elf_image_covered: "elf_image buf phs c = Some b \<Longrightarrow> \<exists>ph\<in>set phs. p_type ph = PT_LOAD \<and> covers ph c"
  by (induction phs) (auto split: option.splits if_splits)

lemma load_segments_run:
  assumes "boot_elf buf" and apart: "\<And>ph c. ph \<in> set (headers buf) \<Longrightarrow> p_type ph = PT_LOAD \<Longrightarrow> covers ph c \<Longrightarrow> \<not> block a (length buf) c"
    and "in_memory m a buf" "i + k = length (headers buf)"
  shows "\<exists>m'. load_segments a (a + e_phoff (read_Ehdr buf)) i m = Some m'
    \<and> (\<forall>c. m' (unat c) = (case elf_image buf (drop i (headers buf)) c of Some b \<Rightarrow> b | None \<Rightarrow> m (unat c)))"
  using assms(3,4)
proof (induction k arbitrary: i m)
  case 0
  have "ehdr_at m a = read_Ehdr buf" using ehdr_in_memory [OF 0(1)] assms(1) by (simp add: boot_elf_def)
  with 0 show ?case by (subst load_segments.simps) (simp add: headers_def)
next
  case (Suc k)
  let ?ph = "headers buf ! i" and ?p = "a + e_phoff (read_Ehdr buf)"
  from Suc.prems have i: "i < length (headers buf)" by simp
  then have D: "drop i (headers buf) = ?ph # drop (Suc i) (headers buf)" by (rule Cons_nth_drop_Suc [symmetric])
  have e: "ehdr_at m a = read_Ehdr buf" using ehdr_in_memory [OF Suc.prems(1)] assms(1) by (simp add: boot_elf_def)
  note ph = phdr_in_memory [OF Suc.prems(1) assms(1) i]
  have more: "i < unat (e_phnum (ehdr_at m a))" using i by (simp add: e headers_def)
  show ?case
  proof (cases "p_type ?ph = PT_LOAD")
    case False
    then have "load_segments a ?p i m = load_segments a ?p (Suc i) m"
      using more ph by (subst load_segments.simps) (simp add: Let_def)
    moreover have "elf_image buf (drop i (headers buf)) c = elf_image buf (drop (Suc i) (headers buf)) c" for c
      using False by (simp add: D split: option.splits)
    ultimately show ?thesis using Suc.IH [OF Suc.prems(1), of "Suc i"] Suc.prems(2) by simp
  next
    case True
    have apart': "\<not> block a (length buf) c" if "covers ?ph c" for c using apart [OF nth_mem [OF i] True that] .
    have "load_ok buf ?ph" using assms(1) i True by (simp add: boot_elf_def)
    from copy_one [OF Suc.prems(1) this apart'] obtain m1 where
      m1: "Option.bind (CopyMem (p_vaddr ?ph) (a + p_offset ?ph) (p_filesz ?ph) m) (SetMem (p_vaddr ?ph + p_filesz ?ph) (p_memsz ?ph - p_filesz ?ph) 0) = Some m1"
      and v1: "\<And>c. m1 (unat c) = (if covers ?ph c then seg_byte buf ?ph c else m (unat c))" by blast
    have "in_memory m1 a buf" using in_memory_keep [OF Suc.prems(1)] v1 apart' by metis
    from Suc.IH [OF this, of "Suc i"] Suc.prems(2) obtain m' where m': "load_segments a ?p (Suc i) m1 = Some m'"
      and v': "\<And>c. m' (unat c) = (case elf_image buf (drop (Suc i) (headers buf)) c of Some b \<Rightarrow> b | None \<Rightarrow> m1 (unat c))" by auto
    have "load_segments a ?p i m = Some m'" using more ph True m1 m' by (subst load_segments.simps) (simp add: Let_def)
    with v' v1 True show ?thesis by (auto simp: D split: option.splits)
  qed
qed

section \<open>The range of the segments\<close>

definition widen :: "Elf64_Phdr \<Rightarrow> u64 \<times> u64 \<Rightarrow> u64 \<times> u64" where
  "widen ph r = (if p_type ph \<noteq> PT_LOAD then r else (min (fst r) (p_vaddr ph), max (snd r) (p_vaddr ph + p_memsz ph)))"

lemma load_range_fold:
  assumes "in_memory m a buf" "boot_elf buf" "i + k = length (headers buf)"
  shows "load_range m (a + e_phoff (read_Ehdr buf)) i k r = fold widen (drop i (headers buf)) r"
  using assms(3)
proof (induction k arbitrary: i r)
  case (Suc k)
  then have i: "i < length (headers buf)" by simp
  then have D: "drop i (headers buf) = headers buf ! i # drop (Suc i) (headers buf)" by (rule Cons_nth_drop_Suc [symmetric])
  show ?case
    using Suc.IH [of "Suc i"] Suc.prems phdr_in_memory [OF assms(1,2) i] by (cases r) (simp add: D widen_def Let_def)
qed simp

lemma fold_widen:
  assumes "fold widen phs (f, l) = (first_addr, last_addr)"
  shows "first_addr \<le> f \<and> l \<le> last_addr
    \<and> (\<forall>ph\<in>set phs. p_type ph = PT_LOAD \<longrightarrow> first_addr \<le> p_vaddr ph \<and> p_vaddr ph + p_memsz ph \<le> last_addr)
    \<and> (first_addr = f \<or> (\<exists>ph\<in>set phs. p_type ph = PT_LOAD \<and> first_addr = p_vaddr ph))
    \<and> (last_addr = l \<or> (\<exists>ph\<in>set phs. p_type ph = PT_LOAD \<and> last_addr = p_vaddr ph + p_memsz ph))"
  using assms
proof (induction phs arbitrary: f l)
  case (Cons ph phs)
  obtain f1 l1 where w: "widen ph (f, l) = (f1, l1)" by (cases "widen ph (f, l)")
  with Cons.prems have "fold widen phs (f1, l1) = (first_addr, last_addr)" by simp
  note IH = Cons.IH [OF this]
  show ?case
  proof (cases "p_type ph = PT_LOAD")
    case True
    with w have "f1 = min f (p_vaddr ph)" "l1 = max l (p_vaddr ph + p_memsz ph)" by (simp_all add: widen_def)
    with IH True show ?thesis by (auto simp: min_def max_def split: if_splits)
  next
    case False
    with w IH show ?thesis by (auto simp: widen_def)
  qed
qed simp

lemma range_covers:
  assumes b: "boot_elf buf" and r: "fold widen (headers buf) (- 1, 0) = (first_addr, last_addr)" and c: "elf_image buf (headers buf) c \<noteq> None"
  shows "unat first_addr \<le> unat c \<and> unat c < unat first_addr + 4096 * num_pages first_addr last_addr"
proof -
  from c obtain ph where ph: "ph \<in> set (headers buf)" "p_type ph = PT_LOAD" "covers ph c" using elf_image_covered by blast
  note W = fold_widen [OF r]
  have ok: "load_ok buf ph" using b ph by (simp add: boot_elf_def)
  then have v: "unat (p_vaddr ph + p_memsz ph) = unat (p_vaddr ph) + unat (p_memsz ph)"
    by (simp add: load_ok_def unat_word_ariths(1))
  from W ph have f: "unat first_addr \<le> unat (p_vaddr ph)" and l: "unat (p_vaddr ph + p_memsz ph) \<le> unat last_addr"
    by (auto simp: word_le_nat_alt)
  have lo: "unat first_addr \<le> unat c" using f ph(3) by (simp add: covers_def block_def)
  have hi: "unat c < unat last_addr" using l v ph(3) by (simp add: covers_def block_def)
  have "unat last_addr + 4096 \<le> 2 ^ 64"
  proof -
    from W hi obtain q where q: "q \<in> set (headers buf)" "p_type q = PT_LOAD" "last_addr = p_vaddr q + p_memsz q" by fastforce
    then have "load_ok buf q" using b by (simp add: boot_elf_def)
    then show ?thesis by (simp add: q(3) load_ok_def unat_word_ariths(1))
  qed
  moreover have "unat (last_addr - first_addr) = unat last_addr - unat first_addr"
    using lo hi by (simp add: unat_sub word_le_nat_alt)
  ultimately have "unat (last_addr - first_addr + 0xfff) = unat last_addr - unat first_addr + 4095"
    by (simp add: unat_word_ariths(1))
  then have "num_pages first_addr last_addr = (unat last_addr - unat first_addr + 4095) div 4096"
    by (simp add: num_pages_def unat_div)
  with lo hi show ?thesis by linarith
qed

text \<open>The segments of the file do not meet the file itself, which lies at \<open>a\<close>.\<close>

definition clear_of_file :: "u64 \<Rightarrow> u8 list \<Rightarrow> bool" where
  "clear_of_file a buf \<longleftrightarrow> (\<forall>c. elf_image buf (headers buf) c \<noteq> None \<longrightarrow> \<not> block a (length buf) c)"

lemma covered_elf_image: "ph \<in> set phs \<Longrightarrow> p_type ph = PT_LOAD \<Longrightarrow> covers ph c \<Longrightarrow> elf_image buf phs c \<noteq> None"
  by (induction phs) (auto split: option.splits)

lemma range_attained:
  assumes b: "boot_elf buf" and r: "fold widen (headers buf) (- 1, 0) = (first_addr, last_addr)" and c: "elf_image buf (headers buf) c \<noteq> None"
  shows "\<exists>ph\<in>set (headers buf). p_type ph = PT_LOAD \<and> first_addr = p_vaddr ph"
    and "\<exists>ph\<in>set (headers buf). p_type ph = PT_LOAD \<and> last_addr = p_vaddr ph + p_memsz ph"
proof -
  obtain p where p: "p \<in> set (headers buf)" "p_type p = PT_LOAD" "covers p c" using elf_image_covered c by blast
  have "load_ok buf p" using b p by (simp add: boot_elf_def)
  then have "p_vaddr p \<noteq> - 1" "p_vaddr p + p_memsz p \<noteq> 0"
    using p(3) by (auto simp: load_ok_def covers_def block_def unat_word_ariths(1) unsigned_minus_1_eq_mask mask_eq_exp_minus_1 simp flip: unat_eq_0)
  moreover from fold_widen [OF r] p(1,2) have "first_addr \<le> p_vaddr p" "p_vaddr p + p_memsz p \<le> last_addr" by blast+
  ultimately have "first_addr \<noteq> - 1" "last_addr \<noteq> 0" by (auto simp: word_order.extremum_unique word_le_0_iff)
  with fold_widen [OF r] show "\<exists>ph\<in>set (headers buf). p_type ph = PT_LOAD \<and> first_addr = p_vaddr ph"
    "\<exists>ph\<in>set (headers buf). p_type ph = PT_LOAD \<and> last_addr = p_vaddr ph + p_memsz ph" by blast+
qed

lemma range_in_memory:
  assumes "in_memory m a buf" "boot_elf buf"
  shows "CalcLoadAddressRange m a = fold widen (headers buf) (- 1, 0)"
proof -
  have e: "ehdr_at m a = read_Ehdr buf" using ehdr_in_memory [OF assms(1)] assms(2) by (simp add: boot_elf_def)
  show ?thesis
    using load_range_fold [OF assms, where i = 0 and k = "length (headers buf)" and r = "(- 1, 0)"]
    by (simp add: CalcLoadAddressRange_def phdrs_of_def e) (simp add: headers_def)
qed

lemma copy_in_memory:
  assumes "in_memory m a buf" "boot_elf buf" "clear_of_file a buf"
  shows "\<exists>m'. Boot_CopyLoadSegments a m = Some m'
    \<and> (\<forall>c. m' (unat c) = (case elf_image buf (headers buf) c of Some b \<Rightarrow> b | None \<Rightarrow> m (unat c)))"
proof -
  have e: "ehdr_at m a = read_Ehdr buf" using ehdr_in_memory [OF assms(1)] assms(2) by (simp add: boot_elf_def)
  have "\<not> block a (length buf) c" if "ph \<in> set (headers buf)" "p_type ph = PT_LOAD" "covers ph c" for ph c
    using covered_elf_image [OF that] assms(3) by (simp add: clear_of_file_def)
  then show ?thesis using load_segments_run [OF assms(2) _ assms(1), where i = 0 and k = "length (headers buf)"]
    by (auto simp: Boot_CopyLoadSegments_def phdrs_of_def e)
qed

text \<open>
  C21. The loader puts the kernel where its program headers say: with the file in memory clear of its segments,
  \<open>CopyLoadSegments\<close> ends, every byte of every segment has the value of the file or is zero behind the bytes of
  the file, every other byte of the memory keeps its value, and all segments lie in the pages that are
  allocated for the range \<open>CalcLoadAddressRange\<close> computes, whose bounds are the lowest and the highest of the segments.
\<close>

theorem boot_image_loaded:
  assumes "in_memory m a buf" "boot_elf buf" "clear_of_file a buf" "elf_image buf (headers buf) c0 \<noteq> None"
  shows "\<exists>m' first_addr last_addr. CalcLoadAddressRange m a = (first_addr, last_addr) \<and> Boot_CopyLoadSegments a m = Some m'
    \<and> (\<forall>c. m' (unat c) = (case elf_image buf (headers buf) c of Some b \<Rightarrow> b | None \<Rightarrow> m (unat c)))
    \<and> (\<forall>c. elf_image buf (headers buf) c \<noteq> None
         \<longrightarrow> unat first_addr \<le> unat c \<and> unat c < unat first_addr + 4096 * num_pages first_addr last_addr)
    \<and> (\<exists>ph\<in>set (headers buf). p_type ph = PT_LOAD \<and> first_addr = p_vaddr ph)
    \<and> (\<exists>ph\<in>set (headers buf). p_type ph = PT_LOAD \<and> last_addr = p_vaddr ph + p_memsz ph)"
proof -
  obtain first_addr last_addr where r: "fold widen (headers buf) (- 1, 0) = (first_addr, last_addr)" by fastforce
  with range_in_memory [OF assms(1,2)] have "CalcLoadAddressRange m a = (first_addr, last_addr)" by simp
  then show ?thesis
    using copy_in_memory [OF assms(1-3)] range_covers [OF assms(2) r] range_attained [OF assms(2) r assms(4)] by blast
qed

text \<open>
  A kernel of one segment: the headers and four bytes of code at the image base, 0x100000, and four bytes of data
  behind them that the file does not have.
\<close>

definition sample_kernel_elf :: "u8 list" where
  "sample_kernel_elf =
     [0x7f, 0x45, 0x4c, 0x46, 2, 1, 1, 0, 0, 0, 0, 0, 0, 0, 0, 0, 2, 0, 0x3e, 0, 1, 0, 0, 0,
      120, 0, 0x10, 0, 0, 0, 0, 0, 64, 0, 0, 0, 0, 0, 0, 0, 0, 0, 0, 0, 0, 0, 0, 0,
      0, 0, 0, 0, 64, 0, 56, 0, 1, 0, 0, 0, 0, 0, 0, 0,
      1, 0, 0, 0, 5, 0, 0, 0, 0, 0, 0, 0, 0, 0, 0, 0, 0, 0, 0x10, 0, 0, 0, 0, 0,
      0, 0, 0x10, 0, 0, 0, 0, 0, 124, 0, 0, 0, 0, 0, 0, 0, 128, 0, 0, 0, 0, 0, 0, 0, 0, 0x10, 0, 0, 0, 0, 0, 0,
      0xf4, 0xeb, 0xfd, 0x90]"

lemma sample_kernel_elf_header:
  "length sample_kernel_elf = 124" "e_phoff (read_Ehdr sample_kernel_elf) = 64" "e_phnum (read_Ehdr sample_kernel_elf) = 1"
  "e_entry (read_Ehdr sample_kernel_elf) = 0x100078"
  "read_Phdr sample_kernel_elf 64 = \<lparr>p_type = PT_LOAD, p_flags = 5, p_offset = 0, p_vaddr = 0x100000, p_paddr = 0x100000,
     p_filesz = 124, p_memsz = 128, p_align = 0x1000\<rparr>"
  by code_simp+

lemma sample_kernel_headers: "headers sample_kernel_elf = [read_Phdr sample_kernel_elf 64]"
  by (simp add: headers_def sample_kernel_elf_header(2,3))

lemma sample_kernel_boot_elf: "boot_elf sample_kernel_elf"
  by (simp add: boot_elf_def sample_kernel_headers sample_kernel_elf_header layout load_ok_def)

lemma sample_kernel_image:
  "elf_image sample_kernel_elf (headers sample_kernel_elf) c
     = (if block 0x100000 128 c then Some (if unat c < 0x10007c then sample_kernel_elf ! (unat c - 0x100000) else 0) else None)"
  by (auto simp: sample_kernel_headers sample_kernel_elf_header(5) covers_def seg_byte_def block_def Let_def)

lemma file_in_memory: "unat a + length buf < 2 ^ 64 \<Longrightarrow> in_memory (put_bytes (unat a) buf m) a buf"
  by (simp add: in_memory_def put_bytes_def)

theorem boot_image_loaded_witness:
  "\<exists>m'. Boot_CopyLoadSegments 0x200000 (put_bytes 0x200000 sample_kernel_elf (\<lambda>_. 7)) = Some m'
     \<and> m' 0x100078 = 0xf4 \<and> m' 0x10007c = 0 \<and> m' 0x100080 = 7"
proof -
  let ?m = "put_bytes 0x200000 sample_kernel_elf (\<lambda>_. 7)"
  have mem: "in_memory ?m 0x200000 sample_kernel_elf"
    using file_in_memory [where a = "0x200000" and buf = sample_kernel_elf] by (simp add: sample_kernel_elf_header(1))
  have clear: "clear_of_file 0x200000 sample_kernel_elf"
    by (auto simp: clear_of_file_def sample_kernel_image block_def sample_kernel_elf_header(1))
  have b: "elf_image sample_kernel_elf (headers sample_kernel_elf) 0x100078 = Some 0xf4"
      "elf_image sample_kernel_elf (headers sample_kernel_elf) 0x10007c = Some 0"
      "elf_image sample_kernel_elf (headers sample_kernel_elf) 0x100080 = None"
    by (simp_all add: sample_kernel_image block_def) (simp add: sample_kernel_elf_def)
  then have "elf_image sample_kernel_elf (headers sample_kernel_elf) 0x100078 \<noteq> None" by simp
  from boot_image_loaded [OF mem sample_kernel_boot_elf clear this] obtain m' where
    run: "Boot_CopyLoadSegments 0x200000 ?m = Some m'"
    and v: "\<And>c. m' (unat c) = (case elf_image sample_kernel_elf (headers sample_kernel_elf) c of Some b \<Rightarrow> b | None \<Rightarrow> ?m (unat c))" by blast
  have "?m 0x100080 = 7" by (simp add: put_bytes_def)
  with v [of "0x100078"] v [of "0x10007c"] v [of "0x100080"] b have "m' 0x100078 = 0xf4" "m' 0x10007c = 0" "m' 0x100080 = 7" by simp_all
  with run show ?thesis by blast
qed

end
