(* ===== verification/BootLoader.thy ===== *)
theory BootLoader
  imports BootImage MemoryInit Display
begin

text \<open>
  The UEFI loader, \<^verbatim>\<open>MoxiaLoaderPkg/Main.c\<close>: it saves the memory map in a file, loads the kernel and the volume,
  leaves the boot services and enters the kernel.  The firmware is a parameter: a record of its services over a state of
  its own.  What a service writes through a pointer is part of its answer, and the loader's model stores it in the
  memory; a pointer that a failed service leaves uninitialised is \<open>None\<close>, and its use has no defined result.  The
  calls of \<open>Print\<close> are left out; a branch that prints an error and halts returns it.
\<close>

section \<open>The services of the firmware\<close>

type_synonym EFI_STATUS = u64
type_synonym EFI_HANDLE = u64

definition EFI_SUCCESS :: EFI_STATUS where "EFI_SUCCESS = 0"
definition EFI_BUFFER_TOO_SMALL :: EFI_STATUS where "EFI_BUFFER_TOO_SMALL = 0x8000000000000005"

definition EFI_ERROR :: "EFI_STATUS \<Rightarrow> bool" where
  "EFI_ERROR status \<longleftrightarrow> bit status 63"

datatype EFI_GUID = LoadedImageProtocol | SimpleFileSystemProtocol | GraphicsOutputProtocol | BlockIoProtocol

datatype GopPixelFormat = PixelRedGreenBlueReserved8BitPerColor | PixelBlueGreenRedReserved8BitPerColor
  | PixelBitMask | PixelBltOnly | PixelFormatMax

record GopMode =
  HorizontalResolution :: u32
  VerticalResolution :: u32
  PixelsPerScanLine :: u32
  PixelFormat :: GopPixelFormat
  FrameBufferBase :: u64
  FrameBufferSize :: u64

record BlockMedia =
  MediaId :: u32
  BlockSize :: u32
  LastBlock :: u64

text \<open>The memory map of \<^verbatim>\<open>kernel/memory_map.hpp\<close>, and what \<open>gBS->GetMemoryMap\<close> answers.\<close>

record MemoryMap =
  buffer_size :: u64
  map_buffer :: u64
  map_size :: u64
  map_key :: u64
  descriptor_size :: u64
  descriptor_version :: u32

record MapAnswer =
  ans_status :: EFI_STATUS
  ans_bytes :: "u8 list"
  ans_size :: u64
  ans_key :: u64
  ans_descriptor_size :: u64
  ans_version :: u32

record 'f Firmware =
  bs_GetMemoryMap :: "u64 \<Rightarrow> 'f \<Rightarrow> MapAnswer \<times> 'f"
  bs_AllocatePool :: "u64 \<Rightarrow> 'f \<Rightarrow> (EFI_STATUS \<times> u64) \<times> 'f"
  bs_FreePool :: "u64 \<Rightarrow> 'f \<Rightarrow> EFI_STATUS \<times> 'f"
  bs_AllocatePages :: "nat \<Rightarrow> u64 \<Rightarrow> 'f \<Rightarrow> (EFI_STATUS \<times> u64) \<times> 'f"
  bs_ExitBootServices :: "EFI_HANDLE \<Rightarrow> u64 \<Rightarrow> 'f \<Rightarrow> EFI_STATUS \<times> 'f"
  bs_OpenProtocol :: "EFI_HANDLE \<Rightarrow> EFI_GUID \<Rightarrow> 'f \<Rightarrow> (EFI_STATUS \<times> u64 option) \<times> 'f"
  bs_LocateHandleBuffer :: "EFI_GUID \<Rightarrow> 'f \<Rightarrow> (u64 \<times> EFI_HANDLE list) \<times> 'f"
  lip_DeviceHandle :: "u64 \<Rightarrow> 'f \<Rightarrow> EFI_HANDLE"
  gop_Mode :: "u64 \<Rightarrow> 'f \<Rightarrow> GopMode"
  blk_Media :: "u64 \<Rightarrow> 'f \<Rightarrow> BlockMedia"
  blk_ReadBlocks :: "u64 \<Rightarrow> u32 \<Rightarrow> u64 \<Rightarrow> u64 \<Rightarrow> 'f \<Rightarrow> (EFI_STATUS \<times> u8 list) \<times> 'f"
  fs_OpenVolume :: "u64 \<Rightarrow> 'f \<Rightarrow> u64 option \<times> 'f"
  file_Open :: "u64 \<Rightarrow> string \<Rightarrow> bool \<Rightarrow> 'f \<Rightarrow> (EFI_STATUS \<times> u64 option) \<times> 'f"
  file_Close :: "u64 \<Rightarrow> 'f \<Rightarrow> 'f"
  file_GetInfo :: "u64 \<Rightarrow> u64 \<Rightarrow> 'f \<Rightarrow> (EFI_STATUS \<times> u64) \<times> 'f"
  file_Read :: "u64 \<Rightarrow> u64 \<Rightarrow> 'f \<Rightarrow> (EFI_STATUS \<times> u8 list) \<times> 'f"
  file_Write :: "u64 \<Rightarrow> u8 list \<Rightarrow> 'f \<Rightarrow> 'f"
  AsciiSPrint_line :: "nat \<Rightarrow> u32 \<Rightarrow> string \<Rightarrow> u64 \<Rightarrow> u64 \<Rightarrow> u64 \<Rightarrow> u8 list"

section \<open>Running the loader\<close>

record 'f Loader =
  lmem :: memory
  fws :: 'f

text \<open>The messages before \<open>Halt\<close>.\<close>

datatype LoadError = ReadKernel EFI_STATUS | AllocateKernel EFI_STATUS | FreeBuffer EFI_STATUS | ReadVolume EFI_STATUS
  | OpenBlockIo EFI_STATUS | ReadBlockIo EFI_STATUS | MapForExit EFI_STATUS | ExitServices EFI_STATUS | UnimplementedPixelFormat

type_synonym ('f, 'a) boot = "'f Loader \<Rightarrow> (LoadError + 'a \<times> 'f Loader) option"

definition boot_return :: "'a \<Rightarrow> ('f, 'a) boot" where
  "boot_return x = (\<lambda>s. Some (Inr (x, s)))"

definition boot_halt :: "LoadError \<Rightarrow> ('f, 'a) boot" where
  "boot_halt e = (\<lambda>s. Some (Inl e))"

definition boot_seq :: "('f, 'a) boot \<Rightarrow> ('a \<Rightarrow> ('f, 'b) boot) \<Rightarrow> ('f, 'b) boot" where
  "boot_seq m k = (\<lambda>s. case m s of None \<Rightarrow> None | Some (Inl e) \<Rightarrow> Some (Inl e) | Some (Inr (x, s')) \<Rightarrow> k x s')"

definition boot_if_error :: "EFI_STATUS \<Rightarrow> (EFI_STATUS \<Rightarrow> LoadError) \<Rightarrow> ('f, 'a) boot \<Rightarrow> ('f, 'a) boot" where
  "boot_if_error status e m = (if EFI_ERROR status then boot_halt (e status) else m)"

text \<open>A call of a service, a pointer that must have been set, and a change of the memory.\<close>

definition service :: "('f \<Rightarrow> 'a \<times> 'f) \<Rightarrow> ('f, 'a) boot" where
  "service g = (\<lambda>s. Some (Inr (fst (g (fws s)), s\<lparr>fws := snd (g (fws s))\<rparr>)))"

definition pointer :: "'a option \<Rightarrow> ('f, 'a) boot" where
  "pointer p = (\<lambda>s. map_option (\<lambda>x. Inr (x, s)) p)"

definition on_memory :: "(memory \<Rightarrow> memory option) \<Rightarrow> ('f, unit) boot" where
  "on_memory g = (\<lambda>s. map_option (\<lambda>m. Inr ((), s\<lparr>lmem := m\<rparr>)) (g (lmem s)))"

definition look :: "('f Loader \<Rightarrow> 'a) \<Rightarrow> ('f, 'a) boot" where
  "look g = (\<lambda>s. Some (Inr (g s, s)))"

definition store_bytes :: "u64 \<Rightarrow> u8 list \<Rightarrow> ('f, unit) boot" where
  "store_bytes a bs = on_memory (\<lambda>m. if unat a + length bs \<le> 2 ^ 64 then Some (put_bytes (unat a) bs m) else None)"

section \<open>The memory map\<close>

definition Boot_GetMemoryMap :: "'f Firmware \<Rightarrow> MemoryMap \<Rightarrow> ('f, EFI_STATUS \<times> MemoryMap) boot" where
  "Boot_GetMemoryMap fw mm =
     (if map_buffer mm = 0 then boot_return (EFI_BUFFER_TOO_SMALL, mm)
      else boot_seq (service (bs_GetMemoryMap fw (buffer_size mm))) (\<lambda>a.
           boot_seq (store_bytes (map_buffer mm) (ans_bytes a)) (\<lambda>_.
           boot_return (ans_status a,
             mm\<lparr>map_size := ans_size a, map_key := ans_key a, descriptor_size := ans_descriptor_size a,
                 descriptor_version := ans_version a\<rparr>))))"

text \<open>The enumerators of UEFI have the values of \<open>MemoryType\<close> in \<^verbatim>\<open>kernel/memory_map.hpp\<close>.\<close>

definition memory_type_names :: "string list" where
  "memory_type_names =
     [''EfiReservedMemoryType'', ''EfiLoaderCode'', ''EfiLoaderData'', ''EfiBootServicesCode'', ''EfiBootServicesData'',
      ''EfiRuntimeServicesCode'', ''EfiRuntimeServicesData'', ''EfiConventionalMemory'', ''EfiUnusableMemory'',
      ''EfiACPIReclaimMemory'', ''EfiACPIMemoryNVS'', ''EfiMemoryMappedIO'', ''EfiMemoryMappedIOPortSpace'', ''EfiPalCode'',
      ''EfiPersistentMemory'', ''EfiMaxMemoryType'']"

definition GetMemoryTypeUnicode :: "u32 \<Rightarrow> string" where
  "GetMemoryTypeUnicode ty = (if unat ty < 16 then memory_type_names ! unat ty else ''InvalidMemoryType'')"

definition read_descriptor :: "memory \<Rightarrow> nat \<Rightarrow> MemoryDescriptor" where
  "read_descriptor m a =
     \<lparr>md_type = le32 m a, physical_start = le64 m (a + 8), virtual_start = le64 m (a + 16),
      number_of_pages = le64 m (a + 24), md_attribute = le64 m (a + 32)\<rparr>"

definition map_line :: "'f Firmware \<Rightarrow> nat \<Rightarrow> MemoryDescriptor \<Rightarrow> u8 list" where
  "map_line fw i desc =
     AsciiSPrint_line fw i (md_type desc) (GetMemoryTypeUnicode (md_type desc)) (physical_start desc) (number_of_pages desc)
       (md_attribute desc AND 0xfffff)"

text \<open>The loop of \<open>SaveMemoryMap\<close>; with descriptors of no size it does not end.\<close>

function save_entries :: "'f Firmware \<Rightarrow> u64 \<Rightarrow> memory \<Rightarrow> nat \<Rightarrow> nat \<Rightarrow> nat \<Rightarrow> nat \<Rightarrow> 'f \<Rightarrow> 'f option" where
  "save_entries fw h m d map_end iter i f =
     (if map_end \<le> iter then Some f
      else if d = 0 then None
      else save_entries fw h m d map_end (iter + d) (Suc i) (file_Write fw h (map_line fw i (read_descriptor m iter)) f))"
  by auto

termination by (relation "measure (\<lambda>(fw, h, m, d, map_end, iter, i, f). map_end - iter)") auto

declare save_entries.simps [simp del]

definition map_header :: "u8 list" where
  "map_header = map (of_nat \<circ> of_char) ''Index, Type, Type(name), PhysicalStart, NumberOfPages, Attribute'' @ [10]"

definition SaveMemoryMap :: "'f Firmware \<Rightarrow> MemoryMap \<Rightarrow> u64 \<Rightarrow> ('f, EFI_STATUS) boot" where
  "SaveMemoryMap fw mm h = (\<lambda>s.
     map_option (\<lambda>f. Inr (EFI_SUCCESS, s\<lparr>fws := f\<rparr>))
       (save_entries fw h (lmem s) (unat (descriptor_size mm)) (unat (map_buffer mm) + unat (map_size mm))
          (unat (map_buffer mm)) 0 (file_Write fw h map_header (fws s))))"

section \<open>Files, blocks and the screen\<close>

definition OpenRootDir :: "'f Firmware \<Rightarrow> EFI_HANDLE \<Rightarrow> ('f, u64 option) boot" where
  "OpenRootDir fw image_handle =
     boot_seq (service (bs_OpenProtocol fw image_handle LoadedImageProtocol)) (\<lambda>(_, p).
     boot_seq (pointer p) (\<lambda>loaded_image.
     boot_seq (look (\<lambda>s. lip_DeviceHandle fw loaded_image (fws s))) (\<lambda>device.
     boot_seq (service (bs_OpenProtocol fw device SimpleFileSystemProtocol)) (\<lambda>(_, q).
     boot_seq (pointer q) (\<lambda>fs. service (fs_OpenVolume fw fs))))))"

definition OpenGOP :: "'f Firmware \<Rightarrow> ('f, u64 option) boot" where
  "OpenGOP fw =
     boot_seq (service (bs_LocateHandleBuffer fw GraphicsOutputProtocol)) (\<lambda>(buf, handles).
     boot_seq (pointer (if handles = [] then None else Some (handles ! 0))) (\<lambda>h.
     boot_seq (service (bs_OpenProtocol fw h GraphicsOutputProtocol)) (\<lambda>(_, gop).
     boot_seq (service (bs_FreePool fw buf)) (\<lambda>_. boot_return gop))))"

text \<open>\<open>sizeof(EFI_FILE_INFO) + sizeof(CHAR16) * 12\<close>.\<close>

definition file_info_size :: u64 where "file_info_size = 88 + 2 * 12"

definition Boot_ReadFile :: "'f Firmware \<Rightarrow> u64 \<Rightarrow> ('f, EFI_STATUS \<times> u64) boot" where
  "Boot_ReadFile fw h =
     boot_seq (service (file_GetInfo fw h file_info_size)) (\<lambda>(status, file_size).
       if EFI_ERROR status then boot_return (status, 0)
       else boot_seq (service (bs_AllocatePool fw file_size)) (\<lambda>(status, buf).
         if EFI_ERROR status then boot_return (status, 0)
         else boot_seq (service (file_Read fw h file_size)) (\<lambda>(status, bs).
           boot_seq (store_bytes buf bs) (\<lambda>_. boot_return (status, buf)))))"

definition OpenBlockIoProtocolForLoadedImage :: "'f Firmware \<Rightarrow> EFI_HANDLE \<Rightarrow> ('f, EFI_STATUS \<times> u64 option) boot" where
  "OpenBlockIoProtocolForLoadedImage fw image_handle =
     boot_seq (service (bs_OpenProtocol fw image_handle LoadedImageProtocol)) (\<lambda>(status, p).
       if EFI_ERROR status then boot_return (status, None)
       else boot_seq (pointer p) (\<lambda>loaded_image.
            boot_seq (look (\<lambda>s. lip_DeviceHandle fw loaded_image (fws s))) (\<lambda>device.
            service (bs_OpenProtocol fw device BlockIoProtocol))))"

definition Boot_ReadBlocks :: "'f Firmware \<Rightarrow> u64 \<Rightarrow> u32 \<Rightarrow> u64 \<Rightarrow> ('f, EFI_STATUS \<times> u64) boot" where
  "Boot_ReadBlocks fw block_io media_id read_bytes =
     boot_seq (service (bs_AllocatePool fw read_bytes)) (\<lambda>(status, buf).
       if EFI_ERROR status then boot_return (status, 0)
       else boot_seq (service (blk_ReadBlocks fw block_io media_id 0 read_bytes)) (\<lambda>(status, bs).
         boot_seq (store_bytes buf bs) (\<lambda>_. boot_return (status, buf))))"

section \<open>The main function\<close>

text \<open>\<open>UefiMain\<close> up to the file of the memory map; \<open>memmap_buf\<close> is the address of its buffer on the stack.\<close>

definition SaveMap :: "'f Firmware \<Rightarrow> EFI_HANDLE \<Rightarrow> u64 \<Rightarrow> ('f, MemoryMap \<times> u64) boot" where
  "SaveMap fw image_handle memmap_buf =
     boot_seq (Boot_GetMemoryMap fw \<lparr>buffer_size = 4096 * 4, map_buffer = memmap_buf, map_size = 0, map_key = 0,
                 descriptor_size = 0, descriptor_version = 0\<rparr>) (\<lambda>(_, memmap).
     boot_seq (OpenRootDir fw image_handle) (\<lambda>p.
     boot_seq (pointer p) (\<lambda>root_dir.
     boot_seq (service (file_Open fw root_dir (CHR 0x5C # ''memmap'') True)) (\<lambda>(_, q).
     boot_seq (pointer q) (\<lambda>memmap_file.
     boot_seq (SaveMemoryMap fw memmap memmap_file) (\<lambda>_.
     boot_seq (service (\<lambda>f. ((), file_Close fw memmap_file f))) (\<lambda>_.
     boot_return (memmap, root_dir))))))))"

text \<open>The kernel: its result is \<open>kernel_first_addr\<close>.\<close>

definition LoadKernel :: "'f Firmware \<Rightarrow> u64 \<Rightarrow> ('f, u64) boot" where
  "LoadKernel fw root_dir =
     boot_seq (service (file_Open fw root_dir (CHR 0x5C # ''kernel.elf'') False)) (\<lambda>(_, p).
     boot_seq (pointer p) (\<lambda>kernel_file.
     boot_seq (Boot_ReadFile fw kernel_file) (\<lambda>(status, kernel_buffer).
     boot_if_error status ReadKernel (
     boot_seq (look (\<lambda>s. CalcLoadAddressRange (lmem s) kernel_buffer)) (\<lambda>(first_addr, last_addr).
     boot_seq (service (bs_AllocatePages fw (num_pages first_addr last_addr) first_addr)) (\<lambda>(status, kernel_first_addr).
     boot_if_error status AllocateKernel (
     boot_seq (on_memory (Boot_CopyLoadSegments kernel_buffer)) (\<lambda>_.
     boot_seq (service (bs_FreePool fw kernel_buffer)) (\<lambda>status.
     boot_if_error status FreeBuffer (boot_return kernel_first_addr))))))))))"

definition volume_bytes :: "BlockMedia \<Rightarrow> u64" where
  "volume_bytes media = min (ucast (BlockSize media) * (LastBlock media + 1)) (16 * 1024 * 1024)"

definition LoadVolume :: "'f Firmware \<Rightarrow> EFI_HANDLE \<Rightarrow> u64 \<Rightarrow> ('f, u64) boot" where
  "LoadVolume fw image_handle root_dir =
     boot_seq (service (file_Open fw root_dir (CHR 0x5C # ''fat_disk'') False)) (\<lambda>(status, p).
       if status = EFI_SUCCESS
       then boot_seq (pointer p) (\<lambda>volume_file.
            boot_seq (Boot_ReadFile fw volume_file) (\<lambda>(status, volume_image).
            boot_if_error status ReadVolume (boot_return volume_image)))
       else boot_seq (OpenBlockIoProtocolForLoadedImage fw image_handle) (\<lambda>(status, q).
            boot_if_error status OpenBlockIo (
            boot_seq (pointer q) (\<lambda>block_io.
            boot_seq (look (\<lambda>s. blk_Media fw block_io (fws s))) (\<lambda>media.
            boot_seq (Boot_ReadBlocks fw block_io (MediaId media) (volume_bytes media)) (\<lambda>(status, volume_image).
            boot_if_error status ReadBlockIo (boot_return volume_image)))))))"

definition LeaveBootServices :: "'f Firmware \<Rightarrow> EFI_HANDLE \<Rightarrow> MemoryMap \<Rightarrow> ('f, MemoryMap) boot" where
  "LeaveBootServices fw image_handle memmap =
     boot_seq (service (bs_ExitBootServices fw image_handle (map_key memmap))) (\<lambda>status.
       if \<not> EFI_ERROR status then boot_return memmap
       else boot_seq (Boot_GetMemoryMap fw memmap) (\<lambda>(status, memmap).
            boot_if_error status MapForExit (
            boot_seq (service (bs_ExitBootServices fw image_handle (map_key memmap))) (\<lambda>status.
            boot_if_error status ExitServices (boot_return memmap)))))"

definition FrameBufferConfigOf :: "GopMode \<Rightarrow> ('f, FrameBufferConfig) boot" where
  "FrameBufferConfigOf mode =
     (let config = (\<lambda>fmt. \<lparr>pixels_per_scan_line = PixelsPerScanLine mode, horizontal_resolution = HorizontalResolution mode,
                           vertical_resolution = VerticalResolution mode, pixel_format = fmt\<rparr>)
      in case PixelFormat mode of
           PixelRedGreenBlueReserved8BitPerColor \<Rightarrow> boot_return (config kPixelRGBResv8BitPerColor)
         | PixelBlueGreenRedReserved8BitPerColor \<Rightarrow> boot_return (config kPixelBGRResv8BitPerColor)
         | _ \<Rightarrow> boot_halt UnimplementedPixelFormat)"

text \<open>What the kernel is entered with: the entry point, the frame buffer and its configuration, the map, the volume.\<close>

record Handover =
  entry_addr :: u64
  frame_buffer :: u64
  hand_config :: FrameBufferConfig
  hand_map :: MemoryMap
  volume_image :: u64

definition UefiMain :: "'f Firmware \<Rightarrow> EFI_HANDLE \<Rightarrow> u64 \<Rightarrow> ('f, Handover) boot" where
  "UefiMain fw image_handle memmap_buf =
     boot_seq (SaveMap fw image_handle memmap_buf) (\<lambda>(memmap, root_dir).
     boot_seq (OpenGOP fw) (\<lambda>p.
     boot_seq (pointer p) (\<lambda>gop.
     boot_seq (LoadKernel fw root_dir) (\<lambda>kernel_first_addr.
     boot_seq (LoadVolume fw image_handle root_dir) (\<lambda>volume.
     boot_seq (LeaveBootServices fw image_handle memmap) (\<lambda>memmap.
     boot_seq (look (\<lambda>s. gop_Mode fw gop (fws s))) (\<lambda>mode.
     boot_seq (FrameBufferConfigOf mode) (\<lambda>config.
     boot_seq (on_memory (SetMem (FrameBufferBase mode) (FrameBufferSize mode) 0)) (\<lambda>_.
     boot_seq (look (\<lambda>s. le64 (lmem s) (unat (kernel_first_addr + 24)))) (\<lambda>addr.
     boot_return \<lparr>entry_addr = addr, frame_buffer = FrameBufferBase mode, hand_config = config, hand_map = memmap,
                  volume_image = volume\<rparr>))))))))))"

end
