(* ===== verification/BootRun.thy ===== *)
theory BootRun
  imports BootLoader
begin

text \<open>
  What the loader relies on of the firmware, stated as laws over an abstract view of its states, and the run of
  \<open>UefiMain\<close> on a firmware that obeys them: the kernel is entered at its entry point with its segments, the volume and the
  current memory map in memory.
\<close>

section \<open>What UEFI promises\<close>

record 'f Machine =
  up :: "'f \<Rightarrow> bool"
  key_now :: "'f \<Rightarrow> u64"
  map_now :: "'f \<Rightarrow> u8 list"
  open_at :: "'f \<Rightarrow> u64 \<Rightarrow> u8 list \<Rightarrow> bool"
  pool_block :: "'f \<Rightarrow> u64 \<Rightarrow> bool"
  pages_free :: "'f \<Rightarrow> u64 set"
  root_handle :: u64
  device :: EFI_HANDLE
  gop_pointer :: u64
  root_files :: "string \<Rightarrow> u8 list option"
  screen_mode :: GopMode
  disk_media :: BlockMedia
  disk_bytes :: "u8 list"
  pool_area :: "u64 set"
  pool_limit :: nat

text \<open>
  The states in which the boot services work, what they keep: the memory free for pages (\<open>live\<close>), the pool blocks, and the
  files that are open at their beginning.
\<close>

definition live :: "'f Machine \<Rightarrow> 'f \<Rightarrow> 'f \<Rightarrow> bool" where
  "live M f f' \<longleftrightarrow> up M f' \<and> pages_free M f \<subseteq> pages_free M f'"

definition keeps :: "'f Machine \<Rightarrow> 'f \<Rightarrow> 'f \<Rightarrow> bool" where
  "keeps M f f' \<longleftrightarrow> live M f f' \<and> (\<forall>a. pool_block M f a \<longrightarrow> pool_block M f' a) \<and> (\<forall>h bs. open_at M f h bs \<longrightarrow> open_at M f' h bs)"

text \<open>\<open>GetMemoryMap\<close> answers the current map and its key; two states with the same key have the same map.\<close>

definition map_law :: "'f Firmware \<Rightarrow> 'f Machine \<Rightarrow> bool" where
  "map_law fw M \<longleftrightarrow>
     (\<forall>f. up M f \<longrightarrow> (case bs_GetMemoryMap fw 16384 f of (a, f') \<Rightarrow>
        keeps M f f' \<and> ans_status a = EFI_SUCCESS \<and> ans_bytes a = map_now M f' \<and> ans_key a = key_now M f'
        \<and> unat (ans_size a) = length (map_now M f') \<and> length (map_now M f') \<le> 16384 \<and> ans_descriptor_size a \<noteq> 0))
     \<and> (\<forall>f f'. up M f \<and> up M f' \<and> key_now M f = key_now M f' \<longrightarrow> map_now M f = map_now M f')"

text \<open>\<open>ExitBootServices\<close> succeeds with the current key and fails with another.\<close>

definition exit_law :: "'f Firmware \<Rightarrow> EFI_HANDLE \<Rightarrow> 'f Machine \<Rightarrow> bool" where
  "exit_law fw img M \<longleftrightarrow>
     (\<forall>f k. up M f \<longrightarrow> (case bs_ExitBootServices fw img k f of (status, f') \<Rightarrow>
        if k = key_now M f then \<not> EFI_ERROR status else EFI_ERROR status \<and> up M f'))"

text \<open>A pool allocation within the limit succeeds in the pool; what it gave can be freed; free pages can be allocated.\<close>

definition pool_law :: "'f Firmware \<Rightarrow> 'f Machine \<Rightarrow> bool" where
  "pool_law fw M \<longleftrightarrow>
     (\<forall>f n. up M f \<and> unat n \<le> pool_limit M \<longrightarrow> (case bs_AllocatePool fw n f of ((status, a), f') \<Rightarrow>
        keeps M f f' \<and> status = EFI_SUCCESS \<and> pool_block M f' a \<and> unat a + unat n < 2 ^ 64 \<and> Collect (block a (unat n)) \<subseteq> pool_area M))
     \<and> (\<forall>f a. up M f \<and> pool_block M f a \<longrightarrow> (case bs_FreePool fw a f of (status, f') \<Rightarrow> live M f f' \<and> status = EFI_SUCCESS))
     \<and> (\<forall>f k a. up M f \<and> 4096 dvd unat a \<and> Collect (block a (4096 * k)) \<subseteq> pages_free M f
          \<longrightarrow> (case bs_AllocatePages fw k a f of ((status, b), f') \<Rightarrow>
                 up M f' \<and> (\<forall>p. pool_block M f p \<longrightarrow> pool_block M f' p) \<and> status = EFI_SUCCESS \<and> b = a))"

text \<open>Files: opening one that exists, or one that is created, succeeds; reading one from its beginning yields its bytes.\<close>

definition file_law :: "'f Firmware \<Rightarrow> 'f Machine \<Rightarrow> bool" where
  "file_law fw M \<longleftrightarrow>
     (\<forall>f p w. up M f \<longrightarrow> (case file_Open fw (root_handle M) p w f of ((status, h), f') \<Rightarrow> keeps M f f' \<and>
        (case root_files M p of Some bs \<Rightarrow> status = EFI_SUCCESS \<and> (\<exists>x. h = Some x \<and> open_at M f' x bs)
                             | None \<Rightarrow> if w then \<exists>x. h = Some x else EFI_ERROR status)))
     \<and> (\<forall>f h bs. up M f \<and> open_at M f h bs \<longrightarrow> (case file_GetInfo fw h file_info_size f of ((status, n), f') \<Rightarrow>
        keeps M f f' \<and> status = EFI_SUCCESS \<and> unat n = length bs))
     \<and> (\<forall>f h n bs. up M f \<and> open_at M f h bs \<and> unat n = length bs \<longrightarrow> (case file_Read fw h n f of ((status, r), f') \<Rightarrow>
        live M f f' \<and> (\<forall>p. pool_block M f p \<longrightarrow> pool_block M f' p) \<and> status = EFI_SUCCESS \<and> r = bs))
     \<and> (\<forall>f h bs. up M f \<longrightarrow> live M f (file_Write fw h bs f)) \<and> (\<forall>f h. up M f \<longrightarrow> live M f (file_Close fw h f))"

text \<open>The protocols of the loaded image, of its device and of the screen.\<close>

definition protocol_law :: "'f Firmware \<Rightarrow> EFI_HANDLE \<Rightarrow> 'f Machine \<Rightarrow> bool" where
  "protocol_law fw img M \<longleftrightarrow>
     (\<forall>f. up M f \<longrightarrow> (case bs_OpenProtocol fw img LoadedImageProtocol f of ((status, p), f') \<Rightarrow>
        keeps M f f' \<and> status = EFI_SUCCESS \<and> (\<exists>li. p = Some li \<and> (\<forall>g. lip_DeviceHandle fw li g = device M))))
     \<and> (\<forall>f. up M f \<longrightarrow> (case bs_OpenProtocol fw (device M) SimpleFileSystemProtocol f of ((status, p), f') \<Rightarrow>
        keeps M f f' \<and> (\<exists>fs. p = Some fs
        \<and> (\<forall>g. up M g \<longrightarrow> (case fs_OpenVolume fw fs g of (r, g') \<Rightarrow> keeps M g g' \<and> r = Some (root_handle M))))))
     \<and> (\<forall>f. up M f \<longrightarrow> (case bs_LocateHandleBuffer fw GraphicsOutputProtocol f of ((buf, hs), f') \<Rightarrow>
        keeps M f f' \<and> pool_block M f' buf \<and> hs \<noteq> []
        \<and> (\<forall>g. up M g \<longrightarrow> (case bs_OpenProtocol fw (hs ! 0) GraphicsOutputProtocol g of ((status, p), g') \<Rightarrow>
              keeps M g g' \<and> p = Some (gop_pointer M)))))
     \<and> (\<forall>f. gop_Mode fw (gop_pointer M) f = screen_mode M)"

text \<open>The device of the loaded image as a block device: whole blocks that it has can be read.\<close>

definition block_law :: "'f Firmware \<Rightarrow> 'f Machine \<Rightarrow> bool" where
  "block_law fw M \<longleftrightarrow>
     (\<forall>f. up M f \<longrightarrow> (case bs_OpenProtocol fw (device M) BlockIoProtocol f of ((status, p), f') \<Rightarrow>
        keeps M f f' \<and> status = EFI_SUCCESS \<and> (\<exists>b. p = Some b \<and> (\<forall>g. blk_Media fw b g = disk_media M)
        \<and> (\<forall>g n. up M g \<and> unat n \<le> length (disk_bytes M) \<and> unat (BlockSize (disk_media M)) dvd unat n \<longrightarrow>
             (case blk_ReadBlocks fw b (MediaId (disk_media M)) 0 n g of ((status, bs), g') \<Rightarrow>
                keeps M g g' \<and> status = EFI_SUCCESS \<and> bs = take (unat n) (disk_bytes M))))))"

section \<open>Runs that do not halt\<close>

definition boots :: "('f, 'a) boot \<Rightarrow> 'f Loader \<Rightarrow> ('a \<Rightarrow> 'f Loader \<Rightarrow> bool) \<Rightarrow> bool" where
  "boots m s Q \<longleftrightarrow> (\<exists>x s'. m s = Some (Inr (x, s')) \<and> Q x s')"

named_theorems boot_steps

lemma boots_seq [boot_steps]: "boots (boot_seq m k) s Q \<longleftrightarrow> boots m s (\<lambda>x s'. boots (k x) s' Q)"
  by (auto simp: boots_def boot_seq_def split: option.splits sum.splits)

lemma boots_return [boot_steps]: "boots (boot_return x) s Q \<longleftrightarrow> Q x s"
  by (simp add: boots_def boot_return_def)

lemma boots_service [boot_steps]: "boots (service g) s Q \<longleftrightarrow> (case g (fws s) of (x, f') \<Rightarrow> Q x (s\<lparr>fws := f'\<rparr>))"
  by (simp add: boots_def service_def split: prod.splits)

lemma boots_pointer [boot_steps]: "boots (pointer p) s Q \<longleftrightarrow> p \<noteq> None \<and> Q (the p) s"
  by (cases p) (simp_all add: boots_def pointer_def)

lemma boots_look [boot_steps]: "boots (look g) s Q \<longleftrightarrow> Q (g s) s"
  by (simp add: boots_def look_def)

lemma boots_on_memory: "boots (on_memory g) s Q \<longleftrightarrow> (\<exists>m. g (lmem s) = Some m \<and> Q () (s\<lparr>lmem := m\<rparr>))"
  by (auto simp: boots_def on_memory_def)

lemma boots_if_error [boot_steps]: "boots (boot_if_error status e m) s Q \<longleftrightarrow> \<not> EFI_ERROR status \<and> boots m s Q"
  by (simp add: boots_def boot_if_error_def boot_halt_def)

lemma boots_store [boot_steps]:
  "boots (store_bytes a bs) s Q \<longleftrightarrow> unat a + length bs \<le> 2 ^ 64 \<and> Q () (s\<lparr>lmem := put_bytes (unat a) bs (lmem s)\<rparr>)"
  by (simp add: store_bytes_def boots_on_memory)

lemma boots_mono: "boots m s R \<Longrightarrow> (\<And>x s'. R x s' \<Longrightarrow> Q x s') \<Longrightarrow> boots m s Q"
  by (auto simp: boots_def)

lemma success_no_error [simp]: "\<not> EFI_ERROR EFI_SUCCESS"
  by (simp add: EFI_ERROR_def EFI_SUCCESS_def)

lemma case_prod_law: "(case x of (a, b) \<Rightarrow> P a b) \<Longrightarrow> (\<And>a b. P a b \<Longrightarrow> Q a b) \<Longrightarrow> (case x of (a, b) \<Rightarrow> Q a b)"
  by (cases x) simp

lemma keepsD: "keeps M f f' \<Longrightarrow> live M f f'" "keeps M f f' \<Longrightarrow> up M f'"
    "keeps M f f' \<Longrightarrow> pool_block M f a \<Longrightarrow> pool_block M f' a" "keeps M f f' \<Longrightarrow> open_at M f h bs \<Longrightarrow> open_at M f' h bs"
  by (simp_all add: keeps_def live_def)

lemma liveD: "live M f f' \<Longrightarrow> up M f'" by (simp add: live_def)

lemma live_trans: "live M f f' \<Longrightarrow> live M f' f'' \<Longrightarrow> live M f f''"
  by (auto simp: live_def)

section \<open>Memory\<close>

text \<open>The addresses that a step may change.\<close>

definition changes_only :: "u64 set \<Rightarrow> memory \<Rightarrow> memory \<Rightarrow> bool" where
  "changes_only A m m' \<longleftrightarrow> (\<forall>c. c \<notin> A \<longrightarrow> m' (unat c) = m (unat c))"

lemma changes_only_refl [simp]: "changes_only A m m"
  by (simp add: changes_only_def)

lemma changes_only_trans: "changes_only A m m' \<Longrightarrow> changes_only B m' m'' \<Longrightarrow> changes_only (A \<union> B) m m''"
  by (simp add: changes_only_def)

lemma changes_only_sub: "changes_only A m m' \<Longrightarrow> A \<subseteq> B \<Longrightarrow> changes_only B m m'"
  by (auto simp: changes_only_def)

lemma put_bytes_changes: "changes_only (Collect (block a (length bs))) m (put_bytes (unat a) bs m)"
  by (auto simp: changes_only_def block_def put_bytes_def)

lemma in_memory_changes:
  assumes "in_memory m a buf" "changes_only A m m'" "A \<inter> Collect (block a (length buf)) = {}"
  shows "in_memory m' a buf"
  by (rule in_memory_keep [OF assms(1)]) (use assms(2,3) in \<open>auto simp: changes_only_def\<close>)

section \<open>The map\<close>

text \<open>The map that the loader holds is the firmware's at a state with its key.\<close>

definition map_held :: "'f Machine \<Rightarrow> u64 \<Rightarrow> MemoryMap \<Rightarrow> memory \<Rightarrow> bool" where
  "map_held M buf mm m \<longleftrightarrow> buffer_size mm = 16384 \<and> map_buffer mm = buf
     \<and> (\<exists>f. up M f \<and> key_now M f = map_key mm \<and> unat (map_size mm) = length (map_now M f) \<and> length (map_now M f) \<le> 16384
          \<and> in_memory m buf (map_now M f))"

lemma GetMemoryMap_run:
  assumes law: "map_law fw M" and up: "up M (fws s)" and mm: "buffer_size mm = 16384" "map_buffer mm = buf" "buf \<noteq> 0" "unat buf + 16384 < 2 ^ 64"
  shows "boots (Boot_GetMemoryMap fw mm) s (\<lambda>(status, mm') s'. status = EFI_SUCCESS \<and> keeps M (fws s) (fws s')
    \<and> map_key mm' = key_now M (fws s') \<and> map_held M buf mm' (lmem s') \<and> descriptor_size mm' \<noteq> 0
    \<and> changes_only (Collect (block buf 16384)) (lmem s) (lmem s'))"
proof -
  obtain a f' where a: "bs_GetMemoryMap fw 16384 (fws s) = (a, f')" by fastforce
  with law up have L: "keeps M (fws s) f'" "ans_status a = EFI_SUCCESS" "ans_bytes a = map_now M f'" "ans_key a = key_now M f'"
      "unat (ans_size a) = length (map_now M f')" "length (map_now M f') \<le> 16384" "ans_descriptor_size a \<noteq> 0"
    by (fastforce simp: map_law_def)+
  have sub: "Collect (block buf (length (map_now M f'))) \<subseteq> Collect (block buf 16384)" using L(6) by (auto simp: block_def)
  have "in_memory (put_bytes (unat buf) (map_now M f') (lmem s)) buf (map_now M f')"
    using L(6) mm(4) by (intro file_in_memory) simp
  then show ?thesis
    using L a mm changes_only_sub [OF put_bytes_changes sub] keepsD(2) [OF L(1)]
    by (auto simp: Boot_GetMemoryMap_def boot_steps map_held_def)
qed

lemma save_entries_run:
  assumes "file_law fw M" "up M f" "d \<noteq> 0"
  shows "\<exists>f'. save_entries fw h m d map_end iter i f = Some f' \<and> live M f f'"
  using assms
proof (induction fw h m d map_end iter i f rule: save_entries.induct)
  case (1 fw h m d map_end iter i f)
  show ?case
  proof (cases "map_end \<le> iter")
    case True
    then show ?thesis using 1(3) by (subst save_entries.simps) (simp add: live_def)
  next
    case False
    let ?f = "file_Write fw h (map_line fw i (read_descriptor m iter)) f"
    have w: "live M f ?f" using 1(2,3) by (simp add: file_law_def)
    from 1(1) [OF False 1(4) 1(2) liveD [OF w] 1(4)] live_trans [OF w] show ?thesis
      using False 1(4) by (subst save_entries.simps) auto
  qed
qed

lemma SaveMemoryMap_run:
  assumes law: "file_law fw M" and up: "up M (fws s)" and d: "descriptor_size mm \<noteq> 0"
  shows "boots (SaveMemoryMap fw mm h) s (\<lambda>_ s'. live M (fws s) (fws s') \<and> lmem s' = lmem s)"
proof -
  let ?f = "file_Write fw h map_header (fws s)"
  have w: "live M (fws s) ?f" using law up by (simp add: file_law_def)
  have "unat (descriptor_size mm) \<noteq> 0" using d by (simp add: unat_eq_0)
  from save_entries_run [OF law liveD [OF w] this, of h "lmem s" "unat (map_buffer mm) + unat (map_size mm)" "unat (map_buffer mm)" 0]
    live_trans [OF w] show ?thesis by (auto simp: boots_def SaveMemoryMap_def)
qed

section \<open>The steps\<close>

lemma keeps_trans: "keeps M f f' \<Longrightarrow> keeps M f' f'' \<Longrightarrow> keeps M f f''"
  by (auto simp: keeps_def intro: live_trans)

lemma boots_pair: "boots m s (\<lambda>(x, y). R x y) \<Longrightarrow> \<exists>x y s'. m s = Some (Inr ((x, y), s')) \<and> R x y s'"
  by (auto simp: boots_def)

lemma boots_one: "boots m s R \<Longrightarrow> \<exists>x s'. m s = Some (Inr (x, s')) \<and> R x s'"
  by (simp add: boots_def)

lemmas boot_defs = boots_def boot_seq_def pointer_def look_def boot_return_def boot_if_error_def

text \<open>The laws as runs of the single calls.\<close>

lemma protocol_runs:
  assumes "protocol_law fw img M" "up M (fws s)"
  shows "boots (service (bs_OpenProtocol fw img LoadedImageProtocol)) s (\<lambda>(status, p) s'. keeps M (fws s) (fws s') \<and> lmem s' = lmem s
      \<and> status = EFI_SUCCESS \<and> (\<exists>li. p = Some li \<and> (\<forall>g. lip_DeviceHandle fw li g = device M)))"
    and "boots (service (bs_OpenProtocol fw (device M) SimpleFileSystemProtocol)) s (\<lambda>(status, p) s'. keeps M (fws s) (fws s')
      \<and> lmem s' = lmem s \<and> (\<exists>fs. p = Some fs \<and> (\<forall>s. up M (fws s) \<longrightarrow> boots (service (fs_OpenVolume fw fs)) s
           (\<lambda>r s'. keeps M (fws s) (fws s') \<and> lmem s' = lmem s \<and> r = Some (root_handle M)))))"
    and "boots (service (bs_LocateHandleBuffer fw GraphicsOutputProtocol)) s (\<lambda>(buf, hs) s'. keeps M (fws s) (fws s') \<and> lmem s' = lmem s
      \<and> pool_block M (fws s') buf \<and> hs \<noteq> [] \<and> (\<forall>s. up M (fws s) \<longrightarrow> boots (service (bs_OpenProtocol fw (hs ! 0) GraphicsOutputProtocol)) s
           (\<lambda>(status, p) s'. keeps M (fws s) (fws s') \<and> lmem s' = lmem s \<and> p = Some (gop_pointer M))))"
  using assms by (simp_all add: protocol_law_def boots_service case_prod_beta) blast

lemma block_runs:
  assumes law: "block_law fw M" and up: "up M (fws s)"
  shows "boots (service (bs_OpenProtocol fw (device M) BlockIoProtocol)) s (\<lambda>(status, p) s'. keeps M (fws s) (fws s') \<and> lmem s' = lmem s
      \<and> status = EFI_SUCCESS \<and> (\<exists>b. p = Some b \<and> (\<forall>g. blk_Media fw b g = disk_media M)
      \<and> (\<forall>s n. up M (fws s) \<and> unat n \<le> length (disk_bytes M) \<and> unat (BlockSize (disk_media M)) dvd unat n \<longrightarrow>
           boots (service (blk_ReadBlocks fw b (MediaId (disk_media M)) 0 n)) s
             (\<lambda>(status, bs) s'. keeps M (fws s) (fws s') \<and> lmem s' = lmem s \<and> status = EFI_SUCCESS \<and> bs = take (unat n) (disk_bytes M)))))"
proof -
  obtain st p f' where o: "bs_OpenProtocol fw (device M) BlockIoProtocol (fws s) = ((st, p), f')" by (metis prod.exhaust)
  from law [unfolded block_law_def, THEN spec, THEN mp, OF up] obtain b where
    b: "keeps M (fws s) f'" "st = EFI_SUCCESS" "p = Some b" "\<And>g. blk_Media fw b g = disk_media M"
    and r: "\<And>g n. up M g \<and> unat n \<le> length (disk_bytes M) \<and> unat (BlockSize (disk_media M)) dvd unat n \<Longrightarrow>
        (case blk_ReadBlocks fw b (MediaId (disk_media M)) 0 n g of ((status, bs), g') \<Rightarrow>
           keeps M g g' \<and> status = EFI_SUCCESS \<and> bs = take (unat n) (disk_bytes M))" unfolding o by auto
  show ?thesis using b r by (simp add: boots_service o case_prod_beta)
qed

lemma pool_runs:
  assumes "pool_law fw M" "up M (fws s)"
  shows "unat n \<le> pool_limit M \<Longrightarrow> boots (service (bs_AllocatePool fw n)) s (\<lambda>(status, a) s'. keeps M (fws s) (fws s') \<and> lmem s' = lmem s
      \<and> status = EFI_SUCCESS \<and> pool_block M (fws s') a \<and> unat a + unat n < 2 ^ 64 \<and> Collect (block a (unat n)) \<subseteq> pool_area M)"
    and "pool_block M (fws s) a \<Longrightarrow> boots (service (bs_FreePool fw a)) s (\<lambda>status s'. live M (fws s) (fws s') \<and> lmem s' = lmem s \<and> status = EFI_SUCCESS)"
    and "4096 dvd unat a \<Longrightarrow> Collect (block a (4096 * k)) \<subseteq> pages_free M (fws s) \<Longrightarrow>
      boots (service (bs_AllocatePages fw k a)) s (\<lambda>(status, b) s'. up M (fws s') \<and> lmem s' = lmem s
        \<and> (\<forall>p. pool_block M (fws s) p \<longrightarrow> pool_block M (fws s') p) \<and> status = EFI_SUCCESS \<and> b = a)"
  using assms by (simp_all add: pool_law_def boots_service case_prod_beta)

lemma file_Open_run:
  assumes "file_law fw M" "up M (fws s)"
  shows "boots (service (file_Open fw (root_handle M) p w)) s (\<lambda>(status, h) s'. keeps M (fws s) (fws s') \<and> lmem s' = lmem s \<and>
      (case root_files M p of Some bs \<Rightarrow> status = EFI_SUCCESS \<and> (\<exists>x. h = Some x \<and> open_at M (fws s') x bs)
                            | None \<Rightarrow> if w then \<exists>x. h = Some x else EFI_ERROR status))"
proof -
  note law = assms(1) [unfolded file_law_def, THEN conjunct1, THEN spec, THEN spec, THEN spec, THEN mp, OF assms(2)]
  from law [of w p] show ?thesis by (cases "root_files M p"; cases w) (simp_all add: boots_service case_prod_beta)
qed

lemma file_runs:
  assumes "file_law fw M" "up M (fws s)"
  shows "open_at M (fws s) h bs \<Longrightarrow> boots (service (file_GetInfo fw h file_info_size)) s (\<lambda>(status, n) s'. keeps M (fws s) (fws s') \<and> lmem s' = lmem s
      \<and> status = EFI_SUCCESS \<and> unat n = length bs)"
    and "open_at M (fws s) h bs \<Longrightarrow> unat n = length bs \<Longrightarrow> boots (service (file_Read fw h n)) s (\<lambda>(status, r) s'. live M (fws s) (fws s')
      \<and> lmem s' = lmem s \<and> (\<forall>p. pool_block M (fws s) p \<longrightarrow> pool_block M (fws s') p) \<and> status = EFI_SUCCESS \<and> r = bs)"
    and "boots (service (\<lambda>f. ((), file_Close fw h f))) s (\<lambda>_ s'. live M (fws s) (fws s') \<and> lmem s' = lmem s)"
  using assms by (simp_all add: file_law_def boots_service case_prod_beta)

lemma OpenRootDir_run:
  assumes law: "protocol_law fw img M" and up: "up M (fws s)"
  shows "boots (OpenRootDir fw img) s (\<lambda>p s'. p = Some (root_handle M) \<and> keeps M (fws s) (fws s') \<and> lmem s' = lmem s)"
proof -
  from boots_pair [OF protocol_runs(1) [OF law up]] obtain st li s1 where
    1: "service (bs_OpenProtocol fw img LoadedImageProtocol) s = Some (Inr ((st, Some li), s1))" "keeps M (fws s) (fws s1)" "lmem s1 = lmem s"
      "\<And>g. lip_DeviceHandle fw li g = device M" by blast
  from boots_pair [OF protocol_runs(2) [OF law keepsD(2) [OF 1(2)]]] obtain st2 fs s2 where
    2: "service (bs_OpenProtocol fw (device M) SimpleFileSystemProtocol) s1 = Some (Inr ((st2, Some fs), s2))" "keeps M (fws s1) (fws s2)"
      "lmem s2 = lmem s1" and vol: "\<And>s. up M (fws s) \<Longrightarrow> boots (service (fs_OpenVolume fw fs)) s
           (\<lambda>r s'. keeps M (fws s) (fws s') \<and> lmem s' = lmem s \<and> r = Some (root_handle M))" by blast
  from boots_one [OF vol [OF keepsD(2) [OF 2(2)]]] obtain s3 where
    3: "service (fs_OpenVolume fw fs) s2 = Some (Inr (Some (root_handle M), s3))" "keeps M (fws s2) (fws s3)" "lmem s3 = lmem s2" by blast
  show ?thesis
    using 1(3,4) 2(3) 3(3) keeps_trans [OF keeps_trans [OF 1(2) 2(2)] 3(2)]
    by (simp add: OpenRootDir_def 1(1) 2(1) 3(1) boot_defs)
qed

lemma OpenGOP_run:
  assumes law: "protocol_law fw img M" "pool_law fw M" and up: "up M (fws s)"
  shows "boots (OpenGOP fw) s (\<lambda>p s'. p = Some (gop_pointer M) \<and> live M (fws s) (fws s') \<and> lmem s' = lmem s)"
proof -
  from boots_pair [OF protocol_runs(3) [OF law(1) up]] obtain buf hs s1 where
    1: "service (bs_LocateHandleBuffer fw GraphicsOutputProtocol) s = Some (Inr ((buf, hs), s1))" "keeps M (fws s) (fws s1)" "lmem s1 = lmem s"
      "pool_block M (fws s1) buf" "hs \<noteq> []" and gop: "\<And>s. up M (fws s) \<Longrightarrow> boots (service (bs_OpenProtocol fw (hs ! 0) GraphicsOutputProtocol)) s
           (\<lambda>(status, p) s'. keeps M (fws s) (fws s') \<and> lmem s' = lmem s \<and> p = Some (gop_pointer M))" by blast
  from boots_pair [OF gop [OF keepsD(2) [OF 1(2)]]] obtain st p s2 where
    2: "service (bs_OpenProtocol fw (hs ! 0) GraphicsOutputProtocol) s1 = Some (Inr ((st, p), s2))" "keeps M (fws s1) (fws s2)"
      "lmem s2 = lmem s1" "p = Some (gop_pointer M)" by blast
  from boots_one [OF pool_runs(2) [OF law(2) keepsD(2) [OF 2(2)] keepsD(3) [OF 2(2) 1(4)]]] obtain st3 s3 where
    3: "service (bs_FreePool fw buf) s2 = Some (Inr (st3, s3))" "live M (fws s2) (fws s3)" "lmem s3 = lmem s2" by blast
  show ?thesis
    using 1(3,5) 2(3,4) 3(3) live_trans [OF live_trans [OF keepsD(1) [OF 1(2)] keepsD(1) [OF 2(2)]] 3(2)]
    by (simp add: OpenGOP_def 1(1) 2(1) 3(1) boot_defs)
qed

lemma SaveMap_run:
  assumes laws: "map_law fw M" "protocol_law fw img M" "file_law fw M" and up: "up M (fws s)" and buf: "buf \<noteq> 0" "unat buf + 16384 < 2 ^ 64"
  shows "boots (SaveMap fw img buf) s (\<lambda>(mm, root) s'. root = root_handle M \<and> live M (fws s) (fws s') \<and> map_held M buf mm (lmem s')
    \<and> changes_only (Collect (block buf 16384)) (lmem s) (lmem s'))"
proof -
  let ?mm = "\<lparr>buffer_size = 16384, map_buffer = buf, map_size = 0, map_key = 0, descriptor_size = 0, descriptor_version = 0\<rparr>"
  from boots_pair [OF GetMemoryMap_run [OF laws(1) up, of ?mm, OF _ _ buf]] obtain st mm s1 where
    1: "Boot_GetMemoryMap fw ?mm s = Some (Inr ((st, mm), s1))" "keeps M (fws s) (fws s1)" "map_held M buf mm (lmem s1)"
      "descriptor_size mm \<noteq> 0" "changes_only (Collect (block buf 16384)) (lmem s) (lmem s1)" by auto
  from boots_one [OF OpenRootDir_run [OF laws(2) keepsD(2) [OF 1(2)]]] obtain s2 where
    2: "OpenRootDir fw img s1 = Some (Inr (Some (root_handle M), s2))" "keeps M (fws s1) (fws s2)" "lmem s2 = lmem s1" by blast
  let ?p = "CHR 0x5C # ''memmap''"
  from boots_pair [OF file_Open_run [OF laws(3) keepsD(2) [OF 2(2)], of ?p True]] obtain st3 h s3 where
    3: "service (file_Open fw (root_handle M) ?p True) s2 = Some (Inr ((st3, Some h), s3))" "keeps M (fws s2) (fws s3)" "lmem s3 = lmem s2"
    by (auto split: option.splits)
  from boots_one [OF SaveMemoryMap_run [OF laws(3) keepsD(2) [OF 3(2)] 1(4)]] obtain st4 s4 where
    4: "SaveMemoryMap fw mm h s3 = Some (Inr (st4, s4))" "live M (fws s3) (fws s4)" "lmem s4 = lmem s3" by blast
  from boots_one [OF file_runs(3) [OF laws(3) liveD [OF 4(2)]]] obtain s5 where
    5: "service (\<lambda>f. ((), file_Close fw h f)) s4 = Some (Inr ((), s5))" "live M (fws s4) (fws s5)" "lmem s5 = lmem s4" by auto
  have "live M (fws s) (fws s5)"
    using live_trans [OF keepsD(1) [OF keeps_trans [OF keeps_trans [OF 1(2) 2(2)] 3(2)]] live_trans [OF 4(2) 5(2)]] .
  with 1(3,5) 2(3) 3(3) 4(3) 5(3) show ?thesis
    by (simp add: SaveMap_def 1(1) 2(1) 3(1) 4(1) 5(1) 
        boot_defs)
qed

text \<open>Reading a file into the pool: everything that is not in the pool keeps its value.\<close>

lemma ReadFile_run:
  assumes laws: "file_law fw M" "pool_law fw M" and up: "up M (fws s)" and h: "open_at M (fws s) h bs" "length bs \<le> pool_limit M"
  shows "boots (Boot_ReadFile fw h) s (\<lambda>(status, a) s'. status = EFI_SUCCESS \<and> live M (fws s) (fws s') \<and> pool_block M (fws s') a
    \<and> in_memory (lmem s') a bs \<and> Collect (block a (length bs)) \<subseteq> pool_area M \<and> changes_only (pool_area M) (lmem s) (lmem s'))"
proof -
  from boots_pair [OF file_runs(1) [OF laws(1) up h(1)]] obtain n s1 where
    1: "service (file_GetInfo fw h file_info_size) s = Some (Inr ((EFI_SUCCESS, n), s1))" "keeps M (fws s) (fws s1)" "lmem s1 = lmem s"
      "unat n = length bs" by blast
  from h(2) 1(4) have "unat n \<le> pool_limit M" by simp
  from boots_pair [OF pool_runs(1) [OF laws(2) keepsD(2) [OF 1(2)] this]] obtain a s2 where
    2: "service (bs_AllocatePool fw n) s1 = Some (Inr ((EFI_SUCCESS, a), s2))" "keeps M (fws s1) (fws s2)" "lmem s2 = lmem s1"
      "pool_block M (fws s2) a" "unat a + unat n < 2 ^ 64" "Collect (block a (unat n)) \<subseteq> pool_area M" by blast
  note k = keeps_trans [OF 1(2) 2(2)]
  from boots_pair [OF file_runs(2) [OF laws(1) keepsD(2) [OF k] keepsD(4) [OF k h(1)] 1(4)]] obtain s3 where
    3: "service (file_Read fw h n) s2 = Some (Inr ((EFI_SUCCESS, bs), s3))" "live M (fws s2) (fws s3)" "lmem s3 = lmem s2"
      "\<And>p. pool_block M (fws s2) p \<Longrightarrow> pool_block M (fws s3) p" by blast
  have m: "in_memory (put_bytes (unat a) bs (lmem s)) a bs" using 2(5) 1(4) by (intro file_in_memory) simp
  have c: "changes_only (pool_area M) (lmem s) (put_bytes (unat a) bs (lmem s))"
    using changes_only_sub [OF put_bytes_changes] 2(6) 1(4) by metis
  show ?thesis
    using 1(3,4) 2(3-6) 3(3,4) m c live_trans [OF keepsD(1) [OF k] 3(2)]
    by (simp add: Boot_ReadFile_def boot_defs 1(1) 2(1) 3(1) store_bytes_def on_memory_def)
qed

text \<open>The kernel's file: its first page begins with the file's header, where the loader looks for the entry point.\<close>

definition kernel_range :: "u8 list \<Rightarrow> u64 \<times> u64" where
  "kernel_range kern = fold widen (headers kern) (- 1, 0)"

definition kernel_pages :: "u8 list \<Rightarrow> u64 set" where
  "kernel_pages kern = Collect (block (fst (kernel_range kern)) (4096 * num_pages (fst (kernel_range kern)) (snd (kernel_range kern))))"

definition kernel_file_ok :: "u8 list \<Rightarrow> bool" where
  "kernel_file_ok kern \<longleftrightarrow> boot_elf kern \<and> 4096 dvd unat (fst (kernel_range kern))
     \<and> (\<forall>i<8. elf_image kern (headers kern) (fst (kernel_range kern) + 24 + of_nat i) = Some (kern ! (24 + i)))"

definition image_in :: "memory \<Rightarrow> u8 list \<Rightarrow> bool" where
  "image_in m kern \<longleftrightarrow> (\<forall>c b. elf_image kern (headers kern) c = Some b \<longrightarrow> m (unat c) = b)"

lemma image_in_pages:
  assumes "boot_elf kern" "elf_image kern (headers kern) c = Some b"
  shows "c \<in> kernel_pages kern"
  using range_covers [OF assms(1), of "fst (kernel_range kern)" "snd (kernel_range kern)" c] assms(2)
  by (simp add: kernel_pages_def kernel_range_def block_def)

lemma image_in_changes:
  "boot_elf kern \<Longrightarrow> image_in m kern \<Longrightarrow> changes_only A m m' \<Longrightarrow> A \<inter> kernel_pages kern = {} \<Longrightarrow> image_in m' kern"
  using image_in_pages by (fastforce simp: image_in_def changes_only_def)

lemma LoadKernel_run:
  assumes laws: "file_law fw M" "pool_law fw M" and up: "up M (fws s)"
    and kern: "root_files M (CHR 0x5C # ''kernel.elf'') = Some kern" "length kern \<le> pool_limit M" "kernel_file_ok kern"
    and area: "kernel_pages kern \<subseteq> pages_free M (fws s)" "kernel_pages kern \<inter> pool_area M = {}"
  shows "boots (LoadKernel fw (root_handle M)) s (\<lambda>a s'. a = fst (kernel_range kern) \<and> up M (fws s') \<and> image_in (lmem s') kern
    \<and> changes_only (kernel_pages kern \<union> pool_area M) (lmem s) (lmem s'))"
proof -
  have elf: "boot_elf kern" and al: "4096 dvd unat (fst (kernel_range kern))" using kern(3) by (simp_all add: kernel_file_ok_def)
  obtain first_addr last_addr where kr: "kernel_range kern = (first_addr, last_addr)" by fastforce
  let ?p = "CHR 0x5C # ''kernel.elf''"
  from boots_pair [OF file_Open_run [OF laws(1) up, of ?p False]] kern(1) obtain h s1 where
    1: "service (file_Open fw (root_handle M) ?p False) s = Some (Inr ((EFI_SUCCESS, Some h), s1))" "keeps M (fws s) (fws s1)" "lmem s1 = lmem s"
      "open_at M (fws s1) h kern" by auto
  from boots_pair [OF ReadFile_run [OF laws keepsD(2) [OF 1(2)] 1(4) kern(2)]] obtain a s2 where
    2: "Boot_ReadFile fw h s1 = Some (Inr ((EFI_SUCCESS, a), s2))" "live M (fws s1) (fws s2)" "pool_block M (fws s2) a"
      "in_memory (lmem s2) a kern" "Collect (block a (length kern)) \<subseteq> pool_area M" "changes_only (pool_area M) (lmem s1) (lmem s2)" by blast
  have range: "CalcLoadAddressRange (lmem s2) a = (first_addr, last_addr)"
    using range_in_memory [OF 2(4) elf] kr by (simp add: kernel_range_def)
  have "Collect (block first_addr (4096 * num_pages first_addr last_addr)) \<subseteq> pages_free M (fws s2)"
    using area(1) keepsD(1) [OF 1(2)] 2(2) by (auto simp: live_def kernel_pages_def kr)
  from boots_pair [OF pool_runs(3) [OF laws(2) liveD [OF 2(2)] al [unfolded kr fst_conv] this]] 2(3) obtain s3 where
    3: "service (bs_AllocatePages fw (num_pages first_addr last_addr) first_addr) s2 = Some (Inr ((EFI_SUCCESS, first_addr), s3))" "up M (fws s3)" "lmem s3 = lmem s2"
      "pool_block M (fws s3) a" by blast
  have "clear_of_file a kern"
    using image_in_pages [OF elf] 2(5) area(2) by (fastforce simp: clear_of_file_def)
  from copy_in_memory [OF 2(4) elf this] obtain m' where m': "Boot_CopyLoadSegments a (lmem s2) = Some m'"
    and v: "\<And>c. m' (unat c) = (case elf_image kern (headers kern) c of Some b \<Rightarrow> b | None \<Rightarrow> lmem s2 (unat c))" by blast
  have img: "image_in m' kern" by (simp add: image_in_def v)
  have "changes_only (kernel_pages kern) (lmem s2) m'"
    using image_in_pages [OF elf] by (auto simp: changes_only_def v split: option.splits)
  with 2(6) 1(3) have ch: "changes_only (kernel_pages kern \<union> pool_area M) (lmem s) m'" by (auto simp: changes_only_def)
  let ?s4 = "s3\<lparr>lmem := m'\<rparr>"
  have 4: "on_memory (Boot_CopyLoadSegments a) s3 = Some (Inr ((), ?s4))" by (simp add: on_memory_def 3(3) m')
  from boots_one [OF pool_runs(2) [OF laws(2), where s = ?s4 and a = a]] 3(2,4) obtain s5 where
    5: "service (bs_FreePool fw a) ?s4 = Some (Inr (EFI_SUCCESS, s5))" "live M (fws s3) (fws s5)" "lmem s5 = m'" by auto
  show ?thesis
    using liveD [OF 5(2)] img ch 5(3) kr by (simp add: LoadKernel_def boot_defs 1(1) 2(1) range 3(1) 4 5(1))
qed

section \<open>The volume\<close>

definition disk_ok :: "'f Machine \<Rightarrow> bool" where
  "disk_ok M \<longleftrightarrow> length (disk_bytes M) = unat (BlockSize (disk_media M)) * (unat (LastBlock (disk_media M)) + 1)
     \<and> length (disk_bytes M) < 2 ^ 64 \<and> BlockSize (disk_media M) \<noteq> 0 \<and> unat (BlockSize (disk_media M)) dvd 16777216"

definition volume_of :: "'f Machine \<Rightarrow> u8 list" where
  "volume_of M = (case root_files M (CHR 0x5C # ''fat_disk'') of Some bs \<Rightarrow> bs | None \<Rightarrow> take 16777216 (disk_bytes M))"

lemma volume_bytes_disk:
  assumes "disk_ok M"
  shows "unat (volume_bytes (disk_media M)) = min (length (disk_bytes M)) 16777216"
proof -
  let ?b = "BlockSize (disk_media M)" and ?l = "LastBlock (disk_media M)"
  have b: "0 < unat ?b" using assms by (simp add: disk_ok_def unat_gt_0)
  have n: "unat ?b * (unat ?l + 1) < 2 ^ 64" using assms by (simp add: disk_ok_def)
  then have "1 * (unat ?l + 1) < 2 ^ 64" using b by (metis (no_types, lifting) Suc_leI le_less_trans mult_le_mono1 One_nat_def)
  then have l: "unat (?l + 1) = unat ?l + 1" by (simp add: unat_word_ariths(1))
  have "unat ?b < 2 ^ LENGTH(32)" by (rule unsigned_less)
  then have "take_bit 64 (unat ?b) = unat ?b" by (intro take_bit_nat_eq_self) simp
  then have "unat (ucast ?b * (?l + 1) :: u64) = unat ?b * (unat ?l + 1)"
    using n by (simp add: unat_word_ariths(2) l unsigned_ucast_eq)
  then show ?thesis using assms by (simp add: volume_bytes_def min_def word_le_nat_alt disk_ok_def)
qed

lemma LoadVolume_run:
  assumes laws: "file_law fw M" "pool_law fw M" "protocol_law fw img M" "block_law fw M" and up: "up M (fws s)"
    and disk: "root_files M (CHR 0x5C # ''fat_disk'') = None \<Longrightarrow> disk_ok M" and fits: "length (volume_of M) \<le> pool_limit M"
  shows "boots (LoadVolume fw img (root_handle M)) s (\<lambda>a s'. up M (fws s') \<and> in_memory (lmem s') a (volume_of M)
    \<and> Collect (block a (length (volume_of M))) \<subseteq> pool_area M \<and> changes_only (pool_area M) (lmem s) (lmem s'))"
proof -
  let ?p = "CHR 0x5C # ''fat_disk''"
  from boots_pair [OF file_Open_run [OF laws(1) up, of ?p False], unfolded if_False] obtain st p s1 where
    1: "service (file_Open fw (root_handle M) ?p False) s = Some (Inr ((st, p), s1))" "keeps M (fws s) (fws s1)" "lmem s1 = lmem s"
      "case root_files M ?p of Some bs \<Rightarrow> st = EFI_SUCCESS \<and> (\<exists>x. p = Some x \<and> open_at M (fws s1) x bs) | None \<Rightarrow> EFI_ERROR st" by blast
  show ?thesis
  proof (cases "root_files M ?p")
    case (Some bs)
    with 1(4) obtain h where h: "st = EFI_SUCCESS" "p = Some h" "open_at M (fws s1) h bs" by auto
    from boots_pair [OF ReadFile_run [OF laws(1,2) keepsD(2) [OF 1(2)] h(3)]] Some fits obtain a s2 where
      2: "Boot_ReadFile fw h s1 = Some (Inr ((EFI_SUCCESS, a), s2))" "live M (fws s1) (fws s2)" "in_memory (lmem s2) a bs"
        "Collect (block a (length bs)) \<subseteq> pool_area M" "changes_only (pool_area M) (lmem s1) (lmem s2)" by (auto simp: volume_of_def)
    with Some h liveD [OF 2(2)] 1(3) show ?thesis by (simp add: LoadVolume_def boot_defs 1(1) 2(1) volume_of_def)
  next
    case None
    with 1(4) have st: "st \<noteq> EFI_SUCCESS" by auto
    from boots_pair [OF protocol_runs(1) [OF laws(3) keepsD(2) [OF 1(2)]]] obtain li s2 where
      2: "service (bs_OpenProtocol fw img LoadedImageProtocol) s1 = Some (Inr ((EFI_SUCCESS, Some li), s2))" "keeps M (fws s1) (fws s2)"
        "lmem s2 = lmem s1" "\<And>g. lip_DeviceHandle fw li g = device M" by blast
    from boots_pair [OF block_runs [OF laws(4) keepsD(2) [OF 2(2)]]] obtain b s3 where
      3: "service (bs_OpenProtocol fw (device M) BlockIoProtocol) s2 = Some (Inr ((EFI_SUCCESS, Some b), s3))" "keeps M (fws s2) (fws s3)"
        "lmem s3 = lmem s2" "\<And>g. blk_Media fw b g = disk_media M"
      and r: "\<And>s n. up M (fws s) \<and> unat n \<le> length (disk_bytes M) \<and> unat (BlockSize (disk_media M)) dvd unat n \<Longrightarrow>
           boots (service (blk_ReadBlocks fw b (MediaId (disk_media M)) 0 n)) s
             (\<lambda>(status, bs) s'. keeps M (fws s) (fws s') \<and> lmem s' = lmem s \<and> status = EFI_SUCCESS \<and> bs = take (unat n) (disk_bytes M))"
      by blast
    let ?n = "volume_bytes (disk_media M)"
    have vol: "volume_of M = take (unat ?n) (disk_bytes M)" and len: "length (volume_of M) = unat ?n" "unat ?n \<le> length (disk_bytes M)"
      using volume_bytes_disk [OF disk [OF None]] by (simp_all add: volume_of_def None min_def)
    have dvd: "unat (BlockSize (disk_media M)) dvd unat ?n"
      using disk [OF None] volume_bytes_disk [OF disk [OF None]] by (simp add: disk_ok_def min_def)
    from boots_pair [OF pool_runs(1) [OF laws(2) keepsD(2) [OF 3(2)], of ?n]] fits len obtain a s4 where
      4: "service (bs_AllocatePool fw ?n) s3 = Some (Inr ((EFI_SUCCESS, a), s4))" "keeps M (fws s3) (fws s4)" "lmem s4 = lmem s3"
        "unat a + unat ?n < 2 ^ 64" "Collect (block a (unat ?n)) \<subseteq> pool_area M" by auto
    from boots_pair [OF r [of s4 ?n]] keepsD(2) [OF 4(2)] len(2) dvd vol obtain s5 where
      5: "service (blk_ReadBlocks fw b (MediaId (disk_media M)) 0 ?n) s4 = Some (Inr ((EFI_SUCCESS, volume_of M), s5))" "keeps M (fws s4) (fws s5)"
        "lmem s5 = lmem s4" by auto
    have m: "in_memory (put_bytes (unat a) (volume_of M) (lmem s)) a (volume_of M)"
      using 4(4) len by (intro file_in_memory) simp
    have c: "changes_only (pool_area M) (lmem s) (put_bytes (unat a) (volume_of M) (lmem s))"
      using changes_only_sub [OF put_bytes_changes] 4(5) len(1) by metis
    show ?thesis
      using st 1(3) 2(3,4) 3(3,4) 4(3-5) 5(3) m c len(1) keepsD(2) [OF 5(2)]
      by (simp add: LoadVolume_def OpenBlockIoProtocolForLoadedImage_def Boot_ReadBlocks_def boot_defs 1(1) 2(1) 3(1) 4(1) 5(1) store_bytes_def on_memory_def)
  qed
qed

section \<open>Leaving the boot services\<close>

lemma LeaveBootServices_run:
  assumes laws: "map_law fw M" "exit_law fw img M" and up: "up M (fws s)" and held: "map_held M buf mm (lmem s)" and buf: "buf \<noteq> 0" "unat buf + 16384 < 2 ^ 64"
  shows "boots (LeaveBootServices fw img mm) s (\<lambda>mm' s'. changes_only (Collect (block buf 16384)) (lmem s) (lmem s') \<and> map_held M buf mm' (lmem s')
    \<and> (\<exists>f. up M f \<and> key_now M f = map_key mm' \<and> fws s' = snd (bs_ExitBootServices fw img (map_key mm') f)))"
proof -
  from held obtain f0 where f0: "up M f0" "key_now M f0 = map_key mm" and mm: "buffer_size mm = 16384" "map_buffer mm = buf"
    by (auto simp: map_held_def)
  obtain st f1 where 1: "bs_ExitBootServices fw img (map_key mm) (fws s) = (st, f1)" by fastforce
  note ex = laws(2) [unfolded exit_law_def, THEN spec, THEN spec, THEN mp]
  have L: "if map_key mm = key_now M (fws s) then \<not> EFI_ERROR st else EFI_ERROR st \<and> up M f1"
    using ex [OF up, of "map_key mm"] by (simp add: 1)
  show ?thesis
  proof (cases "EFI_ERROR st")
    case False
    with L have "key_now M (fws s) = map_key mm" by (auto split: if_splits)
    with False 1 held up show ?thesis
      by (auto simp: LeaveBootServices_def boot_defs service_def intro!: exI [of _ "fws s"])
  next
    case True
    with L have "up M (fws (s\<lparr>fws := f1\<rparr>))" by (auto split: if_splits)
    from boots_pair [OF GetMemoryMap_run [OF laws(1) this mm buf]] obtain mm2 s2 where
      2: "Boot_GetMemoryMap fw mm (s\<lparr>fws := f1\<rparr>) = Some (Inr ((EFI_SUCCESS, mm2), s2))" "keeps M f1 (fws s2)" "map_key mm2 = key_now M (fws s2)"
        "map_held M buf mm2 (lmem s2)" "changes_only (Collect (block buf 16384)) (lmem s) (lmem s2)" by auto
    obtain st3 f3 where 3: "bs_ExitBootServices fw img (map_key mm2) (fws s2) = (st3, f3)" by fastforce
    then have "\<not> EFI_ERROR st3" using ex [OF keepsD(2) [OF 2(2)], of "map_key mm2"] 2(3) by simp
    with True 1 2 3 keepsD(2) [OF 2(2)] show ?thesis
      by (auto simp: LeaveBootServices_def boot_defs service_def intro!: exI [of _ "fws s2"])
  qed
qed

section \<open>The boot\<close>

lemma entry_in_image:
  assumes "kernel_file_ok kern" "image_in m kern"
  shows "le64 m (unat (fst (kernel_range kern) + 24)) = e_entry (read_Ehdr kern)"
proof -
  let ?a = "fst (kernel_range kern)"
  from assms(1) have ok: "boot_elf kern" "4096 dvd unat ?a"
    and img: "\<And>i. i < 8 \<Longrightarrow> elf_image kern (headers kern) (?a + 24 + of_nat i) = Some (kern ! (24 + i))"
    by (simp_all add: kernel_file_ok_def)
  have len: "64 \<le> length kern" using ok(1) by (simp add: boot_elf_def layout)
  have "unat ?a < 2 ^ LENGTH(64)" by (rule unsigned_less)
  with ok(2) have a: "unat ?a + 31 < 2 ^ 64" by (auto elim!: dvdE)
  then have u: "unat (?a + 24) = unat ?a + 24" by (simp add: unat_word_ariths(1))
  have "m (unat (?a + 24) + i) = kern ! (24 + i)" if "i < 8" for i
  proof -
    have "unat (?a + 24 + of_nat i) = unat (?a + 24) + i" using a u that by (intro unat_add_small) simp
    moreover have "m (unat (?a + 24 + of_nat i)) = kern ! (24 + i)" using img [OF that] assms(2) by (simp add: image_in_def)
    ultimately show ?thesis by simp
  qed
  then have "le64 (\<lambda>i. m (unat (?a + 24) + i)) 0 = le64 (\<lambda>i. mem_of kern (24 + i)) 0"
    using len by (intro le64_cong) (simp add: mem_of_def)
  then show ?thesis
    using le_shift(3) [of m "unat (?a + 24)" 0] le_shift(3) [of "mem_of kern" 24 0] by (simp add: read_Ehdr_def Let_def)
qed

lemma map_held_changes:
  assumes "map_held M buf mm m" "changes_only A m m'" "A \<inter> Collect (block buf 16384) = {}"
  shows "map_held M buf mm m'"
proof -
  from assms(1) obtain f where f: "up M f" "key_now M f = map_key mm" "unat (map_size mm) = length (map_now M f)" "length (map_now M f) \<le> 16384"
      "in_memory m buf (map_now M f)" and mm: "buffer_size mm = 16384" "map_buffer mm = buf"
    by (auto simp: map_held_def)
  have "A \<inter> Collect (block buf (length (map_now M f))) = {}" using assms(3) f(4) by (auto simp: block_def)
  from in_memory_changes [OF f(5) assms(2) this] f mm show ?thesis by (auto simp: map_held_def)
qed

text \<open>Where things lie: the pages of the kernel are free, and they, the pool, the buffer of the map and the screen are apart.\<close>

definition screen_area :: "'f Machine \<Rightarrow> u64 set" where
  "screen_area M = Collect (block (FrameBufferBase (screen_mode M)) (unat (FrameBufferSize (screen_mode M))))"

definition memory_plan :: "'f Machine \<Rightarrow> 'f \<Rightarrow> u8 list \<Rightarrow> u64 \<Rightarrow> bool" where
  "memory_plan M f kern buf \<longleftrightarrow>
     kernel_pages kern \<subseteq> pages_free M f \<and> kernel_pages kern \<inter> pool_area M = {}
     \<and> Collect (block buf 16384) \<inter> (kernel_pages kern \<union> pool_area M) = {}
     \<and> screen_area M \<inter> (kernel_pages kern \<union> pool_area M \<union> Collect (block buf 16384)) = {}
     \<and> buf \<noteq> 0 \<and> unat buf + 16384 < 2 ^ 64
     \<and> unat (FrameBufferBase (screen_mode M)) + unat (FrameBufferSize (screen_mode M)) \<le> 2 ^ 64"

text \<open>The configurations that the kernel can draw with.\<close>

definition config_for :: "GopMode \<Rightarrow> FrameBufferConfig option" where
  "config_for mode = (case PixelFormat mode of
       PixelRedGreenBlueReserved8BitPerColor \<Rightarrow> Some \<lparr>pixels_per_scan_line = PixelsPerScanLine mode,
         horizontal_resolution = HorizontalResolution mode, vertical_resolution = VerticalResolution mode, pixel_format = kPixelRGBResv8BitPerColor\<rparr>
     | PixelBlueGreenRedReserved8BitPerColor \<Rightarrow> Some \<lparr>pixels_per_scan_line = PixelsPerScanLine mode,
         horizontal_resolution = HorizontalResolution mode, vertical_resolution = VerticalResolution mode, pixel_format = kPixelBGRResv8BitPerColor\<rparr>
     | _ \<Rightarrow> None)"

lemma FrameBufferConfigOf_run:
  "config_for mode = Some config \<Longrightarrow> FrameBufferConfigOf mode s = Some (Inr (config, s))"
  by (simp add: config_for_def FrameBufferConfigOf_def boot_return_def split: GopPixelFormat.splits)

definition uefi_laws :: "'f Firmware \<Rightarrow> EFI_HANDLE \<Rightarrow> 'f Machine \<Rightarrow> bool" where
  "uefi_laws fw img M \<longleftrightarrow> map_law fw M \<and> exit_law fw img M \<and> pool_law fw M \<and> file_law fw M \<and> protocol_law fw img M \<and> block_law fw M"


text \<open>
  The status of opening \<open>kernel.elf\<close> is not looked at: when the file does not exist, the loader goes on with a pointer that
  was never set.
\<close>

lemma missing_kernel_undefined:
  "file_Open fw root_dir (CHR 0x5C # ''kernel.elf'') False (fws s) = ((status, None), f') \<Longrightarrow> LoadKernel fw root_dir s = None"
  by (simp add: LoadKernel_def boot_defs service_def)

text \<open>
  A firmware whose state is the number of pool allocations: each of them changes the map, so that the first key is stale
  when the boot services are to be left.
\<close>

definition sample_mode :: GopMode where
  "sample_mode = \<lparr>HorizontalResolution = 32, VerticalResolution = 32, PixelsPerScanLine = 32,
     PixelFormat = PixelBlueGreenRedReserved8BitPerColor, FrameBufferBase = 0x80000000, FrameBufferSize = 4096\<rparr>"

definition sample_media :: BlockMedia where
  "sample_media = \<lparr>MediaId = 7, BlockSize = 512, LastBlock = 0\<rparr>"

definition sample_map :: "nat \<Rightarrow> u8 list" where
  "sample_map f = [ucast (of_nat f :: u64)]"

definition sample_firmware :: "nat Firmware" where
  "sample_firmware =
     \<lparr>bs_GetMemoryMap = \<lambda>n f. (\<lparr>ans_status = EFI_SUCCESS, ans_bytes = sample_map f, ans_size = 1, ans_key = of_nat f,
                                  ans_descriptor_size = 48, ans_version = 1\<rparr>, f),
      bs_AllocatePool = \<lambda>n f. ((EFI_SUCCESS, 0x1000000), Suc f),
      bs_FreePool = \<lambda>a f. (EFI_SUCCESS, f),
      bs_AllocatePages = \<lambda>k a f. ((EFI_SUCCESS, a), f),
      bs_ExitBootServices = \<lambda>h k f. (if k = of_nat f then EFI_SUCCESS else 0x8000000000000002, f),
      bs_OpenProtocol = \<lambda>h g f. ((EFI_SUCCESS, Some 1), f),
      bs_LocateHandleBuffer = \<lambda>g f. ((9, [3]), f),
      lip_DeviceHandle = \<lambda>p f. 2,
      gop_Mode = \<lambda>p f. sample_mode,
      blk_Media = \<lambda>p f. sample_media,
      blk_ReadBlocks = \<lambda>p id lba n f. ((EFI_SUCCESS, take (unat n) (replicate 512 5)), f),
      fs_OpenVolume = \<lambda>p f. (Some 4, f),
      file_Open = \<lambda>h p w f. (if p = CHR 0x5C # ''kernel.elf'' then (EFI_SUCCESS, Some 6)
                               else if w then (EFI_SUCCESS, Some 8) else (0x800000000000000e, None), f),
      file_Close = \<lambda>h f. f,
      file_GetInfo = \<lambda>h n f. ((EFI_SUCCESS, 124), f),
      file_Read = \<lambda>h n f. ((EFI_SUCCESS, sample_kernel_elf), f),
      file_Write = \<lambda>h bs f. f,
      AsciiSPrint_line = \<lambda>i t s a n b. []\<rparr>"

definition sample_machine :: "nat Machine" where
  "sample_machine =
     \<lparr>up = \<lambda>f. True, key_now = of_nat, map_now = sample_map,
      open_at = \<lambda>f h bs. h = 6 \<and> bs = sample_kernel_elf, pool_block = \<lambda>f a. True, pages_free = \<lambda>f. Collect (block 0x100000 0x1000),
      root_handle = 4, device = 2, gop_pointer = 1,
      root_files = \<lambda>p. if p = CHR 0x5C # ''kernel.elf'' then Some sample_kernel_elf else None,
      screen_mode = sample_mode, disk_media = sample_media, disk_bytes = replicate 512 5,
      pool_area = Collect (block 0x1000000 0x100000), pool_limit = 0x100000\<rparr>"

lemma sample_kernel_range: "kernel_range sample_kernel_elf = (0x100000, 0x100080)"
proof -
  have "min (- 1) (0x100000 :: u64) = 0x100000" by (simp add: min_def word_le_nat_alt unsigned_minus_1_eq_mask mask_eq_exp_minus_1)
  then show ?thesis
    by (simp add: kernel_range_def sample_kernel_headers widen_def sample_kernel_elf_header(5))
qed

lemma sample_kernel_pages: "kernel_pages sample_kernel_elf = Collect (block 0x100000 4096)"
  by (simp add: kernel_pages_def sample_kernel_range num_pages_def)

lemma sample_kernel_ok: "kernel_file_ok sample_kernel_elf"
proof -
  have "elf_image sample_kernel_elf (headers sample_kernel_elf) (0x100000 + 24 + of_nat i) = Some (sample_kernel_elf ! (24 + i))" if "i < 8" for i
  proof -
    have "unat (0x100018 + of_nat i :: u64) = unat (0x100018 :: u64) + i" using that by (intro unat_add_small) simp
    with that show ?thesis by (simp add: sample_kernel_image block_def)
  qed
  then show ?thesis by (simp add: kernel_file_ok_def sample_kernel_boot_elf sample_kernel_range)
qed

lemma sample_laws: "uefi_laws sample_firmware 1 sample_machine"
proof -
  have "map_law sample_firmware sample_machine"
    by (auto simp: map_law_def sample_firmware_def sample_machine_def keeps_def live_def sample_map_def)
  moreover have "exit_law sample_firmware 1 sample_machine"
    by (auto simp: exit_law_def sample_firmware_def sample_machine_def EFI_ERROR_def EFI_SUCCESS_def)
  moreover have "pool_law sample_firmware sample_machine"
    by (auto simp: pool_law_def sample_firmware_def sample_machine_def keeps_def live_def block_def)
  moreover have "file_law sample_firmware sample_machine"
    by (auto simp: file_law_def sample_firmware_def sample_machine_def keeps_def live_def EFI_ERROR_def sample_kernel_elf_header(1))
  moreover have "protocol_law sample_firmware 1 sample_machine" "block_law sample_firmware sample_machine"
    by (auto simp: protocol_law_def block_law_def sample_firmware_def sample_machine_def keeps_def live_def)
  ultimately show ?thesis by (simp add: uefi_laws_def)
qed

lemma sample_plan: "memory_plan sample_machine f sample_kernel_elf 0x3000000"
  by (auto simp: memory_plan_def sample_machine_def sample_kernel_pages screen_area_def sample_mode_def block_def)


end
