(* ===== verification/Programs.thy ===== *)
theory Programs
  imports Syscalls KernelMain
begin

text \<open>
  The programs under \<^verbatim>\<open>apps/\<close>: the calculator \<^verbatim>\<open>rpn\<close>, the file programs \<^verbatim>\<open>cp\<close>, \<^verbatim>\<open>grep\<close> and \<^verbatim>\<open>readfile\<close>, and the functions
  of \<^verbatim>\<open>newlib_support.c\<close> that stand between the C library and the system calls.  A program's result is its output
  and its exit code.
\<close>

section \<open>\<open>rpn\<close>\<close>

type_synonym long = "64 word"

definition in_long :: "int \<Rightarrow> bool" where
  "in_long n \<longleftrightarrow> - (2 ^ 63) \<le> n \<and> n < 2 ^ 63"

text \<open>Arithmetic on \<open>long\<close>: an overflow has no defined result.\<close>

definition long_add :: "long \<Rightarrow> long \<Rightarrow> long option" where
  "long_add a b = (if in_long (sint a + sint b) then Some (a + b) else None)"

definition long_sub :: "long \<Rightarrow> long \<Rightarrow> long option" where
  "long_sub a b = (if in_long (sint a - sint b) then Some (a - b) else None)"

text \<open>\<open>atol\<close> of the C library: white space, a sign and the decimal digits at the front.\<close>

definition is_digit :: "u8 \<Rightarrow> bool" where
  "is_digit c \<longleftrightarrow> 48 \<le> c \<and> c \<le> 57"

definition digits_value :: "u8 list \<Rightarrow> int" where
  "digits_value ds = fold (\<lambda>c n. 10 * n + (int (unat c) - 48)) ds 0"

definition is_space :: "u8 \<Rightarrow> bool" where
  "is_space c \<longleftrightarrow> c = 32 \<or> 9 \<le> c \<and> c \<le> 13"

definition atol :: "u8 list \<Rightarrow> long option" where
  "atol s =
     (let s1 = dropWhile is_space s;
          n = (case s1 of [] \<Rightarrow> 0
               | c # cs \<Rightarrow> if c = 45 then - digits_value (takeWhile is_digit cs)
                           else if c = 43 then digits_value (takeWhile is_digit cs)
                           else digits_value (takeWhile is_digit s1))
      in if in_long n then Some (of_int n) else None)"

text \<open>The static stack: an index outside of the array has no defined result.\<close>

record Rpn =
  stack_ptr :: int
  rpn_stack :: "long list"

definition kRpnStack :: int where [layout]: "kRpnStack = 100"

definition Pop :: "Rpn \<Rightarrow> (Rpn \<times> long) option" where
  "Pop r = (if 0 \<le> stack_ptr r \<and> stack_ptr r < kRpnStack
            then Some (r\<lparr>stack_ptr := stack_ptr r - 1\<rparr>, rpn_stack r ! nat (stack_ptr r)) else None)"

definition Push :: "long \<Rightarrow> Rpn \<Rightarrow> Rpn option" where
  "Push x r = (let p = stack_ptr r + 1
               in if 0 \<le> p \<and> p < kRpnStack then Some (r\<lparr>stack_ptr := p, rpn_stack := (rpn_stack r)[nat p := x]\<rparr>) else None)"

definition rpn_arg :: "u8 list \<Rightarrow> Rpn \<Rightarrow> Rpn option" where
  "rpn_arg arg r =
     (if arg = ascii ''+'' then
        Option.bind (Pop r) (\<lambda>(r1, b). Option.bind (Pop r1) (\<lambda>(r2, a). Option.bind (long_add a b) (\<lambda>x. Push x r2)))
      else if arg = ascii ''-'' then
        Option.bind (Pop r) (\<lambda>(r1, b). Option.bind (Pop r1) (\<lambda>(r2, a). Option.bind (long_sub a b) (\<lambda>x. Push x r2)))
      else Option.bind (atol arg) (\<lambda>a. Push a r))"

fun rpn_args :: "u8 list list \<Rightarrow> Rpn \<Rightarrow> Rpn option" where
  "rpn_args [] r = Some r"
| "rpn_args (arg # args) r = Option.bind (rpn_arg arg r) (rpn_args args)"

definition rpn_main :: "u8 list list \<Rightarrow> long list \<Rightarrow> (u8 list \<times> int) option" where
  "rpn_main argv garbage =
     Option.bind (rpn_args (tl argv) \<lparr>stack_ptr = - 1, rpn_stack = garbage\<rparr>) (\<lambda>r.
     map_option (\<lambda>result. (fmt_d (sint result) @ [10], 0))
       (if 0 \<le> stack_ptr r then map_option snd (Pop r) else Some 0))"

section \<open>The value of an expression\<close>

datatype expr = Num int | Plus expr expr | Minus expr expr

fun eval :: "expr \<Rightarrow> int" where
  "eval (Num n) = n"
| "eval (Plus a b) = eval a + eval b"
| "eval (Minus a b) = eval a - eval b"

fun postfix :: "expr \<Rightarrow> u8 list list" where
  "postfix (Num n) = [fmt_d n]"
| "postfix (Plus a b) = postfix a @ postfix b @ [ascii ''+'']"
| "postfix (Minus a b) = postfix a @ postfix b @ [ascii ''-'']"

text \<open>The places on the stack that the evaluation of an expression needs, and the ranges of its parts.\<close>

fun stack_need :: "expr \<Rightarrow> nat" where
  "stack_need (Num n) = 1"
| "stack_need (Plus a b) = max (stack_need a) (1 + stack_need b)"
| "stack_need (Minus a b) = max (stack_need a) (1 + stack_need b)"

fun parts_in_long :: "expr \<Rightarrow> bool" where
  "parts_in_long (Num n) = in_long n"
| "parts_in_long (Plus a b) = (parts_in_long a \<and> parts_in_long b \<and> in_long (eval a + eval b))"
| "parts_in_long (Minus a b) = (parts_in_long a \<and> parts_in_long b \<and> in_long (eval a - eval b))"

lemma in_long_eval: "parts_in_long e \<Longrightarrow> in_long (eval e)"
  by (cases e) simp_all

lemma sint_of_int_long: "in_long n \<Longrightarrow> sint (of_int n :: long) = n"
  by (simp add: in_long_def signed_of_int signed_take_bit_int_eq_self)

text \<open>Numbers are read as they are printed.\<close>

lemma digits_value_snoc: "digits_value (ds @ [c]) = 10 * digits_value ds + (int (unat c) - 48)"
  by (simp add: digits_value_def)

lemma digit_byte:
  assumes "n < 10"
  shows "is_digit (of_nat (48 + n))" "int (unat (of_nat (48 + n) :: u8)) - 48 = int n"
proof -
  have u: "unat (of_nat (48 + n) :: u8) = 48 + n" by (subst unat_of_nat) (use assms in simp)
  then show "int (unat (of_nat (48 + n) :: u8)) - 48 = int n" by simp
  show "is_digit (of_nat (48 + n))" unfolding is_digit_def word_le_nat_alt u using assms by simp
qed

lemma dec_digits: "list_all is_digit (dec n) \<and> dec n \<noteq> [] \<and> digits_value (dec n) = int n"
proof (induction n rule: dec.induct)
  case (1 n)
  show ?case
  proof (cases "n < 10")
    case True
    with digit_byte [OF True] show ?thesis
      by (simp add: dec.simps [of n] digits_value_def del: of_nat_add)
  next
    case False
    have m: "n mod 10 < 10" by simp
    from 1 [OF False] False digit_byte [OF m] show ?thesis
      by (simp add: dec.simps [of n] digits_value_snoc del: of_nat_add) presburger
  qed
qed

lemma digit_other: "is_digit c \<Longrightarrow> \<not> is_space c \<and> c \<noteq> 43 \<and> c \<noteq> 45"
  by (auto simp: is_digit_def is_space_def word_le_nat_alt)

lemma atol_fmt_d:
  assumes "in_long n"
  shows "atol (fmt_d n) = Some (of_int n)"
proof -
  have take: "takeWhile is_digit (dec k) = dec k" for k
    using dec_digits [of k] by (simp add: takeWhile_eq_all_conv list_all_iff)
  obtain c cs where c: "dec (nat n) = c # cs" using dec_digits [of "nat n"] by (cases "dec (nat n)") auto
  with dec_digits [of "nat n"] have "is_digit c" by (metis list.pred_inject(2))
  then have d: "\<not> is_space c" "c \<noteq> 43" "c \<noteq> 45" using digit_other by blast+
  have minus: "\<not> is_space 45" by (simp add: is_space_def)
  show ?thesis
  proof (cases "n < 0")
    case True
    with minus assms show ?thesis by (simp add: atol_def fmt_d_def take dec_digits Let_def)
  next
    case False
    have "digits_value (takeWhile is_digit (c # cs)) = n"
      unfolding take [of "nat n", unfolded c] using dec_digits [of "nat n"] False by (simp add: c)
    with False d assms show ?thesis by (simp add: atol_def fmt_d_def c Let_def)
  qed
qed

lemma fmt_d_operand: "fmt_d n \<noteq> ascii ''+'' \<and> fmt_d n \<noteq> ascii ''-''"
proof -
  have "dec k \<noteq> [43] \<and> dec k \<noteq> [45] \<and> dec k \<noteq> []" for k
    using dec_digits [of k] digit_other by (metis list.pred_inject(2))
  then show ?thesis by (simp add: fmt_d_def ascii_def)
qed

section \<open>Running the calculator\<close>

lemma rpn_args_append: "rpn_args (xs @ ys) r = Option.bind (rpn_args xs r) (rpn_args ys)"
proof (induction xs arbitrary: r)
  case (Cons x xs)
  then show ?case by (cases "rpn_arg x r") simp_all
qed simp

text \<open>The entries of the stack that are in use, the bottom first.\<close>

definition in_use :: "Rpn \<Rightarrow> long list" where
  "in_use r = take (nat (stack_ptr r + 1)) (rpn_stack r)"

definition rpn_ok :: "Rpn \<Rightarrow> bool" where
  "rpn_ok r \<longleftrightarrow> length (rpn_stack r) = 100 \<and> - 1 \<le> stack_ptr r \<and> stack_ptr r < 100"

lemma Push_in_use:
  assumes "rpn_ok r" "stack_ptr r < 99"
  shows "\<exists>r'. Push x r = Some r' \<and> rpn_ok r' \<and> stack_ptr r' = stack_ptr r + 1 \<and> in_use r' = in_use r @ [x]"
proof -
  let ?p = "stack_ptr r + 1"
  have p: "0 \<le> ?p" "?p < 100" "nat (?p + 1) = Suc (nat ?p)" using assms by (auto simp: rpn_ok_def)
  then have "take (nat (?p + 1)) ((rpn_stack r)[nat ?p := x]) = take (nat ?p) (rpn_stack r) @ [x]"
    using assms(1) by (simp add: take_Suc_conv_app_nth rpn_ok_def)
  then have "in_use (r\<lparr>stack_ptr := ?p, rpn_stack := (rpn_stack r)[nat ?p := x]\<rparr>) = in_use r @ [x]" by (simp add: in_use_def)
  moreover have "Push x r = Some (r\<lparr>stack_ptr := ?p, rpn_stack := (rpn_stack r)[nat ?p := x]\<rparr>)" using p by (simp add: Push_def layout Let_def)
  ultimately show ?thesis using p assms(1) by (simp add: rpn_ok_def)
qed

lemma Pop_in_use:
  assumes "rpn_ok r" "in_use r = xs @ [x]"
  shows "\<exists>r'. Pop r = Some (r', x) \<and> rpn_ok r' \<and> stack_ptr r' = stack_ptr r - 1 \<and> in_use r' = xs"
proof -
  have len: "length (rpn_stack r) = 100" "stack_ptr r < 100" using assms(1) by (simp_all add: rpn_ok_def)
  from assms(2) have "nat (stack_ptr r + 1) \<noteq> 0" by (auto simp: in_use_def)
  then have p: "0 \<le> stack_ptr r" "nat (stack_ptr r + 1) = Suc (nat (stack_ptr r))" by auto
  have "xs @ [x] = take (nat (stack_ptr r)) (rpn_stack r) @ [rpn_stack r ! nat (stack_ptr r)]"
    using assms(2) p len by (simp add: in_use_def take_Suc_conv_app_nth)
  then show ?thesis using p len by (auto simp: Pop_def rpn_ok_def in_use_def layout)
qed

lemma length_in_use: "rpn_ok r \<Longrightarrow> int (length (in_use r)) = stack_ptr r + 1"
  by (auto simp: in_use_def rpn_ok_def)

lemma long_arith:
  assumes "in_long x" "in_long y"
  shows "in_long (x + y) \<Longrightarrow> long_add (of_int x) (of_int y) = Some (of_int (x + y))"
    and "in_long (x - y) \<Longrightarrow> long_sub (of_int x) (of_int y) = Some (of_int (x - y))"
  using assms by (simp_all add: long_add_def long_sub_def sint_of_int_long)

text \<open>An operator replaces the two topmost entries by its result.\<close>

lemma rpn_operator:
  assumes r: "rpn_ok r" "in_use r = xs @ [a, b]"
  shows "long_add a b = Some x \<Longrightarrow> \<exists>r'. rpn_arg (ascii ''+'') r = Some r' \<and> rpn_ok r' \<and> stack_ptr r' = stack_ptr r - 1 \<and> in_use r' = xs @ [x]"
    and "long_sub a b = Some x \<Longrightarrow> \<exists>r'. rpn_arg (ascii ''-'') r = Some r' \<and> rpn_ok r' \<and> stack_ptr r' = stack_ptr r - 1 \<and> in_use r' = xs @ [x]"
proof -
  from Pop_in_use [OF r(1), of "xs @ [a]" b] r(2) obtain r1 where
    1: "Pop r = Some (r1, b)" "rpn_ok r1" "stack_ptr r1 = stack_ptr r - 1" "in_use r1 = xs @ [a]" by auto
  from Pop_in_use [OF 1(2,4)] 1(3) obtain r2 where
    2: "Pop r1 = Some (r2, a)" "rpn_ok r2" "stack_ptr r2 = stack_ptr r - 2" "in_use r2 = xs" by auto
  have "stack_ptr r2 < 99" using 2(3) r(1) by (simp add: rpn_ok_def)
  from Push_in_use [OF 2(2) this, of x] 2(3,4) obtain r3 where
    3: "Push x r2 = Some r3" "rpn_ok r3" "stack_ptr r3 = stack_ptr r - 1" "in_use r3 = xs @ [x]" by auto
  have ne: "ascii ''-'' \<noteq> ascii ''+''" by (simp add: ascii_def)
  from 1(1) 2(1) 3 ne show "long_add a b = Some x \<Longrightarrow> \<exists>r'. rpn_arg (ascii ''+'') r = Some r' \<and> rpn_ok r' \<and> stack_ptr r' = stack_ptr r - 1 \<and> in_use r' = xs @ [x]"
    "long_sub a b = Some x \<Longrightarrow> \<exists>r'. rpn_arg (ascii ''-'') r = Some r' \<and> rpn_ok r' \<and> stack_ptr r' = stack_ptr r - 1 \<and> in_use r' = xs @ [x]"
    by (simp_all add: rpn_arg_def)
qed

lemma rpn_args_postfix:
  "parts_in_long e \<Longrightarrow> rpn_ok r \<Longrightarrow> stack_ptr r + int (stack_need e) < 100 \<Longrightarrow>
     \<exists>r'. rpn_args (postfix e) r = Some r' \<and> rpn_ok r' \<and> stack_ptr r' = stack_ptr r + 1 \<and> in_use r' = in_use r @ [of_int (eval e)]"
proof (induction e arbitrary: r)
  case (Num n)
  from Push_in_use [OF Num.prems(2), of "of_int n"] Num.prems(1,3) fmt_d_operand [of n] atol_fmt_d [of n] show ?case
    by (auto simp: rpn_arg_def)
next
  case (Plus a b)
  have need: "stack_ptr r + int (stack_need a) < 100" "stack_ptr r + 1 + int (stack_need b) < 100"
    using Plus.prems(3) by (auto simp: max_def split: if_splits)
  from Plus.IH(1) [of r] Plus.prems need obtain r1 where
    1: "rpn_args (postfix a) r = Some r1" "rpn_ok r1" "stack_ptr r1 = stack_ptr r + 1" "in_use r1 = in_use r @ [of_int (eval a)]" by auto
  from Plus.IH(2) [of r1] Plus.prems need 1 obtain r2 where
    2: "rpn_args (postfix b) r1 = Some r2" "rpn_ok r2" "stack_ptr r2 = stack_ptr r + 2" "in_use r2 = in_use r @ [of_int (eval a), of_int (eval b)]" by auto
  from rpn_operator(1) [OF 2(2,4), of "of_int (eval a + eval b)"] long_arith(1) [of "eval a" "eval b"] Plus.prems(1) 2(3) 1(1) 2(1)
  show ?case by (auto simp: rpn_args_append in_long_eval)
next
  case (Minus a b)
  have need: "stack_ptr r + int (stack_need a) < 100" "stack_ptr r + 1 + int (stack_need b) < 100"
    using Minus.prems(3) by (auto simp: max_def split: if_splits)
  from Minus.IH(1) [of r] Minus.prems need obtain r1 where
    1: "rpn_args (postfix a) r = Some r1" "rpn_ok r1" "stack_ptr r1 = stack_ptr r + 1" "in_use r1 = in_use r @ [of_int (eval a)]" by auto
  from Minus.IH(2) [of r1] Minus.prems need 1 obtain r2 where
    2: "rpn_args (postfix b) r1 = Some r2" "rpn_ok r2" "stack_ptr r2 = stack_ptr r + 2" "in_use r2 = in_use r @ [of_int (eval a), of_int (eval b)]" by auto
  from rpn_operator(2) [OF 2(2,4), of "of_int (eval a - eval b)"] long_arith(2) [of "eval a" "eval b"] Minus.prems(1) 2(3) 1(1) 2(1)
  show ?case by (auto simp: rpn_args_append in_long_eval)
qed

text \<open>
  C26. The calculator evaluates: called with an expression in postfix notation that needs at most the 100 places of its
  stack, and whose parts are in the range of \<open>long\<close>, it prints the value of the expression and exits with 0.
\<close>

theorem rpn_evaluates:
  assumes "parts_in_long e" and "stack_need e \<le> 100" and "length garbage = 100"
  shows "rpn_main (name # postfix e) garbage = Some (fmt_d (eval e) @ [10], 0)"
proof -
  let ?r = "\<lparr>stack_ptr = - 1, rpn_stack = garbage\<rparr>"
  have ok: "rpn_ok ?r" "in_use ?r = []" using assms(3) by (simp_all add: rpn_ok_def in_use_def)
  from rpn_args_postfix [OF assms(1) ok(1)] assms(2) ok(2) obtain r where
    r: "rpn_args (postfix e) ?r = Some r" "rpn_ok r" "stack_ptr r = 0" "in_use r = [] @ [of_int (eval e)]" by auto
  from Pop_in_use [OF r(2,4)] obtain r' where "Pop r = Some (r', of_int (eval e))" by auto
  with r(1,3) in_long_eval [OF assms(1)] show ?thesis by (simp add: rpn_main_def sint_of_int_long)
qed

theorem rpn_evaluates_witness:
  "rpn_main [[], ascii ''7'', ascii ''10'', ascii ''-''] (replicate 100 0) = Some (ascii ''-3'' @ [10], 0)"
proof -
  have "postfix (Minus (Num 7) (Num 10)) = [ascii ''7'', ascii ''10'', ascii ''-'']" "fmt_d (- 3) = ascii ''-3''"
    by (simp_all add: fmt_d_def ascii_def dec.simps)
  moreover have "length (replicate 100 (0 :: long)) = 100" by (rule length_replicate)
  ultimately show ?thesis
    using rpn_evaluates [of "Minus (Num 7) (Num 10)" "replicate 100 0" "[]"] by (simp add: in_long_def del: replicate.simps)
qed

text \<open>An operator without operands reads in front of the array.\<close>

lemma rpn_underflow: "rpn_main [name, ascii ''+''] garbage = None"
  by (simp add: rpn_main_def rpn_arg_def Pop_def)

end
