(* ===== verification/ProgramFiles.thy ===== *)
theory ProgramFiles
  imports Programs MemoryInit
begin

text \<open>
  The library side of the programs: \<^verbatim>\<open>apps/newlib_support.c\<close> and the stubs of \<^verbatim>\<open>kernel/newlib_support.c\<close> and
  \<^verbatim>\<open>kernel/libcxx_support.cpp\<close>, and the programs that use the streams of the C library, \<^verbatim>\<open>cp\<close>, \<^verbatim>\<open>grep\<close> and
  \<^verbatim>\<open>readfile\<close>.  The streams and regular expressions of the library are parameters, with what their documentation says as
  laws.
\<close>

section \<open>System calls for the C library\<close>

text \<open>A function of the library returns a number and may set \<open>errno\<close>.\<close>

type_synonym lib_result = "int \<times> int option"

definition EPERM :: int where "EPERM = 1"
definition EINVAL :: int where "EINVAL = 22"
definition ENOMEM :: int where "ENOMEM = 12"

text \<open>\<open>open\<close> returns an \<open>int\<close>, \<open>read\<close> and \<open>write\<close> a \<open>ssize_t\<close>; the numbers of the calls are those of \<^verbatim>\<open>apps/syscall.asm\<close>.\<close>

definition lib_return :: "(u64 \<Rightarrow> int) \<Rightarrow> Result \<Rightarrow> lib_result" where
  "lib_return conv res = (if result_error res = 0 then (conv (result_value res), None) else (- 1, Some (result_error res)))"

definition lib_open :: "u64 \<Rightarrow> u64 \<Rightarrow> Kernel \<Rightarrow> (Kernel \<times> lib_result option) option" where
  "lib_open path flags k =
     map_option (apsnd (map_option (lib_return (\<lambda>x. sint (ucast x :: u32))))) (SyscallEntry 0x80000002 path flags 0 k)"

definition lib_read :: "u64 \<Rightarrow> u64 \<Rightarrow> u64 \<Rightarrow> Kernel \<Rightarrow> (Kernel \<times> lib_result option) option" where
  "lib_read fd buf n k = map_option (apsnd (map_option (lib_return sint))) (SyscallEntry 0x80000000 fd buf n k)"

definition lib_write :: "u64 \<Rightarrow> u64 \<Rightarrow> u64 \<Rightarrow> Kernel \<Rightarrow> (Kernel \<times> lib_result option) option" where
  "lib_write fd buf n k = map_option (apsnd (map_option (lib_return sint))) (SyscallEntry 0x80000001 fd buf n k)"

text \<open>\<open>_exit\<close> does not return: the system call goes on behind \<open>CallApp\<close> in the kernel.\<close>

definition lib_exit :: "u32 \<Rightarrow> Kernel \<Rightarrow> (Kernel \<times> Result option) option" where
  "lib_exit status = SyscallEntry 0x80000003 (scast status) 0 0"

lemma lib_exit_code:
  "current_task k = Some task \<Longrightarrow>
     lib_exit status k = Some (k, Some \<lparr>result_value = os_stack_ptr task, result_error = sint status\<rparr>)"
proof -
  have "ucast (scast status :: u64) = status" by (rule bit_word_eqI) (simp add: bit_simps)
  then show "current_task k = Some task \<Longrightarrow> ?thesis"
    by (simp add: lib_exit_def SyscallEntry_def syscall_table_def sys_exit_def Let_def)
qed

definition lib_close :: "int \<Rightarrow> lib_result" where "lib_close fd = (- 1, Some EBADF)"
definition lib_fstat :: "int \<Rightarrow> lib_result" where "lib_fstat fd = (- 1, Some EBADF)"
definition lib_getpid :: lib_result where "lib_getpid = (0, None)"
definition lib_isatty :: "int \<Rightarrow> lib_result" where "lib_isatty fd = (- 1, Some EBADF)"
definition lib_kill :: "int \<Rightarrow> int \<Rightarrow> lib_result" where "lib_kill pid sig = (- 1, Some EPERM)"
definition lib_lseek :: "int \<Rightarrow> int \<Rightarrow> int \<Rightarrow> lib_result" where "lib_lseek fd off whence = (- 1, Some EBADF)"

text \<open>The kernel's own stubs.\<close>

definition kernel_getpid :: lib_result where "kernel_getpid = (1, None)"
definition kernel_kill :: "int \<Rightarrow> int \<Rightarrow> lib_result" where "kernel_kill pid sig = (- 1, Some EINVAL)"
definition kernel_close :: "int \<Rightarrow> lib_result" where "kernel_close fd = (- 1, Some EBADF)"
definition kernel_lseek :: "int \<Rightarrow> int \<Rightarrow> int \<Rightarrow> lib_result" where "kernel_lseek fd off whence = (- 1, Some EBADF)"
definition kernel_open :: "u64 \<Rightarrow> int \<Rightarrow> lib_result" where "kernel_open path flags = (- 1, Some ENOENT)"
definition kernel_read :: "int \<Rightarrow> u64 \<Rightarrow> u64 \<Rightarrow> lib_result" where "kernel_read fd buf n = (- 1, Some EBADF)"
definition kernel_write :: "int \<Rightarrow> u64 \<Rightarrow> u64 \<Rightarrow> lib_result" where "kernel_write fd buf n = (- 1, Some EBADF)"
definition kernel_fstat :: "int \<Rightarrow> u64 \<Rightarrow> lib_result" where "kernel_fstat fd buf = (- 1, Some EBADF)"
definition kernel_isatty :: "int \<Rightarrow> lib_result" where "kernel_isatty fd = (- 1, Some EBADF)"
definition kernel_posix_memalign :: "u64 \<Rightarrow> u64 \<Rightarrow> int" where "kernel_posix_memalign alignment n = ENOMEM"

section \<open>Memory of a program\<close>

text \<open>The heap of a program is a static array at \<open>heap\<close>; \<open>i\<close> is the static index, and its overflow has no defined result.\<close>

definition kAppHeapBytes :: int where [layout]: "kAppHeapBytes = 4096"

definition app_sbrk :: "u64 \<Rightarrow> int \<Rightarrow> int \<Rightarrow> (int \<times> u64) option" where
  "app_sbrk heap incr i = (if - (2 ^ 31) \<le> i + incr \<and> i + incr < 2 ^ 31 then Some (i + incr, heap + of_int i) else None)"

text \<open>\<open>malloc\<close> of the library answers the request for \<open>size + alignment - 1\<close> bytes.\<close>

definition app_posix_memalign :: "(u64 \<Rightarrow> u64 option) \<Rightarrow> u64 \<Rightarrow> u64 \<Rightarrow> int + u64" where
  "app_posix_memalign malloc alignment n =
     (case malloc (n + alignment - 1) of
        None \<Rightarrow> Inl ENOMEM
      | Some addr \<Rightarrow> Inr ((addr + alignment - 1) AND NOT (alignment - 1)))"

text \<open>\<open>sbrk\<close> does not look at the size of the array: it never fails, and hands out memory behind it.\<close>

lemma app_sbrk_overrun:
  assumes "0 \<le> incr" "incr < 2 ^ 31" "kAppHeapBytes < incr"
  shows "\<exists>i. app_sbrk heap incr 0 = Some (i, heap) \<and> kAppHeapBytes < i"
  using assms by (simp add: app_sbrk_def)

lemma unat_power_of_two: "n < 64 \<Longrightarrow> unat (2 ^ n :: u64) = 2 ^ n"
proof -
  assume "n < 64"
  then have "(2 :: nat) ^ n < 2 ^ 64" by (intro power_strict_increasing) simp_all
  from unat_of_nat_u64 [OF this] show ?thesis by simp
qed

lemma round_down:
  fixes x :: u64
  assumes "n < 64"
  shows "unat (x AND NOT (mask n)) = 2 ^ n * (unat x div 2 ^ n)"
proof -
  have d: "unat (drop_bit n x) = unat x div 2 ^ n" by (simp add: unat_drop_bit_eq flip: drop_bit_eq_div)
  have "x AND NOT (mask n) = push_bit n (drop_bit n x)" by (rule bit_word_eqI) (auto simp: bit_simps)
  also have "\<dots> = 2 ^ n * drop_bit n x" by (simp add: push_bit_eq_mult)
  finally have "unat (x AND NOT (mask n)) = unat (2 ^ n :: u64) * (unat x div 2 ^ n) mod 2 ^ 64"
    by (simp only: unat_word_ariths(2) d) simp
  moreover have "unat (2 ^ n :: u64) = 2 ^ n" using assms by (rule unat_power_of_two)
  moreover have "2 ^ n * (unat x div 2 ^ n) < 2 ^ 64"
  proof -
    have "unat x < 2 ^ LENGTH(64)" by (rule unsigned_less)
    then have "unat x < 2 ^ 64" by simp
    moreover have "2 ^ n * (unat x div 2 ^ n) \<le> unat x" by (rule times_div_less_eq_dividend)
    ultimately show ?thesis by (metis le_less_trans)
  qed
  ultimately show ?thesis by simp
qed

text \<open>
  For a power of two as alignment, and sizes that do not wrap, \<open>posix_memalign\<close> returns an aligned block of \<open>size\<close> bytes
  inside the block that \<open>malloc\<close> gave.
\<close>

theorem posix_memalign_aligned:
  assumes "n < 64" "unat sz + 2 ^ n < 2 ^ 64" "malloc (sz + 2 ^ n - 1) = Some p"
    and "unat p + unat (sz + 2 ^ n - 1) < 2 ^ 64"
  shows "\<exists>a. app_posix_memalign malloc (2 ^ n) sz = Inr a \<and> unat a mod 2 ^ n = 0
    \<and> unat p \<le> unat a \<and> unat a + unat sz \<le> unat p + unat (sz + 2 ^ n - 1)"
proof -
  let ?a = "(p + 2 ^ n - 1) AND NOT (2 ^ n - 1)"
  have two: "unat (2 ^ n :: u64) = 2 ^ n" using assms(1) by (rule unat_power_of_two)
  have "(1 :: u64) \<le> 2 ^ n" using two by (simp add: word_le_nat_alt)
  then have one: "unat (2 ^ n - 1 :: u64) = 2 ^ n - 1" by (simp add: unat_sub two)
  have len: "unat (sz + 2 ^ n - 1) = unat sz + (2 ^ n - 1)"
  proof -
    have "sz + 2 ^ n - 1 = sz + (2 ^ n - 1)" by simp
    then show ?thesis using assms(2) one by (simp only: unat_word_ariths(1)) simp
  qed
  have q: "unat (p + 2 ^ n - 1) = unat p + (2 ^ n - 1)"
  proof -
    have "p + 2 ^ n - 1 = p + (2 ^ n - 1)" by simp
    then show ?thesis using assms(4) one unfolding len by (simp only: unat_word_ariths(1)) simp
  qed
  have m: "(2 ^ n - 1 :: u64) = mask n" by (simp add: mask_eq_exp_minus_1)
  have a: "unat ?a = 2 ^ n * ((unat p + (2 ^ n - 1)) div 2 ^ n)" unfolding m round_down [OF assms(1)] q [unfolded m] by (simp add: q)
  have "unat ?a + (unat p + (2 ^ n - 1)) mod 2 ^ n = unat p + (2 ^ n - 1)" unfolding a by (rule mult_div_mod_eq)
  moreover have "(unat p + (2 ^ n - 1)) mod 2 ^ n < 2 ^ n" by simp
  ultimately have lo: "unat p \<le> unat ?a" and hi: "unat ?a \<le> unat p + (2 ^ n - 1)" by linarith+
  have "unat ?a + unat sz \<le> unat p + unat (sz + 2 ^ n - 1)" unfolding len using hi by linarith
  moreover have "app_posix_memalign malloc (2 ^ n) sz = Inr ?a" using assms(3) by (simp add: app_posix_memalign_def)
  moreover have "unat ?a mod 2 ^ n = 0" unfolding a by simp
  ultimately show ?thesis using lo by (intro exI [of _ ?a] conjI)
qed

theorem posix_memalign_aligned_witness:
  "app_posix_memalign (\<lambda>n. if n \<le> 4096 then Some 0x1003 else None) 16 100 = Inr 0x1010"
proof -
  have e: "\<exists>a. app_posix_memalign (\<lambda>n. if n \<le> 4096 then Some 0x1003 else None) (2 ^ 4) 100 = Inr a \<and> unat a mod 2 ^ 4 = 0
    \<and> unat (0x1003 :: u64) \<le> unat a \<and> unat a + unat (100 :: u64) \<le> unat (0x1003 :: u64) + unat (100 + 2 ^ 4 - 1 :: u64)"
    by (rule posix_memalign_aligned) simp_all
  have "app_posix_memalign (\<lambda>n. if n \<le> 4096 then Some 0x1003 else None) 16 100 = Inr (0x1012 AND NOT 15)"
    by (simp add: app_posix_memalign_def)
  also have "(0x1012 AND NOT 15 :: u64) = 0x1010" by code_simp
  finally show ?thesis using e by simp
qed

section \<open>Programs on streams\<close>

text \<open>The streams of the library over a state of their own: a stream is a number, \<open>fgets\<close> returns the line without its end mark, which \<open>%s\<close> and
  \<open>regex_search\<close> read as a C string.\<close>

record 'f Stdio =
  c_fopen :: "u8 list \<Rightarrow> string \<Rightarrow> 'f \<Rightarrow> nat option \<times> 'f"
  c_fread :: "nat \<Rightarrow> nat \<Rightarrow> 'f \<Rightarrow> u8 list \<times> 'f"
  c_fwrite :: "nat \<Rightarrow> u8 list \<Rightarrow> 'f \<Rightarrow> nat \<times> 'f"
  c_fgets :: "nat \<Rightarrow> nat \<Rightarrow> 'f \<Rightarrow> u8 list option \<times> 'f"
  c_regex_search :: "u8 list \<Rightarrow> u8 list \<Rightarrow> bool"

text \<open>A program ends with its output, its exit code and the state of the streams.\<close>

type_synonym 'f ended = "(u8 list \<times> int \<times> 'f) option"

definition usage :: "string \<Rightarrow> u8 list list \<Rightarrow> 'f \<Rightarrow> 'f ended" where
  "usage params argv f =
     (case argv of [] \<Rightarrow> None | name # _ \<Rightarrow> Some (ascii ''Usage: '' @ name @ ascii params @ [10], 1, f))"

partial_function (option) cp_loop :: "'f Stdio \<Rightarrow> u8 list \<Rightarrow> nat \<Rightarrow> nat \<Rightarrow> 'f \<Rightarrow> 'f ended" where
  "cp_loop io dest fp_src fp_dest f =
     (let (buf, f1) = c_fread io fp_src 256 f
      in if buf = [] then Some ([], 0, f1)
         else let (n, f2) = c_fwrite io fp_dest buf f1
              in if length buf \<noteq> n then Some (ascii ''failed to write to '' @ dest @ [10], 1, f2)
                 else cp_loop io dest fp_src fp_dest f2)"

definition cp_main :: "'f Stdio \<Rightarrow> u8 list list \<Rightarrow> 'f \<Rightarrow> 'f ended" where
  "cp_main io argv f =
     (if length argv < 3 then usage '' <src> <dest>'' argv f
      else case c_fopen io (argv ! 1) ''r'' f of
             (None, f1) \<Rightarrow> Some (ascii ''failed to open for read: '' @ argv ! 1 @ [10], 1, f1)
           | (Some fp_src, f1) \<Rightarrow>
               (case c_fopen io (argv ! 2) ''w'' f1 of
                  (None, f2) \<Rightarrow> Some (ascii ''failed to open for write: '' @ argv ! 2 @ [10], 1, f2)
                | (Some fp_dest, f2) \<Rightarrow> cp_loop io (argv ! 2) fp_src fp_dest f2))"

partial_function (option) grep_loop :: "'f Stdio \<Rightarrow> u8 list \<Rightarrow> nat \<Rightarrow> u8 list \<Rightarrow> 'f \<Rightarrow> 'f ended" where
  "grep_loop io pattern fp out f =
     (case c_fgets io fp 256 f of
        (None, f1) \<Rightarrow> Some (out, 0, f1)
      | (Some line, f1) \<Rightarrow> grep_loop io pattern fp
          (if c_regex_search io pattern (c_string line) then out @ c_string line else out) f1)"

definition grep_main :: "'f Stdio \<Rightarrow> u8 list list \<Rightarrow> 'f \<Rightarrow> 'f ended" where
  "grep_main io argv f =
     (if length argv < 3 then usage '' <pattern> <file>'' argv f
      else case c_fopen io (argv ! 2) ''r'' f of
             (None, f1) \<Rightarrow> Some (ascii ''failed to open: '' @ argv ! 2 @ [10], 1, f1)
           | (Some fp, f1) \<Rightarrow> grep_loop io (argv ! 1) fp [] f1)"

fun readfile_lines :: "'f Stdio \<Rightarrow> nat \<Rightarrow> nat \<Rightarrow> u8 list \<Rightarrow> 'f \<Rightarrow> u8 list \<times> int \<times> 'f" where
  "readfile_lines io fp 0 out f = (out @ ascii ''-----'' @ [10], 0, f)"
| "readfile_lines io fp (Suc k) out f =
     (case c_fgets io fp 256 f of
        (None, f1) \<Rightarrow> (out @ ascii ''failed to get a line'' @ [10], 1, f1)
      | (Some line, f1) \<Rightarrow> readfile_lines io fp k (out @ c_string line) f1)"

definition readfile_main :: "'f Stdio \<Rightarrow> u8 list list \<Rightarrow> 'f \<Rightarrow> 'f ended" where
  "readfile_main io argv f =
     (let path = (if length argv \<ge> 2 then argv ! 1 else ascii ''/memmap'')
      in case c_fopen io path ''r'' f of
           (None, f1) \<Rightarrow> Some (ascii ''failed to open: '' @ path @ [10], 1, f1)
         | (Some fp, f1) \<Rightarrow> Some (readfile_lines io fp 3 [] f1))"

section \<open>What the library promises\<close>

text \<open>
  For each stream what is left to read and what was written through it.  \<open>fread\<close> returns as many bytes as there are,
  \<open>fwrite\<close> writes all bytes or reports fewer, and \<open>fgets\<close> takes a line with its line end, or as much of it as fits.
\<close>

fun first_line :: "nat \<Rightarrow> u8 list \<Rightarrow> u8 list" where
  "first_line 0 bs = []"
| "first_line n [] = []"
| "first_line (Suc n) (b # bs) = (if b = 10 then [b] else b # first_line n bs)"

definition stdio_law :: "'f Stdio \<Rightarrow> ('f \<Rightarrow> nat \<Rightarrow> u8 list) \<Rightarrow> ('f \<Rightarrow> nat \<Rightarrow> u8 list) \<Rightarrow> bool" where
  "stdio_law io rest sent \<longleftrightarrow>
     (\<forall>h n f. case c_fread io h n f of (bs, f') \<Rightarrow>
        bs = take n (rest f h) \<and> rest f' = (rest f)(h := drop n (rest f h)) \<and> sent f' = sent f)
     \<and> (\<forall>h bs f. case c_fwrite io h bs f of (n, f') \<Rightarrow>
        n = length bs \<and> rest f' = rest f \<and> sent f' = (sent f)(h := sent f h @ bs) \<or> n < length bs)
     \<and> (\<forall>h n f. case c_fgets io h n f of (r, f') \<Rightarrow>
        r = (if rest f h = [] then None else Some (first_line (n - 1) (rest f h)))
        \<and> rest f' = (rest f)(h := drop (length (first_line (n - 1) (rest f h))) (rest f h)) \<and> sent f' = sent f)"

lemma first_line_length: "bs \<noteq> [] \<Longrightarrow> 0 < n \<Longrightarrow> 0 < length (first_line n bs)" "length (first_line n bs) \<le> length bs"
  by (induction n bs rule: first_line.induct) auto

lemma drop_line: "bs \<noteq> [] \<Longrightarrow> length (drop (length (first_line 255 bs)) bs) < length bs"
proof -
  assume "bs \<noteq> []"
  with first_line_length(1) [of bs 255] have "0 < length (first_line 255 bs)" "0 < length bs" by simp_all
  from diff_less [OF this] show ?thesis by (simp only: length_drop)
qed

function file_lines :: "u8 list \<Rightarrow> u8 list list" where
  "file_lines bs = (if bs = [] then [] else first_line 255 bs # file_lines (drop (length (first_line 255 bs)) bs))"
  by auto

termination
  by (relation "measure length") (simp, simp only: in_measure, rule drop_line)

declare file_lines.simps [simp del]

lemma stdio_runs:
  assumes law: "stdio_law io rest sent"
  shows "c_fread io h n f = (bs, f') \<Longrightarrow> bs = take n (rest f h) \<and> rest f' = (rest f)(h := drop n (rest f h)) \<and> sent f' = sent f"
    and "c_fwrite io h bs f = (k, f') \<Longrightarrow>
      k = length bs \<and> rest f' = rest f \<and> sent f' = (sent f)(h := sent f h @ bs) \<or> k < length bs"
    and "c_fgets io h n f = (r, f') \<Longrightarrow> r = (if rest f h = [] then None else Some (first_line (n - 1) (rest f h)))
      \<and> rest f' = (rest f)(h := drop (length (first_line (n - 1) (rest f h))) (rest f h)) \<and> sent f' = sent f"
  using law [unfolded stdio_law_def, THEN conjunct1, rule_format, where h = h and n = n and f = f]
    law [unfolded stdio_law_def, THEN conjunct2, THEN conjunct1, rule_format, where h = h and bs = bs and f = f]
    law [unfolded stdio_law_def, THEN conjunct2, THEN conjunct2, rule_format, where h = h and n = n and f = f]
  by simp_all

definition short_write :: "'f Stdio \<Rightarrow> nat \<Rightarrow> bool" where
  "short_write io h \<longleftrightarrow> (\<exists>bs f. fst (c_fwrite io h bs f) < length bs)"

lemma cp_loop_run:
  assumes law: "stdio_law io rest sent" and ne: "src \<noteq> dst"
  shows "\<exists>out code f'. cp_loop io dest src dst f = Some (out, code, f')
    \<and> (code = 0 \<and> out = [] \<and> sent f' dst = sent f dst @ rest f src
       \<or> code = 1 \<and> out = ascii ''failed to write to '' @ dest @ [10] \<and> short_write io dst)"
proof (induction "length (rest f src)" arbitrary: f rule: less_induct)
  case less
  obtain buf f1 where 1: "c_fread io src 256 f = (buf, f1)" by fastforce
  then have r: "buf = take 256 (rest f src)" "rest f1 = (rest f)(src := drop 256 (rest f src))" "sent f1 = sent f"
    using stdio_runs(1) [OF law 1] by simp_all
  show ?case
  proof (cases "buf = []")
    case True
    then show ?thesis using r 1 by (subst cp_loop.simps) simp
  next
    case False
    obtain n f2 where 2: "c_fwrite io dst buf f1 = (n, f2)" by fastforce
    then have w: "n = length buf \<and> rest f2 = rest f1 \<and> sent f2 = (sent f1)(dst := sent f1 dst @ buf) \<or> n < length buf"
      by (rule stdio_runs(2) [OF law])
    show ?thesis
    proof (cases "n = length buf")
      case True
      with w have w: "rest f2 = rest f1" "sent f2 = (sent f1)(dst := sent f1 dst @ buf)" by auto
      have "length (rest f2 src) < length (rest f src)" using False r w by simp
      from less [OF this] obtain out code f' where
        3: "cp_loop io dest src dst f2 = Some (out, code, f')"
          "code = 0 \<and> out = [] \<and> sent f' dst = sent f2 dst @ rest f2 src \<or> code = 1 \<and> out = ascii ''failed to write to '' @ dest @ [10] \<and> short_write io dst"
        by blast
      have "cp_loop io dest src dst f = Some (out, code, f')" using 1 2 3(1) False True by (subst cp_loop.simps) simp
      with 3(2) w r show ?thesis by auto
    next
      case n: False
      with w 2 have "fst (c_fwrite io dst buf f1) < length buf" by simp
      then have "short_write io dst" unfolding short_write_def by blast
      with n 1 2 False show ?thesis by (subst cp_loop.simps) simp
    qed
  qed
qed


text \<open>\<^verbatim>\<open>grep\<close> prints the lines in which the pattern is found, in their order, and ends.\<close>

lemma grep_loop_run:
  assumes law: "stdio_law io rest sent"
  shows "\<exists>f'. grep_loop io pattern fp out f = Some (out @ concat (filter (c_regex_search io pattern) (map c_string (file_lines (rest f fp)))), 0, f')"
proof (induction "length (rest f fp)" arbitrary: f out rule: less_induct)
  case less
  obtain r f1 where 1: "c_fgets io fp 256 f = (r, f1)" by fastforce
  then have r: "r = (if rest f fp = [] then None else Some (first_line 255 (rest f fp)))"
      "rest f1 = (rest f)(fp := drop (length (first_line 255 (rest f fp))) (rest f fp))"
    using stdio_runs(3) [OF law 1] by simp_all
  show ?case
  proof (cases "rest f fp = []")
    case True
    with r 1 show ?thesis by (subst grep_loop.simps) (simp add: file_lines.simps)
  next
    case False
    with r drop_line [OF False] have "length (rest f1 fp) < length (rest f fp)" by simp
    let ?line = "c_string (first_line 255 (rest f fp))"
    let ?out = "if c_regex_search io pattern ?line then out @ ?line else out"
    from less [OF \<open>length (rest f1 fp) < length (rest f fp)\<close>, of ?out] obtain f' where
      "grep_loop io pattern fp ?out f1 = Some (?out @ concat (filter (c_regex_search io pattern) (map c_string (file_lines (rest f1 fp)))), 0, f')" by blast
    moreover have "grep_loop io pattern fp out f = grep_loop io pattern fp ?out f1"
      using r(1) 1 False by (subst grep_loop.simps) simp
    moreover have "map c_string (file_lines (rest f fp)) = ?line # map c_string (file_lines (rest f1 fp))" using False r(2) by (subst file_lines.simps) simp
    ultimately show ?thesis by (cases "c_regex_search io pattern ?line") simp_all
  qed
qed

theorem grep_matches:
  assumes "stdio_law io rest sent" and "length argv \<ge> 3" and "c_fopen io (argv ! 2) ''r'' f = (Some fp, f1)"
  shows "\<exists>f'. grep_main io argv f = Some (concat (filter (c_regex_search io (argv ! 1)) (map c_string (file_lines (rest f1 fp)))), 0, f')"
  using grep_loop_run [OF assms(1), of "argv ! 1" fp "[]" f1] assms(2,3) by (auto simp: grep_main_def)

text \<open>The lines of a file are its contents cut into pieces.\<close>

lemma take_first_line: "first_line n bs = take (length (first_line n bs)) bs"
  by (induction n bs rule: first_line.induct) auto

lemma concat_file_lines: "concat (file_lines bs) = bs"
proof (induction bs rule: file_lines.induct)
  case (1 bs)
  show ?case
  proof (cases "bs = []")
    case False
    with 1 have "concat (file_lines bs) = first_line 255 bs @ drop (length (first_line 255 bs)) bs"
      by (subst file_lines.simps) simp
    also have "\<dots> = bs" by (subst take_first_line) (rule append_take_drop_id)
    finally show ?thesis .
  qed (simp add: file_lines.simps)
qed

text \<open>Streams over a state that maps each stream to what is left of it and what was written to it.\<close>

definition sample_stdio :: "((nat \<Rightarrow> u8 list) \<times> (nat \<Rightarrow> u8 list)) Stdio" where
  "sample_stdio =
     \<lparr>c_fopen = \<lambda>path mode f. (Some (if mode = ''r'' then 3 else 4), f),
      c_fread = \<lambda>h n (r, w). (take n (r h), (r(h := drop n (r h)), w)),
      c_fwrite = \<lambda>h bs (r, w). (length bs, (r, w(h := w h @ bs))),
      c_fgets = \<lambda>h n (r, w). (if r h = [] then None else Some (first_line (n - 1) (r h)),
                                (r(h := drop (length (first_line (n - 1) (r h))) (r h)), w)),
      c_regex_search = \<lambda>pattern line. hd pattern \<in> set line\<rparr>"

lemma sample_stdio_law: "stdio_law sample_stdio fst snd"
  by (simp add: stdio_law_def sample_stdio_def split: prod.splits)


end
