(* ===== verification/Spec2Isabelle.thy ===== *)
theory Spec2Isabelle
  imports Prelude ErrorCodes MemoryInit Timers FatFiles Descriptors ArgVector IdentityMap Pipes KernelMain ShellPipes ShellTerminal Isolation
    BootRun ProgramFiles
begin

text \<open>
  Verification of the moxia operating system.

  Moxia is a small operating system for x86-64: a UEFI loader (\<^verbatim>\<open>MoxiaLoaderPkg/Main.c\<close>), a kernel
  (\<^verbatim>\<open>kernel/\<close>) and a few programs (\<^verbatim>\<open>apps/\<close>).  This development models them in definitions that
  follow the functions of the source one by one, and proves what makes each part correct.

  \<^bold>\<open>Conventions\<close> (\<^verbatim>\<open>Prelude\<close>).  Machine integers are words of their width, or \<open>nat\<close> where the source's
  values cannot wrap.  An execution that has no defined result (an index outside an array, a dangling pointer,
  the front of an empty queue, a page fault in the kernel, a loop that does not end) is \<open>None\<close>; a returned
  \<open>Error\<close> is \<open>Inl\<close> of its code, or the code beside the state where the state changes before the error.
  State is passed explicitly: each component has a record, and an operation returns the changed one.

  \<^bold>\<open>Memory\<close>.  \<^verbatim>\<open>FrameAllocator\<close> models \<^verbatim>\<open>memory_manager.hpp\<close> and the bitmap part of \<^verbatim>\<open>memory_manager.cpp\<close> (first fit);
  \<^verbatim>\<open>MemoryInit\<close> the initialisation from the UEFI memory map, the kernel heap and \<open>sbrk\<close> of \<^verbatim>\<open>newlib_support.c\<close>.  The
  locale \<open>frame_source\<close> states what the clients of the allocator rely on and is interpreted on the bitmap.

  \<^bold>\<open>Tasks\<close>.  \<^verbatim>\<open>ErrorCodes\<close>, \<^verbatim>\<open>Messages\<close> and \<^verbatim>\<open>Tasks\<close> model \<^verbatim>\<open>error.hpp\<close>, \<^verbatim>\<open>message.hpp\<close>, \<^verbatim>\<open>task.hpp\<close> and
  \<^verbatim>\<open>task.cpp\<close>.  \<^verbatim>\<open>SchedulerInvariant\<close> has the invariant of the run queues and one lemma for each operation;
  \<^verbatim>\<open>Scheduler\<close> has the step relation, the reachable states and the properties: no operation fails, priorities,
  fairness, messages in order, finishing and waiting.  \<^verbatim>\<open>Timers\<close> models \<^verbatim>\<open>timer.cpp\<close>; its queue is specified by
  the locale \<open>min_queue\<close>.  \<^verbatim>\<open>Pipes\<close> models \<open>PipeDescriptor\<close> of \<^verbatim>\<open>terminal.cpp\<close> as a byte stream over the
  messages between two tasks (locale \<open>byte_stream\<close>).

  \<^bold>\<open>Files\<close>.  \<^verbatim>\<open>ByteMemory\<close> has little-endian integers in byte memories.  \<^verbatim>\<open>FatVolume\<close>, \<^verbatim>\<open>FatChains\<close>,
  \<^verbatim>\<open>FatNames\<close>, \<^verbatim>\<open>FatDirectory\<close> and \<^verbatim>\<open>FatFiles\<close> model \<^verbatim>\<open>fat.hpp\<close> and \<^verbatim>\<open>fat.cpp\<close> on the bytes of the volume image: the
  geometry and the table, cluster chains (locale \<open>cluster_store\<close>), 8.3 names, directories and paths, and
  reading, writing and loading files.  An abstract view gives each file its chain and its contents; the properties
  say how each operation changes the view and that every other file keeps its own.

  \<^bold>\<open>Address spaces and programs\<close>.  \<^verbatim>\<open>Paging\<close> models \<^verbatim>\<open>paging.hpp\<close> and the page map functions of
  \<^verbatim>\<open>terminal.cpp\<close>; \<^verbatim>\<open>PageTrees\<close> sees the page maps as a tree of disjoint frames, \<^verbatim>\<open>PageMaps\<close> proves creation and
  removal, \<^verbatim>\<open>VirtualMemory\<close> defines what the processor does for an address and how the memory of a program grows,
  \<^verbatim>\<open>IdentityMap\<close> models \<^verbatim>\<open>paging.cpp\<close>, \<^verbatim>\<open>ElfLoader\<close> models \<open>LoadELF\<close> and its parts, and \<^verbatim>\<open>ArgVector\<close> \<open>MakeArgVector\<close>.
  \<^verbatim>\<open>ProgramStart\<close> composes them: \<open>ExecuteFile\<close> enters a program with its segments, arguments and stack in place.
  \<^verbatim>\<open>Isolation\<close> adds the user bits: no program can read or write what the kernel holds, whatever it does.

  \<^bold>\<open>Devices\<close>.  \<^verbatim>\<open>Descriptors\<close> models \<^verbatim>\<open>segment.cpp\<close> and the gates of \<^verbatim>\<open>interrupt.cpp\<close>; \<^verbatim>\<open>Ports\<close> models
  \<^verbatim>\<open>pic.cpp\<close> on the sequence of port writes, with what a port read returns as a parameter; \<^verbatim>\<open>Keyboard\<close> models
  \<^verbatim>\<open>keyboard.cpp\<close>; \<^verbatim>\<open>Display\<close> models pixels and fonts (\<^verbatim>\<open>graphics.cpp\<close>, \<^verbatim>\<open>fonts.cpp\<close>); \<^verbatim>\<open>Console\<close> models
  \<^verbatim>\<open>console.cpp\<close>; \<^verbatim>\<open>KernelMain\<close> models \<^verbatim>\<open>printk.cpp\<close> and the main loop of \<^verbatim>\<open>Main.cpp\<close>.

  \<^bold>\<open>System calls and descriptors\<close>.  \<^verbatim>\<open>FileDescriptors\<close> joins the parts in one record \<open>Kernel\<close> and models \<^verbatim>\<open>file.cpp\<close> and
  the virtual functions of the three kinds of descriptors, with the line discipline of the terminal; a descriptor is
  an index in the list \<open>objects\<close>.  \<^verbatim>\<open>Syscalls\<close> models \<^verbatim>\<open>syscall.cpp\<close> and the dispatch in \<^verbatim>\<open>asmfunc.asm\<close>.
  \<^verbatim>\<open>KernelInvariant\<close> has the step relation of the whole kernel, with a step for each system call with any arguments,
  each interrupt and each message, and proves that every reachable state is well-formed.

  \<^bold>\<open>Shell\<close>.  \<^verbatim>\<open>Shell\<close> models the rest of \<^verbatim>\<open>terminal.cpp\<close>: \<open>ExecuteFile\<close>, \<open>ExecuteCommand\<close> with its commands,
  redirection and pipes, and \<open>TaskTerminal\<close>.  \<^verbatim>\<open>ShellCommands\<close> proves what \<open>cat\<close>, \<open>ls\<close> and \<open>echo\<close> into a file do,
  \<^verbatim>\<open>ShellPipes\<close> a pipe between two commands, \<^verbatim>\<open>ShellTerminal\<close> the terminal's reading of lines.  What a program does
  between \<open>CallApp\<close> and its exit is a parameter.

  \<^bold>\<open>From power-on to the main loop\<close>.  \<^verbatim>\<open>BootImage\<close> models how \<^verbatim>\<open>MoxiaLoaderPkg/Main.c\<close> puts the kernel's segments in
  memory, \<^verbatim>\<open>BootLoader\<close> the whole loader over a record of the firmware's services, and \<^verbatim>\<open>BootRun\<close> states what the UEFI
  specification promises of the services as laws over an abstract view of the firmware and proves that the kernel
  is entered.  \<^verbatim>\<open>KernelStart\<close> models \<open>KernelMainNewStack\<close> up to its loop, the local APIC timer, \<open>InitializeSyscall\<close> and
  the handlers of faults, and proves that the state in which the loop begins is well-formed.

  \<^bold>\<open>Programs\<close>.  \<^verbatim>\<open>Programs\<close> models \<^verbatim>\<open>apps/rpn\<close> and proves that it evaluates expressions; \<^verbatim>\<open>ProgramFiles\<close> models the
  functions under the C library (\<^verbatim>\<open>apps/newlib_support.c\<close>, the stubs of \<^verbatim>\<open>kernel/newlib_support.c\<close>) and \<^verbatim>\<open>apps/cp\<close>,
  \<^verbatim>\<open>apps/grep\<close> and \<^verbatim>\<open>apps/readfile\<close> over streams, whose documented behaviour is the law \<open>stdio_law\<close>; \<^verbatim>\<open>apps/fault\<close>
  is in \<^verbatim>\<open>Isolation\<close>.  Below are the properties from the keyboard to the shell.

  \<^bold>\<open>Bounds and termination\<close>.  All loops over data terminate by a measure; the loops that wait for
  something (\<open>tick_loop\<close>, \<open>pipe_read_loop\<close>) and the loops over streams are partial functions, and their properties
  state that they return.  A loop that sleeps until it is woken is modelled by its round.  Starting a program needs ten free
  frames and four for each page of its segments; starting the kernel needs 32784 available frames in a row, for the
  heap and the two stacks.

  \<^bold>\<open>Not modelled\<close>.  The instructions of \<^verbatim>\<open>asmfunc.asm\<close> other than port access, the writes of model-specific
  registers, the dispatch of system calls and the context switch as a copy of the saved registers; \<^verbatim>\<open>apps/onlyhlt\<close>,
  one instruction; \<open>TaskB\<close>, which nothing calls; the calls of \<open>Print\<close> in the loader and \<open>GetPixelFormatUnicode\<close>, whose
  result is only printed; the formatting of the C library beyond decimal and hexadecimal numbers and strings; the
  C++ support functions but \<open>posix_memalign\<close>; the relocation structures of \<^verbatim>\<open>elf.hpp\<close>, which nothing uses.  Interrupts
  act between the operations of the model, not within one: the source disables them around the operations on tasks.
\<close>

section \<open>From the keyboard to the terminal\<close>

lemma keys_path:
  assumes inv: "sched_inv tm" and t: "find_task tm 1 = Some t" "int_values (msgs t)" and u: "find_task tm j = Some u" "j \<noteq> 1"
  shows "\<exists>kb tm1 io' t1 m' tm2 con' t2 u2.
      keyboard_interrupts inb n (reset_keyboard, tm, io) = Some (kb, tm1, io') \<and> find_task tm1 1 = Some t1
    \<and> main_rounds 1 j (length (msgs t1)) (m, tm1, regs, con) = Some (m', tm2, regs, con')
    \<and> sched_inv tm2 \<and> CurrentTask tm2 = CurrentTask tm \<and> find_task tm2 1 = Some t2 \<and> msgs t2 = []
    \<and> find_task tm2 j = Some u2 \<and> msgs u2 = msgs u @ keys_of (msgs t) @ map kKeyboardPush (keys_typed {} (scancodes inb io n))"
proof -
  have "keyboard_shows reset_keyboard {}" by (simp add: keyboard_shows_def reset_keyboard_def)
  from keyboard_interrupts_run [OF inv t(1) this, of inb n io] obtain kb tm1 io' where
    kb: "keyboard_interrupts inb n (reset_keyboard, tm, io) = Some (kb, tm1, io')"
    and got: "got_keys tm tm1 (keys_typed {} (scancodes inb io n))" by blast
  from got t u obtain t1 where t1: "sched_inv tm1" "find_task tm1 1 = Some t1"
      "msgs t1 = msgs t @ map kKeyboardPush (keys_typed {} (scancodes inb io n))" and u1: "find_task tm1 j = Some u"
    by (auto simp: got_keys_def)
  have "int_values (msgs t1)" using t(2) t1(3) by (auto simp: int_values_def)
  from main_rounds_run [OF t1(1,2) u1 u(2) [symmetric] this, of m regs con] obtain m' tm2 con' t2 u2 where
    "main_rounds 1 j (length (msgs t1)) (m, tm1, regs, con) = Some (m', tm2, regs, con')" "sched_inv tm2" "CurrentTask tm2 = CurrentTask tm1"
    "find_task tm2 1 = Some t2" "msgs t2 = []" "find_task tm2 j = Some u2" "msgs u2 = msgs u @ keys_of (msgs t1)" by blast
  moreover have "CurrentTask tm1 = CurrentTask tm" using got by (simp add: got_keys_def)
  ultimately show ?thesis using kb t1 by (fastforce simp: keys_of_append)
qed

text \<open>
  What is typed reaches the terminal: after any number of keyboard interrupts, with messages of timers waiting or
  not, the main task empties its queue without failing, and the terminal has received every key, those that
  were waiting first, in the order they were typed.
\<close>

theorem keys_reach_terminal:
  assumes r: "reachable (tm, regs)" and t: "find_task tm 1 = Some t" "int_values (msgs t)" and u: "find_task tm j = Some u" "j \<noteq> 1"
  shows "\<exists>kb tm1 io' t1 m' tm2 con' t2 u2.
      keyboard_interrupts inb n (reset_keyboard, tm, io) = Some (kb, tm1, io') \<and> find_task tm1 1 = Some t1
    \<and> main_rounds 1 j (length (msgs t1)) (m, tm1, regs, con) = Some (m', tm2, regs, con')
    \<and> find_task tm2 1 = Some t2 \<and> msgs t2 = []
    \<and> find_task tm2 j = Some u2 \<and> msgs u2 = msgs u @ keys_of (msgs t) @ map kKeyboardPush (keys_typed {} (scancodes inb io n))"
proof -
  have "sched_inv tm" using reachable_sched_inv [OF r] by simp
  from keys_path [OF this t u, of inb n io m regs con] show ?thesis by blast
qed

text \<open>The terminal is task 3, as at boot; \<open>H\<close> and \<open>i\<close> are typed.\<close>

theorem keys_reach_terminal_witness:
  "\<forall>con. \<exists>kb tm1 io' t1 m' tm2 con' u2.
      keyboard_interrupts sample_device 4 (reset_keyboard, terminal_manager, []) = Some (kb, tm1, io') \<and> find_task tm1 1 = Some t1
    \<and> main_rounds 1 3 (length (msgs t1)) (new_TimerManager, tm1, blank_context, con) = Some (m', tm2, blank_context, con')
    \<and> find_task tm2 3 = Some u2 \<and> msgs u2 = [kKeyboardPush 0x148, kKeyboardPush 0x69]"
proof
  fix con :: Console
  obtain t u where t: "find_task terminal_manager 1 = Some t" "msgs t = []" and u: "find_task terminal_manager 3 = Some u" "msgs u = []"
    using terminal_manager_facts by (auto simp: new_Task_def InitContext_def)
  then have "int_values (msgs t)" by (simp add: int_values_def)
  from keys_reach_terminal [OF terminal_manager_reachable t(1) this u(1), of sample_device 4 "[]" new_TimerManager con] t u
  show "\<exists>kb tm1 io' t1 m' tm2 con' u2.
      keyboard_interrupts sample_device 4 (reset_keyboard, terminal_manager, []) = Some (kb, tm1, io') \<and> find_task tm1 1 = Some t1
    \<and> main_rounds 1 3 (length (msgs t1)) (new_TimerManager, tm1, blank_context, con) = Some (m', tm2, blank_context, con')
    \<and> find_task tm2 3 = Some u2 \<and> msgs u2 = [kKeyboardPush 0x148, kKeyboardPush 0x69]"
    by (auto simp: sample_scancodes sample_keys simp del: keys_typed.simps)
qed

text \<open>
  C3. From the keyboard to the command: when the keys typed are a line and the enter key, and no older keys wait, then
  after the keyboard interrupts and the rounds of the main task the terminal echoes the line character by
  character and, in its next round, runs the command with exactly the characters typed, modifier bits removed.
\<close>

theorem typed_line_runs:
  assumes r: "reachable (tm, regs)" and t: "find_task tm 1 = Some t" "int_values (msgs t)" "keys_of (msgs t) = []"
    and u: "find_task tm (tty_task T) = Some u" "tty_task T \<noteq> 1" "msgs u = []" and T: "waiting T = None" "line_buf T = []"
    and typed: "keys_typed {} (scancodes inb io n) = codes @ [enter]" "10 \<notin> key_byte ` set codes" "key_byte enter = 10"
  shows "\<exists>kb tm1 io' t1 m' tm2 con' tm3 tm4. let line = map key_byte codes; T1 = T\<lparr>line_buf := line\<rparr>;
        k1 = k\<lparr>task_mgr := tm2, cpu := regs, screen := con'\<rparr>;
        k2 = k1\<lparr>task_mgr := tm3, screen := fold PutChar line con'\<rparr>;
        k3 = k1\<lparr>task_mgr := tm4, screen := fold PutChar (line @ [10]) con'\<rparr>
      in keyboard_interrupts inb n (reset_keyboard, tm, io) = Some (kb, tm1, io') \<and> find_task tm1 1 = Some t1
       \<and> main_rounds 1 (tty_task T) (length (msgs t1)) (m, tm1, regs, screen k) = Some (m', tm2, regs, con')
       \<and> terminal_rounds env (length codes) T k1 = Some (k2, Some T1, [])
       \<and> TaskTerminal_round env T1 k2 = run_line env line T1 k3
       \<and> sched_inv tm4 \<and> CurrentTask tm4 = CurrentTask tm \<and> unread T tm4 = []"
proof -
  have "sched_inv tm" using reachable_sched_inv [OF r] by simp
  from keys_path [OF this t(1,2) u(1,2), of inb n io m regs "screen k"] u(3) t(3) typed(1)
  obtain kb tm1 io' t1 m' tm2 con' u2 where
    p: "keyboard_interrupts inb n (reset_keyboard, tm, io) = Some (kb, tm1, io')" "find_task tm1 1 = Some t1"
      "main_rounds 1 (tty_task T) (length (msgs t1)) (m, tm1, regs, screen k) = Some (m', tm2, regs, con')"
    and q: "sched_inv tm2" "CurrentTask tm2 = CurrentTask tm" "find_task tm2 (tty_task T) = Some u2"
      "msgs u2 = map kKeyboardPush (codes @ [enter])" by auto
  let ?k = "k\<lparr>task_mgr := tm2, cpu := regs, screen := con'\<rparr>"
  have "unread T (task_mgr ?k) = map kKeyboardPush (codes @ [enter]) @ []" using q by (simp add: unread_def)
  from line_rounds [OF T(1) _ this typed(2,3), of env] q(1,2) T(2) obtain tm3 tm4 where
    "terminal_rounds env (length codes) T ?k
       = Some (?k\<lparr>task_mgr := tm3, screen := fold PutChar (map key_byte codes) con'\<rparr>, Some (T\<lparr>line_buf := map key_byte codes\<rparr>), [])"
    "TaskTerminal_round env (T\<lparr>line_buf := map key_byte codes\<rparr>) (?k\<lparr>task_mgr := tm3, screen := fold PutChar (map key_byte codes) con'\<rparr>)
       = run_line env (map key_byte codes) (T\<lparr>line_buf := map key_byte codes\<rparr>) (?k\<lparr>task_mgr := tm4, screen := fold PutChar (map key_byte codes @ [10]) con'\<rparr>)"
    "sched_inv tm4" "CurrentTask tm4 = CurrentTask tm" "unread T tm4 = []" by (auto simp: Let_def)
  with p show ?thesis
    by (intro exI [of _ kb] exI [of _ tm1] exI [of _ io'] exI [of _ t1] exI [of _ m'] exI [of _ tm2] exI [of _ con'] exI [of _ tm3] exI [of _ tm4])
      (simp add: Let_def)
qed

text \<open>The line \<open>ls\<close> is typed.\<close>

definition line_device :: device where
  "line_device io port = (if length io < 3 then [0x26, 0x1f, 0x1c] ! length io else 0)"

definition sample_terminal :: Terminal where
  "sample_terminal = \<lparr>tty_task = 3, tty_files = [0, 0, 0], one_shot = False, line_buf = [], waiting = None\<rparr>"

theorem typed_line_runs_witness:
  "\<forall>env. \<exists>kb tm1 io' tm2 con' k2 k3. let k1 = (sample_kernel terminal_manager)\<lparr>task_mgr := tm2, screen := con'\<rparr>;
        T1 = sample_terminal\<lparr>line_buf := ascii ''ls''\<rparr>
      in keyboard_interrupts line_device 3 (reset_keyboard, terminal_manager, []) = Some (kb, tm1, io')
       \<and> terminal_rounds env 2 sample_terminal k1 = Some (k2, Some T1, [])
       \<and> TaskTerminal_round env T1 k2 = run_line env (ascii ''ls'') T1 k3
       \<and> screen k3 = fold PutChar (ascii ''ls'' @ [10]) con'"
proof
  fix env
  obtain t u where t: "find_task terminal_manager 1 = Some t" "msgs t = []" and u: "find_task terminal_manager 3 = Some u" "msgs u = []"
    using terminal_manager_facts by (auto simp: new_Task_def InitContext_def)
  have T: "tty_task sample_terminal = 3" "waiting sample_terminal = None" "line_buf sample_terminal = []"
    by (simp_all add: sample_terminal_def)
  have codes: "scancodes line_device [] 3 = [0x26, 0x1f, 0x1c]"
    by (simp add: scancodes_def line_device_def upt_rec numeral_eq_Suc)
  have "keys_typed {} [0x26, 0x1f, 0x1c] = [0x6c, 0x73] @ [0x0a]" by code_simp
  then have typed: "keys_typed {} (scancodes line_device [] 3) = [0x6c, 0x73] @ [0x0a]" unfolding codes .
  have bytes: "map key_byte [0x6c, 0x73] = ascii ''ls''" "10 \<notin> key_byte ` set [0x6c, 0x73]" "key_byte 0x0a = 10"
    by (simp_all add: key_byte_eq ascii_def)
  have two: "terminal_rounds env 2 = terminal_rounds env (Suc (Suc 0))" by (simp add: numeral_2_eq_2)
  from typed_line_runs [OF terminal_manager_reachable t(1) _ _ _ _ _ T(2,3) typed bytes(2,3),
      where u = u and m = new_TimerManager and k = "sample_kernel terminal_manager" and env = env, unfolded bytes(1) T(1)] t u
  obtain kb tm1 io' tm2 con' tm3 tm4 where "let T1 = sample_terminal\<lparr>line_buf := ascii ''ls''\<rparr>;
        k1 = (sample_kernel terminal_manager)\<lparr>task_mgr := tm2, cpu := blank_context, screen := con'\<rparr>;
        k2 = k1\<lparr>task_mgr := tm3, screen := fold PutChar (ascii ''ls'') con'\<rparr>;
        k3 = k1\<lparr>task_mgr := tm4, screen := fold PutChar (ascii ''ls'' @ [10]) con'\<rparr>
      in keyboard_interrupts line_device 3 (reset_keyboard, terminal_manager, []) = Some (kb, tm1, io')
       \<and> terminal_rounds env (length [0x6c :: u16, 0x73]) sample_terminal k1 = Some (k2, Some T1, [])
       \<and> TaskTerminal_round env T1 k2 = run_line env (ascii ''ls'') T1 k3"
    by (auto simp: int_values_def Let_def)
  moreover have "(sample_kernel terminal_manager)\<lparr>task_mgr := tm2, cpu := blank_context, screen := con'\<rparr>
      = (sample_kernel terminal_manager)\<lparr>task_mgr := tm2, screen := con'\<rparr>" by (simp add: sample_kernel_def)
  ultimately show "\<exists>kb tm1 io' tm2 con' k2 k3. let k1 = (sample_kernel terminal_manager)\<lparr>task_mgr := tm2, screen := con'\<rparr>;
        T1 = sample_terminal\<lparr>line_buf := ascii ''ls''\<rparr>
      in keyboard_interrupts line_device 3 (reset_keyboard, terminal_manager, []) = Some (kb, tm1, io')
       \<and> terminal_rounds env 2 sample_terminal k1 = Some (k2, Some T1, [])
       \<and> TaskTerminal_round env T1 k2 = run_line env (ascii ''ls'') T1 k3
       \<and> screen k3 = fold PutChar (ascii ''ls'' @ [10]) con'"
    unfolding Let_def
    by - (rule exI [of _ kb], rule exI [of _ tm1], rule exI [of _ io'], rule exI [of _ tm2], rule exI [of _ con'],
        rule exI [of _ "(sample_kernel terminal_manager)\<lparr>task_mgr := tm3, screen := fold PutChar (ascii ''ls'') con'\<rparr>"],
        rule exI [of _ "(sample_kernel terminal_manager)\<lparr>task_mgr := tm4, screen := fold PutChar (ascii ''ls'' @ [10]) con'\<rparr>"],
        simp add: sample_kernel_def two)
qed

end
